(* ===== verification/Rtc_Prelude.thy ===== *)
theory Rtc_Prelude
  imports Main "HOL-Library.Word"
begin

text \<open>
  The prelude of the development: machine integers, the error type of the modelled code, results,
  byte buffers and the generic laws of wire codecs that the component theories share.

  \<^item> \<open>u8\<close> \dots \<open>u64\<close> are words, so \<open>+\<close> and \<open>-\<close> wrap as Rust's release build does;
    \<open>usize\<close> values (lengths, offsets) are \<open>nat\<close>.
  \<^item> A Rust \<open>Result\<close> is a sum: \<open>Err e\<close> is \<open>Inl e\<close> and \<open>Ok x\<close> is \<open>Inr x\<close>. A panic is the error
    value \<open>Panic\<close>, so that a theorem which excludes errors also excludes panics.
  \<^item> A readable buffer (\<open>bytes::Buf\<close>) is the list of the bytes that remain. A read returns the
    value and the remaining bytes; a read past the end panics.
  \<^item> A writable buffer (\<open>&mut [u8]\<close>) is its capacity: an encoder takes the capacity and returns
    the bytes it put and the count it reports.
\<close>

unbundle bit_operations_syntax

section \<open>Machine integers, errors and results\<close>

type_synonym u8 = "8 word"
type_synonym u16 = "16 word"
type_synonym u32 = "32 word"
type_synonym u64 = "64 word"

datatype error =
    Panic
  | Other
  | ErrHeaderSizeInsufficient
  | ErrHeaderSizeInsufficientForExtension
  | ErrBufferTooSmall
  | ErrShortPacket
  | HeaderExtensionPayloadNot32BitWords
  | ErrRfc8285oneByteHeaderIdrange
  | ErrRfc8285oneByteHeaderSize
  | ErrRfc8285twoByteHeaderIdrange
  | ErrRfc8285twoByteHeaderSize
  | ErrRfc3550headerIdrange
  | ErrHeaderExtensionNotFound
  | ErrHeaderExtensionsNotEnabled
  | InvalidHeader
  | BufferTooShort
  | PacketTooShort
  | BadVersion
  | WrongType
  | TooManySources
  | ReasonTooLong
  | TooManyReports
  | TooManyChunks
  | InvalidTotalLost
  | SdesMissingType
  | SdesTextTooLong
  | EmptyCompound
  | BadFirstPacket
  | MissingCname
  | PacketBeforeCname
  | AudioLevelOverflow
  | PlayoutDelayOverflow
  | InvalidSizeOrStartIndex
  | PacketStatusChunkLength
  | DeltaExceedLimit
  | InvalidBitrate
  | SsrcMustBeZero
  | MissingRembIdentifier
  | WrongChunkType
  | InvalidBlockSize
  | ErrTooShortRtp
  | ErrTooShortRtcp
  | ErrExceededMaxPackets
  | SrtpSsrcDuplicated u32 u16
  | SrtcpSsrcDuplicated u32 nat
  | ErrSDPDoesNotMatchOffer
  | ErrSDPDoesNotMatchAnswer
  | ErrPeerConnSDPTypeInvalidValue
  | ErrPeerConnStateChangeInvalid
  | ErrSignalingStateCannotRollback
  | ErrSignalingStateProposedTransitionInvalid

type_synonym 'a result = "error + 'a"

abbreviation Ok :: "'a \<Rightarrow> 'a result" where
  "Ok \<equiv> Inr"

abbreviation Err :: "error \<Rightarrow> 'a result" where
  "Err \<equiv> Inl"

text \<open>Subtraction on \<open>usize\<close>, which wraps at 64 bits in the release build.\<close>

definition usize_sub :: "nat \<Rightarrow> nat \<Rightarrow> nat" where
  "usize_sub a b = (if b \<le> a then a - b else a + 2 ^ 64 - b)"

text \<open>The question mark operator: stop at the first error, go on with the value otherwise.\<close>

definition and_then :: "'a result \<Rightarrow> ('a \<Rightarrow> 'b result) \<Rightarrow> 'b result" where
  "and_then r f = (case r of Inl e \<Rightarrow> Inl e | Inr x \<Rightarrow> f x)"

lemma and_then_simps [simp]:
  "and_then (Inl e) f = Inl e"
  "and_then (Inr x) f = f x"
  by (simp_all add: and_then_def)

lemma and_then_eq_Ok [simp]:
  "and_then r f = Inr y \<longleftrightarrow> (\<exists>x. r = Inr x \<and> f x = Inr y)"
  by (cases r) auto

lemma and_then_cong [fundef_cong]:
  "r = r' \<Longrightarrow> (\<And>x. r' = Inr x \<Longrightarrow> f x = f' x) \<Longrightarrow> and_then r f = and_then r' f'"
  by (cases r') auto

section \<open>Reading from and writing to byte buffers\<close>

fun get_u8 :: "u8 list \<Rightarrow> (u8 \<times> u8 list) result" where
  "get_u8 (a # r) = Ok (a, r)"
| "get_u8 _ = Err Panic"

fun get_u16 :: "u8 list \<Rightarrow> (u16 \<times> u8 list) result" where
  "get_u16 (a # b # r) = Ok (push_bit 8 (ucast a) OR ucast b, r)"
| "get_u16 _ = Err Panic"

fun get_u32 :: "u8 list \<Rightarrow> (u32 \<times> u8 list) result" where
  "get_u32 (a # b # c # d # r) =
     Ok (push_bit 24 (ucast a) OR push_bit 16 (ucast b) OR push_bit 8 (ucast c) OR ucast d, r)"
| "get_u32 _ = Err Panic"

definition get_u64 :: "u8 list \<Rightarrow> (u64 \<times> u8 list) result" where
  "get_u64 bs = and_then (get_u32 bs) (\<lambda>(hi, bs). and_then (get_u32 bs) (\<lambda>(lo, bs).
     Ok (push_bit 32 (ucast hi) OR ucast lo, bs)))"

definition u16_from_be_bytes :: "u8 \<Rightarrow> u8 \<Rightarrow> u16" where
  "u16_from_be_bytes a b = push_bit 8 (ucast a) OR ucast b"

definition copy_to_bytes :: "nat \<Rightarrow> u8 list \<Rightarrow> (u8 list \<times> u8 list) result" where
  "copy_to_bytes n bs = (if n \<le> length bs then Ok (take n bs, drop n bs) else Err Panic)"

definition advance :: "nat \<Rightarrow> u8 list \<Rightarrow> u8 list result" where
  "advance n bs = (if n \<le> length bs then Ok (drop n bs) else Err Panic)"

definition put_u8 :: "u8 \<Rightarrow> u8 list" where
  "put_u8 x = [x]"

definition put_u16 :: "u16 \<Rightarrow> u8 list" where
  "put_u16 x = [ucast (drop_bit 8 x), ucast x]"

definition put_u32 :: "u32 \<Rightarrow> u8 list" where
  "put_u32 x = [ucast (drop_bit 24 x), ucast (drop_bit 16 x), ucast (drop_bit 8 x), ucast x]"

definition put_u64 :: "u64 \<Rightarrow> u8 list" where
  "put_u64 x = put_u32 (ucast (drop_bit 32 x)) @ put_u32 (ucast x)"

lemma length_put [simp]:
  "length (put_u8 a) = 1" "length (put_u16 b) = 2" "length (put_u32 c) = 4" "length (put_u64 d) = 8"
  by (simp_all add: put_u8_def put_u16_def put_u32_def put_u64_def)

lemma get_put_u8 [simp]: "get_u8 (put_u8 x @ r) = Ok (x, r)"
  by (simp add: put_u8_def)

lemma get_put_u16 [simp]: "get_u16 (put_u16 x @ r) = Ok (x, r)"
  by (simp add: put_u16_def) (rule bit_word_eqI, auto simp: bit_simps)

lemma join_bytes_u32:
  "push_bit 24 (ucast (ucast (drop_bit 24 x) :: u8)) OR push_bit 16 (ucast (ucast (drop_bit 16 x) :: u8))
     OR push_bit 8 (ucast (ucast (drop_bit 8 x) :: u8)) OR ucast (ucast x :: u8) = (x :: u32)"
  (is "?l = x")
proof (rule bit_word_eqI)
  fix n assume "n < LENGTH(32)"
  then consider "n < 8" | "8 \<le> n \<and> n < 16" | "16 \<le> n \<and> n < 24" | "24 \<le> n \<and> n < 32"
    by fastforce
  then show "bit ?l n = bit x n"
    by cases (auto simp: bit_simps)
qed

lemma get_put_u32 [simp]: "get_u32 (put_u32 x @ r) = Ok (x, r)"
  by (simp add: put_u32_def join_bytes_u32)

lemma get_put_u64 [simp]: "get_u64 (put_u64 x @ r) = Ok (x, r)"
  by (simp add: put_u64_def get_u64_def) (rule bit_word_eqI, auto simp: bit_simps)

lemma get_put_last [simp]:
  "get_u8 (put_u8 a) = Ok (a, [])" "get_u16 (put_u16 b) = Ok (b, [])"
  "get_u32 (put_u32 c) = Ok (c, [])" "get_u64 (put_u64 d) = Ok (d, [])"
  using get_put_u8 [of a "[]"] get_put_u16 [of b "[]"] get_put_u32 [of c "[]"]
    get_put_u64 [of d "[]"] by simp_all

lemma copy_to_bytes_append [simp]: "n = length xs \<Longrightarrow> copy_to_bytes n (xs @ ys) = Ok (xs, ys)"
  by (simp add: copy_to_bytes_def)

lemma copy_to_bytes_all [simp]: "copy_to_bytes (length xs) xs = Ok (xs, [])"
  by (simp add: copy_to_bytes_def)

lemma advance_all [simp]: "advance (length xs) xs = Ok []"
  by (simp add: advance_def)

text \<open>
  The collection \<open>reads\<close> executes a read on an unknown buffer that is long enough: the value is named,
  and what remains is a \<open>drop\<close>, so that the simplifier follows a decoder by arithmetic on lengths.
\<close>

named_theorems reads

definition u8_at :: "u8 list \<Rightarrow> u8" where
  "u8_at bs = (case get_u8 bs of Inl _ \<Rightarrow> 0 | Inr (x, _) \<Rightarrow> x)"

definition u16_at :: "u8 list \<Rightarrow> u16" where
  "u16_at bs = (case get_u16 bs of Inl _ \<Rightarrow> 0 | Inr (x, _) \<Rightarrow> x)"

definition u32_at :: "u8 list \<Rightarrow> u32" where
  "u32_at bs = (case get_u32 bs of Inl _ \<Rightarrow> 0 | Inr (x, _) \<Rightarrow> x)"

definition u64_at :: "u8 list \<Rightarrow> u64" where
  "u64_at bs = (case get_u64 bs of Inl _ \<Rightarrow> 0 | Inr (x, _) \<Rightarrow> x)"

lemma get_u8_at [reads]: "1 \<le> length bs \<Longrightarrow> get_u8 bs = Ok (u8_at bs, drop 1 bs)"
  by (cases bs rule: get_u8.cases) (auto simp: u8_at_def)

lemma get_u8_at_Cons [reads]: "bs \<noteq> [] \<Longrightarrow> get_u8 bs = Ok (u8_at bs, drop 1 bs)"
  by (rule get_u8_at) (simp add: Suc_le_eq)

lemma get_u16_at [reads]: "2 \<le> length bs \<Longrightarrow> get_u16 bs = Ok (u16_at bs, drop 2 bs)"
  by (cases bs rule: get_u16.cases) (auto simp: u16_at_def)

lemma get_u32_at [reads]: "4 \<le> length bs \<Longrightarrow> get_u32 bs = Ok (u32_at bs, drop 4 bs)"
  by (cases bs rule: get_u32.cases) (auto simp: u32_at_def)

lemma get_u64_at [reads]: "8 \<le> length bs \<Longrightarrow> get_u64 bs = Ok (u64_at bs, drop 8 bs)"
  by (simp add: get_u64_def get_u32_at u64_at_def)

lemma put_at [simp]:
  "u8_at (put_u8 a @ r) = a" "u16_at (put_u16 b @ r) = b" "u32_at (put_u32 c @ r) = c" "u64_at (put_u64 d @ r) = d"
  by (simp_all add: u8_at_def u16_at_def u32_at_def u64_at_def)

lemma copy_to_bytes_at [reads]: "n \<le> length bs \<Longrightarrow> copy_to_bytes n bs = Ok (take n bs, drop n bs)"
  by (simp add: copy_to_bytes_def)

lemma advance_at [reads]: "n \<le> length bs \<Longrightarrow> advance n bs = Ok (drop n bs)"
  by (simp add: advance_def)

section \<open>Bit fields\<close>

text \<open>
  The collection \<open>field_masks\<close> turns the numeral masks of the source into \<open>mask n\<close>, whose bits
  the library's \<open>bit_simps\<close> know; \<open>field_bits\<close> gives the bits of single-bit constants.
\<close>

named_theorems field_masks
named_theorems field_bits

lemma masks_u8 [field_masks]:
  "(3 :: u8) = mask 2" "(15 :: u8) = mask 4" "(31 :: u8) = mask 5" "(63 :: u8) = mask 6"
  "(127 :: u8) = mask 7" "(255 :: u8) = mask 8"
  by (simp_all add: mask_eq_exp_minus_1)

lemma masks_u32 [field_masks]:
  "(255 :: u32) = mask 8" "(63 :: u32) = mask 6" "(8191 :: u32) = mask 13"
  by (simp_all add: mask_eq_exp_minus_1)

lemma bit_exp_u8: "k < 8 \<Longrightarrow> bit (2 ^ k :: u8) n \<longleftrightarrow> n = k"
  by (auto simp: bit_exp_iff)

lemma bits_u8 [field_bits]:
  "bit (16 :: u8) n \<longleftrightarrow> n = 4" "bit (32 :: u8) n \<longleftrightarrow> n = 5" "bit (64 :: u8) n \<longleftrightarrow> n = 6"
  "bit (128 :: u8) n \<longleftrightarrow> n = 7"
  using bit_exp_u8 [of 4 n] bit_exp_u8 [of 5 n] bit_exp_u8 [of 6 n] bit_exp_u8 [of 7 n]
  by (simp_all del: bit_numeral_word_iff)

text \<open>Testing one bit with a mask.\<close>

lemma test_bits_u8:
  "(x :: u8) AND 2 = 0 \<longleftrightarrow> \<not> bit x 1" "x AND 4 = 0 \<longleftrightarrow> \<not> bit x 2" "x AND 8 = 0 \<longleftrightarrow> \<not> bit x 3"
  "x AND 16 = 0 \<longleftrightarrow> \<not> bit x 4" "x AND 32 = 0 \<longleftrightarrow> \<not> bit x 5" "x AND 64 = 0 \<longleftrightarrow> \<not> bit x 6"
  "x AND 128 = 0 \<longleftrightarrow> \<not> bit x 7"
  using and_exp_eq_0_iff_not_bit [of x 1] and_exp_eq_0_iff_not_bit [of x 2] and_exp_eq_0_iff_not_bit [of x 3]
    and_exp_eq_0_iff_not_bit [of x 4] and_exp_eq_0_iff_not_bit [of x 5] and_exp_eq_0_iff_not_bit [of x 6]
    and_exp_eq_0_iff_not_bit [of x 7] by simp_all

lemma bit_less_exp:
  assumes "(a :: 'a::len word) < 2 ^ k" "bit a n"
  shows "n < k"
proof -
  have "take_bit k a = a"
    using assms(1) by (metis less_mask_eq take_bit_eq_mask)
  then show ?thesis
    using assms(2) by (metis bit_take_bit_iff)
qed

lemma and_one_pos: "0 < (x :: 'a::len word) AND 1 \<longleftrightarrow> bit x 0"
  by (simp add: and_one_eq word_gt_0 bit_0 mod_2_eq_odd)

lemma nibbles_u8:
  assumes "(a :: u8) < 16" "b < 16"
  shows "drop_bit 4 (push_bit 4 a OR b) = a" "(push_bit 4 a OR b) AND 15 = b"
proof -
  have a: "bit a n \<Longrightarrow> n < 4" for n
    using bit_less_exp [of a 4 n] assms(1) by simp
  have b: "bit b n \<Longrightarrow> n < 4" for n
    using bit_less_exp [of b 4 n] assms(2) by simp
  show "drop_bit 4 (push_bit 4 a OR b) = a"
    by (rule bit_word_eqI) (auto simp: bit_simps dest: a b)
  show "(push_bit 4 a OR b) AND 15 = b"
    unfolding field_masks by (rule bit_word_eqI) (auto simp: bit_simps dest: a b)
qed

lemma unat_bounds:
  "unat (a :: u8) < 256" "unat (b :: u16) < 65536" "unat (c :: u32) < 2 ^ 32" "unat (d :: u64) < 2 ^ 64"
  using unsigned_less [of a, where ?'a = nat] unsigned_less [of b, where ?'a = nat]
    unsigned_less [of c, where ?'a = nat] unsigned_less [of d, where ?'a = nat] by simp_all

lemma padded_aligned: "(n + (4 - n mod 4)) mod 4 = (0 :: nat)"
proof -
  have "n mod 4 < 4" by simp
  then have "n mod 4 + (4 - n mod 4) = 4" by simp
  then show ?thesis by (metis mod_add_left_eq mod_self)
qed

lemma unat_of_nat_small [simp]:
  "n < 256 \<Longrightarrow> unat (of_nat n :: u8) = n" "m < 65536 \<Longrightarrow> unat (of_nat m :: u16) = m"
  by (simp_all add: unat_of_nat)

end
