(* ===== verification/Wire_Codec.thy ===== *)
theory Wire_Codec
  imports Rtc_Prelude "HOL-Library.Sublist"
begin

text \<open>
  The codec interface of the stack (\<open>rtc-shared/src/marshal/mod.rs\<close>): the provided method
  \<open>Marshal::marshal\<close>, the loops in which an encoder or a decoder handles a sequence of parts, and
  the contracts of the traits \<open>MarshalSize\<close>, \<open>Marshal\<close> and \<open>Unmarshal\<close> as locales. Each packet type
  of the later theories interprets one of them, and obtains the facts proved here.

  \<open>element_codec\<close> is the contract of a fixed-width field that a packet writes inline,
  \<open>packet_codec\<close> of a type that owns the whole buffer it is parsed from, and \<open>stream_codec\<close> of a
  type that leaves the bytes after it to the caller. \<open>robust_decoder\<close> is what a decoder promises on
  bytes from the network: it does not panic, and what it leaves is the end of what it was given.
\<close>

section \<open>The provided method and the loops\<close>

text \<open>
  What a sequence of \<open>put\<close> calls leaves in a buffer with room for \<open>cap\<close> bytes, with the count the
  encoder returns. Putting more than there is room for panics.
\<close>

definition put_all :: "nat \<Rightarrow> u8 list \<Rightarrow> nat \<Rightarrow> (u8 list \<times> nat) result" where
  "put_all cap bs n = (if length bs \<le> cap then Ok (bs, n) else Err Panic)"

text \<open>
  The bytes of a zero-filled buffer before the position \<open>n\<close>, after a nested encoder put \<open>bs\<close> there
  and reported \<open>n\<close>: the caller goes on with \<open>&mut buf[n..]\<close>.
\<close>

definition advance_buf :: "nat \<Rightarrow> u8 list \<Rightarrow> u8 list" where
  "advance_buf n bs = take n (bs @ replicate (n - length bs) 0)"

definition marshal :: "nat \<Rightarrow> (nat \<Rightarrow> (u8 list \<times> nat) result) \<Rightarrow> u8 list result" where
  "marshal l marshal_to = and_then (marshal_to l) (\<lambda>(bs, n).
     if n \<noteq> l then Err Other else Ok (bs @ replicate (l - length bs) 0))"

text \<open>The loop \<open>for x in xs { let n = x.marshal_to(buf)?; buf = &mut buf[n..]; }\<close>.\<close>

fun marshal_all ::
  "('a \<Rightarrow> nat \<Rightarrow> (u8 list \<times> nat) result) \<Rightarrow> 'a list \<Rightarrow> nat \<Rightarrow> (u8 list \<times> nat) result" where
  "marshal_all m [] cap = Ok ([], 0)"
| "marshal_all m (x # xs) cap = and_then (m x cap) (\<lambda>(bs, n).
     if n > cap then Err Panic
     else and_then (marshal_all m xs (cap - n)) (\<lambda>(bs', n'). Ok (advance_buf n bs @ bs', n + n')))"

text \<open>The loop \<open>for _ in 0..n { xs.push(dec(buf)?); }\<close>.\<close>

fun get_many ::
  "(u8 list \<Rightarrow> ('a \<times> u8 list) result) \<Rightarrow> nat \<Rightarrow> u8 list \<Rightarrow> ('a list \<times> u8 list) result" where
  "get_many dec 0 bs = Ok ([], bs)"
| "get_many dec (Suc n) bs = and_then (dec bs) (\<lambda>(x, bs).
     and_then (get_many dec n bs) (\<lambda>(xs, bs). Ok (x # xs, bs)))"

lemma put_all_simps [simp]:
  "length bs \<le> cap \<Longrightarrow> put_all cap bs n = Ok (bs, n)"
  by (simp add: put_all_def)

lemma put_all_OkD: "put_all cap bs n = Ok (bs', n') \<Longrightarrow> bs' = bs \<and> n' = n \<and> length bs \<le> cap"
  by (simp add: put_all_def split: if_splits)

lemma advance_buf_exact [simp]: "n = length bs \<Longrightarrow> advance_buf n bs = bs"
  by (simp add: advance_buf_def)

lemma length_advance_buf [simp]: "length (advance_buf n bs) = n"
  by (simp add: advance_buf_def)

lemma get_many_length: "get_many dec n bs = Ok (xs, r) \<Longrightarrow> length xs = n"
  by (induction n arbitrary: bs xs) (auto split: prod.splits)

text \<open>The loops on parts whose bytes are known.\<close>

lemma marshal_all_bytes:
  assumes "\<And>x cap. x \<in> set xs \<Longrightarrow> length (bytes x) \<le> cap \<Longrightarrow> m x cap = Ok (bytes x, length (bytes x))"
    and "length (concat (map bytes xs)) \<le> cap"
  shows "marshal_all m xs cap = Ok (concat (map bytes xs), length (concat (map bytes xs)))"
  using assms
proof (induction xs arbitrary: cap)
  case (Cons x xs)
  have "m x cap = Ok (bytes x, length (bytes x))"
    using Cons.prems by simp
  moreover have "marshal_all m xs (cap - length (bytes x)) =
      Ok (concat (map bytes xs), length (concat (map bytes xs)))"
    using Cons.prems by (intro Cons.IH) auto
  ultimately show ?case using Cons.prems(2) by simp
qed simp

lemma get_many_bytes:
  assumes "\<And>x r. x \<in> set xs \<Longrightarrow> dec (bytes x @ r) = Ok (x, r)"
  shows "get_many dec (length xs) (concat (map bytes xs) @ r) = Ok (xs, r)"
  using assms by (induction xs) auto

section \<open>Fixed-width elements\<close>

locale element_codec =
  fixes enc :: "'a \<Rightarrow> u8 list"
    and dec :: "u8 list \<Rightarrow> ('a \<times> u8 list) result"
    and wf :: "'a \<Rightarrow> bool"
    and width :: nat
  assumes dec_enc: "wf x \<Longrightarrow> dec (enc x @ r) = Ok (x, r)"
    and enc_length: "length (enc x) = width"
    and dec_total: "width \<le> length bs \<Longrightarrow> \<exists>x. dec bs = Ok (x, drop width bs)"
begin

lemma concat_length: "length (concat (map enc xs)) = width * length xs"
  by (induction xs) (auto simp: enc_length)

lemma get_many_concat:
  "(\<And>x. x \<in> set xs \<Longrightarrow> wf x) \<Longrightarrow> get_many dec (length xs) (concat (map enc xs) @ r) = Ok (xs, r)"
  by (induction xs) (auto simp: dec_enc)

lemma get_many_total:
  "n * width \<le> length bs \<Longrightarrow>
   \<exists>xs. get_many dec n bs = Ok (xs, drop (n * width) bs) \<and> length xs = n"
proof (induction n arbitrary: bs)
  case 0
  then show ?case by simp
next
  case (Suc n)
  then obtain x where x: "dec bs = Ok (x, drop width bs)"
    using dec_total [of bs] by auto
  have "n * width \<le> length (drop width bs)"
    using Suc.prems by simp
  from Suc.IH [OF this] obtain xs where
    "get_many dec n (drop width bs) = Ok (xs, drop (n * width) (drop width bs))" "length xs = n"
    by blast
  with x show ?case by (simp add: add.commute)
qed

lemma enc_inj: "wf x \<Longrightarrow> wf y \<Longrightarrow> enc x = enc y \<Longrightarrow> x = y"
  using dec_enc [of x "[]"] dec_enc [of y "[]"] by simp

end

interpretation u16_codec: element_codec put_u16 get_u16 "\<lambda>_. True" 2
proof (unfold_locales, goal_cases)
  case (3 bs)
  then obtain a b r where "bs = a # b # r"
    by (cases bs; cases "tl bs") auto
  then show ?case by simp
qed simp_all

interpretation u32_codec: element_codec put_u32 get_u32 "\<lambda>_. True" 4
proof (unfold_locales, goal_cases)
  case (3 bs)
  then obtain a b c d r where "bs = a # b # c # d # r"
    by (cases bs; cases "tl bs"; cases "tl (tl bs)"; cases "tl (tl (tl bs))") auto
  then show ?case by simp
qed simp_all

interpretation u64_codec: element_codec put_u64 get_u64 "\<lambda>_. True" 8
proof (unfold_locales, goal_cases)
  case (3 bs)
  then obtain hi where hi: "get_u32 bs = Ok (hi, drop 4 bs)"
    using u32_codec.dec_total [of bs] by auto
  from 3 have "4 \<le> length (drop 4 bs)" by simp
  then obtain lo where "get_u32 (drop 4 bs) = Ok (lo, drop 4 (drop 4 bs))"
    using u32_codec.dec_total by blast
  with hi show ?case by (simp add: get_u64_def)
qed simp_all

section \<open>The contracts of Marshal and Unmarshal\<close>

locale packet_codec =
  fixes marshal_size :: "'a \<Rightarrow> nat"
    and marshal_to :: "'a \<Rightarrow> nat \<Rightarrow> (u8 list \<times> nat) result"
    and unmarshal :: "u8 list \<Rightarrow> ('a \<times> u8 list) result"
    and wf :: "'a \<Rightarrow> bool"
  assumes marshal_to_fits: "wf x \<Longrightarrow> marshal_size x \<le> cap \<Longrightarrow>
      \<exists>bs. marshal_to x cap = Ok (bs, marshal_size x) \<and> length bs = marshal_size x"
    and marshal_to_short: "wf x \<Longrightarrow> cap < marshal_size x \<Longrightarrow>
      \<exists>e. marshal_to x cap = Err e \<and> e \<noteq> Panic"
    and unmarshal_marshal_to: "wf x \<Longrightarrow> marshal_to x cap = Ok (bs, n) \<Longrightarrow> unmarshal bs = Ok (x, [])"
begin

text \<open>\<open>marshal\<close> returns, with a buffer of exactly the announced size that parses back.\<close>

lemma marshal_ok:
  assumes "wf x"
  shows "\<exists>bs. marshal (marshal_size x) (marshal_to x) = Ok bs \<and> length bs = marshal_size x \<and>
    unmarshal bs = Ok (x, [])"
proof -
  obtain bs where bs: "marshal_to x (marshal_size x) = Ok (bs, marshal_size x)"
      "length bs = marshal_size x"
    using marshal_to_fits [OF assms, of "marshal_size x"] by blast
  then have "unmarshal bs = Ok (x, [])"
    using unmarshal_marshal_to [OF assms] by blast
  with bs show ?thesis by (simp add: marshal_def)
qed

lemma marshal_inj:
  assumes "wf x" "wf y"
    and "marshal (marshal_size x) (marshal_to x) = marshal (marshal_size y) (marshal_to y)"
  shows "x = y"
  using marshal_ok [OF assms(1)] marshal_ok [OF assms(2)] assms(3) by auto

lemma marshal_to_no_panic: "wf x \<Longrightarrow> marshal_to x cap \<noteq> Err Panic"
  using marshal_to_fits [of x cap] marshal_to_short [of x cap] by (cases "marshal_size x \<le> cap") auto

text \<open>
  \<open>marshal_to\<close> writes the same bytes whatever room the buffer has beyond them: the capacity only
  decides between success and the error.
\<close>

lemma marshal_all_fits:
  assumes "\<And>x. x \<in> set xs \<Longrightarrow> wf x"
    and "(\<Sum>x\<leftarrow>xs. marshal_size x) \<le> cap"
  shows "\<exists>bs. marshal_all marshal_to xs cap = Ok (bs, \<Sum>x\<leftarrow>xs. marshal_size x) \<and>
    length bs = (\<Sum>x\<leftarrow>xs. marshal_size x)"
  using assms
proof (induction xs arbitrary: cap)
  case Nil
  then show ?case by simp
next
  case (Cons x xs)
  obtain bs where bs: "marshal_to x cap = Ok (bs, marshal_size x)" "length bs = marshal_size x"
    using marshal_to_fits [of x cap] Cons.prems by auto
  have "(\<Sum>x\<leftarrow>xs. marshal_size x) \<le> cap - marshal_size x"
    using Cons.prems(2) by simp
  with Cons.IH [of "cap - marshal_size x"] Cons.prems(1) obtain bs' where
    "marshal_all marshal_to xs (cap - marshal_size x) = Ok (bs', \<Sum>x\<leftarrow>xs. marshal_size x)"
    "length bs' = (\<Sum>x\<leftarrow>xs. marshal_size x)"
    by auto
  with bs Cons.prems(2) show ?case by simp
qed

end

locale stream_codec =
  fixes marshal_size :: "'a \<Rightarrow> nat"
    and marshal_to :: "'a \<Rightarrow> nat \<Rightarrow> (u8 list \<times> nat) result"
    and unmarshal :: "u8 list \<Rightarrow> ('a \<times> u8 list) result"
    and wf :: "'a \<Rightarrow> bool"
  assumes stream_fits: "wf x \<Longrightarrow> marshal_size x \<le> cap \<Longrightarrow>
      \<exists>bs. marshal_to x cap = Ok (bs, marshal_size x) \<and> length bs = marshal_size x"
    and stream_short: "wf x \<Longrightarrow> cap < marshal_size x \<Longrightarrow>
      \<exists>e. marshal_to x cap = Err e \<and> e \<noteq> Panic"
    and unmarshal_prefix: "wf x \<Longrightarrow> marshal_to x cap = Ok (bs, n) \<Longrightarrow>
      unmarshal (bs @ r) = Ok (x, r)"
begin

sublocale packet_codec marshal_size marshal_to unmarshal wf
proof (unfold_locales, goal_cases)
  case (1 x cap)
  then show ?case by (rule stream_fits)
next
  case (2 x cap)
  then show ?case by (rule stream_short)
next
  case (3 x cap bs n)
  then show ?case using unmarshal_prefix [of x cap bs n "[]"] by simp
qed

text \<open>A sequence written by the encoder loop is read back by the decoder loop.\<close>

lemma get_many_marshal_all:
  assumes "\<And>x. x \<in> set xs \<Longrightarrow> wf x"
    and "(\<Sum>x\<leftarrow>xs. marshal_size x) \<le> cap"
    and "marshal_all marshal_to xs cap = Ok (bs, n)"
  shows "get_many unmarshal (length xs) (bs @ r) = Ok (xs, r)"
  using assms
proof (induction xs arbitrary: cap bs n)
  case Nil
  then show ?case by simp
next
  case (Cons x xs)
  obtain b where b: "marshal_to x cap = Ok (b, marshal_size x)" "length b = marshal_size x"
    using stream_fits [of x cap] Cons.prems by auto
  with Cons.prems(3) Cons.prems(2) obtain b' n' where
    b': "marshal_all marshal_to xs (cap - marshal_size x) = Ok (b', n')" "bs = b @ b'"
    by (auto split: if_splits)
  have "(\<Sum>x\<leftarrow>xs. marshal_size x) \<le> cap - marshal_size x"
    using Cons.prems(2) by simp
  with Cons.IH [OF _ _ b'(1)] Cons.prems(1)
  have "get_many unmarshal (length xs) (b' @ r) = Ok (xs, r)"
    by auto
  moreover have "unmarshal (b @ b' @ r) = Ok (x, b' @ r)"
    using unmarshal_prefix [of x cap b "marshal_size x" "b' @ r"] b Cons.prems(1) by simp
  ultimately show ?case using b'(2) by simp
qed

end

section \<open>Decoding untrusted bytes\<close>

lemma get_suffix:
  "get_u8 bs = Ok (a, r) \<Longrightarrow> suffix r bs" "get_u16 bs = Ok (b, r) \<Longrightarrow> suffix r bs"
  "get_u32 bs = Ok (c, r) \<Longrightarrow> suffix r bs" "get_u64 bs = Ok (d, r) \<Longrightarrow> suffix r bs"
  "copy_to_bytes n bs = Ok (e, r) \<Longrightarrow> suffix r bs" "advance n bs = Ok r \<Longrightarrow> suffix r bs"
proof -
  have u32: "get_u32 bs = Ok (c, r) \<Longrightarrow> suffix r bs" for bs r c
    by (cases bs rule: get_u32.cases) (auto simp: suffix_def)
  then show "get_u32 bs = Ok (c, r) \<Longrightarrow> suffix r bs" .
  show "get_u8 bs = Ok (a, r) \<Longrightarrow> suffix r bs" "get_u16 bs = Ok (b, r) \<Longrightarrow> suffix r bs"
    by (cases bs rule: get_u8.cases; auto simp: suffix_def)
      (cases bs rule: get_u16.cases; auto simp: suffix_def)
  show "get_u64 bs = Ok (d, r) \<Longrightarrow> suffix r bs"
    using suffix_order.trans by (auto simp: get_u64_def dest!: u32)
  show "copy_to_bytes n bs = Ok (e, r) \<Longrightarrow> suffix r bs" "advance n bs = Ok r \<Longrightarrow> suffix r bs"
    by (auto simp: copy_to_bytes_def advance_def suffix_drop split: if_splits)
qed

lemma get_many_suffixI:
  assumes "\<And>bs x r. dec bs = Ok (x, r) \<Longrightarrow> suffix r bs" "get_many dec n bs = Ok (xs, r)"
  shows "suffix r bs"
  using assms(2)
proof (induction n arbitrary: bs xs)
  case (Suc n)
  then obtain x r' xs' where "dec bs = Ok (x, r')" "get_many dec n r' = Ok (xs', r)"
    by (auto split: prod.splits)
  with Suc.IH show ?case
    using assms(1) suffix_order.trans by blast
qed simp

text \<open>
  The promise for the rest of a decoder that has come to \<open>bs'\<close> in the buffer \<open>bs\<close>. The rules
  \<open>safe_intros\<close> follow the sequence of calls in its body.
\<close>

definition safe :: "u8 list \<Rightarrow> ('a \<times> u8 list) result \<Rightarrow> bool" where
  "safe bs r \<longleftrightarrow> r \<noteq> Err Panic \<and> (\<forall>x rest. r = Ok (x, rest) \<longrightarrow> suffix rest bs)"

lemma safe_Err [simp]: "safe bs (Err e) \<longleftrightarrow> e \<noteq> Panic"
  by (simp add: safe_def)

lemma safe_Ok [simp]: "safe bs (Ok (x, r)) \<longleftrightarrow> suffix r bs"
  by (simp add: safe_def)

lemma safe_trans: "safe bs r \<Longrightarrow> suffix bs bs' \<Longrightarrow> safe bs' r"
  using suffix_order.trans by (auto simp: safe_def)

lemma safe_drop: "safe (drop n bs) r \<Longrightarrow> safe bs r"
  using safe_trans suffix_drop by blast

lemma safe_and_then:
  assumes "safe bs r" "\<And>x rest. r = Ok (x, rest) \<Longrightarrow> suffix rest bs \<Longrightarrow> safe bs (f x rest)"
  shows "safe bs (and_then r (\<lambda>(x, rest). f x rest))"
  using assms by (cases r) (auto simp: safe_def)

locale robust_decoder =
  fixes dec :: "u8 list \<Rightarrow> ('a \<times> u8 list) result"
  assumes dec_no_panic: "dec bs \<noteq> Err Panic"
    and dec_suffix: "dec bs = Ok (x, r) \<Longrightarrow> suffix r bs"
begin

lemma dec_safe: "safe bs (dec bs)"
  using dec_no_panic dec_suffix by (simp add: safe_def)

lemma dec_length: "dec bs = Ok (x, r) \<Longrightarrow> length r \<le> length bs"
  using dec_suffix suffix_length_le by blast

lemma get_many_no_panic: "get_many dec n bs \<noteq> Err Panic"
proof (induction n arbitrary: bs)
  case (Suc n)
  then show ?case
    using dec_no_panic [of bs] by (auto simp: and_then_def split: sum.splits prod.splits)
qed simp

lemma get_many_suffix: "get_many dec n bs = Ok (xs, r) \<Longrightarrow> suffix r bs"
  using get_many_suffixI [of dec] dec_suffix by blast

end

lemma robust_decoderI: "(\<And>bs. safe bs (dec bs)) \<Longrightarrow> robust_decoder dec"
  by unfold_locales (auto simp: safe_def)

end
