(* ===== verification/Rtp_Header.thy ===== *)
theory Rtp_Header
  imports Wire_Codec
begin

text \<open>
  The RTP header (\<open>rtc-rtp/src/header.rs\<close>): the fixed header, the CSRC list and the header
  extensions in their three forms (one-byte and two-byte ids of RFC 8285, and the opaque extension
  of RFC 3550). The operations are \<open>Header::unmarshal\<close>, \<open>marshal_size\<close>, \<open>marshal_to\<close>,
  \<open>get_extension_payload_len\<close>, \<open>set_extension\<close>, \<open>get_extension\<close>, \<open>get_extension_ids\<close> and
  \<open>del_extension\<close>. The parse loops over the extension block recurse on the distance of the offset
  to the end of the block.

  The lemmas show that the parser never panics, that every well-formed header survives encoding and
  decoding, and that \<open>set_extension\<close> and \<open>del_extension\<close> keep the padding count that encoding
  relies on.
\<close>

unbundle bit_operations_syntax

section \<open>Data\<close>

definition RTP_HEADER_LENGTH :: nat where [simp]: "RTP_HEADER_LENGTH = 4"
definition EXTENSION_PROFILE_ONE_BYTE :: u16 where "EXTENSION_PROFILE_ONE_BYTE = 0xBEDE"
definition EXTENSION_PROFILE_TWO_BYTE :: u16 where "EXTENSION_PROFILE_TWO_BYTE = 0x1000"
definition EXTENSION_ID_RESERVED :: u8 where [simp]: "EXTENSION_ID_RESERVED = 0xF"
definition CSRC_OFFSET :: nat where [simp]: "CSRC_OFFSET = 12"
definition CSRC_LENGTH :: nat where [simp]: "CSRC_LENGTH = 4"

record rtp_extension =
  ext_id :: u8
  ext_payload :: "u8 list"

record rtp_header =
  rtp_version :: u8
  rtp_padding :: bool
  rtp_extension :: bool
  rtp_marker :: bool
  rtp_payload_type :: u8
  rtp_sequence_number :: u16
  rtp_timestamp :: u32
  rtp_ssrc :: u32
  rtp_csrc :: "u32 list"
  rtp_extension_profile :: u16
  rtp_extensions :: "rtp_extension list"
  rtp_extensions_padding :: nat

definition rtp_header_default :: rtp_header where
  "rtp_header_default = \<lparr>rtp_version = 0, rtp_padding = False, rtp_extension = False,
     rtp_marker = False, rtp_payload_type = 0, rtp_sequence_number = 0, rtp_timestamp = 0,
     rtp_ssrc = 0, rtp_csrc = [], rtp_extension_profile = 0, rtp_extensions = [],
     rtp_extensions_padding = 0\<rparr>"

section \<open>Decoding\<close>

text \<open>The loop over one-byte extension elements, from the current offset to the block's end.\<close>

function unmarshal_one_byte ::
  "nat \<Rightarrow> nat \<Rightarrow> u8 list \<Rightarrow> rtp_extension list \<Rightarrow> nat \<Rightarrow> (rtp_extension list \<times> nat \<times> u8 list) result" where
  "unmarshal_one_byte curr_offset end raw exts pad =
     (if curr_offset < end then
        and_then (get_u8 raw) (\<lambda>(b, raw).
          if b = 0 then unmarshal_one_byte (curr_offset + 1) end raw exts (pad + 1)
          else
            let extid = drop_bit 4 b; len = unat ((b AND (0xFF XOR 0xF0)) + 1) in
            if extid = EXTENSION_ID_RESERVED then Ok (exts, pad, raw)
            else if len > length raw then Err ErrHeaderSizeInsufficientForExtension
            else unmarshal_one_byte (curr_offset + 1 + len) end (drop len raw)
                   (exts @ [\<lparr>ext_id = extid, ext_payload = take len raw\<rparr>]) pad)
      else Ok (exts, pad, raw))"
  by pat_completeness auto
termination
  by (relation "measure (\<lambda>(curr_offset, end, _, _, _). end - curr_offset)") auto

text \<open>The loop over two-byte extension elements.\<close>

function unmarshal_two_byte ::
  "nat \<Rightarrow> nat \<Rightarrow> u8 list \<Rightarrow> rtp_extension list \<Rightarrow> nat \<Rightarrow> (rtp_extension list \<times> nat \<times> u8 list) result" where
  "unmarshal_two_byte curr_offset end raw exts pad =
     (if curr_offset < end then
        and_then (get_u8 raw) (\<lambda>(b, raw).
          if b = 0 then unmarshal_two_byte (curr_offset + 1) end raw exts (pad + 1)
          else if curr_offset + 1 \<ge> end then Err ErrHeaderSizeInsufficientForExtension
          else and_then (get_u8 raw) (\<lambda>(l, raw).
            let len = unat l in
            if len > length raw then Err ErrHeaderSizeInsufficientForExtension
            else unmarshal_two_byte (curr_offset + 2 + len) end (drop len raw)
                   (exts @ [\<lparr>ext_id = b, ext_payload = take len raw\<rparr>]) pad))
      else Ok (exts, pad, raw))"
  by pat_completeness auto
termination
  by (relation "measure (\<lambda>(curr_offset, end, _, _, _). end - curr_offset)") auto

declare unmarshal_one_byte.simps [simp del] unmarshal_two_byte.simps [simp del]

text \<open>
  The extension block: its profile, its length in words, and its elements. \<open>raw_packet_len\<close> is the
  length of the whole packet and \<open>curr_offset\<close> the offset of the block in it.
\<close>

definition unmarshal_extensions ::
  "nat \<Rightarrow> nat \<Rightarrow> u8 list \<Rightarrow> (u16 \<times> rtp_extension list \<times> nat \<times> u8 list) result" where
  "unmarshal_extensions raw_packet_len curr_offset raw =
     (if raw_packet_len < curr_offset + 4 then Err ErrHeaderSizeInsufficientForExtension
      else and_then (get_u16 raw) (\<lambda>(extension_profile, raw).
        and_then (get_u16 raw) (\<lambda>(l, raw).
          let extension_length = unat l * 4; curr_offset = curr_offset + 4 in
          if raw_packet_len < curr_offset + extension_length
          then Err ErrHeaderSizeInsufficientForExtension
          else if extension_profile = EXTENSION_PROFILE_ONE_BYTE then
            and_then (unmarshal_one_byte curr_offset (curr_offset + extension_length) raw [] 0)
              (\<lambda>(exts, pad, raw). Ok (extension_profile, exts, pad, raw))
          else if extension_profile = EXTENSION_PROFILE_TWO_BYTE then
            and_then (unmarshal_two_byte curr_offset (curr_offset + extension_length) raw [] 0)
              (\<lambda>(exts, pad, raw). Ok (extension_profile, exts, pad, raw))
          else and_then (copy_to_bytes extension_length raw) (\<lambda>(payload, raw).
            Ok (extension_profile, [\<lparr>ext_id = 0, ext_payload = payload\<rparr>], 0, raw)))))"

definition rtp_header_unmarshal :: "u8 list \<Rightarrow> (rtp_header \<times> u8 list) result" where
  "rtp_header_unmarshal raw =
     (let raw_packet_len = length raw in
      if raw_packet_len < RTP_HEADER_LENGTH then Err ErrHeaderSizeInsufficient
      else and_then (get_u8 raw) (\<lambda>(b0, raw).
        let version = drop_bit 6 b0 AND 0x3;
            padding = (drop_bit 5 b0 AND 0x1 > 0);
            extension = (drop_bit 4 b0 AND 0x1 > 0);
            cc = unat (b0 AND 0xF);
            curr_offset = CSRC_OFFSET + cc * CSRC_LENGTH in
        if raw_packet_len < curr_offset then Err ErrHeaderSizeInsufficient
        else and_then (get_u8 raw) (\<lambda>(b1, raw).
          let marker = (drop_bit 7 b1 AND 0x1 > 0); payload_type = b1 AND 0x7F in
          and_then (get_u16 raw) (\<lambda>(sequence_number, raw).
          and_then (get_u32 raw) (\<lambda>(timestamp, raw).
          and_then (get_u32 raw) (\<lambda>(ssrc, raw).
          and_then (get_many get_u32 cc raw) (\<lambda>(csrc, raw).
          and_then (if extension then unmarshal_extensions raw_packet_len curr_offset raw
                    else Ok (0, [], 0, raw)) (\<lambda>(extension_profile, extensions, pad, raw).
            Ok (\<lparr>rtp_version = version, rtp_padding = padding, rtp_extension = extension,
                 rtp_marker = marker, rtp_payload_type = payload_type,
                 rtp_sequence_number = sequence_number, rtp_timestamp = timestamp,
                 rtp_ssrc = ssrc, rtp_csrc = csrc, rtp_extension_profile = extension_profile,
                 rtp_extensions = extensions, rtp_extensions_padding = pad\<rparr>, raw)))))))))"

section \<open>Encoding\<close>

definition extension_profile_len :: "u16 \<Rightarrow> nat" where
  "extension_profile_len profile =
     (if profile = EXTENSION_PROFILE_ONE_BYTE then 1
      else if profile = EXTENSION_PROFILE_TWO_BYTE then 2 else 0)"

definition get_extension_payload_len :: "rtp_header \<Rightarrow> nat" where
  "get_extension_payload_len h =
     (\<Sum>e\<leftarrow>rtp_extensions h. length (ext_payload e)) +
     length (rtp_extensions h) * extension_profile_len (rtp_extension_profile h)"

definition marshal_size_for :: "rtp_header \<Rightarrow> nat \<Rightarrow> nat" where
  "marshal_size_for h extension_payload_len =
     (let head_size = 12 + length (rtp_csrc h) * CSRC_LENGTH in
      if rtp_extension h then
        head_size + (4 + (extension_payload_len + rtp_extensions_padding h + 3) div 4 * 4)
      else head_size)"

definition rtp_header_marshal_size :: "rtp_header \<Rightarrow> nat" where
  "rtp_header_marshal_size h =
     marshal_size_for h (if rtp_extension h then get_extension_payload_len h else 0)"

text \<open>\<open>u16::div_ceil\<close>.\<close>

definition div_ceil_u16 :: "u16 \<Rightarrow> u16 \<Rightarrow> u16" where
  "div_ceil_u16 x k = x div k + (if x mod k = 0 then 0 else 1)"

definition put_one_byte_extension :: "rtp_extension \<Rightarrow> u8 list" where
  "put_one_byte_extension e =
     put_u8 (push_bit 4 (ext_id e) OR (of_nat (length (ext_payload e)) - 1)) @ ext_payload e"

definition put_two_byte_extension :: "rtp_extension \<Rightarrow> u8 list" where
  "put_two_byte_extension e =
     put_u8 (ext_id e) @ put_u8 (of_nat (length (ext_payload e))) @ ext_payload e"

definition marshal_extensions :: "rtp_header \<Rightarrow> u8 list result" where
  "marshal_extensions h =
     (if rtp_extension_profile h = EXTENSION_PROFILE_ONE_BYTE
      then Ok (concat (map put_one_byte_extension (rtp_extensions h)))
      else if rtp_extension_profile h = EXTENSION_PROFILE_TWO_BYTE
      then Ok (concat (map put_two_byte_extension (rtp_extensions h)))
      else case rtp_extensions h of
          [e] \<Rightarrow> (if length (ext_payload e) mod 4 \<noteq> 0 then Err HeaderExtensionPayloadNot32BitWords
                  else Ok (ext_payload e))
        | _ \<Rightarrow> Err ErrRfc3550headerIdrange)"

definition rtp_header_marshal_to :: "rtp_header \<Rightarrow> nat \<Rightarrow> (u8 list \<times> nat) result" where
  "rtp_header_marshal_to h cap =
     (let extension_payload_len = (if rtp_extension h then get_extension_payload_len h else 0) in
      if cap < marshal_size_for h extension_payload_len then Err ErrBufferTooSmall
      else
        let b0 = push_bit 6 (rtp_version h) OR of_nat (length (rtp_csrc h));
            b0 = (if rtp_padding h then b0 OR push_bit 5 1 else b0);
            b0 = (if rtp_extension h then b0 OR push_bit 4 1 else b0);
            b1 = (if rtp_marker h then rtp_payload_type h OR push_bit 7 1 else rtp_payload_type h);
            fixed = put_u8 b0 @ put_u8 b1 @ put_u16 (rtp_sequence_number h) @
              put_u32 (rtp_timestamp h) @ put_u32 (rtp_ssrc h) @ concat (map put_u32 (rtp_csrc h)) in
        if rtp_extension h then
          if rtp_extension_profile h \<noteq> EXTENSION_PROFILE_ONE_BYTE \<and>
             rtp_extension_profile h \<noteq> EXTENSION_PROFILE_TWO_BYTE \<and>
             extension_payload_len mod 4 \<noteq> 0
          then Err HeaderExtensionPayloadNot32BitWords
          else
            let extension_payload_size = div_ceil_u16 (of_nat extension_payload_len) 4 in
            and_then (marshal_extensions h) (\<lambda>body.
              let bs = fixed @ put_u16 (rtp_extension_profile h) @ put_u16 extension_payload_size @
                    body @ replicate (unat extension_payload_size * 4 - extension_payload_len) 0
              in put_all cap bs (length bs))
        else put_all cap fixed (length fixed))"

section \<open>Header extensions\<close>

text \<open>\<open>iter_mut().find(|e| e.id == id)\<close> with the payload of the first match replaced.\<close>

fun replace_payload :: "u8 \<Rightarrow> u8 list \<Rightarrow> rtp_extension list \<Rightarrow> rtp_extension list" where
  "replace_payload i payload [] = []"
| "replace_payload i payload (e # es) =
     (if ext_id e = i then e\<lparr>ext_payload := payload\<rparr> # es
      else e # replace_payload i payload es)"

definition find_extension :: "u8 \<Rightarrow> rtp_extension list \<Rightarrow> rtp_extension option" where
  "find_extension i es = find (\<lambda>e. ext_id e = i) es"

definition check_extension :: "u16 \<Rightarrow> u8 \<Rightarrow> nat \<Rightarrow> int result" where
  "check_extension profile i payload_len =
     (if profile = EXTENSION_PROFILE_ONE_BYTE then
        if \<not> (1 \<le> i \<and> i \<le> 14) then Err ErrRfc8285oneByteHeaderIdrange
        else if payload_len > 16 then Err ErrRfc8285oneByteHeaderSize
        else Ok 1
      else if profile = EXTENSION_PROFILE_TWO_BYTE then
        if i < 1 then Err ErrRfc8285twoByteHeaderIdrange
        else if payload_len > 255 then Err ErrRfc8285twoByteHeaderSize
        else Ok 2
      else if i \<noteq> 0 then Err ErrRfc3550headerIdrange
      else Ok 0)"

text \<open>The change of the padding count when the extension payload grows by \<open>delta\<close> bytes.\<close>

definition adjust_padding :: "nat \<Rightarrow> int \<Rightarrow> nat" where
  "adjust_padding pad delta =
     (if delta < 0 then nat ((int pad - delta) mod 4)
      else if delta > 0 then
        let extension_padding = nat (delta mod 4) in
        if pad < extension_padding then (pad + 4) - extension_padding else pad - extension_padding
      else pad)"

definition set_extension :: "rtp_header \<Rightarrow> u8 \<Rightarrow> u8 list \<Rightarrow> rtp_header result" where
  "set_extension h i payload =
     (if rtp_extension h then
        and_then (check_extension (rtp_extension_profile h) i (length payload))
          (\<lambda>extension_profile_len.
            case find_extension i (rtp_extensions h) of
              Some e \<Rightarrow>
                Ok (h\<lparr>rtp_extensions := replace_payload i payload (rtp_extensions h),
                      rtp_extensions_padding := adjust_padding (rtp_extensions_padding h)
                        (int (length payload) - int (length (ext_payload e)))\<rparr>)
            | None \<Rightarrow>
                Ok (h\<lparr>rtp_extensions :=
                        rtp_extensions h @ [\<lparr>ext_id = i, ext_payload = payload\<rparr>],
                      rtp_extensions_padding := adjust_padding (rtp_extensions_padding h)
                        (int (length payload) + extension_profile_len)\<rparr>))
      else
        let (profile, profile_len) =
              (if length payload \<le> 16 then (EXTENSION_PROFILE_ONE_BYTE, 1)
               else if length payload \<le> 255 then (EXTENSION_PROFILE_TWO_BYTE, 2)
               else (rtp_extension_profile h, 0));
            extension_padding = (length payload + profile_len) mod 4 in
        Ok (h\<lparr>rtp_extension := True, rtp_extension_profile := profile,
              rtp_extensions_padding :=
                (if rtp_extensions_padding h < extension_padding
                 then rtp_extensions_padding h + 4 - extension_padding
                 else rtp_extensions_padding h - extension_padding),
              rtp_extensions := rtp_extensions h @ [\<lparr>ext_id = i, ext_payload = payload\<rparr>]\<rparr>))"

definition get_extension_ids :: "rtp_header \<Rightarrow> u8 list" where
  "get_extension_ids h = (if rtp_extension h then map ext_id (rtp_extensions h) else [])"

definition get_extension :: "rtp_header \<Rightarrow> u8 \<Rightarrow> u8 list option" where
  "get_extension h i =
     (if rtp_extension h then map_option ext_payload (find_extension i (rtp_extensions h)) else None)"

fun remove_extension :: "u8 \<Rightarrow> rtp_extension list \<Rightarrow> rtp_extension list" where
  "remove_extension i [] = []"
| "remove_extension i (e # es) = (if ext_id e = i then es else e # remove_extension i es)"

definition del_extension :: "rtp_header \<Rightarrow> u8 \<Rightarrow> rtp_header result" where
  "del_extension h i =
     (if rtp_extension h then
        case find_extension i (rtp_extensions h) of
          Some e \<Rightarrow>
            let extension_padding =
              (length (ext_payload e) + extension_profile_len (rtp_extension_profile h)) mod 4 in
            Ok (h\<lparr>rtp_extensions := remove_extension i (rtp_extensions h),
                  rtp_extensions_padding := (rtp_extensions_padding h + extension_padding) mod 4\<rparr>)
        | None \<Rightarrow> Err ErrHeaderExtensionNotFound
      else Err ErrHeaderExtensionsNotEnabled)"

section \<open>The parser is total\<close>

text \<open>
  The loops read only bytes of the packet: the offset and the remaining bytes together cover the
  block, so a read never runs past the end.
\<close>

lemma unmarshal_one_byte_safe:
  "end \<le> curr_offset + length raw \<Longrightarrow> unmarshal_one_byte curr_offset end raw exts pad \<noteq> Err Panic"
proof (induction curr_offset "end" raw exts pad rule: unmarshal_one_byte.induct)
  case (1 curr_offset "end" raw exts pad)
  show ?case
  proof (cases "curr_offset < end")
    case True
    then obtain b rest where raw: "raw = b # rest"
      using "1.prems" by (cases raw) auto
    with True "1.prems" "1.IH" show ?thesis
      by (subst unmarshal_one_byte.simps) (auto simp: Let_def)
  qed (subst unmarshal_one_byte.simps, simp)
qed

lemma unmarshal_two_byte_safe:
  "end \<le> curr_offset + length raw \<Longrightarrow> unmarshal_two_byte curr_offset end raw exts pad \<noteq> Err Panic"
proof (induction curr_offset "end" raw exts pad rule: unmarshal_two_byte.induct)
  case (1 curr_offset "end" raw exts pad)
  show ?case
  proof (cases "curr_offset < end")
    case True
    then obtain b rest where raw: "raw = b # rest"
      using "1.prems" by (cases raw) auto
    with True "1.prems" "1.IH" show ?thesis
      by (cases rest; subst unmarshal_two_byte.simps) (auto simp: Let_def)
  qed (subst unmarshal_two_byte.simps, simp)
qed

lemma unmarshal_extensions_safe:
  assumes "raw_packet_len = curr_offset + length raw"
  shows "unmarshal_extensions raw_packet_len curr_offset raw \<noteq> Err Panic"
proof (cases "raw_packet_len < curr_offset + 4")
  case True
  then show ?thesis by (simp add: unmarshal_extensions_def)
next
  case False
  then obtain p where p: "get_u16 raw = Ok (p, drop 2 raw)"
    using assms u16_codec.dec_total [of raw] by auto
  have "2 \<le> length (drop 2 raw)" using False assms by simp
  then obtain l where l: "get_u16 (drop 2 raw) = Ok (l, drop 2 (drop 2 raw))"
    using u16_codec.dec_total by blast
  show ?thesis
    using p l False assms
    by (auto simp: unmarshal_extensions_def Let_def copy_to_bytes_def and_then_def
        unmarshal_one_byte_safe unmarshal_two_byte_safe split: sum.splits)
qed

text \<open>Reading the twelve fixed bytes of a packet that has them.\<close>

lemma fixed_header_reads:
  assumes "12 \<le> length raw"
  obtains b0 b1 sn ts ss where
    "get_u8 raw = Ok (b0, drop 1 raw)" "get_u8 (drop 1 raw) = Ok (b1, drop 2 raw)"
    "get_u16 (drop 2 raw) = Ok (sn, drop 4 raw)" "get_u32 (drop 4 raw) = Ok (ts, drop 8 raw)"
    "get_u32 (drop 8 raw) = Ok (ss, drop 12 raw)"
proof -
  have *: "Suc 0 \<le> length xs \<Longrightarrow> \<exists>b. get_u8 xs = Ok (b, drop 1 xs)" for xs
    by (cases xs) auto
  have "Suc 0 \<le> length raw" "Suc 0 \<le> length (drop 1 raw)" "2 \<le> length (drop 2 raw)"
    "4 \<le> length (drop 4 raw)" "4 \<le> length (drop 8 raw)"
    using assms by simp_all
  from * [OF this(1)] * [OF this(2)] u16_codec.dec_total [OF this(3)]
    u32_codec.dec_total [OF this(4)] u32_codec.dec_total [OF this(5)]
  show ?thesis using that by (auto simp: eval_nat_numeral)
qed

lemma rtp_header_unmarshal_safe: "rtp_header_unmarshal raw \<noteq> Err Panic"
proof (cases "length raw < 12")
  case True
  then show ?thesis
    by (cases raw) (auto simp: rtp_header_unmarshal_def Let_def)
next
  case False
  then obtain b0 b1 sn ts ss where reads:
    "get_u8 raw = Ok (b0, drop 1 raw)" "get_u8 (drop 1 raw) = Ok (b1, drop 2 raw)"
    "get_u16 (drop 2 raw) = Ok (sn, drop 4 raw)" "get_u32 (drop 4 raw) = Ok (ts, drop 8 raw)"
    "get_u32 (drop 8 raw) = Ok (ss, drop 12 raw)"
    using fixed_header_reads [of raw] by (metis not_le)
  let ?cc = "unat (b0 AND 0xF)"
  show ?thesis
  proof (cases "length raw < 12 + ?cc * 4")
    case True
    then show ?thesis using reads by (simp add: rtp_header_unmarshal_def Let_def)
  next
    case enough: False
    then have "?cc * 4 \<le> length (drop 12 raw)" by simp
    from u32_codec.get_many_total [OF this] obtain csrc where
      csrc: "get_many get_u32 ?cc (drop 12 raw) = Ok (csrc, drop (?cc * 4) (drop 12 raw))"
      by blast
    have "unmarshal_extensions (length raw) (12 + ?cc * 4) (drop (?cc * 4) (drop 12 raw)) \<noteq> Err Panic"
      using enough by (intro unmarshal_extensions_safe) simp
    with reads csrc enough show ?thesis
      by (auto simp: rtp_header_unmarshal_def Let_def and_then_def add.commute split: sum.splits)
  qed
qed

text \<open>What the parser leaves is the end of the packet.\<close>

lemma unmarshal_one_byte_suffix:
  "unmarshal_one_byte curr_offset end raw exts pad = Ok (exts', pad', r) \<Longrightarrow> suffix r raw"
proof (induction curr_offset "end" raw exts pad rule: unmarshal_one_byte.induct)
  case (1 curr_offset "end" raw exts pad)
  show ?case
  proof (cases raw)
    case (Cons b rest)
    have "suffix r (drop n rest) \<Longrightarrow> suffix r (b # rest)" for n
      by (meson suffix_ConsI suffix_drop suffix_order.trans)
    note this [of "unat ((b AND 15) + 1)"]
    with 1 Cons show ?thesis
      by (auto simp: Let_def unmarshal_one_byte.simps [of curr_offset "end"] intro: suffix_ConsI split: if_splits)
  qed (use 1 in \<open>auto simp: unmarshal_one_byte.simps [of _ _ "[]"] split: if_splits\<close>)
qed

lemma unmarshal_two_byte_suffix:
  "unmarshal_two_byte curr_offset end raw exts pad = Ok (exts', pad', r) \<Longrightarrow> suffix r raw"
proof (induction curr_offset "end" raw exts pad rule: unmarshal_two_byte.induct)
  case (1 curr_offset "end" raw exts pad)
  show ?case
  proof (cases raw)
    case (Cons b rest)
    have "suffix r (drop n rest') \<Longrightarrow> suffix r (b # l # rest')" for n l rest'
      by (meson suffix_ConsI suffix_drop suffix_order.trans)
    note this [of "unat (hd rest)" "tl rest" "hd rest"]
    with 1 Cons show ?thesis
      by (cases rest) (auto simp: Let_def unmarshal_two_byte.simps [of curr_offset "end"]
        intro: suffix_ConsI split: if_splits)
  qed (use 1 in \<open>auto simp: unmarshal_two_byte.simps [of _ _ "[]"] split: if_splits\<close>)
qed

lemma unmarshal_extensions_suffix:
  "unmarshal_extensions len c raw = Ok (profile, exts, pad, r) \<Longrightarrow> suffix r raw"
  by (auto simp: unmarshal_extensions_def Let_def
      dest!: get_suffix unmarshal_one_byte_suffix unmarshal_two_byte_suffix
      intro: suffix_order.trans split: if_splits)

lemma get_many_u32_suffix: "get_many get_u32 n bs = Ok (xs, r) \<Longrightarrow> suffix r bs"
  by (erule get_many_suffixI [rotated]) (rule get_suffix)

lemma rtp_header_unmarshal_suffix:
  assumes "rtp_header_unmarshal raw = Ok (h, r)"
  shows "suffix r raw"
  using assms
  by (auto simp: rtp_header_unmarshal_def Let_def
      dest!: get_suffix get_many_u32_suffix unmarshal_extensions_suffix
      intro: suffix_order.trans split: if_splits)

interpretation rtp_header_decoder: robust_decoder rtp_header_unmarshal
  by unfold_locales (auto simp: rtp_header_unmarshal_safe rtp_header_unmarshal_suffix)

section \<open>Round trip\<close>

definition one_byte_ok :: "rtp_extension \<Rightarrow> bool" where
  "one_byte_ok e \<longleftrightarrow> 1 \<le> ext_id e \<and> ext_id e \<le> 14 \<and> 1 \<le> length (ext_payload e) \<and> length (ext_payload e) \<le> 16"

definition two_byte_ok :: "rtp_extension \<Rightarrow> bool" where
  "two_byte_ok e \<longleftrightarrow> 1 \<le> ext_id e \<and> length (ext_payload e) \<le> 255"

text \<open>
  The extensions the profile can carry, and the number of padding bytes that completes the block to
  a 32-bit boundary.
\<close>

definition extensions_wf :: "rtp_header \<Rightarrow> bool" where
  "extensions_wf h \<longleftrightarrow>
     (if rtp_extension_profile h = EXTENSION_PROFILE_ONE_BYTE
      then list_all one_byte_ok (rtp_extensions h)
      else if rtp_extension_profile h = EXTENSION_PROFILE_TWO_BYTE
      then list_all two_byte_ok (rtp_extensions h)
      else \<exists>payload. rtp_extensions h = [\<lparr>ext_id = 0, ext_payload = payload\<rparr>] \<and> length payload mod 4 = 0)"

definition padding_consistent :: "rtp_header \<Rightarrow> bool" where
  "padding_consistent h \<longleftrightarrow> rtp_extensions_padding h < 4 \<and>
     (get_extension_payload_len h + rtp_extensions_padding h) mod 4 = 0"

definition rtp_header_wf :: "rtp_header \<Rightarrow> bool" where
  "rtp_header_wf h \<longleftrightarrow> rtp_version h < 4 \<and> rtp_payload_type h < 128 \<and> length (rtp_csrc h) < 16 \<and>
     (if rtp_extension h
      then extensions_wf h \<and> padding_consistent h \<and> get_extension_payload_len h < 65536
      else rtp_extension_profile h = 0 \<and> rtp_extensions h = [] \<and> rtp_extensions_padding h = 0)"

lemma profiles_distinct [simp]:
  "EXTENSION_PROFILE_ONE_BYTE \<noteq> EXTENSION_PROFILE_TWO_BYTE"
  "EXTENSION_PROFILE_TWO_BYTE \<noteq> EXTENSION_PROFILE_ONE_BYTE"
  by (simp_all add: EXTENSION_PROFILE_ONE_BYTE_def EXTENSION_PROFILE_TWO_BYTE_def)

lemma zero_profile [simp]:
  "EXTENSION_PROFILE_ONE_BYTE \<noteq> 0" "EXTENSION_PROFILE_TWO_BYTE \<noteq> 0"
  "0 \<noteq> EXTENSION_PROFILE_ONE_BYTE" "0 \<noteq> EXTENSION_PROFILE_TWO_BYTE"
  by (simp_all add: EXTENSION_PROFILE_ONE_BYTE_def EXTENSION_PROFILE_TWO_BYTE_def)

lemma extension_eta [simp]: "\<lparr>ext_id = ext_id e, ext_payload = ext_payload e\<rparr> = e"
  by simp

lemma unmarshal_one_byte_zeros:
  "unmarshal_one_byte c (c + p) (replicate p 0 @ r) exts pad = Ok (exts, pad + p, r)"
proof (induction p arbitrary: c pad)
  case 0
  then show ?case by (simp add: unmarshal_one_byte.simps)
next
  case (Suc p)
  from Suc [of "c + 1" "pad + 1"] show ?case
    by (subst unmarshal_one_byte.simps) simp
qed

lemma unmarshal_two_byte_zeros:
  "unmarshal_two_byte c (c + p) (replicate p 0 @ r) exts pad = Ok (exts, pad + p, r)"
proof (induction p arbitrary: c pad)
  case 0
  then show ?case by (simp add: unmarshal_two_byte.simps)
next
  case (Suc p)
  from Suc [of "c + 1" "pad + 1"] show ?case
    by (subst unmarshal_two_byte.simps) simp
qed

text \<open>The leading byte of a one-byte element gives the id and the length back.\<close>

lemma one_byte_fields:
  assumes "one_byte_ok e"
  defines "b \<equiv> push_bit 4 (ext_id e) OR (of_nat (length (ext_payload e)) - 1)"
  shows "b \<noteq> 0" "drop_bit 4 b = ext_id e" "unat ((b AND (0xFF XOR 0xF0)) + 1) = length (ext_payload e)"
proof -
  let ?l = "of_nat (length (ext_payload e)) - 1 :: u8"
  have len: "1 \<le> length (ext_payload e)" "length (ext_payload e) \<le> 16"
    and i: "1 \<le> ext_id e" "ext_id e < 16"
    using assms(1) by (auto simp: one_byte_ok_def intro: order_le_less_trans)
  have "unat (of_nat (length (ext_payload e) - 1) :: u8) = length (ext_payload e) - 1"
    using len by (intro unat_of_nat_small) simp
  then have ul: "unat ?l = length (ext_payload e) - 1"
    using len by simp
  then have l: "?l < 16"
    using len by (simp add: word_less_nat_alt)
  show d: "drop_bit 4 b = ext_id e"
    using nibbles_u8(1) [OF i(2) l] by (simp add: b_def)
  then show "b \<noteq> 0"
    using i(1) by auto
  have "b AND 15 = ?l"
    using nibbles_u8(2) [OF i(2) l] by (simp add: b_def)
  moreover have "(0xFF XOR 0xF0 :: u8) = 15" by simp
  ultimately show "unat ((b AND (0xFF XOR 0xF0)) + 1) = length (ext_payload e)"
    using len by simp
qed

lemma unmarshal_one_byte_elements:
  assumes "list_all one_byte_ok es"
  shows "unmarshal_one_byte c (c + length (concat (map put_one_byte_extension es)) + p)
      (concat (map put_one_byte_extension es) @ replicate p 0 @ r) exts pad = Ok (exts @ es, pad + p, r)"
  using assms
proof (induction es arbitrary: c exts)
  case Nil
  then show ?case by (simp add: unmarshal_one_byte_zeros)
next
  case (Cons e es)
  note f = one_byte_fields [of e]
  from Cons.prems have e: "one_byte_ok e" "list_all one_byte_ok es" by simp_all
  from Cons.IH [OF e(2), of "c + 1 + length (ext_payload e)" "exts @ [e]"] f [OF e(1)] e(1)
  show ?case
    by (subst unmarshal_one_byte.simps)
      (auto simp: put_one_byte_extension_def [of e] put_u8_def Let_def one_byte_ok_def add.assoc)
qed

lemma unmarshal_two_byte_elements:
  assumes "list_all two_byte_ok es"
  shows "unmarshal_two_byte c (c + length (concat (map put_two_byte_extension es)) + p)
      (concat (map put_two_byte_extension es) @ replicate p 0 @ r) exts pad = Ok (exts @ es, pad + p, r)"
  using assms
proof (induction es arbitrary: c exts)
  case Nil
  then show ?case by (simp add: unmarshal_two_byte_zeros)
next
  case (Cons e es)
  from Cons.prems have e: "two_byte_ok e" "list_all two_byte_ok es" by simp_all
  then have l: "unat (of_nat (length (ext_payload e)) :: u8) = length (ext_payload e)"
    by (intro unat_of_nat_small) (simp add: two_byte_ok_def)
  from Cons.IH [OF e(2), of "c + 2 + length (ext_payload e)" "exts @ [e]"] l e(1)
  show ?case
    by (subst unmarshal_two_byte.simps)
      (auto simp: put_two_byte_extension_def [of e] put_u8_def Let_def two_byte_ok_def add.assoc)
qed

lemma length_put_extensions:
  "length (concat (map put_one_byte_extension es)) = (\<Sum>e\<leftarrow>es. length (ext_payload e)) + length es"
  "length (concat (map put_two_byte_extension es)) = (\<Sum>e\<leftarrow>es. length (ext_payload e)) + 2 * length es"
  by (induction es) (auto simp: put_one_byte_extension_def put_two_byte_extension_def)

lemma unat_div_ceil_u16: "n < 65536 \<Longrightarrow> unat (div_ceil_u16 (of_nat n) 4) = (n + 3) div 4"
proof -
  assume n: "n < 65536"
  let ?x = "of_nat n :: u16"
  have x: "unat ?x = n" using n by simp
  have d: "unat (?x div 4) = n div 4" and m: "unat (?x mod 4) = n mod 4"
    using x by (simp_all add: unat_div unat_mod)
  have z: "?x mod 4 = 0 \<longleftrightarrow> n mod 4 = 0"
    using m by (simp add: unat_eq_0 [symmetric])
  have "unat (?x div 4 + 1) = n div 4 + 1"
    using n by (subst unat_add_lem [THEN iffD1]) (simp_all add: d)
  moreover have "n mod 4 = 0 \<Longrightarrow> (n + 3) div 4 = n div 4"
    and "n mod 4 \<noteq> 0 \<Longrightarrow> (n + 3) div 4 = n div 4 + 1"
    by presburger+
  ultimately show ?thesis
    using d z by (cases "n mod 4 = 0") (simp_all add: div_ceil_u16_def)
qed

text \<open>A consistent padding count is the one that completes the block.\<close>

lemma padding_completes:
  "padding_consistent h \<Longrightarrow>
   get_extension_payload_len h + rtp_extensions_padding h = (get_extension_payload_len h + 3) div 4 * 4"
  unfolding padding_consistent_def by presburger

lemma marshal_extensions_ok:
  assumes "extensions_wf h"
  obtains body where "marshal_extensions h = Ok body" "length body = get_extension_payload_len h"
  using assms that
  by (auto simp: extensions_wf_def marshal_extensions_def get_extension_payload_len_def
      extension_profile_len_def length_put_extensions split: if_splits)

lemma unmarshal_extensions_body:
  assumes "extensions_wf h" "padding_consistent h" "get_extension_payload_len h < 65536"
    and "marshal_extensions h = Ok body"
    and "len = c + 4 + get_extension_payload_len h + rtp_extensions_padding h + length r"
  shows "unmarshal_extensions len c
      (put_u16 (rtp_extension_profile h) @
       put_u16 (div_ceil_u16 (of_nat (get_extension_payload_len h)) 4) @
       body @ replicate (rtp_extensions_padding h) 0 @ r) =
    Ok (rtp_extension_profile h, rtp_extensions h, rtp_extensions_padding h, r)"
proof -
  let ?L = "get_extension_payload_len h" and ?p = "rtp_extensions_padding h"
  let ?size = "div_ceil_u16 (of_nat ?L) 4"
  have size: "unat ?size * 4 = ?L + ?p"
    using padding_completes [OF assms(2)] unat_div_ceil_u16 [OF assms(3)] by simp
  consider "rtp_extension_profile h = EXTENSION_PROFILE_ONE_BYTE"
    | "rtp_extension_profile h = EXTENSION_PROFILE_TWO_BYTE"
    | "rtp_extension_profile h \<noteq> EXTENSION_PROFILE_ONE_BYTE"
      "rtp_extension_profile h \<noteq> EXTENSION_PROFILE_TWO_BYTE"
    by blast
  then show ?thesis
  proof cases
    case 1
    then have es: "list_all one_byte_ok (rtp_extensions h)"
      and body: "body = concat (map put_one_byte_extension (rtp_extensions h))"
      and L: "?L = length body"
      using assms(1,4)
      by (auto simp: extensions_wf_def marshal_extensions_def get_extension_payload_len_def
          extension_profile_len_def length_put_extensions)
    show ?thesis
      using unmarshal_one_byte_elements [OF es, of "c + 4" ?p r "[]" 0] size assms(5) 1
      by (simp add: unmarshal_extensions_def Let_def body L add.assoc)
  next
    case 2
    then have es: "list_all two_byte_ok (rtp_extensions h)"
      and body: "body = concat (map put_two_byte_extension (rtp_extensions h))"
      and L: "?L = length body"
      using assms(1,4)
      by (auto simp: extensions_wf_def marshal_extensions_def get_extension_payload_len_def
          extension_profile_len_def length_put_extensions)
    show ?thesis
      using unmarshal_two_byte_elements [OF es, of "c + 4" ?p r "[]" 0] size assms(5) 2
      by (simp add: unmarshal_extensions_def Let_def body L add.assoc)
  next
    case 3
    then obtain payload where
      es: "rtp_extensions h = [\<lparr>ext_id = 0, ext_payload = payload\<rparr>]" "length payload mod 4 = 0"
      and body: "body = payload" and L: "?L = length payload"
      using assms(1,4)
      by (auto simp: extensions_wf_def marshal_extensions_def get_extension_payload_len_def
          extension_profile_len_def)
    have "?p = 0"
      using assms(2) L es(2) by (auto simp: padding_consistent_def) presburger
    with es body L size assms(5) 3 show ?thesis
      by (simp add: unmarshal_extensions_def Let_def)
  qed
qed

text \<open>The two packed bytes of the fixed header.\<close>

lemma first_byte_fields:
  fixes p e :: bool
  assumes "(v :: u8) < 4" "c < 16"
  defines "b0 \<equiv> (let b = push_bit 6 v OR c; b = (if p then b OR push_bit 5 1 else b) in
    if e then b OR push_bit 4 1 else b)"
  shows "drop_bit 6 b0 AND 3 = v" "(0 < drop_bit 5 b0 AND 1) = p" "(0 < drop_bit 4 b0 AND 1) = e"
    "b0 AND 15 = c"
proof -
  have v: "bit v n \<Longrightarrow> n < 2" for n
    using bit_less_exp [of v 2 n] assms by simp
  have c: "bit c n \<Longrightarrow> n < 4" for n
    using bit_less_exp [of c 4 n] assms by simp
  show "drop_bit 6 b0 AND 3 = v"
    unfolding field_masks b0_def Let_def
    by (rule bit_word_eqI) (auto simp: bit_simps field_bits simp del: bit_numeral_word_iff dest: v c)
  show "(0 < drop_bit 5 b0 AND 1) = p" "(0 < drop_bit 4 b0 AND 1) = e"
    unfolding and_one_pos b0_def Let_def
    by (auto simp: bit_simps field_bits simp del: bit_numeral_word_iff dest: v c)
  show "b0 AND 15 = c"
    unfolding field_masks b0_def Let_def
    by (rule bit_word_eqI) (auto simp: bit_simps field_bits simp del: bit_numeral_word_iff dest: v c)
qed

lemma second_byte_fields:
  fixes m :: bool
  assumes "(t :: u8) < 128"
  defines "b1 \<equiv> (if m then t OR push_bit 7 1 else t)"
  shows "(0 < drop_bit 7 b1 AND 1) = m" "b1 AND 127 = t"
proof -
  have t: "bit t n \<Longrightarrow> n < 7" for n
    using bit_less_exp [of t 7 n] assms by simp
  show "(0 < drop_bit 7 b1 AND 1) = m"
    unfolding and_one_pos b1_def by (auto simp: bit_simps field_bits simp del: bit_numeral_word_iff dest: t)
  show "b1 AND 127 = t"
    unfolding field_masks b1_def by (rule bit_word_eqI) (auto simp: bit_simps field_bits simp del: bit_numeral_word_iff dest: t)
qed

text \<open>What \<open>marshal_to\<close> writes for a well-formed header: the fixed part, then the extension block.\<close>

definition header_fixed :: "rtp_header \<Rightarrow> u8 list" where
  "header_fixed h =
     put_u8 (let b = push_bit 6 (rtp_version h) OR of_nat (length (rtp_csrc h));
                 b = (if rtp_padding h then b OR push_bit 5 1 else b) in
             if rtp_extension h then b OR push_bit 4 1 else b) @
     put_u8 (if rtp_marker h then rtp_payload_type h OR push_bit 7 1 else rtp_payload_type h) @
     put_u16 (rtp_sequence_number h) @ put_u32 (rtp_timestamp h) @ put_u32 (rtp_ssrc h) @
     concat (map put_u32 (rtp_csrc h))"

lemma length_header_fixed [simp]: "length (header_fixed h) = 12 + 4 * length (rtp_csrc h)"
  by (simp add: header_fixed_def u32_codec.concat_length)

lemma marshal_to_extension:
  assumes "rtp_header_wf h" "rtp_extension h" "rtp_header_marshal_size h \<le> cap"
    and "marshal_extensions h = Ok body" "length body = get_extension_payload_len h"
  shows "rtp_header_marshal_to h cap = Ok (header_fixed h @ put_u16 (rtp_extension_profile h) @
      put_u16 (div_ceil_u16 (of_nat (get_extension_payload_len h)) 4) @ body @
      replicate (rtp_extensions_padding h) 0, rtp_header_marshal_size h)"
proof -
  let ?L = "get_extension_payload_len h" and ?p = "rtp_extensions_padding h"
  have wf: "extensions_wf h" "padding_consistent h" "?L < 65536"
    using assms(1,2) by (auto simp: rtp_header_wf_def)
  have comp: "(?L + 3) div 4 * 4 = ?L + ?p"
    using padding_completes [OF wf(2)] by simp
  then have pad: "unat (div_ceil_u16 (of_nat ?L) 4) * 4 - ?L = ?p"
    using unat_div_ceil_u16 [OF wf(3)] by simp
  have "(?L + ?p + 3) div 4 * 4 = ?L + ?p"
    using wf(2) unfolding padding_consistent_def by presburger
  then have size: "rtp_header_marshal_size h = 16 + 4 * length (rtp_csrc h) + ?L + ?p"
    using assms(2) by (simp add: rtp_header_marshal_size_def marshal_size_for_def)
  have "rtp_extension_profile h = EXTENSION_PROFILE_ONE_BYTE \<or>
      rtp_extension_profile h = EXTENSION_PROFILE_TWO_BYTE \<or> ?L mod 4 = 0"
    using wf(1) by (auto simp: extensions_wf_def get_extension_payload_len_def extension_profile_len_def)
  with assms(2-5) pad size show ?thesis
    by (auto simp: rtp_header_marshal_to_def rtp_header_marshal_size_def Let_def header_fixed_def
        u32_codec.concat_length)
qed

lemma marshal_to_plain:
  assumes "\<not> rtp_extension h" "rtp_header_marshal_size h \<le> cap"
  shows "rtp_header_marshal_to h cap = Ok (header_fixed h, rtp_header_marshal_size h)"
  using assms
  by (auto simp: rtp_header_marshal_to_def rtp_header_marshal_size_def marshal_size_for_def Let_def
      header_fixed_def u32_codec.concat_length)

lemma marshal_to_too_small:
  "cap < rtp_header_marshal_size h \<Longrightarrow> rtp_header_marshal_to h cap = Err ErrBufferTooSmall"
  by (auto simp: rtp_header_marshal_to_def rtp_header_marshal_size_def Let_def)

text \<open>Reading the fixed part leaves the extension block, if the flag is set, to its parser.\<close>

lemma unmarshal_header_fixed:
  assumes "rtp_version h < 4" "rtp_payload_type h < 128" "length (rtp_csrc h) < 16"
  shows "rtp_header_unmarshal (header_fixed h @ rest) =
    and_then (if rtp_extension h
              then unmarshal_extensions (12 + 4 * length (rtp_csrc h) + length rest)
                     (12 + 4 * length (rtp_csrc h)) rest
              else Ok (0, [], 0, rest))
      (\<lambda>(profile, exts, pad, raw). Ok (h\<lparr>rtp_extension_profile := profile, rtp_extensions := exts,
         rtp_extensions_padding := pad\<rparr>, raw))"
proof -
  let ?c = "of_nat (length (rtp_csrc h)) :: u8"
  have c: "unat ?c = length (rtp_csrc h)"
    using assms(3) by (intro unat_of_nat_small) simp
  then have c16: "?c < 16"
    using assms(3) by (simp add: word_less_nat_alt)
  note first = first_byte_fields [OF assms(1) c16, of "rtp_padding h" "rtp_extension h"]
  note second = second_byte_fields [OF assms(2), of "rtp_marker h"]
  have csrc: "get_many get_u32 (length (rtp_csrc h)) (concat (map put_u32 (rtp_csrc h)) @ rest) =
      Ok (rtp_csrc h, rest)"
    by (simp add: u32_codec.get_many_concat)
  define b0 where "b0 = (let b = push_bit 6 (rtp_version h) OR ?c;
      b = (if rtp_padding h then b OR push_bit 5 1 else b) in
      if rtp_extension h then b OR push_bit 4 1 else b)"
  define b1 where
    "b1 = (if rtp_marker h then rtp_payload_type h OR push_bit 7 1 else rtp_payload_type h)"
  have hf: "header_fixed h @ rest = b0 # b1 # put_u16 (rtp_sequence_number h) @
      put_u32 (rtp_timestamp h) @ put_u32 (rtp_ssrc h) @ concat (map put_u32 (rtp_csrc h)) @ rest"
    by (simp add: header_fixed_def b0_def b1_def put_u8_def)
  have len: "length (header_fixed h @ rest) = 12 + 4 * length (rtp_csrc h) + length rest"
    by simp
  show ?thesis
    unfolding rtp_header_unmarshal_def len unfolding hf
    using first [folded b0_def] second [folded b1_def]
    by (simp add: Let_def c csrc mult.commute) (intro impI and_then_cong refl, auto)
qed

lemma rtp_header_reads_back:
  assumes "rtp_header_wf h" "rtp_header_marshal_to h cap = Ok (bs, n)"
  shows "rtp_header_unmarshal (bs @ r) = Ok (h, r)"
proof -
  have fits: "rtp_header_marshal_size h \<le> cap"
    using assms(2) marshal_to_too_small [of cap h] by (cases "cap < rtp_header_marshal_size h") auto
  have f: "rtp_version h < 4" "rtp_payload_type h < 128" "length (rtp_csrc h) < 16"
    using assms(1) by (auto simp: rtp_header_wf_def)
  show ?thesis
  proof (cases "rtp_extension h")
    case True
    then have wf: "extensions_wf h" "padding_consistent h" "get_extension_payload_len h < 65536"
      using assms(1) by (auto simp: rtp_header_wf_def)
    obtain body where body: "marshal_extensions h = Ok body"
        "length body = get_extension_payload_len h"
      using marshal_extensions_ok [OF wf(1)] .
    from marshal_to_extension [OF assms(1) True fits body] assms(2)
    have bs: "bs = header_fixed h @ put_u16 (rtp_extension_profile h) @
        put_u16 (div_ceil_u16 (of_nat (get_extension_payload_len h)) 4) @ body @
        replicate (rtp_extensions_padding h) 0" by simp
    define rest where "rest = put_u16 (rtp_extension_profile h) @
        put_u16 (div_ceil_u16 (of_nat (get_extension_payload_len h)) 4) @ body @
        replicate (rtp_extensions_padding h) 0 @ r"
    have "unmarshal_extensions (12 + 4 * length (rtp_csrc h) + length rest)
        (12 + 4 * length (rtp_csrc h)) rest =
      Ok (rtp_extension_profile h, rtp_extensions h, rtp_extensions_padding h, r)"
      unfolding rest_def by (rule unmarshal_extensions_body [OF wf body(1)]) (simp add: body(2))
    with True show ?thesis
      using unmarshal_header_fixed [OF f, of rest] by (simp add: bs rest_def)
  next
    case False
    with assms fits have "bs = header_fixed h" by (simp add: marshal_to_plain)
    with False assms(1) show ?thesis
      using unmarshal_header_fixed [OF f, of r] by (simp add: rtp_header_wf_def)
  qed
qed

interpretation rtp_header_codec:
  stream_codec rtp_header_marshal_size rtp_header_marshal_to rtp_header_unmarshal rtp_header_wf
proof (unfold_locales, goal_cases)
  case (1 h cap)
  show ?case
  proof (cases "rtp_extension h")
    case True
    with 1 have wf: "extensions_wf h" "padding_consistent h"
      by (auto simp: rtp_header_wf_def)
    obtain body where body: "marshal_extensions h = Ok body"
        "length body = get_extension_payload_len h"
      using marshal_extensions_ok [OF wf(1)] .
    have "(get_extension_payload_len h + rtp_extensions_padding h + 3) div 4 * 4 =
        get_extension_payload_len h + rtp_extensions_padding h"
      using wf(2) unfolding padding_consistent_def by presburger
    with marshal_to_extension [OF 1(1) True 1(2) body] body(2) True show ?thesis
      by (simp add: rtp_header_marshal_size_def marshal_size_for_def)
  next
    case False
    with 1(2) marshal_to_plain [OF False 1(2)] show ?thesis
      by (simp add: rtp_header_marshal_size_def marshal_size_for_def)
  qed
qed (auto simp: marshal_to_too_small rtp_header_reads_back)

section \<open>The extension operations\<close>

text \<open>
  A header that has no extension flag must not carry extensions of an earlier use, since
  \<open>set_extension\<close> appends to the list it finds.
\<close>

definition extensions_fresh :: "rtp_header \<Rightarrow> bool" where
  "extensions_fresh h \<longleftrightarrow> rtp_extension h \<or>
     (rtp_extension_profile h = 0 \<and> rtp_extensions h = [] \<and> rtp_extensions_padding h = 0)"

lemma find_extension_simps [simp]:
  "find_extension i [] = None"
  "find_extension i (e # es) = (if ext_id e = i then Some e else find_extension i es)"
  by (simp_all add: find_extension_def)

lemma find_extension_append:
  "find_extension i (es @ fs) = (case find_extension i es of None \<Rightarrow> find_extension i fs | Some e \<Rightarrow> Some e)"
  by (induction es) auto

lemma find_extension_NoneD: "find_extension i es = None \<longleftrightarrow> i \<notin> ext_id ` set es"
  by (induction es) auto

lemma find_replace:
  "find_extension j (replace_payload i payload es) =
     (if j = i then map_option (\<lambda>e. e\<lparr>ext_payload := payload\<rparr>) (find_extension i es)
      else find_extension j es)"
  by (induction es) auto

lemma find_remove: "j \<noteq> i \<Longrightarrow> find_extension j (remove_extension i es) = find_extension j es"
  by (induction es) auto

lemma find_extension_count: "find_extension i es = None \<longleftrightarrow> count_list (map ext_id es) i = 0"
  by (induction es) auto

lemma remove_extension_first:
  assumes "find_extension i es = Some e"
  shows "\<exists>before after. es = before @ e # after \<and> ext_id e = i \<and> i \<notin> ext_id ` set before \<and>
      remove_extension i es = before @ after"
  using assms
proof (induction es)
  case (Cons x es)
  show ?case
  proof (cases "ext_id x = i")
    case True
    with Cons.prems show ?thesis by (intro exI [of _ "[]"] exI [of _ es]) simp
  next
    case False
    with Cons obtain before after where "es = before @ e # after" "ext_id e = i" "i \<notin> ext_id ` set before"
      "remove_extension i es = before @ after" by auto
    with False show ?thesis by (intro exI [of _ "x # before"] exI [of _ after]) simp
  qed
qed simp

lemma replace_payload_props:
  assumes "find_extension i es = Some e"
  shows "(\<Sum>e\<leftarrow>replace_payload i payload es. length (ext_payload e)) + length (ext_payload e) =
      (\<Sum>e\<leftarrow>es. length (ext_payload e)) + length payload"
    and "length (replace_payload i payload es) = length es"
  using assms by (induction es) (auto split: if_splits)

lemma map_ext_id_replace: "map ext_id (replace_payload i payload es) = map ext_id es"
  by (induction es) auto

lemma remove_extension_props:
  assumes "find_extension i es = Some e"
  shows "(\<Sum>e\<leftarrow>remove_extension i es. length (ext_payload e)) + length (ext_payload e) =
      (\<Sum>e\<leftarrow>es. length (ext_payload e))"
    and "length (remove_extension i es) + 1 = length es"
    and "set (remove_extension i es) \<subseteq> set es"
  using assms by (induction es) (auto split: if_splits)

text \<open>What a successful \<open>set_extension\<close> does to the list, whichever branch is taken.\<close>

lemma set_extension_list:
  assumes "set_extension h i payload = Ok h'" "extensions_fresh h"
  shows "rtp_extension h'"
    and "rtp_extensions h' =
      (if find_extension i (rtp_extensions h) = None
       then rtp_extensions h @ [\<lparr>ext_id = i, ext_payload = payload\<rparr>]
       else replace_payload i payload (rtp_extensions h))"
  using assms
  by (cases "find_extension i (rtp_extensions h)";
      auto simp: set_extension_def extensions_fresh_def Let_def split: if_splits)+

lemma set_extension_get:
  assumes "set_extension h i payload = Ok h'" "extensions_fresh h"
  shows "get_extension h' j = (if j = i then Some payload else get_extension h j)"
  using set_extension_list [OF assms] assms(2)
  by (auto simp: get_extension_def extensions_fresh_def find_replace find_extension_append
      option.map_comp comp_def split: option.splits)

lemma set_extension_ids:
  assumes "set_extension h i payload = Ok h'" "extensions_fresh h"
  shows "get_extension_ids h' =
    (if i \<in> set (get_extension_ids h) then get_extension_ids h else get_extension_ids h @ [i])"
  using set_extension_list [OF assms] assms(2)
  by (auto simp: get_extension_ids_def extensions_fresh_def map_ext_id_replace find_extension_NoneD)

lemma del_extension_list:
  assumes "del_extension h i = Ok h'"
  obtains before e after where "rtp_extension h" "rtp_extension h'" "rtp_extensions h = before @ e # after" "ext_id e = i"
    "i \<notin> ext_id ` set before" "rtp_extensions h' = before @ after"
    "rtp_extensions h' = remove_extension i (rtp_extensions h)"
proof -
  obtain e where "find_extension i (rtp_extensions h) = Some e" "rtp_extension h" "rtp_extension h'"
    "rtp_extensions h' = remove_extension i (rtp_extensions h)"
    using assms by (auto simp: del_extension_def Let_def split: if_splits option.splits)
  with remove_extension_first [of i "rtp_extensions h" e] that show thesis by metis
qed

lemma padding_grows:
  fixes L pad d :: nat
  assumes "pad < 4" "(L + pad) mod 4 = (0::nat)"
  defines "p \<equiv> (if pad < d mod 4 then pad + 4 - d mod 4 else pad - d mod 4)"
  shows "p < 4 \<and> (L + d + p) mod 4 = 0"
proof -
  obtain q r where d: "d = 4 * q + r" "r < 4"
    by (metis mod_less_divisor mult_div_mod_eq zero_less_numeral)
  then have r: "d mod 4 = r" by simp
  have "L + d + p = (L + pad) + 4 * (q + (if pad < r then 1 else 0))"
    unfolding p_def r using d by auto
  then have "(L + d + p) mod 4 = 0" using assms(2) by (simp only: mod_mult_self2)
  moreover have "p < 4" unfolding p_def r using d(2) assms(1) by auto
  ultimately show ?thesis by simp
qed

lemma padding_shrinks: "(L + d + pad) mod 4 = 0 \<Longrightarrow> (L + (pad + d) mod 4) mod 4 = (0::nat)"
  by (simp add: mod_add_right_eq add.commute add.left_commute)

lemma adjust_padding_completes:
  assumes "pad < 4" "(L + pad) mod 4 = 0" "int L' = int L + delta"
  shows "adjust_padding pad delta < 4" "(L' + adjust_padding pad delta) mod 4 = 0"
proof -
  have "adjust_padding pad delta < 4 \<and> (L' + adjust_padding pad delta) mod 4 = 0"
  proof (cases delta rule: int_cases3)
    case (pos d)
    then have "L' = L + d" "nat (int d mod 4) = d mod 4"
      using assms(3) by (simp_all add: nat_mod_distrib)
    with pos padding_grows [OF assms(1,2), of d] show ?thesis
      by (simp add: adjust_padding_def Let_def)
  next
    case (neg d)
    then have "L = L' + d" "nat ((int pad + int d) mod 4) = (pad + d) mod 4"
      using assms(3) by (simp_all add: nat_mod_distrib nat_int_add)
    with neg padding_shrinks [of L' d pad] assms(2) show ?thesis
      by (simp add: adjust_padding_def)
  qed (use assms in \<open>simp add: adjust_padding_def\<close>)
  then show "adjust_padding pad delta < 4" "(L' + adjust_padding pad delta) mod 4 = 0"
    by simp_all
qed

lemma extension_payload_len_profile:
  "rtp_extension_profile h = p \<Longrightarrow> rtp_extensions h = es \<Longrightarrow>
   get_extension_payload_len h = (\<Sum>e\<leftarrow>es. length (ext_payload e)) + length es * extension_profile_len p"
  by (simp add: get_extension_payload_len_def)

lemma check_extension_len:
  "check_extension profile i n = Ok k \<Longrightarrow> k = int (extension_profile_len profile)"
  by (auto simp: check_extension_def extension_profile_len_def split: if_splits)

lemma set_extension_grows:
  assumes "set_extension h i payload = Ok h'" "rtp_extension h"
  obtains delta where "int (get_extension_payload_len h') = int (get_extension_payload_len h) + delta"
    "rtp_extensions_padding h' = adjust_padding (rtp_extensions_padding h) delta"
proof (cases "find_extension i (rtp_extensions h)")
  case None
  with assms obtain k where "check_extension (rtp_extension_profile h) i (length payload) = Ok k"
    "h' = h\<lparr>rtp_extensions := rtp_extensions h @ [\<lparr>ext_id = i, ext_payload = payload\<rparr>],
        rtp_extensions_padding := adjust_padding (rtp_extensions_padding h) (int (length payload) + k)\<rparr>"
    by (auto simp: set_extension_def)
  then show ?thesis
    using check_extension_len
    by (intro that [of "int (length payload) + k"])
      (auto simp: get_extension_payload_len_def algebra_simps)
next
  case (Some e)
  with assms have "h' = h\<lparr>rtp_extensions := replace_payload i payload (rtp_extensions h),
      rtp_extensions_padding := adjust_padding (rtp_extensions_padding h)
        (int (length payload) - int (length (ext_payload e)))\<rparr>"
    by (auto simp: set_extension_def)
  with replace_payload_props [OF Some, of payload] show ?thesis
    by (intro that [of "int (length payload) - int (length (ext_payload e))"])
      (auto simp: get_extension_payload_len_def)
qed

lemma set_extension_padding:
  assumes "set_extension h i payload = Ok h'" "extensions_fresh h"
    and "rtp_extension h \<Longrightarrow> padding_consistent h"
  shows "padding_consistent h'"
proof (cases "rtp_extension h")
  case True
  from set_extension_grows [OF assms(1) this] obtain delta where
    "int (get_extension_payload_len h') = int (get_extension_payload_len h) + delta"
    "rtp_extensions_padding h' = adjust_padding (rtp_extensions_padding h) delta" .
  with adjust_padding_completes [of "rtp_extensions_padding h" "get_extension_payload_len h"]
    assms(3) [OF True] show ?thesis
    unfolding padding_consistent_def by auto
next
  case False
  define k where "k = (if length payload \<le> 16 then 1 else if length payload \<le> 255 then 2 else 0 :: nat)"
  have fresh: "rtp_extension_profile h = 0" "rtp_extensions h = []" "rtp_extensions_padding h = 0"
    using assms(2) False by (simp_all add: extensions_fresh_def)
  have h': "rtp_extensions h' = [\<lparr>ext_id = i, ext_payload = payload\<rparr>]"
    "extension_profile_len (rtp_extension_profile h') = k"
    "rtp_extensions_padding h' = (if 0 < (length payload + k) mod 4
      then 0 + 4 - (length payload + k) mod 4 else 0 - (length payload + k) mod 4)"
    using assms(1) False fresh
    by (cases "length payload \<le> 16"; cases "length payload \<le> 255";
        auto simp: set_extension_def k_def extension_profile_len_def Let_def)+
  then have "get_extension_payload_len h' = 0 + (length payload + k)"
    by (simp add: get_extension_payload_len_def)
  then show ?thesis
    using padding_grows [of 0 0 "length payload + k"] unfolding padding_consistent_def h'(3) by simp
qed

lemma del_extension_padding:
  assumes "del_extension h i = Ok h'" "padding_consistent h"
  shows "padding_consistent h'"
proof -
  obtain e where e: "find_extension i (rtp_extensions h) = Some e"
    and h': "h' = h\<lparr>rtp_extensions := remove_extension i (rtp_extensions h),
      rtp_extensions_padding := (rtp_extensions_padding h +
        (length (ext_payload e) + extension_profile_len (rtp_extension_profile h)) mod 4) mod 4\<rparr>"
    using assms(1) by (auto simp: del_extension_def Let_def split: if_splits option.splits)
  let ?d = "length (ext_payload e) + extension_profile_len (rtp_extension_profile h)"
  have "get_extension_payload_len h = get_extension_payload_len h' + ?d"
    using remove_extension_props(1) [OF e]
    by (simp add: h' get_extension_payload_len_def remove_extension_props(2) [OF e, symmetric] algebra_simps)
  moreover have "rtp_extensions_padding h' = (rtp_extensions_padding h + ?d mod 4) mod 4"
    by (simp add: h')
  ultimately show ?thesis
    using assms(2) padding_shrinks [of "get_extension_payload_len h'" ?d "rtp_extensions_padding h"]
    by (simp add: padding_consistent_def mod_add_right_eq)
qed

text \<open>
  The requests that \<open>set_extension\<close> can serve on the wire. On a header that already has extensions
  the operation checks the id and the size itself; the rest of the conditions are the caller's.
\<close>

definition extension_admissible :: "rtp_header \<Rightarrow> u8 \<Rightarrow> u8 list \<Rightarrow> bool" where
  "extension_admissible h i payload \<longleftrightarrow> payload \<noteq> [] \<and>
     (if rtp_extension h then
        rtp_extension_profile h \<in> {EXTENSION_PROFILE_ONE_BYTE, EXTENSION_PROFILE_TWO_BYTE} \<or>
        length payload mod 4 = 0
      else 1 \<le> i \<and> (length payload \<le> 16 \<longrightarrow> i \<le> 14) \<and> length payload \<le> 255) \<and>
     get_extension_payload_len h + length payload + 2 < 65536"

lemma list_all_replace:
  "list_all P es \<Longrightarrow> (\<And>e. e \<in> set es \<Longrightarrow> ext_id e = i \<Longrightarrow> P (e\<lparr>ext_payload := payload\<rparr>)) \<Longrightarrow>
   list_all P (replace_payload i payload es)"
  by (induction es) auto

lemma set_extension_profile:
  "set_extension h i payload = Ok h' \<Longrightarrow> rtp_extension h \<Longrightarrow>
   rtp_extension_profile h' = rtp_extension_profile h"
  by (cases "find_extension i (rtp_extensions h)") (auto simp: set_extension_def)

lemma one_le_u8: "1 \<le> (i :: u8) \<longleftrightarrow> i \<noteq> 0"
  by (simp add: word_le_nat_alt Suc_le_eq unat_gt_0)

lemma set_extension_elements:
  assumes "set_extension h i payload = Ok h'" "rtp_extension h" "extensions_wf h"
    and "extension_admissible h i payload"
  shows "extensions_wf h'"
proof -
  note prof = set_extension_profile [OF assms(1,2)]
  have "extensions_fresh h" using assms(2) by (simp add: extensions_fresh_def)
  note es = set_extension_list(2) [OF assms(1) this]
  obtain k where k: "check_extension (rtp_extension_profile h) i (length payload) = Ok k"
    using assms(1,2) by (auto simp: set_extension_def)
  have one: "list_all one_byte_ok (replace_payload i payload (rtp_extensions h))"
    if "list_all one_byte_ok (rtp_extensions h)" "rtp_extension_profile h = EXTENSION_PROFILE_ONE_BYTE"
    using that k assms(4) by (intro list_all_replace)
      (auto simp: one_byte_ok_def check_extension_def extension_admissible_def Suc_le_eq split: if_splits)
  have two: "list_all two_byte_ok (replace_payload i payload (rtp_extensions h))"
    if "list_all two_byte_ok (rtp_extensions h)" "rtp_extension_profile h = EXTENSION_PROFILE_TWO_BYTE"
    using that k by (intro list_all_replace)
      (auto simp: two_byte_ok_def check_extension_def list_all_iff split: if_splits)
  show ?thesis
    using assms(3,4) k one two
    unfolding extensions_wf_def prof es
    by (auto simp: check_extension_def one_byte_ok_def two_byte_ok_def extension_admissible_def
        Suc_le_eq one_le_u8 split: if_splits)
qed

lemma extension_profile_len_le: "extension_profile_len p \<le> 2"
  by (simp add: extension_profile_len_def)

lemma set_extension_len:
  assumes "set_extension h i payload = Ok h'" "extensions_fresh h"
  shows "get_extension_payload_len h' \<le> get_extension_payload_len h + length payload + 2"
proof (cases "rtp_extension h")
  case True
  note es = set_extension_list(2) [OF assms] set_extension_profile [OF assms(1) True]
  show ?thesis
    using replace_payload_props [of i "rtp_extensions h" _ payload]
      extension_profile_len_le [of "rtp_extension_profile h"]
    unfolding get_extension_payload_len_def es
    by (cases "find_extension i (rtp_extensions h)") (auto simp: add.commute)
next
  case False
  then have "rtp_extensions h = []" using assms(2) by (simp add: extensions_fresh_def)
  then have "rtp_extensions h' = [\<lparr>ext_id = i, ext_payload = payload\<rparr>]"
    using set_extension_list(2) [OF assms] by simp
  then show ?thesis
    using extension_profile_len_le [of "rtp_extension_profile h'"]
    by (simp add: get_extension_payload_len_def)
qed

lemma set_extension_wf:
  assumes "rtp_header_wf h" "set_extension h i payload = Ok h'" "extension_admissible h i payload"
  shows "rtp_header_wf h'"
proof -
  have fresh: "extensions_fresh h" and pad: "rtp_extension h \<Longrightarrow> padding_consistent h"
    and ewf: "rtp_extension h \<Longrightarrow> extensions_wf h"
    using assms(1) by (auto simp: rtp_header_wf_def extensions_fresh_def split: if_splits)
  have fixed: "rtp_version h' = rtp_version h" "rtp_payload_type h' = rtp_payload_type h"
    "rtp_csrc h' = rtp_csrc h"
    using assms(2) by (cases "find_extension i (rtp_extensions h)";
      auto simp: set_extension_def Let_def split: if_splits prod.splits)+
  have "extensions_wf h'"
  proof (cases "rtp_extension h")
    case True
    then show ?thesis using set_extension_elements [OF assms(2) _ ewf assms(3)] by simp
  next
    case False
    with assms(2,3) fresh show ?thesis
      by (cases "length payload \<le> 16")
        (auto simp: set_extension_def extensions_fresh_def extension_admissible_def extensions_wf_def
          one_byte_ok_def two_byte_ok_def Suc_le_eq Let_def)
  qed
  moreover have "padding_consistent h'"
    using set_extension_padding [OF assms(2) fresh pad] .
  moreover have "get_extension_payload_len h' \<le> get_extension_payload_len h + length payload + 2"
    using set_extension_len [OF assms(2) fresh] .
  ultimately show ?thesis
    using assms(1,3) set_extension_list(1) [OF assms(2) fresh] fixed
    by (auto simp: rtp_header_wf_def extension_admissible_def)
qed

lemma set_extension_err:
  "set_extension h i payload = Err e \<longleftrightarrow>
     rtp_extension h \<and> check_extension (rtp_extension_profile h) i (length payload) = Err e"
  by (cases "check_extension (rtp_extension_profile h) i (length payload)")
    (auto simp: set_extension_def Let_def split: option.splits prod.splits)

section \<open>Properties\<close>

text \<open>A header used by the witnesses below: two contributing sources and no extension.\<close>

definition example_header :: rtp_header where
  "example_header = rtp_header_default\<lparr>rtp_version := 2, rtp_marker := True, rtp_payload_type := 96,
     rtp_sequence_number := 65535, rtp_timestamp := 3000, rtp_ssrc := 7, rtp_csrc := [1, 2]\<rparr>"

lemma example_header_wf: "rtp_header_wf example_header"
  by (simp add: example_header_def rtp_header_default_def rtp_header_wf_def)

text \<open>
  C3: \<open>Header::unmarshal\<close> is total on arbitrary bytes. It never reads past the end of the packet,
  and the bytes it leaves for the payload are the end of the packet it was given.
\<close>

theorem rtp_header_unmarshal_total:
  "case rtp_header_unmarshal raw of Inl e \<Rightarrow> e \<noteq> Panic | Inr (h, r) \<Rightarrow> suffix r raw"
  using rtp_header_decoder.dec_no_panic [of raw] rtp_header_decoder.dec_suffix [of raw]
  by (auto split: sum.splits)

text \<open>
  C2: Round trip of the RTP header. A well-formed header, with any of the three extension profiles,
  is encoded by \<open>marshal\<close> into exactly \<open>marshal_size\<close> bytes, and \<open>unmarshal\<close> reads the same header
  back from them and leaves whatever follows untouched.
\<close>

theorem rtp_header_round_trip:
  assumes "rtp_header_wf h"
  shows "\<exists>bs. marshal (rtp_header_marshal_size h) (rtp_header_marshal_to h) = Ok bs \<and>
    length bs = rtp_header_marshal_size h \<and> rtp_header_unmarshal (bs @ payload) = Ok (h, payload)"
proof -
  obtain bs where "rtp_header_marshal_to h (rtp_header_marshal_size h) = Ok (bs, rtp_header_marshal_size h)"
    "length bs = rtp_header_marshal_size h"
    using rtp_header_codec.stream_fits [OF assms order_refl] by blast
  then show ?thesis
    using rtp_header_codec.unmarshal_prefix [OF assms] by (simp add: marshal_def)
qed

theorem rtp_header_round_trip_witness:
  "\<exists>bs. marshal (rtp_header_marshal_size example_header) (rtp_header_marshal_to example_header) = Ok bs \<and>
    length bs = rtp_header_marshal_size example_header \<and>
    rtp_header_unmarshal (bs @ [9]) = Ok (example_header, [9])"
  using rtp_header_round_trip [OF example_header_wf] .

text \<open>
  \<open>set_extension\<close> behaves as an update of a finite map. After a successful call
  \<open>get_extension\<close> returns the new payload for that id and the old value for every other id, and the
  id list grows at its end only by an id that is new.
\<close>

theorem set_extension_updates:
  assumes "set_extension h i payload = Ok h'" "extensions_fresh h"
  shows "get_extension h' j = (if j = i then Some payload else get_extension h j) \<and>
    get_extension_ids h' =
      (if i \<in> set (get_extension_ids h) then get_extension_ids h else get_extension_ids h @ [i])"
  using set_extension_get [OF assms] set_extension_ids [OF assms] by simp

theorem set_extension_updates_witness:
  "\<exists>h'. set_extension example_header 3 [1, 2] = Ok h' \<and> get_extension h' 3 = Some [1, 2] \<and>
     get_extension_ids h' = [3]"
proof -
  obtain h' where h': "set_extension example_header 3 [1, 2] = Ok h'"
    by (simp add: set_extension_def example_header_def rtp_header_default_def Let_def)
  have "extensions_fresh example_header"
    by (simp add: extensions_fresh_def example_header_def rtp_header_default_def)
  from set_extension_updates [OF h' this, of 3] h'
  show ?thesis
    by (simp add: get_extension_ids_def example_header_def rtp_header_default_def)
qed

text \<open>
  C4: An extension that is set reaches the peer. For a well-formed header and an admissible request
  that \<open>set_extension\<close> accepts, the changed header encodes, the peer's \<open>unmarshal\<close> succeeds, and
  \<open>get_extension\<close> on the parsed header returns the payload, and for every other id what it returned before.
  Admissible is a request with a payload that is not empty, with an id from 1 to 14 on a header that has no extension
  yet (from 1 when the payload has more than 16 bytes, and at most 255), with whole words for a profile that is not
  RFC 8285, and a block below \<open>2 ^ 16\<close> bytes.
\<close>

theorem set_extension_delivered:
  assumes "rtp_header_wf h" "set_extension h i payload = Ok h'" "extension_admissible h i payload"
  shows "\<exists>bs g. marshal (rtp_header_marshal_size h') (rtp_header_marshal_to h') = Ok bs \<and>
    rtp_header_unmarshal bs = Ok (g, []) \<and> get_extension g i = Some payload \<and>
    (\<forall>j. j \<noteq> i \<longrightarrow> get_extension g j = get_extension h j)"
proof -
  have "extensions_fresh h"
    using assms(1) by (auto simp: rtp_header_wf_def extensions_fresh_def split: if_splits)
  with rtp_header_codec.marshal_ok [OF set_extension_wf [OF assms]] set_extension_get [OF assms(2)]
  show ?thesis by auto
qed

theorem set_extension_delivered_witness:
  "\<exists>h' bs g. set_extension example_header 3 [1, 2] = Ok h' \<and>
    marshal (rtp_header_marshal_size h') (rtp_header_marshal_to h') = Ok bs \<and>
    rtp_header_unmarshal bs = Ok (g, []) \<and> get_extension g 3 = Some [1, 2]"
proof -
  obtain h' where h': "set_extension example_header 3 [1, 2] = Ok h'"
    by (simp add: set_extension_def example_header_def rtp_header_default_def Let_def)
  have "extension_admissible example_header 3 [1, 2]"
    by (simp add: extension_admissible_def example_header_def rtp_header_default_def
        get_extension_payload_len_def)
  from set_extension_delivered [OF example_header_wf h' this] h' show ?thesis by blast
qed

text \<open>
  C5: \<open>del_extension\<close> removes the first extension with the id it is asked to remove and leaves the others as they are, in
  their order. The count of padding bytes keeps completing the extension block to a 32-bit boundary. It succeeds
  exactly when the header has the id. Other ids read as before; the id itself is gone exactly when the header had it
  once. A parsed header may have it more often, and then the next extension with the id is read.
\<close>

theorem del_extension_removes:
  assumes "padding_consistent h"
  shows "case del_extension h i of
      Inl e \<Rightarrow> get_extension h i = None \<and>
        e = (if rtp_extension h then ErrHeaderExtensionNotFound else ErrHeaderExtensionsNotEnabled)
    | Inr h' \<Rightarrow> get_extension h i \<noteq> None \<and> padding_consistent h' \<and>
        (\<exists>before x after. rtp_extensions h = before @ x # after \<and> ext_id x = i \<and> i \<notin> ext_id ` set before \<and>
           rtp_extensions h' = before @ after) \<and>
        (\<forall>j. j \<noteq> i \<longrightarrow> get_extension h' j = get_extension h j) \<and>
        (get_extension h' i = None \<longleftrightarrow> count_list (get_extension_ids h) i = 1)"
proof (cases "del_extension h i")
  case (Inl e)
  then show ?thesis
    by (auto simp: del_extension_def get_extension_def Let_def split: if_splits option.splits)
next
  case (Inr h')
  then obtain before x after where h: "rtp_extension h" "rtp_extension h'" "rtp_extensions h = before @ x # after"
    "ext_id x = i" "i \<notin> ext_id ` set before" "rtp_extensions h' = before @ after"
    "rtp_extensions h' = remove_extension i (rtp_extensions h)"
    by (elim del_extension_list)
  have first: "count_list (map ext_id before) i = 0" using h(5) by (auto simp: count_list_0_iff)
  have "get_extension h i \<noteq> None" using h(1,3,4) by (simp add: get_extension_def find_extension_count)
  moreover have "get_extension h' j = get_extension h j" if "j \<noteq> i" for j
    using find_remove [OF that] h(1,2,7) by (simp add: get_extension_def)
  moreover have "get_extension h' i = None \<longleftrightarrow> count_list (get_extension_ids h) i = 1"
    using h(1-4,6) first by (simp add: get_extension_def get_extension_ids_def find_extension_count)
  ultimately show ?thesis
    using Inr del_extension_padding [OF Inr assms] h(3-6) by auto
qed

theorem del_extension_removes_witness:
  "\<exists>h h'. set_extension example_header 3 [1, 2] = Ok h \<and> del_extension h 3 = Ok h' \<and>
     get_extension h' 3 = None \<and> padding_consistent h'"
proof -
  define h where "h = example_header\<lparr>rtp_extension := True,
    rtp_extension_profile := EXTENSION_PROFILE_ONE_BYTE,
    rtp_extensions := [\<lparr>ext_id = 3, ext_payload = [1, 2]\<rparr>], rtp_extensions_padding := 1\<rparr>"
  have h: "set_extension example_header 3 [1, 2] = Ok h"
    by (simp add: set_extension_def example_header_def rtp_header_default_def Let_def h_def)
  have "padding_consistent h"
    by (simp add: h_def padding_consistent_def get_extension_payload_len_def extension_profile_len_def)
  note del = del_extension_removes [OF this, of 3]
  have "count_list (get_extension_ids h) 3 = 1" by (simp add: h_def get_extension_ids_def)
  obtain h' where "del_extension h 3 = Ok h'"
    by (simp add: h_def del_extension_def Let_def)
  with del h \<open>count_list (get_extension_ids h) 3 = 1\<close> show ?thesis by auto
qed

text \<open>
  The reserved id 15 of a one-byte block does not skip the rest of the block. The parser stops
  inside the block, and the bytes of the block after the reserved element are left in front of the
  payload.
\<close>

theorem reserved_id_leaves_block:
  assumes "rtp_version h < 4" "rtp_payload_type h < 128" "length (rtp_csrc h) < 16"
    and "rtp_extension h" "drop_bit 4 b = EXTENSION_ID_RESERVED"
  shows "rtp_header_unmarshal (header_fixed h @ put_u16 EXTENSION_PROFILE_ONE_BYTE @ put_u16 1 @
      [b, x, y, z] @ payload) =
    Ok (h\<lparr>rtp_extension_profile := EXTENSION_PROFILE_ONE_BYTE, rtp_extensions := [],
          rtp_extensions_padding := 0\<rparr>, [x, y, z] @ payload)"
proof -
  have "b \<noteq> 0" using assms(5) by auto
  then show ?thesis
    using assms(4,5) unmarshal_header_fixed [OF assms(1-3)]
    by (simp add: unmarshal_extensions_def Let_def unmarshal_one_byte.simps)
qed

theorem reserved_id_leaves_block_witness:
  "\<exists>g. rtp_header_unmarshal (header_fixed (example_header\<lparr>rtp_extension := True\<rparr>) @
      put_u16 EXTENSION_PROFILE_ONE_BYTE @ put_u16 1 @ [0xF0, 1, 2, 3] @ [9]) = Ok (g, [1, 2, 3] @ [9])"
  by (rule exI, rule reserved_id_leaves_block)
    (simp_all add: example_header_def rtp_header_default_def)

text \<open>
  A header can be parsed that cannot be encoded. A one-byte block of two words of padding is
  accepted, \<open>marshal_size\<close> counts the eight padding bytes, \<open>marshal_to\<close> does not write them, and
  \<open>marshal\<close> fails with \<open>Error::Other\<close>.
\<close>

theorem padding_only_block_not_marshalled:
  assumes "rtp_version h < 4" "rtp_payload_type h < 128" "length (rtp_csrc h) < 16" "rtp_extension h"
  shows "\<exists>g. rtp_header_unmarshal (header_fixed h @ put_u16 EXTENSION_PROFILE_ONE_BYTE @ put_u16 2 @
      replicate 8 0) = Ok (g, []) \<and>
    marshal (rtp_header_marshal_size g) (rtp_header_marshal_to g) = Err Other"
proof -
  let ?g = "h\<lparr>rtp_extension_profile := EXTENSION_PROFILE_ONE_BYTE, rtp_extensions := [],
    rtp_extensions_padding := 8\<rparr>"
  let ?block = "put_u16 EXTENSION_PROFILE_ONE_BYTE @ put_u16 2 @ replicate 8 (0 :: u8)"
  have "unmarshal_extensions (12 + 4 * length (rtp_csrc h) + length ?block)
      (12 + 4 * length (rtp_csrc h)) ?block = Ok (EXTENSION_PROFILE_ONE_BYTE, [], 8, [])"
    using unmarshal_one_byte_zeros [of "16 + 4 * length (rtp_csrc h)" 8 "[]" "[]" 0]
    by (simp add: unmarshal_extensions_def Let_def)
  then have "rtp_header_unmarshal (header_fixed h @ ?block) = Ok (?g, [])"
    using assms(4) unmarshal_header_fixed [OF assms(1-3), of ?block] by simp
  moreover have "marshal (rtp_header_marshal_size ?g) (rtp_header_marshal_to ?g) = Err Other"
    using assms(4)
    by (simp add: marshal_def rtp_header_marshal_size_def rtp_header_marshal_to_def marshal_size_for_def
        get_extension_payload_len_def marshal_extensions_def u32_codec.concat_length Let_def
        div_ceil_u16_def)
  ultimately show ?thesis by blast
qed

theorem padding_only_block_not_marshalled_witness:
  "\<exists>g. rtp_header_unmarshal (header_fixed (example_header\<lparr>rtp_extension := True\<rparr>) @
      put_u16 EXTENSION_PROFILE_ONE_BYTE @ put_u16 2 @ replicate 8 0) = Ok (g, []) \<and>
    marshal (rtp_header_marshal_size g) (rtp_header_marshal_to g) = Err Other"
  by (rule padding_only_block_not_marshalled) (simp_all add: example_header_def rtp_header_default_def)

end
