(* ===== verification/Rtp_Packet.thy ===== *)
theory Rtp_Packet
  imports Rtp_Header
begin

text \<open>
  The RTP packet (\<open>rtc-rtp/src/packet/mod.rs\<close>), a header with a payload and RFC 3550 padding, and
  the sequence-number source of a sender (\<open>rtc-rtp/src/sequence.rs\<close>).

  The packet interprets the contract \<open>packet_codec\<close>, on top of the header's contract: the lemmas
  show the round trip with and without padding. The sequencer is shown to count: after \<open>n\<close> calls the
  number and the rollover counter together are the starting index plus \<open>n\<close>.
\<close>

section \<open>Packets\<close>

record rtp_packet =
  pkt_header :: rtp_header
  pkt_payload :: "u8 list"

definition get_padding :: "nat \<Rightarrow> nat" where
  "get_padding len = (if len mod 4 = 0 then 0 else 4 - len mod 4)"

definition rtp_packet_unmarshal :: "u8 list \<Rightarrow> (rtp_packet \<times> u8 list) result" where
  "rtp_packet_unmarshal raw_packet =
     and_then (rtp_header_unmarshal raw_packet) (\<lambda>(header, raw_packet).
       let payload_len = length raw_packet in
       and_then (copy_to_bytes payload_len raw_packet) (\<lambda>(payload, raw_packet).
         if rtp_padding header then
           if payload_len > 0 then
             let padding_len = unat (payload ! (payload_len - 1)) in
             if padding_len \<le> payload_len
             then Ok (\<lparr>pkt_header = header, pkt_payload = take (payload_len - padding_len) payload\<rparr>, raw_packet)
             else Err ErrShortPacket
           else Err ErrShortPacket
         else Ok (\<lparr>pkt_header = header, pkt_payload = payload\<rparr>, raw_packet)))"

definition rtp_packet_padding :: "rtp_packet \<Rightarrow> nat" where
  "rtp_packet_padding p =
     (if rtp_padding (pkt_header p)
      then let padding_len = get_padding (length (pkt_payload p)) in
           if padding_len = 0 then 4 else padding_len
      else 0)"

definition rtp_packet_marshal_size :: "rtp_packet \<Rightarrow> nat" where
  "rtp_packet_marshal_size p =
     rtp_header_marshal_size (pkt_header p) + length (pkt_payload p) + rtp_packet_padding p"

text \<open>The padding bytes: zeros, and their number in the last one.\<close>

definition put_padding :: "nat \<Rightarrow> u8 list" where
  "put_padding padding_len =
     map (\<lambda>i. if i \<noteq> padding_len - 1 then 0 else of_nat padding_len) [0..<padding_len]"

definition rtp_packet_marshal_to :: "rtp_packet \<Rightarrow> nat \<Rightarrow> (u8 list \<times> nat) result" where
  "rtp_packet_marshal_to p cap =
     (if cap < rtp_packet_marshal_size p then Err ErrBufferTooSmall
      else and_then (rtp_header_marshal_to (pkt_header p) cap) (\<lambda>(bs, n).
        let padding_len = rtp_packet_padding p in
        put_all cap (advance_buf n bs @ pkt_payload p @ put_padding padding_len)
          (n + length (pkt_payload p) + padding_len)))"

definition rtp_packet_wf :: "rtp_packet \<Rightarrow> bool" where
  "rtp_packet_wf p \<longleftrightarrow> rtp_header_wf (pkt_header p)"

subsection \<open>Round trip\<close>

lemma length_put_padding [simp]: "length (put_padding n) = n"
  by (simp add: put_padding_def)

lemma put_padding_eq_Nil [simp]: "put_padding n = [] \<longleftrightarrow> n = 0"
  by (simp add: put_padding_def)

lemma last_put_padding: "0 < n \<Longrightarrow> put_padding n ! (n - 1) = of_nat n"
  by (simp add: put_padding_def)

lemma rtp_packet_padding_bounds:
  "rtp_padding (pkt_header p) \<Longrightarrow> 1 \<le> rtp_packet_padding p \<and> rtp_packet_padding p \<le> 4"
  "\<not> rtp_padding (pkt_header p) \<Longrightarrow> rtp_packet_padding p = 0"
  by (auto simp: rtp_packet_padding_def get_padding_def Let_def Suc_le_eq)

text \<open>The whole packet is a multiple of four bytes when its header asks for padding.\<close>

lemma padded_payload_aligned:
  "rtp_padding (pkt_header p) \<Longrightarrow> (length (pkt_payload p) + rtp_packet_padding p) mod 4 = 0"
  using padded_aligned [of "length (pkt_payload p)"]
  by (auto simp: rtp_packet_padding_def get_padding_def Let_def)

lemma rtp_packet_unmarshal_parts:
  assumes "rtp_header_unmarshal raw = Ok (h, payload @ put_padding n)"
    and "if rtp_padding h then 1 \<le> n \<and> n \<le> 255 else n = 0"
  shows "rtp_packet_unmarshal raw = Ok (\<lparr>pkt_header = h, pkt_payload = payload\<rparr>, [])"
proof (cases "rtp_padding h")
  case True
  then have n: "1 \<le> n" "n < 256" using assms(2) by auto
  have "length payload + n - 1 = length payload + (n - 1)" using n by simp
  then have "(payload @ put_padding n) ! (length payload + n - 1) = put_padding n ! (n - 1)"
    by (simp only: nth_append_length_plus)
  then have "(payload @ put_padding n) ! (length payload + n - 1) = of_nat n"
    using n last_put_padding [of n] by simp
  with True n assms(1) show ?thesis
    by (simp add: rtp_packet_unmarshal_def copy_to_bytes_def Let_def)
next
  case False
  with assms show ?thesis
    by (simp add: rtp_packet_unmarshal_def copy_to_bytes_def put_padding_def)
qed

interpretation rtp_packet_codec:
  packet_codec rtp_packet_marshal_size rtp_packet_marshal_to rtp_packet_unmarshal rtp_packet_wf
proof (unfold_locales, goal_cases)
  case (1 p cap)
  then obtain bs where "rtp_header_marshal_to (pkt_header p) cap =
      Ok (bs, rtp_header_marshal_size (pkt_header p))" "length bs = rtp_header_marshal_size (pkt_header p)"
    using rtp_header_codec.stream_fits [of "pkt_header p" cap]
    by (auto simp: rtp_packet_wf_def rtp_packet_marshal_size_def)
  with 1 show ?case
    by (simp add: rtp_packet_marshal_to_def rtp_packet_marshal_size_def Let_def)
next
  case (2 p cap)
  then show ?case by (simp add: rtp_packet_marshal_to_def)
next
  case (3 p cap bs n)
  then have fits: "rtp_packet_marshal_size p \<le> cap" and wf: "rtp_header_wf (pkt_header p)"
    by (auto simp: rtp_packet_marshal_to_def rtp_packet_wf_def split: if_splits)
  then obtain hb where hb: "rtp_header_marshal_to (pkt_header p) cap =
      Ok (hb, rtp_header_marshal_size (pkt_header p))" "length hb = rtp_header_marshal_size (pkt_header p)"
    using rtp_header_codec.stream_fits [of "pkt_header p" cap]
    by (auto simp: rtp_packet_marshal_size_def)
  with 3 fits have bs: "bs = hb @ pkt_payload p @ put_padding (rtp_packet_padding p)"
    by (auto simp: rtp_packet_marshal_to_def Let_def dest: put_all_OkD)
  have "rtp_packet_unmarshal bs = Ok (\<lparr>pkt_header = pkt_header p, pkt_payload = pkt_payload p\<rparr>, [])"
    using rtp_header_codec.unmarshal_prefix [OF wf hb(1)] rtp_packet_padding_bounds [of p]
    by (intro rtp_packet_unmarshal_parts [where n = "rtp_packet_padding p"]) (auto simp: bs)
  then show ?case by simp
qed

interpretation rtp_packet_decoder: robust_decoder rtp_packet_unmarshal
proof (unfold_locales, goal_cases)
  case (1 raw)
  then show ?case
    using rtp_header_decoder.dec_no_panic [of raw]
    by (auto simp: rtp_packet_unmarshal_def copy_to_bytes_def Let_def and_then_def split: sum.splits)
next
  case (2 raw p r)
  then show ?case
    by (auto simp: rtp_packet_unmarshal_def Let_def dest!: rtp_header_decoder.dec_suffix get_suffix
        intro: suffix_order.trans split: if_splits)
qed

section \<open>Sequence numbers\<close>

record sequencer =
  sequence_number :: u16
  seq_roll_over_count :: u64

definition new_fixed_sequencer :: "u16 \<Rightarrow> sequencer" where
  "new_fixed_sequencer s =
     \<lparr>sequence_number = (if s = 0 then 0xFFFF else s - 1), seq_roll_over_count = 0\<rparr>"

definition next_sequence_number :: "sequencer \<Rightarrow> u16 \<times> sequencer" where
  "next_sequence_number c =
     (if sequence_number c = 0xFFFF
      then (0, c\<lparr>seq_roll_over_count := seq_roll_over_count c + 1, sequence_number := 0\<rparr>)
      else (sequence_number c + 1, c\<lparr>sequence_number := sequence_number c + 1\<rparr>))"

definition roll_over_count :: "sequencer \<Rightarrow> u64" where
  "roll_over_count c = seq_roll_over_count c"

fun next_n :: "nat \<Rightarrow> sequencer \<Rightarrow> u16 list \<times> sequencer" where
  "next_n 0 c = ([], c)"
| "next_n (Suc n) c = (let (s, c) = next_sequence_number c; (ss, c) = next_n n c in (s # ss, c))"

text \<open>
  The abstract view of a sequencer is one wide counter: the rollover count and the sequence number
  are its high and low part.
\<close>

definition packet_index :: "sequencer \<Rightarrow> nat" where
  "packet_index c = unat (seq_roll_over_count c) * 65536 + unat (sequence_number c)"

lemma unat_max_u16: "(x :: u16) \<noteq> 0xFFFF \<Longrightarrow> unat x < 65535"
proof -
  assume "x \<noteq> 0xFFFF"
  then have "unat x \<noteq> 65535" by (simp add: word_unat_eq_iff)
  with unsigned_less [of x, where ?'a = nat] show ?thesis by simp
qed

lemma next_number: "fst (next_sequence_number c) = sequence_number c + 1"
  "sequence_number (snd (next_sequence_number c)) = sequence_number c + 1"
  by (simp_all add: next_sequence_number_def)

lemma next_index:
  "packet_index (snd (next_sequence_number c)) = (packet_index c + 1) mod 2 ^ 80"
proof (cases "sequence_number c = 0xFFFF")
  case True
  have "unat (seq_roll_over_count c + 1) = (unat (seq_roll_over_count c) + 1) mod 2 ^ 64"
    by (simp add: unat_word_ariths)
  then have "packet_index (snd (next_sequence_number c)) =
      ((unat (seq_roll_over_count c) + 1) mod 2 ^ 64) * 65536"
    using True by (simp add: packet_index_def next_sequence_number_def)
  also have "\<dots> = ((unat (seq_roll_over_count c) + 1) * 65536) mod (2 ^ 64 * 65536)"
    by (simp only: mult_mod_left)
  finally show ?thesis using True by (simp add: packet_index_def)
next
  case False
  then have lo: "unat (sequence_number c + 1) = unat (sequence_number c) + 1"
    using unat_max_u16 [OF False] by (simp add: unat_word_ariths)
  have "unat (seq_roll_over_count c) < 2 ^ 64"
    using unsigned_less [of "seq_roll_over_count c", where ?'a = nat] by simp
  then have "unat (seq_roll_over_count c) * 65536 + (unat (sequence_number c) + 1) < 2 ^ 80"
    using unat_max_u16 [OF False] by simp
  then show ?thesis
    using False lo by (simp add: packet_index_def next_sequence_number_def)
qed

lemma next_n_numbers: "fst (next_n n c) = map (\<lambda>k. sequence_number c + of_nat (k + 1)) [0..<n]"
proof (induction n arbitrary: c)
  case (Suc n)
  then show ?case
    by (simp add: Let_def split_def next_number upt_conv_Cons map_Suc_upt [symmetric] del: upt_Suc)
qed simp

lemma next_n_index: "packet_index (snd (next_n n c)) = (packet_index c + n) mod 2 ^ 80"
proof (induction n arbitrary: c)
  case 0
  have "unat (seq_roll_over_count c) < 2 ^ 64" "unat (sequence_number c) < 2 ^ 16"
    using unsigned_less [of "seq_roll_over_count c", where ?'a = nat]
      unsigned_less [of "sequence_number c", where ?'a = nat] by simp_all
  then show ?case by (simp add: packet_index_def)
next
  case (Suc n)
  show ?case
    by (simp only: next_n.simps Let_def split_def snd_conv Suc next_index)
      (simp only: mod_add_left_eq add.assoc plus_1_eq_Suc)
qed

section \<open>Properties\<close>

text \<open>
  C7: Round trip of the RTP packet. A packet with a well-formed header is encoded by \<open>marshal\<close> into
  exactly \<open>marshal_size\<close> bytes, and \<open>unmarshal\<close> returns the same header and the same payload, with
  the padding stripped. With the padding flag set, payload and padding together fill 32-bit words.
\<close>

theorem rtp_packet_round_trip:
  assumes "rtp_header_wf (pkt_header p)"
  shows "\<exists>bs. marshal (rtp_packet_marshal_size p) (rtp_packet_marshal_to p) = Ok bs \<and>
    length bs = rtp_packet_marshal_size p \<and> rtp_packet_unmarshal bs = Ok (p, []) \<and>
    (rtp_padding (pkt_header p) \<longrightarrow>
      (length bs - rtp_header_marshal_size (pkt_header p)) mod 4 = 0)"
  using rtp_packet_codec.marshal_ok [of p] assms padded_payload_aligned [of p]
  by (auto simp: rtp_packet_wf_def rtp_packet_marshal_size_def)

theorem rtp_packet_round_trip_witness:
  "\<exists>bs. rtp_packet_unmarshal bs =
    Ok (\<lparr>pkt_header = example_header\<lparr>rtp_padding := True\<rparr>, pkt_payload = [1, 2, 3]\<rparr>, [])"
proof -
  have "rtp_header_wf (pkt_header \<lparr>pkt_header = example_header\<lparr>rtp_padding := True\<rparr>, pkt_payload = [1, 2, 3]\<rparr>)"
    by (simp add: rtp_header_wf_def example_header_def rtp_header_default_def)
  from rtp_packet_round_trip [OF this] show ?thesis by blast
qed

text \<open>
  \<open>Packet::unmarshal\<close> is total on arbitrary bytes, including a padding count that is larger than
  the payload: it never panics, and on success it has consumed the whole datagram.
\<close>

theorem rtp_packet_unmarshal_total:
  "case rtp_packet_unmarshal raw of Inl e \<Rightarrow> e \<noteq> Panic
   | Inr (p, r) \<Rightarrow> r = [] \<and> length (pkt_payload p) \<le> length raw"
proof (cases "rtp_packet_unmarshal raw")
  case (Inl e)
  then show ?thesis using rtp_packet_decoder.dec_no_panic [of raw] by simp
next
  case (Inr x)
  then obtain h rest where "rtp_header_unmarshal raw = Ok (h, rest)" "snd x = []"
    "length (pkt_payload (fst x)) \<le> length rest"
    by (auto simp: rtp_packet_unmarshal_def copy_to_bytes_def Let_def split: if_splits)
  with Inr rtp_header_decoder.dec_length [of raw h rest] show ?thesis
    by (auto split: prod.splits)
qed

text \<open>The sequencer is one 80-bit counter. The \<open>n\<close> numbers handed out after a state are the
  consecutive 16-bit successors of its number, and the rollover count and the number together have
  advanced by exactly \<open>n\<close>, wrapping only at the end of the 64-bit rollover counter.
\<close>

theorem sequencer_counts:
  "fst (next_n n c) = map (\<lambda>k. sequence_number c + of_nat (k + 1)) [0..<n] \<and>
   packet_index (snd (next_n n c)) = (packet_index c + n) mod 2 ^ 80"
  using next_n_numbers next_n_index by blast

lemma next_wraps: "(0xFFFF :: u16) + 1 = 0"
  by simp

text \<open>
  A fixed sequencer hands out its starting number first. Its rollover count is then still zero,
  except when it starts at zero: the first number is already counted as a rollover.
\<close>

theorem fixed_sequencer_start:
  "fst (next_sequence_number (new_fixed_sequencer s)) = s \<and>
   roll_over_count (snd (next_sequence_number (new_fixed_sequencer s))) = (if s = 0 then 1 else 0)"
proof (cases "s = 0")
  case False
  then have "s - 1 \<noteq> 0xFFFF" by (metis diff_add_cancel next_wraps)
  with False show ?thesis
    by (simp add: next_sequence_number_def new_fixed_sequencer_def roll_over_count_def)
qed (simp add: next_sequence_number_def new_fixed_sequencer_def roll_over_count_def)

end
