(* ===== verification/Rtp_Extensions.thy ===== *)
theory Rtp_Extensions
  imports Wire_Codec
begin

text \<open>
  The payloads of the header extensions (\<open>rtc-rtp/src/extension\<close>): absolute send time, audio level,
  playout delay, transport-wide sequence number, video orientation, and the sum of them with a custom
  extension, whose encoder is a parameter because any type may stand there.

  Each payload interprets the contract \<open>stream_codec\<close>. Video orientation writes without looking at
  the room that is left, so it meets only the contract of an inline field.
\<close>

unbundle bit_operations_syntax

section \<open>Absolute send time\<close>

record abs_send_time_extension =
  ast_timestamp :: u64

definition ABS_SEND_TIME_EXTENSION_SIZE :: nat where [simp]: "ABS_SEND_TIME_EXTENSION_SIZE = 3"

definition abs_send_time_unmarshal :: "u8 list \<Rightarrow> (abs_send_time_extension \<times> u8 list) result" where
  "abs_send_time_unmarshal raw_packet =
     (if length raw_packet < ABS_SEND_TIME_EXTENSION_SIZE then Err ErrBufferTooSmall
      else and_then (get_u8 raw_packet) (\<lambda>(b0, raw_packet).
        and_then (get_u8 raw_packet) (\<lambda>(b1, raw_packet).
        and_then (get_u8 raw_packet) (\<lambda>(b2, raw_packet).
          Ok (\<lparr>ast_timestamp = push_bit 16 (ucast b0) OR push_bit 8 (ucast b1) OR ucast b2\<rparr>,
              raw_packet)))))"

definition abs_send_time_marshal_size :: "abs_send_time_extension \<Rightarrow> nat" where
  "abs_send_time_marshal_size x = ABS_SEND_TIME_EXTENSION_SIZE"

definition abs_send_time_marshal_to :: "abs_send_time_extension \<Rightarrow> nat \<Rightarrow> (u8 list \<times> nat) result" where
  "abs_send_time_marshal_to x cap =
     (if cap < ABS_SEND_TIME_EXTENSION_SIZE then Err ErrBufferTooSmall
      else put_all cap
        (put_u8 (ucast (drop_bit 16 (ast_timestamp x AND 0xFF0000))) @
         put_u8 (ucast (drop_bit 8 (ast_timestamp x AND 0xFF00))) @
         put_u8 (ucast (ast_timestamp x AND 0xFF))) ABS_SEND_TIME_EXTENSION_SIZE)"

definition abs_send_time_new :: "u64 \<Rightarrow> abs_send_time_extension" where
  "abs_send_time_new send_time_ntp = \<lparr>ast_timestamp = drop_bit 14 send_time_ntp\<rparr>"

definition abs_send_time_estimate :: "abs_send_time_extension \<Rightarrow> u64 \<Rightarrow> u64" where
  "abs_send_time_estimate x receive_ntp =
     (let ntp = (receive_ntp AND 0xFFFFFFC000000000) OR push_bit 14 (ast_timestamp x AND 0xFFFFFF) in
      if receive_ntp < ntp then ntp - push_bit 14 0x1000000 else ntp)"

definition abs_send_time_wf :: "abs_send_time_extension \<Rightarrow> bool" where
  "abs_send_time_wf x \<longleftrightarrow> ast_timestamp x < 2 ^ 24"

text \<open>The encoder keeps the low 24 bits of the timestamp.\<close>

lemma abs_send_time_bytes:
  "push_bit 16 (ucast (ucast (drop_bit 16 (t AND 0xFF0000)) :: u8)) OR
     push_bit 8 (ucast (ucast (drop_bit 8 (t AND 0xFF00)) :: u8)) OR ucast (ucast (t AND 0xFF) :: u8) =
   (t :: u64) AND 0xFFFFFF"
proof -
  have m: "(0xFF0000 :: u64) = push_bit 16 (mask 8)" "(0xFF00 :: u64) = push_bit 8 (mask 8)" "(0xFF :: u64) = mask 8"
    "(0xFFFFFF :: u64) = mask 24"
    by (simp_all add: mask_eq_exp_minus_1 push_bit_eq_mult)
  show ?thesis
    unfolding m
  proof (rule bit_word_eqI, goal_cases)
    case (1 n)
    consider "n < 8" | "8 \<le> n \<and> n < 16" | "16 \<le> n \<and> n < 24" | "24 \<le> n" by linarith
    then show ?case by cases (auto simp: bit_simps)
  qed
qed

lemma abs_send_time_low: "t < 2 ^ 24 \<Longrightarrow> (t :: u64) AND 0xFFFFFF = t"
proof -
  assume "t < 2 ^ 24"
  then have low: "bit t n \<Longrightarrow> n < 24" for n using bit_less_exp [of t 24 n] by simp
  have m: "(0xFFFFFF :: u64) = mask 24" by (simp add: mask_eq_exp_minus_1)
  show ?thesis unfolding m by (intro bit_word_eqI) (auto simp: bit_simps dest: low)
qed

lemma abs_send_time_wire:
  "abs_send_time_marshal_to x cap = Ok (bs, n) \<Longrightarrow>
    abs_send_time_unmarshal (bs @ r) = Ok (\<lparr>ast_timestamp = ast_timestamp x AND 0xFFFFFF\<rparr>, r)"
  using abs_send_time_bytes [of "ast_timestamp x"]
  by (auto simp: abs_send_time_marshal_to_def abs_send_time_unmarshal_def put_u8_def
      dest!: put_all_OkD split: if_splits)

lemma length_3:
  assumes "3 \<le> length bs"
  obtains a b c r where "bs = a # b # c # r"
  using assms by (cases bs; cases "tl bs"; cases "tl (tl bs)") auto

interpretation abs_send_time_codec: stream_codec abs_send_time_marshal_size abs_send_time_marshal_to
  abs_send_time_unmarshal abs_send_time_wf
proof (unfold_locales, goal_cases)
  case (3 x cap bs n r)
  then show ?case
    using abs_send_time_wire [of x cap bs n r] abs_send_time_low [of "ast_timestamp x"]
    by (simp add: abs_send_time_wf_def)
qed (auto simp: abs_send_time_marshal_to_def abs_send_time_marshal_size_def)

interpretation abs_send_time_decoder: robust_decoder abs_send_time_unmarshal
proof (unfold_locales, goal_cases)
  case (1 bs)
  then show ?case
    by (cases "3 \<le> length bs") (auto simp: abs_send_time_unmarshal_def elim!: length_3)
next
  case (2 bs x r)
  then show ?case
    by (auto simp: abs_send_time_unmarshal_def dest!: get_suffix intro: suffix_order.trans split: if_splits)
qed

text \<open>
  The estimate joins the high bits of the receive time with the low bits of the send time, and steps
  back by one period of 64 seconds when that lies in the future.
\<close>

lemma estimate_join:
  fixes R S :: u64
  defines "s \<equiv> unat S div 2 ^ 14 * 2 ^ 14"
  shows "unat ((R AND 0xFFFFFFC000000000) OR push_bit 14 (drop_bit 14 S AND 0xFFFFFF)) =
    unat R div 2 ^ 38 * 2 ^ 38 + s mod 2 ^ 38"
proof -
  let ?a = "push_bit 38 (drop_bit 38 R)" and ?b = "take_bit 38 (push_bit 14 (drop_bit 14 S))"
  have m: "(0xFFFFFFC000000000 :: u64) = push_bit 38 (mask 26)" "(0xFFFFFF :: u64) = mask 24"
    by (simp_all add: mask_eq_exp_minus_1 push_bit_eq_mult)
  have 1: "R AND 0xFFFFFFC000000000 = ?a"
    unfolding m by (rule bit_word_eqI) (auto simp: bit_simps)
  have 2: "push_bit 14 (drop_bit 14 S AND 0xFFFFFF) = ?b"
    unfolding m by (rule bit_word_eqI) (auto simp: bit_simps)
  have "?a AND ?b = 0"
    by (rule bit_word_eqI) (auto simp: bit_simps)
  then have or: "?a OR ?b = ?a + ?b"
    by (simp add: disjunctive_add_eq_or)
  have R: "unat R < 2 ^ 64" using unsigned_less [of R, where ?'a = nat] by simp
  have S: "unat S < 2 ^ 64" using unsigned_less [of S, where ?'a = nat] by simp
  have a: "unat ?a = unat R div 2 ^ 38 * 2 ^ 38"
    using R div_times_less_eq_dividend [of "unat R" "2 ^ 38"]
    by (simp only: unsigned_push_bit_eq unsigned_drop_bit_eq)
      (simp add: push_bit_eq_mult drop_bit_eq_div take_bit_eq_mod)
  have "unat S div 2 ^ 14 * 2 ^ 14 < 2 ^ 64"
    using S div_times_less_eq_dividend [of "unat S" "2 ^ 14"] by linarith
  then have b: "unat ?b = s mod 2 ^ 38"
    using S by (simp only: unsigned_take_bit_eq unsigned_push_bit_eq unsigned_drop_bit_eq s_def)
      (simp add: push_bit_eq_mult drop_bit_eq_div take_bit_eq_mod)
  have "unat R div 2 ^ 38 * 2 ^ 38 + s mod 2 ^ 38 < 2 ^ 64"
  proof -
    have "unat R div 2 ^ 38 < 2 ^ 26" using R by (simp add: div_less_iff_less_mult)
    moreover have "s mod 2 ^ 38 < 2 ^ 38" by simp
    ultimately show ?thesis by simp
  qed
  then have "unat (?a + ?b) = unat ?a + unat ?b"
    by (subst unat_add_lem [THEN iffD1]) (simp_all add: a b)
  then show ?thesis by (simp only: 1 2 or a b)
qed

lemma estimate_arith:
  fixes R s :: nat
  assumes "s \<le> R" "R < s + 2 ^ 38"
  defines "n \<equiv> R div 2 ^ 38 * 2 ^ 38 + s mod 2 ^ 38"
  shows "s = (if R < n then n - 2 ^ 38 else n)" "R < n \<longrightarrow> 2 ^ 38 \<le> n"
proof -
  define q where "q = R div 2 ^ 38"
  define p where "p = s div 2 ^ 38"
  have R: "R = q * 2 ^ 38 + R mod 2 ^ 38" and s: "s = p * 2 ^ 38 + s mod 2 ^ 38"
    by (simp_all add: q_def p_def)
  have lt: "R mod 2 ^ 38 < 2 ^ 38" "s mod 2 ^ 38 < 2 ^ 38" by simp_all
  have n: "n = q * 2 ^ 38 + s mod 2 ^ 38" by (simp add: n_def q_def)
  have "p \<le> q" using assms(1) by (simp add: p_def q_def div_le_mono)
  moreover have "q \<le> p + 1"
  proof (rule ccontr)
    assume "\<not> q \<le> p + 1"
    then have "(p + 2) * 2 ^ 38 \<le> q * 2 ^ 38" by (intro mult_le_mono1) simp
    with R s lt assms(2) show False by simp
  qed
  ultimately have "q = p \<or> q = p + 1" by linarith
  then show "s = (if R < n then n - 2 ^ 38 else n)" "R < n \<longrightarrow> 2 ^ 38 \<le> n"
    using R s lt n assms(1,2) by auto
qed

lemma estimate_recovers:
  assumes "unat send \<le> unat receive" "unat receive < unat send div 2 ^ 14 * 2 ^ 14 + 2 ^ 38"
  shows "unat (abs_send_time_estimate (abs_send_time_new send) receive) = unat send div 2 ^ 14 * 2 ^ 14"
proof -
  let ?s = "unat send div 2 ^ 14 * 2 ^ 14"
  define ntp where "ntp = (receive AND 0xFFFFFFC000000000) OR push_bit 14 (drop_bit 14 send AND 0xFFFFFF)"
  have n: "unat ntp = unat receive div 2 ^ 38 * 2 ^ 38 + ?s mod 2 ^ 38"
    unfolding ntp_def by (rule estimate_join)
  have "?s \<le> unat receive"
    using assms(1) div_times_less_eq_dividend [of "unat send" "2 ^ 14"] by linarith
  note ar = estimate_arith [OF this assms(2), folded n]
  have "unat (push_bit 14 0x1000000 :: u64) = 2 ^ 38" by (simp add: push_bit_eq_mult)
  then have "receive < ntp \<Longrightarrow> unat (ntp - push_bit 14 0x1000000) = unat ntp - 2 ^ 38"
    using ar(2) by (subst unat_sub) (simp_all add: word_less_nat_alt word_le_nat_alt)
  moreover have "abs_send_time_estimate (abs_send_time_new send) receive =
      (if receive < ntp then ntp - push_bit 14 0x1000000 else ntp)"
    by (simp only: abs_send_time_estimate_def abs_send_time_new_def abs_send_time_extension.select_convs
        Let_def ntp_def)
  ultimately show ?thesis
    using ar(1) by (simp add: word_less_nat_alt)
qed

section \<open>Audio level\<close>

record audio_level_extension =
  level :: u8
  voice :: bool

definition AUDIO_LEVEL_EXTENSION_SIZE :: nat where [simp]: "AUDIO_LEVEL_EXTENSION_SIZE = 1"

definition audio_level_unmarshal :: "u8 list \<Rightarrow> (audio_level_extension \<times> u8 list) result" where
  "audio_level_unmarshal raw_packet =
     (if length raw_packet < AUDIO_LEVEL_EXTENSION_SIZE then Err ErrBufferTooSmall
      else and_then (get_u8 raw_packet) (\<lambda>(b, raw_packet).
        Ok (\<lparr>level = b AND 0x7F, voice = (b AND 0x80 \<noteq> 0)\<rparr>, raw_packet)))"

definition audio_level_marshal_size :: "audio_level_extension \<Rightarrow> nat" where
  "audio_level_marshal_size x = AUDIO_LEVEL_EXTENSION_SIZE"

definition audio_level_marshal_to :: "audio_level_extension \<Rightarrow> nat \<Rightarrow> (u8 list \<times> nat) result" where
  "audio_level_marshal_to x cap =
     (if cap < AUDIO_LEVEL_EXTENSION_SIZE then Err ErrBufferTooSmall
      else if level x > 127 then Err AudioLevelOverflow
      else let v = (if voice x then 0x80 else 0) in
        put_all cap (put_u8 (v OR level x)) AUDIO_LEVEL_EXTENSION_SIZE)"

definition audio_level_wf :: "audio_level_extension \<Rightarrow> bool" where
  "audio_level_wf x \<longleftrightarrow> level x \<le> 127"

lemma audio_level_fields:
  fixes v :: bool
  assumes "(l :: u8) \<le> 127"
  shows "((if v then 0x80 else 0) OR l) AND 0x7F = l" "((if v then 0x80 else 0) OR l) AND 0x80 \<noteq> 0 \<longleftrightarrow> v"
proof -
  have l: "bit l n \<Longrightarrow> n < 7" for n
    using assms bit_less_exp [of l 7 n] by (simp add: word_le_nat_alt word_less_nat_alt)
  show "((if v then 0x80 else 0) OR l) AND 0x7F = l"
    unfolding field_masks
    by (rule bit_word_eqI) (auto simp: bit_simps field_bits simp del: bit_numeral_word_iff dest: l)
  show "((if v then 0x80 else 0) OR l) AND 0x80 \<noteq> 0 \<longleftrightarrow> v"
    unfolding test_bits_u8 by (auto simp: bit_simps field_bits simp del: bit_numeral_word_iff dest: l)
qed

interpretation audio_level_codec: stream_codec audio_level_marshal_size audio_level_marshal_to
  audio_level_unmarshal audio_level_wf
proof (unfold_locales, goal_cases)
  case (3 x cap bs n r)
  then show ?case
    using audio_level_fields [of "level x" "voice x"]
    by (auto simp: audio_level_marshal_to_def audio_level_unmarshal_def audio_level_wf_def put_u8_def Let_def
        dest!: put_all_OkD split: if_splits)
qed (auto simp: audio_level_marshal_to_def audio_level_marshal_size_def audio_level_wf_def Let_def)

section \<open>Playout delay\<close>

record playout_delay_extension =
  min_delay :: u16
  max_delay :: u16

definition PLAYOUT_DELAY_EXTENSION_SIZE :: nat where [simp]: "PLAYOUT_DELAY_EXTENSION_SIZE = 3"

definition PLAYOUT_DELAY_MAX_VALUE :: u16 where [simp]: "PLAYOUT_DELAY_MAX_VALUE = push_bit 12 1 - 1"

definition playout_delay_unmarshal :: "u8 list \<Rightarrow> (playout_delay_extension \<times> u8 list) result" where
  "playout_delay_unmarshal buf =
     (if length buf < PLAYOUT_DELAY_EXTENSION_SIZE then Err ErrBufferTooSmall
      else and_then (get_u8 buf) (\<lambda>(b0, buf). and_then (get_u8 buf) (\<lambda>(b1, buf).
        and_then (get_u8 buf) (\<lambda>(b2, buf).
          Ok (\<lparr>min_delay = drop_bit 4 (u16_from_be_bytes b0 b1),
               max_delay = u16_from_be_bytes b1 b2 AND 0x0FFF\<rparr>, buf)))))"

definition playout_delay_marshal_size :: "playout_delay_extension \<Rightarrow> nat" where
  "playout_delay_marshal_size x = PLAYOUT_DELAY_EXTENSION_SIZE"

definition playout_delay_marshal_to :: "playout_delay_extension \<Rightarrow> nat \<Rightarrow> (u8 list \<times> nat) result" where
  "playout_delay_marshal_to x cap =
     (if cap < PLAYOUT_DELAY_EXTENSION_SIZE then Err ErrBufferTooSmall
      else if min_delay x > PLAYOUT_DELAY_MAX_VALUE \<or> max_delay x > PLAYOUT_DELAY_MAX_VALUE
      then Err PlayoutDelayOverflow
      else put_all cap
        (put_u8 (ucast (drop_bit 4 (min_delay x))) @
         put_u8 (ucast (push_bit 4 (min_delay x)) OR ucast (drop_bit 8 (max_delay x))) @
         put_u8 (ucast (max_delay x))) PLAYOUT_DELAY_EXTENSION_SIZE)"

definition playout_delay_new :: "u16 \<Rightarrow> u16 \<Rightarrow> playout_delay_extension" where
  "playout_delay_new mn mx = \<lparr>min_delay = mn, max_delay = mx\<rparr>"

definition playout_delay_wf :: "playout_delay_extension \<Rightarrow> bool" where
  "playout_delay_wf x \<longleftrightarrow> min_delay x \<le> PLAYOUT_DELAY_MAX_VALUE \<and> max_delay x \<le> PLAYOUT_DELAY_MAX_VALUE"

lemma playout_delay_fields:
  assumes "(a :: u16) \<le> 4095" "(b :: u16) \<le> 4095"
  shows "drop_bit 4 (u16_from_be_bytes (ucast (drop_bit 4 a)) (ucast (push_bit 4 a) OR ucast (drop_bit 8 b))) = a"
    and "u16_from_be_bytes (ucast (push_bit 4 a) OR ucast (drop_bit 8 b)) (ucast b) AND 0x0FFF = b"
proof -
  have a: "bit a n \<Longrightarrow> n < 12" for n
    using assms(1) bit_less_exp [of a 12 n] by (simp add: word_le_nat_alt word_less_nat_alt)
  have b: "bit b n \<Longrightarrow> n < 12" for n
    using assms(2) bit_less_exp [of b 12 n] by (simp add: word_le_nat_alt word_less_nat_alt)
  have m: "(0x0FFF :: u16) = mask 12" by (simp add: mask_eq_exp_minus_1)
  have a4: "bit a (4 + n) \<Longrightarrow> n < 8" and b4: "bit b (8 + n) \<Longrightarrow> n < 4" for n
    using a [of "4 + n"] b [of "8 + n"] by simp_all
  show "drop_bit 4 (u16_from_be_bytes (ucast (drop_bit 4 a)) (ucast (push_bit 4 a) OR ucast (drop_bit 8 b))) = a"
  proof (rule bit_word_eqI, goal_cases)
    case (1 n)
    then show ?case
      by (cases "n < 4") (auto simp: u16_from_be_bytes_def bit_simps dest: a b a4 b4)
  qed
  show "u16_from_be_bytes (ucast (push_bit 4 a) OR ucast (drop_bit 8 b)) (ucast b) AND 0x0FFF = b"
    unfolding m
  proof (rule bit_word_eqI, goal_cases)
    case (1 n)
    then show ?case
      by (cases "n < 8") (auto simp: u16_from_be_bytes_def bit_simps dest: a b a4 b4)
  qed
qed

interpretation playout_delay_codec: stream_codec playout_delay_marshal_size playout_delay_marshal_to
  playout_delay_unmarshal playout_delay_wf
proof (unfold_locales, goal_cases)
  case (3 x cap bs n r)
  then show ?case
    using playout_delay_fields [of "min_delay x" "max_delay x"]
    by (auto simp: playout_delay_marshal_to_def playout_delay_unmarshal_def playout_delay_wf_def put_u8_def
        dest!: put_all_OkD split: if_splits)
qed (auto simp: playout_delay_marshal_to_def playout_delay_marshal_size_def playout_delay_wf_def)

section \<open>Transport-wide sequence number\<close>

record transport_cc_extension =
  transport_sequence :: u16

definition TRANSPORT_CC_EXTENSION_SIZE :: nat where [simp]: "TRANSPORT_CC_EXTENSION_SIZE = 2"

definition transport_cc_unmarshal :: "u8 list \<Rightarrow> (transport_cc_extension \<times> u8 list) result" where
  "transport_cc_unmarshal raw_packet =
     (if length raw_packet < TRANSPORT_CC_EXTENSION_SIZE then Err ErrBufferTooSmall
      else and_then (get_u8 raw_packet) (\<lambda>(b0, raw_packet). and_then (get_u8 raw_packet) (\<lambda>(b1, raw_packet).
        Ok (\<lparr>transport_sequence = push_bit 8 (ucast b0) OR ucast b1\<rparr>, raw_packet))))"

definition transport_cc_marshal_size :: "transport_cc_extension \<Rightarrow> nat" where
  "transport_cc_marshal_size x = TRANSPORT_CC_EXTENSION_SIZE"

definition transport_cc_marshal_to :: "transport_cc_extension \<Rightarrow> nat \<Rightarrow> (u8 list \<times> nat) result" where
  "transport_cc_marshal_to x cap =
     (if cap < TRANSPORT_CC_EXTENSION_SIZE then Err ErrBufferTooSmall
      else put_all cap (put_u16 (transport_sequence x)) TRANSPORT_CC_EXTENSION_SIZE)"

interpretation transport_cc_codec: stream_codec transport_cc_marshal_size transport_cc_marshal_to
  transport_cc_unmarshal "\<lambda>_. True"
proof (unfold_locales, goal_cases)
  case (3 x cap bs n r)
  then show ?case
    using get_put_u16 [of "transport_sequence x" r]
    by (auto simp: transport_cc_marshal_to_def transport_cc_unmarshal_def put_u16_def
        dest!: put_all_OkD split: if_splits)
qed (auto simp: transport_cc_marshal_to_def transport_cc_marshal_size_def)

section \<open>Video orientation\<close>

datatype camera_direction = Front | Back

datatype video_rotation = Degree0 | Degree90 | Degree180 | Degree270

record video_orientation_extension =
  direction :: camera_direction
  flip :: bool
  rotation :: video_rotation

definition VIDEO_ORIENTATION_EXTENSION_SIZE :: nat where [simp]: "VIDEO_ORIENTATION_EXTENSION_SIZE = 1"

fun camera_direction_as_u8 :: "camera_direction \<Rightarrow> u8" where
  "camera_direction_as_u8 Front = 0"
| "camera_direction_as_u8 Back = 1"

fun video_rotation_as_u8 :: "video_rotation \<Rightarrow> u8" where
  "video_rotation_as_u8 Degree0 = 0"
| "video_rotation_as_u8 Degree90 = 1"
| "video_rotation_as_u8 Degree180 = 2"
| "video_rotation_as_u8 Degree270 = 3"

definition camera_direction_try_from :: "u8 \<Rightarrow> camera_direction result" where
  "camera_direction_try_from v = (if v = 0 then Ok Front else if v = 1 then Ok Back else Err Other)"

definition video_rotation_try_from :: "u8 \<Rightarrow> video_rotation result" where
  "video_rotation_try_from v =
     (if v = 0 then Ok Degree0 else if v = 1 then Ok Degree90 else if v = 2 then Ok Degree180
      else if v = 3 then Ok Degree270 else Err Other)"

definition video_orientation_marshal_size :: "video_orientation_extension \<Rightarrow> nat" where
  "video_orientation_marshal_size x = VIDEO_ORIENTATION_EXTENSION_SIZE"

definition video_orientation_unmarshal :: "u8 list \<Rightarrow> (video_orientation_extension \<times> u8 list) result" where
  "video_orientation_unmarshal buf =
     (if length buf < VIDEO_ORIENTATION_EXTENSION_SIZE then Err ErrBufferTooSmall
      else and_then (get_u8 buf) (\<lambda>(b, buf).
        let c = drop_bit 3 (b AND 8); f = b AND 4; r = b AND 3 in
        and_then (camera_direction_try_from c) (\<lambda>d.
        and_then (video_rotation_try_from r) (\<lambda>ro.
          Ok (\<lparr>direction = d, flip = (f > 0), rotation = ro\<rparr>, buf)))))"

definition video_orientation_byte :: "video_orientation_extension \<Rightarrow> u8" where
  "video_orientation_byte x =
     push_bit 3 (camera_direction_as_u8 (direction x)) OR (if flip x then 4 else 0) OR
     video_rotation_as_u8 (rotation x)"

definition video_orientation_marshal_to :: "video_orientation_extension \<Rightarrow> nat \<Rightarrow> (u8 list \<times> nat) result" where
  "video_orientation_marshal_to x cap =
     put_all cap (put_u8 (video_orientation_byte x)) VIDEO_ORIENTATION_EXTENSION_SIZE"

lemma video_orientation_fields:
  "camera_direction_try_from (drop_bit 3 (b AND 8)) = Ok (if bit b 3 then Back else Front)"
  "\<exists>ro. video_rotation_try_from (b AND 3) = Ok ro"
proof -
  have "drop_bit 3 (b AND 8) = (if bit b 3 then 1 else 0)"
    by (rule bit_word_eqI) (auto simp: bit_simps bit_1_iff intro!: gr0I)
  then show "camera_direction_try_from (drop_bit 3 (b AND 8)) = Ok (if bit b 3 then Back else Front)"
    by (simp add: camera_direction_try_from_def)
  have "b AND 3 < 4"
    using and_mask_less' [of 2 b] by (simp add: mask_eq_exp_minus_1)
  then have "unat (b AND 3) < 4" by (simp add: word_less_nat_alt)
  then have "b AND 3 = 0 \<or> b AND 3 = 1 \<or> b AND 3 = 2 \<or> b AND 3 = 3"
    by (auto simp: word_unat_eq_iff)
  then show "\<exists>ro. video_rotation_try_from (b AND 3) = Ok ro"
    by (auto simp: video_rotation_try_from_def)
qed

interpretation video_orientation_codec:
  element_codec "\<lambda>x. put_u8 (video_orientation_byte x)" video_orientation_unmarshal "\<lambda>_. True" 1
proof (unfold_locales, goal_cases)
  case (1 x r)
  then show ?case
    by (cases "direction x"; cases "flip x"; cases "rotation x")
      (simp_all add: video_orientation_unmarshal_def put_u8_def video_orientation_byte_def
        camera_direction_try_from_def video_rotation_try_from_def Let_def)
next
  case (3 bs)
  then obtain b r where "bs = b # r" by (cases bs) auto
  then show ?case
    using video_orientation_fields [of b]
    by (auto simp: video_orientation_unmarshal_def Let_def)
qed simp

section \<open>Any header extension\<close>

datatype header_extension =
    AbsSendTime abs_send_time_extension
  | AudioLevel audio_level_extension
  | PlayoutDelay playout_delay_extension
  | TransportCc transport_cc_extension
  | VideoOrientation video_orientation_extension
  | Custom string nat "nat \<Rightarrow> (u8 list \<times> nat) result"

fun uri :: "header_extension \<Rightarrow> string" where
  "uri (AbsSendTime _) = ''http://www.webrtc.org/experiments/rtp-hdrext/abs-send-time''"
| "uri (AudioLevel _) = ''urn:ietf:params:rtp-hdrext:ssrc-audio-level''"
| "uri (PlayoutDelay _) = ''http://www.webrtc.org/experiments/rtp-hdrext/playout-delay''"
| "uri (TransportCc _) = ''http://www.ietf.org/id/draft-holmer-rmcat-transport-wide-cc-extensions-01''"
| "uri (VideoOrientation _) = ''urn:3gpp:video-orientation''"
| "uri (Custom u _ _) = u"

fun is_same :: "header_extension \<Rightarrow> header_extension \<Rightarrow> bool" where
  "is_same (AbsSendTime _) (AbsSendTime _) = True"
| "is_same (AudioLevel _) (AudioLevel _) = True"
| "is_same (TransportCc _) (TransportCc _) = True"
| "is_same (VideoOrientation _) (VideoOrientation _) = True"
| "is_same (Custom u _ _) (Custom u' _ _) = (u = u')"
| "is_same _ _ = False"

fun header_extension_marshal_size :: "header_extension \<Rightarrow> nat" where
  "header_extension_marshal_size (AbsSendTime x) = abs_send_time_marshal_size x"
| "header_extension_marshal_size (AudioLevel x) = audio_level_marshal_size x"
| "header_extension_marshal_size (PlayoutDelay x) = playout_delay_marshal_size x"
| "header_extension_marshal_size (TransportCc x) = transport_cc_marshal_size x"
| "header_extension_marshal_size (VideoOrientation x) = video_orientation_marshal_size x"
| "header_extension_marshal_size (Custom _ n _) = n"

fun header_extension_marshal_to :: "header_extension \<Rightarrow> nat \<Rightarrow> (u8 list \<times> nat) result" where
  "header_extension_marshal_to (AbsSendTime x) cap = abs_send_time_marshal_to x cap"
| "header_extension_marshal_to (AudioLevel x) cap = audio_level_marshal_to x cap"
| "header_extension_marshal_to (PlayoutDelay x) cap = playout_delay_marshal_to x cap"
| "header_extension_marshal_to (TransportCc x) cap = transport_cc_marshal_to x cap"
| "header_extension_marshal_to (VideoOrientation x) cap = video_orientation_marshal_to x cap"
| "header_extension_marshal_to (Custom _ _ to) cap = to cap"

section \<open>Properties\<close>

text \<open>What an extension is written as: \<open>marshal_size\<close> bytes of which \<open>P\<close> holds.\<close>

definition written :: "header_extension \<Rightarrow> nat \<Rightarrow> (u8 list \<Rightarrow> bool) \<Rightarrow> bool" where
  "written e cap P \<longleftrightarrow> (\<exists>bs. header_extension_marshal_to e cap = Ok (bs, header_extension_marshal_size e) \<and>
     length bs = header_extension_marshal_size e \<and> P bs)"

text \<open>
  C8: What the peer reads of a header extension, for every value of the five built-in ones and a buffer that has room
  for \<open>marshal_size\<close> bytes. \<open>HeaderExtension::marshal_to\<close> writes exactly so many bytes, and the extension's own
  \<open>unmarshal\<close> reads the value back; of an absolute send time, which \<open>AbsSendTimeExtension::new\<close> makes with 50 bits, it
  reads the low 24 bits. An audio level above 127 and a playout delay above 4095 are refused by the encoder. A custom
  extension is left to its own encoder.
\<close>

theorem header_extension_round_trip:
  assumes "header_extension_marshal_size e \<le> cap"
  shows "case e of
      AbsSendTime x \<Rightarrow> written e cap (\<lambda>bs. abs_send_time_unmarshal (bs @ r) =
        Ok (\<lparr>ast_timestamp = ast_timestamp x AND 0xFFFFFF\<rparr>, r))
    | AudioLevel x \<Rightarrow>
        if level x \<le> 127 then written e cap (\<lambda>bs. audio_level_unmarshal (bs @ r) = Ok (x, r))
        else header_extension_marshal_to e cap = Err AudioLevelOverflow
    | PlayoutDelay x \<Rightarrow>
        if min_delay x \<le> 4095 \<and> max_delay x \<le> 4095
        then written e cap (\<lambda>bs. playout_delay_unmarshal (bs @ r) = Ok (x, r))
        else header_extension_marshal_to e cap = Err PlayoutDelayOverflow
    | TransportCc x \<Rightarrow> written e cap (\<lambda>bs. transport_cc_unmarshal (bs @ r) = Ok (x, r))
    | VideoOrientation x \<Rightarrow> written e cap (\<lambda>bs. video_orientation_unmarshal (bs @ r) = Ok (x, r))
    | Custom _ _ to \<Rightarrow> header_extension_marshal_to e cap = to cap"
proof (cases e)
  case (AbsSendTime x)
  with assms obtain bs where "abs_send_time_marshal_to x cap = Ok (bs, 3)" "length bs = 3"
    by (simp add: abs_send_time_marshal_to_def abs_send_time_marshal_size_def)
  with AbsSendTime abs_send_time_wire [of x cap bs 3 r] show ?thesis
    by (simp add: written_def abs_send_time_marshal_size_def)
next
  case (AudioLevel x)
  show ?thesis
  proof (cases "level x \<le> 127")
    case True
    with AudioLevel assms audio_level_codec.stream_fits [of x cap] audio_level_codec.unmarshal_prefix [of x cap]
    show ?thesis by (fastforce simp: written_def audio_level_wf_def)
  next
    case False
    with AudioLevel assms show ?thesis by (auto simp: audio_level_marshal_to_def audio_level_marshal_size_def)
  qed
next
  case (PlayoutDelay x)
  show ?thesis
  proof (cases "playout_delay_wf x")
    case True
    with PlayoutDelay assms playout_delay_codec.stream_fits [of x cap] playout_delay_codec.unmarshal_prefix [of x cap]
    show ?thesis by (fastforce simp: written_def playout_delay_wf_def)
  next
    case False
    with PlayoutDelay assms show ?thesis
      by (auto simp: playout_delay_marshal_to_def playout_delay_marshal_size_def playout_delay_wf_def not_le)
  qed
next
  case (TransportCc x)
  with assms transport_cc_codec.stream_fits [of x cap] transport_cc_codec.unmarshal_prefix [of x cap] show ?thesis
    by (fastforce simp: written_def)
next
  case (VideoOrientation x)
  with assms show ?thesis
    using video_orientation_codec.dec_enc [of x r]
    by (simp add: written_def video_orientation_marshal_to_def video_orientation_marshal_size_def)
qed simp

theorem header_extension_round_trip_witness:
  "\<exists>bs. header_extension_marshal_to (AbsSendTime (abs_send_time_new 0x123456789ABCDEF0)) 3 = Ok (bs, 3) \<and>
    abs_send_time_unmarshal bs = Ok (\<lparr>ast_timestamp = 0xE26AF3\<rparr>, [])"
  using header_extension_round_trip [of "AbsSendTime (abs_send_time_new 0x123456789ABCDEF0)" 3 "[]"]
  by (auto simp: written_def abs_send_time_marshal_size_def abs_send_time_new_def)

text \<open>
  C9: Absolute send time is recovered. If a packet arrives within 64 seconds of being sent, the
  receiver's \<open>estimate\<close> from the 24 transmitted bits is the sender's NTP time rounded down to the
  resolution of the extension, also across a wrap of the 24-bit value.
\<close>

theorem abs_send_time_recovered:
  assumes "unat send \<le> unat receive" "unat receive < unat send div 2 ^ 14 * 2 ^ 14 + 2 ^ 38"
  shows "unat (abs_send_time_estimate (abs_send_time_new send) receive) = unat send div 2 ^ 14 * 2 ^ 14"
  using estimate_recovers [OF assms] .

theorem abs_send_time_recovered_witness:
  "unat (abs_send_time_estimate (abs_send_time_new 0x3FFFFFC000) 0x4000000005) = 0x3FFFFFC000"
  using abs_send_time_recovered [of "0x3FFFFFC000" "0x4000000005"] by simp

text \<open>
  \<open>HeaderExtension::is_same\<close> agrees with the comparison of the URIs on the built-in extensions,
  except on playout delay, which is reported to differ from itself.
\<close>

theorem is_same_compares_uris:
  assumes "\<nexists>u n to. x = Custom u n to" "\<nexists>u n to. y = Custom u n to"
  shows "is_same x y \<longleftrightarrow> uri x = uri y \<and> (\<nexists>d. x = PlayoutDelay d)"
  using assms by (cases x; cases y) auto

theorem is_same_compares_uris_witness:
  "\<not> is_same (PlayoutDelay (playout_delay_new 0 1)) (PlayoutDelay (playout_delay_new 0 1))"
  using is_same_compares_uris [of "PlayoutDelay (playout_delay_new 0 1)" "PlayoutDelay (playout_delay_new 0 1)"]
  by simp

end
