(* ===== verification/Rtp_Codecs.thy ===== *)
theory Rtp_Codecs
  imports Rtc_Prelude
begin

text \<open>
  Payloaders and depacketizers (\<open>rtc-rtp/src/codec\<close>) for G.711/G.722, Opus, SMPTE ST 336 and VP8.
  A payloader is a state with an operation that splits a frame; a depacketizer is a state with an
  operation that strips a payload descriptor.

  The contract of the trait \<open>Payloader\<close> is the locale \<open>payloader\<close>: fragments fit the MTU and their
  bodies are the frame in order. G.7xx, SMPTE and VP8 interpret it. Opus never splits a frame, so it
  meets the contract only for frames within the MTU.
\<close>

unbundle bit_operations_syntax

section \<open>Splitting a frame\<close>

text \<open>\<open>Bytes::slice\<close>, which panics on a range outside the buffer.\<close>

definition bytes_slice :: "'a list \<Rightarrow> nat \<Rightarrow> nat \<Rightarrow> 'a list result" where
  "bytes_slice xs a b = (if a \<le> b \<and> b \<le> length xs then Ok (take (b - a) (drop a xs)) else Err Panic)"

text \<open>
  The loop of the payloaders: while bytes remain, put a descriptor, which may depend on whether this
  is the first fragment, and the next slice of at most \<open>mx\<close> bytes. The callers start it only with
  \<open>0 < mx\<close>.
\<close>

function fragment_loop ::
  "nat \<Rightarrow> (bool \<Rightarrow> u8 list) \<Rightarrow> u8 list \<Rightarrow> nat \<Rightarrow> nat \<Rightarrow> bool \<Rightarrow> u8 list list result" where
  "fragment_loop mx descriptor payload remaining index first =
     (if 0 < remaining \<and> 0 < mx then
        let current_fragment_size = min mx remaining in
        and_then (bytes_slice payload index (index + current_fragment_size)) (\<lambda>fragment.
        and_then (fragment_loop mx descriptor payload (remaining - current_fragment_size)
                    (index + current_fragment_size) False) (\<lambda>rest.
          Ok ((descriptor first @ fragment) # rest)))
      else Ok [])"
  by pat_completeness auto
termination
  by (relation "measure (\<lambda>(_, _, _, remaining, _, _). remaining)") auto

declare fragment_loop.simps [simp del]

text \<open>The reference: a list cut into pieces of \<open>n\<close> elements, the last one possibly shorter.\<close>

function chunks :: "nat \<Rightarrow> 'a list \<Rightarrow> 'a list list" where
  "chunks n xs = (if xs = [] \<or> n = 0 then [] else take n xs # chunks n (drop n xs))"
  by pat_completeness auto
termination
  by (relation "measure (\<lambda>(_, xs). length xs)") auto

declare chunks.simps [simp del]

lemma chunks_Nil [simp]: "chunks n [] = []"
  by (simp add: chunks.simps)

lemma chunks_step: "xs \<noteq> [] \<Longrightarrow> 0 < n \<Longrightarrow> chunks n xs = take n xs # chunks n (drop n xs)"
  by (simp add: chunks.simps [of n xs])

lemma concat_chunks: "0 < n \<Longrightarrow> concat (chunks n xs) = xs"
proof (induction n xs rule: chunks.induct)
  case (1 n xs)
  then show ?case by (cases "xs = []") (simp_all add: chunks_step [of xs n])
qed

lemma chunks_size: "c \<in> set (chunks n xs) \<Longrightarrow> c \<noteq> [] \<and> length c \<le> n"
proof (induction n xs rule: chunks.induct)
  case (1 n xs)
  then show ?case by (cases "xs = [] \<or> n = 0") (auto simp: chunks_step [of xs n] chunks.simps [of 0])
qed

lemma length_chunks: "0 < n \<Longrightarrow> length (chunks n xs) = (length xs + n - 1) div n"
proof (induction n xs rule: chunks.induct)
  case (1 n xs)
  show ?case
  proof (cases "xs = []")
    case True
    then show ?thesis using 1(2) by simp
  next
    case False
    then obtain m where m: "length xs = Suc m" by (cases xs) auto
    have "length (chunks n xs) = Suc (length (chunks n (drop n xs)))"
      using False 1(2) by (simp add: chunks_step [of xs n])
    also have "length (chunks n (drop n xs)) = (length (drop n xs) + n - 1) div n"
      using False 1(2) by (intro "1.IH") auto
    also have "(length (drop n xs) + n - 1) div n = m div n"
      using 1(2) m by (cases "m < n") auto
    also have "Suc (m div n) = (length xs + n - 1) div n"
      using 1(2) m by (simp add: div_add_self2)
    finally show ?thesis .
  qed
qed

text \<open>The fragments are the chunks with their descriptors in front.\<close>

fun describe :: "(bool \<Rightarrow> u8 list) \<Rightarrow> bool \<Rightarrow> u8 list list \<Rightarrow> u8 list list" where
  "describe d first [] = []"
| "describe d first (c # cs) = (d first @ c) # describe d False cs"

lemma fragment_loop_chunks:
  "index + remaining = length payload \<Longrightarrow> 0 < mx \<Longrightarrow>
   fragment_loop mx d payload remaining index first = Ok (describe d first (chunks mx (drop index payload)))"
proof (induction mx d payload remaining index first rule: fragment_loop.induct)
  case (1 mx d payload remaining index first)
  show ?case
  proof (cases "remaining = 0")
    case True
    with 1 show ?thesis by (subst fragment_loop.simps) simp
  next
    case False
    let ?n = "min mx remaining"
    have "bytes_slice payload index (index + ?n) = Ok (take mx (drop index payload))"
      using 1 by (auto simp: bytes_slice_def min_def)
    moreover have "fragment_loop mx d payload (remaining - ?n) (index + ?n) False =
        Ok (describe d False (chunks mx (drop (index + ?n) payload)))"
      using False 1(2,3) calculation by (intro "1.IH") auto
    moreover have "chunks mx (drop index payload) =
        take mx (drop index payload) # chunks mx (drop (index + ?n) payload)"
      using False 1(2,3) by (subst chunks_step) (auto simp: min_def add.commute)
    ultimately show ?thesis
      using False 1(2,3) by (subst fragment_loop.simps) (simp add: Let_def)
  qed
qed

lemma describe_bodies:
  "(\<And>b. length (d b) = k) \<Longrightarrow> map (drop k) (describe d first cs) = cs"
  by (induction cs arbitrary: first) auto

lemma describe_size:
  "(\<And>b. length (d b) = k) \<Longrightarrow> p \<in> set (describe d first cs) \<Longrightarrow> \<exists>c\<in>set cs. length p = k + length c"
  by (induction cs arbitrary: first) auto

lemma length_describe [simp]: "length (describe d first cs) = length cs"
  by (induction cs arbitrary: first) auto

section \<open>The contract of Payloader\<close>

locale payloader =
  fixes payload :: "'s \<Rightarrow> nat \<Rightarrow> u8 list \<Rightarrow> u8 list list result \<times> 's"
    and overhead :: "'s \<Rightarrow> nat"
  assumes payload_splits: "overhead s < mtu \<Longrightarrow> \<exists>ps s'. payload s mtu b = (Ok ps, s') \<and>
      concat (map (drop (overhead s)) ps) = b \<and>
      (\<forall>p\<in>set ps. overhead s < length p \<and> length p \<le> mtu)"
    and payload_no_room: "mtu \<le> overhead s \<Longrightarrow> payload s mtu b = (Ok [], s)"
begin

lemma payload_ok: obtains ps s' where "payload s mtu b = (Ok ps, s')"
  "\<And>p. p \<in> set ps \<Longrightarrow> p \<noteq> [] \<and> length p \<le> mtu"
proof (cases "overhead s < mtu")
  case True
  with payload_splits [OF this, of b] that show ?thesis by fastforce
next
  case False
  with payload_no_room [of mtu s b] that show ?thesis by simp
qed

text \<open>A frame yields packets exactly when it is not empty and the MTU leaves room.\<close>

lemma payload_empty_iff:
  assumes "payload s mtu b = (Ok ps, s')"
  shows "ps = [] \<longleftrightarrow> b = [] \<or> mtu \<le> overhead s"
proof (cases "overhead s < mtu")
  case True
  with payload_splits [OF this, of b] assms have c: "concat (map (drop (overhead s)) ps) = b"
    and l: "\<forall>p\<in>set ps. overhead s < length p" by auto
  then show ?thesis using True by (cases ps) auto
next
  case False
  with payload_no_room [of mtu s b] assms show ?thesis by simp
qed

end

section \<open>G.711, G.722 and SMPTE ST 336\<close>

definition g7xx_payload :: "unit \<Rightarrow> nat \<Rightarrow> u8 list \<Rightarrow> u8 list list result \<times> unit" where
  "g7xx_payload self mtu payload =
     (if payload = [] \<or> mtu = 0 then (Ok [], self)
      else (fragment_loop mtu (\<lambda>_. []) payload (length payload) 0 True, self))"

definition smpte336m_payload :: "unit \<Rightarrow> nat \<Rightarrow> u8 list \<Rightarrow> u8 list list result \<times> unit" where
  "smpte336m_payload self mtu payload =
     (if payload = [] \<or> mtu = 0 then (Ok [], self)
      else (fragment_loop mtu (\<lambda>_. []) payload (length payload) 0 True, self))"

definition smpte336m_depacketize :: "u8 list \<Rightarrow> u8 list result" where
  "smpte336m_depacketize packet = Ok packet"

lemma fragment_whole:
  assumes "0 < mx" "\<And>b. length (d b) = k"
  shows "\<exists>ps. fragment_loop mx d b (length b) 0 True = Ok ps \<and> concat (map (drop k) ps) = b \<and>
    (\<forall>p\<in>set ps. k < length p \<and> length p \<le> k + mx) \<and> length ps = (length b + mx - 1) div mx"
proof (intro exI conjI)
  let ?ps = "describe d True (chunks mx b)"
  show "fragment_loop mx d b (length b) 0 True = Ok ?ps"
    using fragment_loop_chunks [of 0 "length b" b mx d True] assms(1) by simp
  show "concat (map (drop k) ?ps) = b"
    using assms by (simp add: describe_bodies concat_chunks)
  show "\<forall>p\<in>set ?ps. k < length p \<and> length p \<le> k + mx"
    using describe_size [of d k _ True "chunks mx b", OF assms(2)] chunks_size [of _ mx b] by fastforce
  show "length ?ps = (length b + mx - 1) div mx"
    using assms(1) by (simp add: length_chunks)
qed

interpretation g7xx: payloader g7xx_payload "\<lambda>_. 0"
proof (unfold_locales, goal_cases)
  case (1 s mtu b)
  then show ?case
    using fragment_whole [of mtu "\<lambda>_. []" 0 b] by (auto simp: g7xx_payload_def)
qed (simp add: g7xx_payload_def)

interpretation smpte336m: payloader smpte336m_payload "\<lambda>_. 0"
proof (unfold_locales, goal_cases)
  case (1 s mtu b)
  then show ?case
    using fragment_whole [of mtu "\<lambda>_. []" 0 b] by (auto simp: smpte336m_payload_def)
qed (simp add: smpte336m_payload_def)

section \<open>Opus\<close>

definition opus_payload :: "unit \<Rightarrow> nat \<Rightarrow> u8 list \<Rightarrow> u8 list list result \<times> unit" where
  "opus_payload self mtu payload =
     (if payload = [] \<or> mtu = 0 then (Ok [], self) else (Ok [payload], self))"

definition opus_depacketize :: "u8 list \<Rightarrow> u8 list result" where
  "opus_depacketize packet = (if packet = [] then Err ErrShortPacket else Ok packet)"

section \<open>VP8\<close>

definition VP8_HEADER_SIZE :: nat where [simp]: "VP8_HEADER_SIZE = 1"

record vp8_payloader =
  enable_picture_id :: bool
  vp8_picture_id :: u16

definition vp8_using_header_size :: "vp8_payloader \<Rightarrow> nat" where
  "vp8_using_header_size self =
     (if enable_picture_id self then
        if vp8_picture_id self = 0 \<or> vp8_picture_id self < 128 then VP8_HEADER_SIZE + 2
        else VP8_HEADER_SIZE + 3
      else VP8_HEADER_SIZE)"

text \<open>The descriptor bytes \<open>buf[..using_header_size]\<close> of a fragment.\<close>

definition vp8_descriptor :: "vp8_payloader \<Rightarrow> bool \<Rightarrow> u8 list" where
  "vp8_descriptor self first =
     (let using_header_size = vp8_using_header_size self;
          buf0 = (if first then 0x10 else 0);
          buf = (if enable_picture_id self then
                   if using_header_size = VP8_HEADER_SIZE + 2 then
                     [buf0 OR 0x80, 0x80, ucast (vp8_picture_id self AND 0x7F), 0]
                   else if using_header_size = VP8_HEADER_SIZE + 3 then
                     [buf0 OR 0x80, 0x80, 0x80 OR ucast (drop_bit 8 (vp8_picture_id self) AND 0x7F),
                      ucast (vp8_picture_id self AND 0xFF)]
                   else [buf0, 0, 0, 0]
                 else [buf0, 0, 0, 0])
      in take using_header_size buf)"

definition vp8_payload :: "vp8_payloader \<Rightarrow> nat \<Rightarrow> u8 list \<Rightarrow> u8 list list result \<times> vp8_payloader" where
  "vp8_payload self mtu payload =
     (if payload = [] \<or> mtu = 0 then (Ok [], self)
      else
        let max_fragment_size = int mtu - int (vp8_using_header_size self) in
        if min max_fragment_size (int (length payload)) \<le> 0 then (Ok [], self)
        else case fragment_loop (nat max_fragment_size) (vp8_descriptor self) payload (length payload) 0 True of
            Inl e \<Rightarrow> (Err e, self)
          | Inr payloads \<Rightarrow>
              (Ok payloads, self\<lparr>vp8_picture_id := (vp8_picture_id self + 1) AND 0x7FFF\<rparr>))"

lemma length_vp8_descriptor: "length (vp8_descriptor self first) = vp8_using_header_size self"
  by (simp add: vp8_descriptor_def vp8_using_header_size_def Let_def)

lemma vp8_payload_eq:
  assumes "vp8_using_header_size self < mtu" "payload \<noteq> []"
  shows "vp8_payload self mtu payload =
    (Ok (describe (vp8_descriptor self) True (chunks (mtu - vp8_using_header_size self) payload)),
     self\<lparr>vp8_picture_id := (vp8_picture_id self + 1) AND 0x7FFF\<rparr>)"
  using assms fragment_loop_chunks [of 0 "length payload" payload "mtu - vp8_using_header_size self"]
  by (auto simp: vp8_payload_def Let_def nat_diff_distrib' min_le_iff_disj)

interpretation vp8: payloader vp8_payload vp8_using_header_size
proof (unfold_locales, goal_cases)
  case (1 s mtu b)
  show ?case
  proof (cases "b = []")
    case False
    from 1 have "0 < mtu - vp8_using_header_size s" by simp
    from fragment_whole [where d = "vp8_descriptor s" and b = b, OF this length_vp8_descriptor] show ?thesis
      using vp8_payload_eq [OF 1 False] 1
        fragment_loop_chunks [of 0 "length b" b "mtu - vp8_using_header_size s" "vp8_descriptor s" True]
      by auto
  qed (simp add: vp8_payload_def)
next
  case (2 mtu s b)
  then show ?case by (simp add: vp8_payload_def)
qed

subsection \<open>The VP8 depacketizer\<close>

record vp8_packet =
  vp8_x :: u8
  vp8_n :: u8
  vp8_s :: u8
  vp8_pid :: u8
  vp8_i :: u8
  vp8_l :: u8
  vp8_t :: u8
  vp8_k :: u8
  vp8_pkt_picture_id :: u16
  vp8_tl0_pic_idx :: u8
  vp8_tid :: u8
  vp8_y :: u8
  vp8_key_idx :: u8

text \<open>
  The reads of \<open>depacketize\<close> in order. Each one maps the packet's fields, the reader and the index of
  the payload; the reader panics at its end.
\<close>

type_synonym vp8_reader = "vp8_packet \<times> u8 list \<times> nat"

definition vp8_read_required :: "vp8_reader \<Rightarrow> vp8_reader result" where
  "vp8_read_required = (\<lambda>(self, reader, payload_index).
     and_then (get_u8 reader) (\<lambda>(b, reader).
       Ok (self\<lparr>vp8_x := drop_bit 7 (b AND 0x80), vp8_n := drop_bit 5 (b AND 0x20),
                vp8_s := drop_bit 4 (b AND 0x10), vp8_pid := b AND 0x07\<rparr>, reader, payload_index + 1)))"

definition vp8_read_extended :: "vp8_reader \<Rightarrow> vp8_reader result" where
  "vp8_read_extended = (\<lambda>(self, reader, payload_index).
     if vp8_x self = 1 then
       and_then (get_u8 reader) (\<lambda>(b, reader).
         Ok (self\<lparr>vp8_i := drop_bit 7 (b AND 0x80), vp8_l := drop_bit 6 (b AND 0x40),
                  vp8_t := drop_bit 5 (b AND 0x20), vp8_k := drop_bit 4 (b AND 0x10)\<rparr>, reader, payload_index + 1))
     else Ok (self, reader, payload_index))"

definition vp8_read_picture_id :: "vp8_reader \<Rightarrow> vp8_reader result" where
  "vp8_read_picture_id = (\<lambda>(self, reader, payload_index).
     if vp8_i self = 1 then
       and_then (get_u8 reader) (\<lambda>(b, reader).
         if b AND 0x80 > 0 then
           and_then (get_u8 reader) (\<lambda>(c, reader).
             Ok (self\<lparr>vp8_pkt_picture_id := push_bit 8 (ucast (b AND 0x7F)) OR ucast c\<rparr>, reader, payload_index + 2))
         else Ok (self\<lparr>vp8_pkt_picture_id := ucast b\<rparr>, reader, payload_index + 1))
     else Ok (self, reader, payload_index))"

definition vp8_read_tl0 :: "vp8_reader \<Rightarrow> vp8_reader result" where
  "vp8_read_tl0 = (\<lambda>(self, reader, payload_index).
     if vp8_l self = 1 then
       and_then (get_u8 reader) (\<lambda>(b, reader). Ok (self\<lparr>vp8_tl0_pic_idx := b\<rparr>, reader, payload_index + 1))
     else Ok (self, reader, payload_index))"

definition vp8_read_tid :: "vp8_reader \<Rightarrow> vp8_reader result" where
  "vp8_read_tid = (\<lambda>(self, reader, payload_index).
     if vp8_t self = 1 \<or> vp8_k self = 1 then
       and_then (get_u8 reader) (\<lambda>(b, reader).
         let self = (if vp8_t self = 1 then self\<lparr>vp8_tid := drop_bit 6 b, vp8_y := drop_bit 5 b AND 0x1\<rparr> else self);
             self = (if vp8_k self = 1 then self\<lparr>vp8_key_idx := b AND 0x1F\<rparr> else self)
         in Ok (self, reader, payload_index + 1))
     else Ok (self, reader, payload_index))"

text \<open>Stop with \<open>ErrShortPacket\<close> when the index has reached the end, keeping the fields read so far.\<close>

definition vp8_checked ::
  "nat \<Rightarrow> vp8_packet \<Rightarrow> vp8_reader result \<Rightarrow> (vp8_reader \<Rightarrow> vp8_packet \<times> u8 list result) \<Rightarrow>
   vp8_packet \<times> u8 list result" where
  "vp8_checked payload_len self r k = (case r of
       Inl e \<Rightarrow> (self, Err e)
     | Inr (self', reader, payload_index) \<Rightarrow>
         if payload_index \<ge> payload_len then (self', Err ErrShortPacket) else k (self', reader, payload_index))"

definition vp8_depacketize :: "vp8_packet \<Rightarrow> u8 list \<Rightarrow> vp8_packet \<times> u8 list result" where
  "vp8_depacketize self packet =
     (let payload_len = length packet in
      if payload_len < 4 then (self, Err ErrShortPacket)
      else
        vp8_checked payload_len self
          (and_then (vp8_read_required (self, packet, 0)) (\<lambda>r. and_then (vp8_read_extended r) vp8_read_picture_id))
          (\<lambda>r. vp8_checked payload_len (fst r) (vp8_read_tl0 r)
          (\<lambda>r. vp8_checked payload_len (fst r) (vp8_read_tid r)
          (\<lambda>(self, _, payload_index). (self, bytes_slice packet payload_index payload_len)))))"

definition vp8_is_partition_head :: "u8 list \<Rightarrow> bool" where
  "vp8_is_partition_head payload = (if payload = [] then False else payload ! 0 AND 0x10 \<noteq> 0)"

definition vp8_is_partition_tail :: "bool \<Rightarrow> u8 list \<Rightarrow> bool" where
  "vp8_is_partition_tail marker payload = marker"

text \<open>The reader and the index stay in step, so a read inside the packet does not panic.\<close>

definition vp8_in_step :: "u8 list \<Rightarrow> vp8_reader \<Rightarrow> bool" where
  "vp8_in_step packet = (\<lambda>(self, reader, i). i \<le> length packet \<and> reader = drop i packet)"

lemma get_u8_drop: "i < length packet \<Longrightarrow> get_u8 (drop i packet) = Ok (packet ! i, drop (i + 1) packet)"
  using Cons_nth_drop_Suc [of i packet, symmetric] by simp

lemmas vp8_reads = vp8_read_required_def vp8_read_extended_def vp8_read_picture_id_def vp8_read_tl0_def
  vp8_read_tid_def

lemma vp8_reads_in_step:
  assumes "vp8_in_step packet (self, reader, i)"
  shows "i < length packet \<Longrightarrow> \<exists>self'. vp8_read_tl0 (self, reader, i) =
      Ok (self', drop (if vp8_l self = 1 then i + 1 else i) packet, if vp8_l self = 1 then i + 1 else i)"
    and "i < length packet \<Longrightarrow> \<exists>self' j. vp8_read_tid (self, reader, i) = Ok (self', drop j packet, j) \<and> j \<le> i + 1"
    and "i + 4 \<le> length packet \<Longrightarrow> \<exists>self' j. and_then (vp8_read_required (self, reader, i))
        (\<lambda>r. and_then (vp8_read_extended r) vp8_read_picture_id) = Ok (self', drop j packet, j) \<and> j \<le> i + 4"
  using assms
  by (auto simp: vp8_reads vp8_in_step_def get_u8_drop Let_def)

lemma vp8_depacketize_no_panic: "snd (vp8_depacketize self packet) \<noteq> Err Panic"
proof (cases "length packet < 4")
  case False
  have "vp8_in_step packet (self, packet, 0)" by (simp add: vp8_in_step_def)
  from vp8_reads_in_step(3) [OF this] False obtain s1 j1 where
    1: "and_then (vp8_read_required (self, packet, 0))
        (\<lambda>r. and_then (vp8_read_extended r) vp8_read_picture_id) = Ok (s1, drop j1 packet, j1)" by auto
  have *: "snd (vp8_checked (length packet) (fst r) (vp8_read_tid r)
      (\<lambda>(self, _, payload_index). (self, bytes_slice packet payload_index (length packet)))) \<noteq> Err Panic"
    if "vp8_in_step packet r" "snd (snd r) < length packet" for r
    using that vp8_reads_in_step(2) [of packet "fst r" "fst (snd r)" "snd (snd r)"]
    by (auto simp: vp8_checked_def bytes_slice_def split: if_splits)
  have **: "snd (vp8_checked (length packet) s1 (vp8_read_tl0 (s1, drop j1 packet, j1))
      (\<lambda>r. vp8_checked (length packet) (fst r) (vp8_read_tid r)
      (\<lambda>(self, _, payload_index). (self, bytes_slice packet payload_index (length packet))))) \<noteq> Err Panic"
    if "j1 < length packet"
  proof -
    have "vp8_in_step packet (s1, drop j1 packet, j1)" using that by (simp add: vp8_in_step_def)
    from vp8_reads_in_step(1) [OF this that] obtain s2 j2 where
      2: "vp8_read_tl0 (s1, drop j1 packet, j1) = Ok (s2, drop j2 packet, j2)" by blast
    show ?thesis
    proof (cases "j2 < length packet")
      case True
      with * [of "(s2, drop j2 packet, j2)"] 2 show ?thesis
        by (simp add: vp8_checked_def [of _ s1] vp8_in_step_def)
    qed (simp add: 2 vp8_checked_def [of _ s1])
  qed
  show ?thesis
  proof (cases "j1 < length packet")
    case True
    with ** False show ?thesis
      by (simp add: vp8_depacketize_def Let_def vp8_checked_def [of _ self] 1)
  qed (use False in \<open>simp add: vp8_depacketize_def Let_def vp8_checked_def [of _ self] 1\<close>)
qed (simp add: vp8_depacketize_def)

subsection \<open>From the payloader to the depacketizer\<close>

text \<open>The two forms of the picture id survive the descriptor.\<close>

lemma vp8_short_picture_id:
  assumes "(p :: u16) < 128"
  shows "(ucast (p AND 0x7F) :: u8) AND 0x80 = 0" "ucast (ucast (p AND 0x7F) :: u8) = p"
proof -
  have p: "bit p n \<Longrightarrow> n < 7" for n
    using bit_less_exp [of p 7 n] assms by simp
  have m: "(0x7F :: u16) = mask 7" by (simp add: mask_eq_exp_minus_1)
  show "(ucast (p AND 0x7F) :: u8) AND 0x80 = 0"
    unfolding test_bits_u8 m by (simp add: bit_simps)
  show "ucast (ucast (p AND 0x7F) :: u8) = p"
    unfolding m by (rule bit_word_eqI) (auto simp: bit_simps dest: p)
qed

lemma vp8_long_picture_id:
  assumes "(p :: u16) < 0x8000"
  defines "b \<equiv> 0x80 OR ucast (drop_bit 8 p AND 0x7F) :: u8"
  shows "b AND 0x80 \<noteq> 0" "push_bit 8 (ucast (b AND 0x7F)) OR ucast (ucast (p AND 0xFF) :: u8) = p"
proof -
  have p: "bit p n \<Longrightarrow> n < 15" for n
    using bit_less_exp [of p 15 n] assms by simp
  have m: "(0x7F :: u16) = mask 7" "(0xFF :: u16) = mask 8" by (simp_all add: mask_eq_exp_minus_1)
  show "b AND 0x80 \<noteq> 0"
    unfolding b_def test_bits_u8 by (simp add: bit_simps)
  show "push_bit 8 (ucast (b AND 0x7F)) OR ucast (ucast (p AND 0xFF) :: u8) = p"
    unfolding b_def field_masks m
  proof (rule bit_word_eqI, goal_cases)
    case (1 n)
    consider "n < 8" | "8 \<le> n \<and> n < 15" | "15 \<le> n" by linarith
    then show ?case
      by cases (use p [of n] in \<open>auto simp: bit_simps field_bits simp del: bit_numeral_word_iff\<close>)
  qed
qed

definition vp8_flags_clear :: "vp8_packet \<Rightarrow> bool" where
  "vp8_flags_clear s \<longleftrightarrow> vp8_i s = 0 \<and> vp8_l s = 0 \<and> vp8_t s = 0 \<and> vp8_k s = 0"

lemma vp8_descriptor_simps:
  "\<not> enable_picture_id pl \<Longrightarrow> vp8_descriptor pl first = [if first then 0x10 else 0]"
  "enable_picture_id pl \<Longrightarrow> vp8_picture_id pl < 128 \<Longrightarrow> vp8_descriptor pl first =
     [(if first then 0x10 else 0) OR 0x80, 0x80, ucast (vp8_picture_id pl AND 0x7F)]"
  "enable_picture_id pl \<Longrightarrow> \<not> vp8_picture_id pl < 128 \<Longrightarrow> vp8_descriptor pl first =
     [(if first then 0x10 else 0) OR 0x80, 0x80, 0x80 OR ucast (drop_bit 8 (vp8_picture_id pl) AND 0x7F),
      ucast (vp8_picture_id pl AND 0xFF)]"
  by (auto simp: vp8_descriptor_def vp8_using_header_size_def Let_def)

lemma vp8_depacketize_fragment:
  assumes "c \<noteq> []" "4 \<le> length (vp8_descriptor pl first @ c)" "vp8_picture_id pl < 0x8000"
    and "enable_picture_id pl \<or> vp8_flags_clear self"
  shows "\<exists>self'. vp8_depacketize self (vp8_descriptor pl first @ c) = (self', Ok c) \<and>
    vp8_s self' = (if first then 1 else 0) \<and> (enable_picture_id pl \<or> vp8_flags_clear self') \<and>
    (enable_picture_id pl \<longrightarrow> vp8_pkt_picture_id self' = vp8_picture_id pl)"
proof -
  consider (plain) "\<not> enable_picture_id pl" "vp8_flags_clear self"
    | (short) "enable_picture_id pl" "vp8_picture_id pl < 128"
    | (long) "enable_picture_id pl" "\<not> vp8_picture_id pl < 128"
    using assms(4) by blast
  then show ?thesis
  proof cases
    case plain
    with assms(1,2) show ?thesis
      by (auto simp: vp8_descriptor_simps vp8_depacketize_def vp8_checked_def vp8_reads bytes_slice_def
          vp8_flags_clear_def Let_def)
  next
    case short
    with assms(1,2) vp8_short_picture_id [OF short(2)] show ?thesis
      by (auto simp: vp8_descriptor_simps vp8_depacketize_def vp8_checked_def vp8_reads bytes_slice_def Let_def)
  next
    case long
    with assms(1,2) vp8_long_picture_id [OF assms(3)] show ?thesis
      by (auto simp: vp8_descriptor_simps vp8_depacketize_def vp8_checked_def vp8_reads bytes_slice_def
          Let_def word_gt_0)
  qed
qed

text \<open>A receiver that feeds the fragments of a frame to one depacketizer, in order.\<close>

fun vp8_depacketize_all :: "vp8_packet \<Rightarrow> u8 list list \<Rightarrow> u8 list result" where
  "vp8_depacketize_all self [] = Ok []"
| "vp8_depacketize_all self (p # ps) = (case vp8_depacketize self p of
     (self', r) \<Rightarrow> and_then r (\<lambda>c. and_then (vp8_depacketize_all self' ps) (\<lambda>cs. Ok (c @ cs))))"

lemma vp8_depacketize_described:
  assumes "\<And>c. c \<in> set cs \<Longrightarrow> c \<noteq> []" "\<And>p. p \<in> set (describe (vp8_descriptor pl) first cs) \<Longrightarrow> 4 \<le> length p"
    and "vp8_picture_id pl < 0x8000" "enable_picture_id pl \<or> vp8_flags_clear self"
  shows "vp8_depacketize_all self (describe (vp8_descriptor pl) first cs) = Ok (concat cs)"
  using assms
proof (induction cs arbitrary: self first)
  case (Cons c cs)
  have "c \<noteq> []" using Cons.prems(1) by simp
  moreover have "4 \<le> length (vp8_descriptor pl first @ c)" by (rule Cons.prems(2)) simp
  ultimately have "c \<noteq> []" "4 \<le> length (vp8_descriptor pl first @ c)" .
  from vp8_depacketize_fragment [OF this Cons.prems(3,4)] obtain self' where
    "vp8_depacketize self (vp8_descriptor pl first @ c) = (self', Ok c)"
    "enable_picture_id pl \<or> vp8_flags_clear self'" by blast
  with Cons.IH [of False self'] Cons.prems show ?case by auto
qed simp

lemma picture_id_wraps: "(p :: u16) AND 0x7FFF < 0x8000"
proof -
  have "(0x7FFF :: u16) = mask 15" by (simp add: mask_eq_exp_minus_1)
  with and_mask_less' [of 15 p] show ?thesis by simp
qed

section \<open>Properties\<close>


definition example_vp8_packet :: vp8_packet where
  "example_vp8_packet = \<lparr>vp8_x = 0, vp8_n = 0, vp8_s = 0, vp8_pid = 0, vp8_i = 0, vp8_l = 0, vp8_t = 0,
     vp8_k = 0, vp8_pkt_picture_id = 0, vp8_tl0_pic_idx = 0, vp8_tid = 0, vp8_y = 0, vp8_key_idx = 0\<rparr>"


text \<open>
  C11: \<open>Vp8Packet::depacketize\<close> never panics, whatever the packet and whatever an earlier packet left
  in the depacketizer.
\<close>

theorem vp8_depacketize_total: "snd (vp8_depacketize self packet) \<noteq> Err Panic"
  by (rule vp8_depacketize_no_panic)

text \<open>
  C12: A reused VP8 depacketizer misreads packets. The extension bits of an earlier packet are not
  cleared by a packet without extension, so the first byte of its payload is taken for a picture id
  and lost.
\<close>

theorem vp8_stale_flags:
  assumes "vp8_i self = 1" "vp8_l self = 0" "vp8_t self = 0" "vp8_k self = 0" "a < 128" "2 \<le> length rest"
  shows "snd (vp8_depacketize self (0x10 # a # rest)) = Ok rest"
proof -
  have "\<not> bit a 7" using bit_less_exp [of a 7 7] assms(5) by auto
  then have "a AND 0x80 = 0" by (simp add: test_bits_u8)
  with assms show ?thesis
    by (auto simp: vp8_depacketize_def vp8_checked_def vp8_reads bytes_slice_def Let_def)
qed

theorem vp8_stale_flags_witness:
  "snd (vp8_depacketize (example_vp8_packet\<lparr>vp8_i := 1\<rparr>) [0x10, 1, 2, 3]) = Ok [2, 3]"
  using vp8_stale_flags [of "example_vp8_packet\<lparr>vp8_i := 1\<rparr>" 1 "[2, 3]"]
  by (simp add: example_vp8_packet_def)

text \<open>
  The depacketizer rejects short fragments that the payloader makes: without a picture id, a frame
  or a last fragment of one or two bytes is not delivered.
\<close>

theorem vp8_short_fragment_rejected:
  assumes "\<not> enable_picture_id pl" "frame \<noteq> []" "length frame \<le> 2" "3 \<le> mtu"
  shows "\<exists>p pl'. vp8_payload pl mtu frame = (Ok [p], pl') \<and>
    vp8_depacketize self p = (self, Err ErrShortPacket)"
proof -
  have "chunks (mtu - 1) frame = [frame]"
    using assms by (subst chunks_step) auto
  with assms show ?thesis
    by (simp add: vp8_payload_eq vp8_using_header_size_def vp8_descriptor_simps vp8_depacketize_def)
qed

theorem vp8_short_fragment_rejected_witness:
  "\<exists>p pl'. vp8_payload \<lparr>enable_picture_id = False, vp8_picture_id = 0\<rparr> 1200 [7] = (Ok [p], pl') \<and>
    vp8_depacketize example_vp8_packet p = (example_vp8_packet, Err ErrShortPacket)"
  by (rule vp8_short_fragment_rejected) simp_all

text \<open>
  G.711 and G.722 frames are cut into the fewest fragments that fit: each one within the MTU, none
  empty, and joined in order they are the frame.
\<close>

theorem g7xx_splits:
  assumes "0 < mtu"
  shows "\<exists>ps. g7xx_payload () mtu frame = (Ok ps, ()) \<and> concat ps = frame \<and>
    (\<forall>p\<in>set ps. p \<noteq> [] \<and> length p \<le> mtu) \<and> length ps = (length frame + mtu - 1) div mtu"
  using fragment_whole [of mtu "\<lambda>_. []" 0 frame] assms
  by (cases "frame = []") (auto simp: g7xx_payload_def)

theorem g7xx_splits_witness:
  "\<exists>ps. g7xx_payload () 2 [1, 2, 3] = (Ok ps, ()) \<and> concat ps = [1, 2, 3] \<and> length ps = 2"
  using g7xx_splits [of 2 "[1, 2, 3]"] by auto

end
