(* ===== verification/Shared_Time.thy ===== *)
theory Shared_Time
  imports Rtc_Prelude
begin

text \<open>
  Wall-clock time and NTP timestamps (\<open>rtc-shared/src/time.rs\<close>). A \<open>std::time::Instant\<close> and a
  \<open>Duration\<close> are natural numbers of nanoseconds; the clock that is read by \<open>SystemInstant::now\<close> is
  an argument. The lemmas bound the error of converting to NTP and back.
\<close>

unbundle bit_operations_syntax

section \<open>Definitions\<close>

record system_instant =
  si_instant :: nat
  si_duration_since_unix_epoch :: nat

definition system_instant_now :: "nat \<Rightarrow> nat \<Rightarrow> system_instant" where
  "system_instant_now now wall_clock = \<lparr>si_instant = now, si_duration_since_unix_epoch = wall_clock\<rparr>"

definition system_instant_instant :: "system_instant \<Rightarrow> nat \<Rightarrow> nat result" where
  "system_instant_instant si d =
     (if si_instant si + d < si_duration_since_unix_epoch si then Err Panic
      else Ok (si_instant si + d - si_duration_since_unix_epoch si))"

text \<open>\<open>Instant::duration_since\<close> saturates at zero, as truncated subtraction does.\<close>

definition system_instant_unix :: "system_instant \<Rightarrow> nat \<Rightarrow> nat" where
  "system_instant_unix si now = (now - si_instant si) + si_duration_since_unix_epoch si"

definition unix2ntp :: "nat \<Rightarrow> u64" where
  "unix2ntp d =
     (let u = of_nat d; s = u div 1000000000 + 0x83AA7E80;
          f = push_bit 32 (u mod 1000000000) div 1000000000
      in push_bit 32 s OR f)"

definition ntp2unix :: "u64 \<Rightarrow> nat" where
  "ntp2unix ntp =
     (let s = drop_bit 32 ntp; f = drop_bit 32 ((ntp AND 0xFFFFFFFF) * 1000000000);
          s = s - 0x83AA7E80; u = s * 1000000000 + f
      in unat u)"

definition system_instant_ntp :: "system_instant \<Rightarrow> nat \<Rightarrow> u64" where
  "system_instant_ntp si now = unix2ntp (system_instant_unix si now)"

section \<open>Conversion to NTP\<close>

text \<open>The values the words hold, for times before the end of the NTP era in 2036.\<close>

lemma unat_push_bit_32: "unat (x :: u64) < 2 ^ 32 \<Longrightarrow> unat (push_bit 32 x) = unat x * 2 ^ 32"
  by (simp only: unsigned_push_bit_eq) (simp add: push_bit_eq_mult take_bit_eq_mod)

lemma unat_join_32:
  assumes "unat (s :: u64) < 2 ^ 32" "unat f < 2 ^ 32"
  shows "unat (push_bit 32 s OR f) = unat s * 2 ^ 32 + unat f"
proof -
  have f: "bit f n \<Longrightarrow> n < 32" for n
    using bit_less_exp [of f 32 n] assms(2) by (simp add: word_less_nat_alt)
  have "push_bit 32 s AND f = 0"
    by (rule bit_word_eqI) (auto simp: bit_simps dest: f)
  then have "push_bit 32 s OR f = push_bit 32 s + f"
    by (simp add: disjunctive_add_eq_or)
  moreover have "unat (push_bit 32 s) + unat f < 2 ^ 64"
    using assms by (simp add: unat_push_bit_32)
  ultimately show ?thesis
    using assms by (simp add: unat_push_bit_32 unat_word_ariths)
qed

lemma unat_unix2ntp:
  assumes "d < (2 ^ 32 - 0x83AA7E80) * 1000000000"
  shows "unat (unix2ntp d) =
    (d div 1000000000 + 0x83AA7E80) * 2 ^ 32 + d mod 1000000000 * 2 ^ 32 div 1000000000"
proof -
  let ?u = "of_nat d :: u64"
  have u: "unat ?u = d" using assms by (simp add: unat_of_nat)
  have "d div 1000000000 < 2 ^ 32 - 0x83AA7E80"
    using assms by (simp add: div_less_iff_less_mult)
  then have s: "unat (?u div 1000000000 + 0x83AA7E80) = d div 1000000000 + 0x83AA7E80"
    by (simp add: unat_word_ariths unat_div u)
  have m: "unat (?u mod 1000000000) = d mod 1000000000"
    by (simp add: unat_mod u)
  have lt: "d mod 1000000000 < 1000000000" by simp
  then have "unat (push_bit 32 (?u mod 1000000000)) = d mod 1000000000 * 2 ^ 32"
    using unat_push_bit_32 [of "?u mod 1000000000"] by (simp add: m)
  then have f: "unat (push_bit 32 (?u mod 1000000000) div 1000000000) = d mod 1000000000 * 2 ^ 32 div 1000000000"
    by (simp add: unat_div)
  have "d mod 1000000000 * 2 ^ 32 div 1000000000 < 2 ^ 32"
    using lt by (simp add: div_less_iff_less_mult)
  with \<open>d div 1000000000 < _\<close> show ?thesis
    unfolding unix2ntp_def Let_def by (subst unat_join_32) (simp_all add: s f)
qed

lemma ntp2unix_eq:
  assumes "0x83AA7E80 * 2 ^ 32 \<le> unat ntp"
  shows "ntp2unix ntp = (unat ntp div 2 ^ 32 - 0x83AA7E80) * 1000000000 + unat ntp mod 2 ^ 32 * 1000000000 div 2 ^ 32"
proof -
  have n: "unat ntp < 2 ^ 64" using unsigned_less [of ntp, where ?'a = nat] by simp
  have s: "unat (drop_bit 32 ntp) = unat ntp div 2 ^ 32"
    using n by (simp only: unsigned_drop_bit_eq) (simp add: drop_bit_eq_div take_bit_eq_mod)
  have "0x83AA7E80 \<le> unat ntp div 2 ^ 32" using assms by (simp add: less_eq_div_iff_mult_less_eq)
  then have s2: "unat (drop_bit 32 ntp - 0x83AA7E80) = unat ntp div 2 ^ 32 - 0x83AA7E80"
    by (subst unat_sub) (simp_all add: s word_le_nat_alt)
  have mask: "ntp AND 0xFFFFFFFF = take_bit 32 ntp"
    by (simp add: take_bit_eq_mask mask_eq_exp_minus_1)
  have f0: "unat (ntp AND 0xFFFFFFFF) = unat ntp mod 2 ^ 32"
    unfolding mask by (simp only: unsigned_take_bit_eq) (simp add: take_bit_eq_mod)
  have lt: "unat ntp mod 2 ^ 32 < 2 ^ 32" by simp
  have f1: "unat ((ntp AND 0xFFFFFFFF) * 1000000000) = unat ntp mod 2 ^ 32 * 1000000000"
    using lt by (subst unat_mult_lem [THEN iffD1]) (simp_all add: f0)
  then have f: "unat (drop_bit 32 ((ntp AND 0xFFFFFFFF) * 1000000000)) = unat ntp mod 2 ^ 32 * 1000000000 div 2 ^ 32"
    using lt by (simp only: unsigned_drop_bit_eq) (simp add: drop_bit_eq_div take_bit_eq_mod)
  have q: "unat ntp div 2 ^ 32 < 2 ^ 32" using n by (simp add: div_less_iff_less_mult)
  have b: "unat ntp mod 2 ^ 32 * 1000000000 div 2 ^ 32 < 1000000000"
    using lt by (simp add: div_less_iff_less_mult)
  have m: "unat ((drop_bit 32 ntp - 0x83AA7E80) * 1000000000) = (unat ntp div 2 ^ 32 - 0x83AA7E80) * 1000000000"
    using q by (subst unat_mult_lem [THEN iffD1]) (simp_all add: s2)
  show ?thesis
    unfolding ntp2unix_def Let_def using q b
    by (subst unat_add_lem [THEN iffD1]) (simp_all only: m f, simp_all)
qed

text \<open>Scaling to a binary fraction and back loses at most one unit.\<close>

lemma fraction_error:
  fixes x G P :: nat
  assumes "0 < G" "G \<le> P"
  shows "x * P div G * G div P \<in> {x - 1, x}"
proof -
  define y where "y = x * P div G"
  have P: "0 < P" using assms by simp
  have "y * G div P \<le> x * P div P"
    unfolding y_def by (intro div_le_mono) simp
  then have hi: "y * G div P \<le> x" using P by simp
  have "x * P < (y + 1) * G"
    unfolding y_def using assms(1) dividend_less_times_div [of G "x * P"] by (simp add: algebra_simps)
  then have "(x - 1) * P \<le> y * G" using assms(2) by (cases x) (auto simp: algebra_simps)
  then have "x - 1 \<le> y * G div P" using P by (simp add: less_eq_div_iff_mult_less_eq)
  with hi show ?thesis unfolding y_def by auto
qed

lemma split_words: "(f :: nat) < P \<Longrightarrow> (a * P + f) div P = a" "f < P \<Longrightarrow> (a * P + f) mod P = f"
  by simp_all

section \<open>Properties\<close>

text \<open>
  C6: Converting a wall-clock time to NTP and back loses at most one nanosecond, for every time
  before the end of the NTP era in February 2036.
\<close>

theorem ntp_round_trip:
  assumes "d < (2 ^ 32 - 0x83AA7E80) * 1000000000"
  shows "ntp2unix (unix2ntp d) \<in> {d - 1, d}"
proof -
  let ?G = "1000000000 :: nat" and ?K = "0x83AA7E80 :: nat"
  let ?f = "d mod ?G * 2 ^ 32 div ?G"
  note u = unat_unix2ntp [OF assms]
  have f: "?f < 2 ^ 32"
    using mod_less_divisor [of ?G d] by (simp add: div_less_iff_less_mult)
  have "?K * 2 ^ 32 \<le> unat (unix2ntp d)" unfolding u by simp
  from ntp2unix_eq [OF this] have "ntp2unix (unix2ntp d) = d div ?G * ?G + ?f * ?G div 2 ^ 32"
    unfolding u split_words [OF f] by (simp only: add_diff_cancel_right')
  moreover have "?f * ?G div 2 ^ 32 \<in> {d mod ?G - 1, d mod ?G}"
    by (rule fraction_error) simp_all
  moreover have "d mod ?G = 0 \<Longrightarrow> ?f * ?G div 2 ^ 32 = 0" by simp
  ultimately show ?thesis
    using div_mult_mod_eq [of d ?G] by (cases "d mod ?G") auto
qed

theorem ntp_round_trip_witness: "ntp2unix (unix2ntp 1700000000123456789) \<in> {1700000000123456788, 1700000000123456789}"
  using ntp_round_trip [of 1700000000123456789] by simp

text \<open>NTP timestamps order events as the wall clock does: a later time never gets a smaller one.\<close>

theorem unix2ntp_mono:
  assumes "d \<le> e" "e < (2 ^ 32 - 0x83AA7E80) * 1000000000"
  shows "unix2ntp d \<le> unix2ntp e"
proof -
  let ?G = "1000000000 :: nat"
  have d: "d < (2 ^ 32 - 0x83AA7E80) * ?G" using assms by simp
  have frac: "x mod ?G * 2 ^ 32 div ?G < 2 ^ 32" for x
    using mod_less_divisor [of ?G x] by (simp add: div_less_iff_less_mult)
  consider "d div ?G < e div ?G" | "d div ?G = e div ?G" "d mod ?G \<le> e mod ?G"
    using div_le_mono [OF assms(1), of ?G] assms(1) div_mult_mod_eq [of d ?G] div_mult_mod_eq [of e ?G]
    by (metis add_le_cancel_left le_neq_implies_less)
  then have "unat (unix2ntp d) \<le> unat (unix2ntp e)"
  proof cases
    case 1
    then have "(d div ?G + 1) * 2 ^ 32 \<le> (e div ?G) * 2 ^ 32" by (intro mult_le_mono1) simp
    then show ?thesis
      unfolding unat_unix2ntp [OF d] unat_unix2ntp [OF assms(2)] using frac [of d] by simp
  next
    case 2
    then show ?thesis
      unfolding unat_unix2ntp [OF d] unat_unix2ntp [OF assms(2)] by (simp add: div_le_mono)
  qed
  then show ?thesis by (simp add: word_le_nat_alt)
qed

theorem unix2ntp_mono_witness: "unix2ntp 5 \<le> unix2ntp 1700000000123456789"
  using unix2ntp_mono [of 5 1700000000123456789] by simp

end
