(* ===== verification/Rtp_Packetizer.thy ===== *)
theory Rtp_Packetizer
  imports Rtp_Packet Rtp_Extensions Rtp_Codecs Shared_Time
begin

text \<open>
  The packetizer (\<open>rtc-rtp/src/packetizer/mod.rs\<close>): it cuts a frame with the codec's payloader, gives
  the packets consecutive sequence numbers and one timestamp, marks the last one, and may attach the
  absolute send time to it. The payloader is the trait object of the code: the operation \<open>payload\<close>
  and the payloader's state are arguments here. The lemmas hold for every payloader that meets the
  contract of \<open>payloader\<close>, and are used at the codecs of \<open>Rtp_Codecs\<close>.
\<close>

section \<open>Definitions\<close>

record 'p packetizer =
  pz_mtu :: nat
  pz_payload_type :: u8
  pz_ssrc :: u32
  pz_payloader :: 'p
  pz_sequencer :: sequencer
  pz_timestamp :: u32
  pz_clock_rate :: u32
  pz_abs_send_time_ext_id :: u8
  pz_time_baseline :: system_instant

text \<open>The random initial timestamp and the wall clock are arguments.\<close>

definition new_packetizer ::
  "u32 \<Rightarrow> nat \<Rightarrow> nat \<Rightarrow> nat \<Rightarrow> u8 \<Rightarrow> u32 \<Rightarrow> 'p \<Rightarrow> sequencer \<Rightarrow> u32 \<Rightarrow> 'p packetizer" where
  "new_packetizer random wall_clock now mtu payload_type ssrc pl sq clock_rate =
     \<lparr>pz_mtu = mtu, pz_payload_type = payload_type, pz_ssrc = ssrc, pz_payloader = pl,
      pz_sequencer = sq, pz_timestamp = random, pz_clock_rate = clock_rate,
      pz_abs_send_time_ext_id = 0, pz_time_baseline = system_instant_now now wall_clock\<rparr>"

definition enable_abs_send_time :: "'p packetizer \<Rightarrow> u8 \<Rightarrow> 'p packetizer" where
  "enable_abs_send_time self i = self\<lparr>pz_abs_send_time_ext_id := i\<rparr>"

definition skip_samples :: "'p packetizer \<Rightarrow> u32 \<Rightarrow> 'p packetizer" where
  "skip_samples self skipped_samples = self\<lparr>pz_timestamp := pz_timestamp self + skipped_samples\<rparr>"

definition packet_of :: "'p packetizer \<Rightarrow> bool \<Rightarrow> u16 \<Rightarrow> u8 list \<Rightarrow> rtp_packet" where
  "packet_of self marker sn payload =
     \<lparr>pkt_header = rtp_header_default\<lparr>rtp_version := 2, rtp_padding := False, rtp_extension := False,
        rtp_marker := marker, rtp_payload_type := pz_payload_type self, rtp_sequence_number := sn,
        rtp_timestamp := pz_timestamp self, rtp_ssrc := pz_ssrc self\<rparr>,
      pkt_payload = payload\<rparr>"

text \<open>The loop \<open>for (i, payload) in payloads.into_iter().enumerate()\<close>.\<close>

fun make_packets ::
  "'p packetizer \<Rightarrow> nat \<Rightarrow> nat \<Rightarrow> u8 list list \<Rightarrow> sequencer \<Rightarrow> rtp_packet list \<times> sequencer" where
  "make_packets self payloads_len i [] sq = ([], sq)"
| "make_packets self payloads_len i (payload # payloads) sq =
     (let (sn, sq) = next_sequence_number sq;
          (packets, sq) = make_packets self payloads_len (i + 1) payloads sq
      in (packet_of self (i = payloads_len - 1) sn payload # packets, sq))"

definition packetize ::
  "('p \<Rightarrow> nat \<Rightarrow> u8 list \<Rightarrow> u8 list list result \<times> 'p) \<Rightarrow> 'p packetizer \<Rightarrow> nat \<Rightarrow> u8 list \<Rightarrow> u32 \<Rightarrow>
   rtp_packet list result \<times> 'p packetizer" where
  "packetize payload_op self now payload samples =
     (case payload_op (pz_payloader self) (usize_sub (pz_mtu self) 12) payload of
        (Inl e, pl) \<Rightarrow> (Err e, self\<lparr>pz_payloader := pl\<rparr>)
      | (Inr payloads, pl) \<Rightarrow>
          let payloads_len = length payloads;
              (packets, sq) = make_packets self payloads_len 0 payloads (pz_sequencer self);
              self = self\<lparr>pz_payloader := pl, pz_sequencer := sq, pz_timestamp := pz_timestamp self + samples\<rparr>
          in
          if payloads_len \<noteq> 0 \<and> pz_abs_send_time_ext_id self \<noteq> 0 then
            let send_time = abs_send_time_new (system_instant_ntp (pz_time_baseline self) now);
                size = abs_send_time_marshal_size send_time;
                lst = packets ! (payloads_len - 1)
            in (and_then (abs_send_time_marshal_to send_time size) (\<lambda>(raw, _).
                  and_then (set_extension (pkt_header lst) (pz_abs_send_time_ext_id self) (advance_buf size raw))
                    (\<lambda>h. Ok (packets[payloads_len - 1 := lst\<lparr>pkt_header := h\<rparr>]))), self)
          else (Ok packets, self))"

section \<open>The packets of a frame\<close>

lemma make_packets_spec:
  assumes "make_packets self len i ps sq = (packets, sq')"
  shows "length packets = length ps" "sq' = snd (next_n (length ps) sq)"
    "\<forall>k<length ps. packets ! k =
       packet_of self (i + k = len - 1) (fst (next_n (length ps) sq) ! k) (ps ! k)"
proof -
  have "length packets = length ps \<and> sq' = snd (next_n (length ps) sq) \<and>
    (\<forall>k<length ps. packets ! k =
       packet_of self (i + k = len - 1) (fst (next_n (length ps) sq) ! k) (ps ! k))"
    using assms
  proof (induction ps arbitrary: i sq packets)
    case (Cons p ps)
    obtain sn sq1 where n: "next_sequence_number sq = (sn, sq1)" by fastforce
    obtain rest sq2 where r: "make_packets self len (i + 1) ps sq1 = (rest, sq2)" by fastforce
    with Cons.prems n have "packets = packet_of self (i = len - 1) sn p # rest" "sq' = sq2"
      by (simp_all add: Let_def)
    with Cons.IH [of "i + 1" sq1 rest] r n show ?case
      by (auto simp: Let_def split_def nth_Cons split: nat.splits)
  qed simp
  then show "length packets = length ps" "sq' = snd (next_n (length ps) sq)"
    "\<forall>k<length ps. packets ! k =
       packet_of self (i + k = len - 1) (fst (next_n (length ps) sq) ! k) (ps ! k)"
    by blast+
qed

text \<open>What an observer of the stream relies on in the packets of one frame.\<close>

definition frame_packets :: "'p packetizer \<Rightarrow> u8 list list \<Rightarrow> rtp_packet list \<Rightarrow> bool" where
  "frame_packets self ps packets \<longleftrightarrow> map pkt_payload packets = ps \<and>
     map (\<lambda>p. rtp_sequence_number (pkt_header p)) packets =
       map (\<lambda>k. sequence_number (pz_sequencer self) + of_nat (k + 1)) [0..<length ps] \<and>
     (\<forall>k<length packets. rtp_marker (pkt_header (packets ! k)) \<longleftrightarrow> k = length packets - 1) \<and>
     (\<forall>p\<in>set packets. rtp_timestamp (pkt_header p) = pz_timestamp self \<and>
        rtp_ssrc (pkt_header p) = pz_ssrc self \<and> rtp_payload_type (pkt_header p) = pz_payload_type self \<and>
        rtp_version (pkt_header p) = 2)"

lemma made_frame_packets:
  assumes "make_packets self (length ps) 0 ps (pz_sequencer self) = (packets, sq')"
  shows "frame_packets self ps packets"
proof -
  note spec = make_packets_spec [OF assms]
  have nth: "packets ! k = packet_of self (k = length ps - 1)
      (sequence_number (pz_sequencer self) + of_nat (k + 1)) (ps ! k)" if "k < length ps" for k
    using spec(3) that by (simp add: next_n_numbers)
  show ?thesis
    unfolding frame_packets_def all_set_conv_all_nth
    using nth spec(1)
    by (auto intro!: nth_equalityI simp: packet_of_def rtp_header_default_def)
qed

text \<open>Changing only the extension fields of a packet's header keeps a frame a frame.\<close>

lemma set_extension_other_fields:
  assumes "set_extension h i payload = Ok h'"
  shows "rtp_sequence_number h' = rtp_sequence_number h" "rtp_marker h' = rtp_marker h"
    "rtp_timestamp h' = rtp_timestamp h" "rtp_ssrc h' = rtp_ssrc h" "rtp_payload_type h' = rtp_payload_type h"
    "rtp_version h' = rtp_version h" "rtp_padding h' = rtp_padding h" "rtp_csrc h' = rtp_csrc h"
  using assms
  by (cases "find_extension i (rtp_extensions h)";
      auto simp: set_extension_def Let_def split: if_splits prod.splits)+

lemma frame_packets_update:
  assumes "frame_packets self ps packets" "j < length packets"
    and "set_extension (pkt_header (packets ! j)) i payload = Ok h'"
  shows "frame_packets self ps (packets[j := (packets ! j)\<lparr>pkt_header := h'\<rparr>])"
proof -
  note other = set_extension_other_fields [OF assms(3)]
  have m: "packets ! j \<in> set packets" using assms(2) by simp
  have pl: "map pkt_payload (packets[j := (packets ! j)\<lparr>pkt_header := h'\<rparr>]) = map pkt_payload packets"
    using assms(2) by (simp add: map_update list_update_same_conv)
  have sn: "map (\<lambda>p. rtp_sequence_number (pkt_header p)) (packets[j := (packets ! j)\<lparr>pkt_header := h'\<rparr>]) =
      map (\<lambda>p. rtp_sequence_number (pkt_header p)) packets"
    using assms(2) by (simp add: map_update list_update_same_conv other)
  have "\<forall>p\<in>set (packets[j := (packets ! j)\<lparr>pkt_header := h'\<rparr>]).
      rtp_timestamp (pkt_header p) = pz_timestamp self \<and> rtp_ssrc (pkt_header p) = pz_ssrc self \<and>
      rtp_payload_type (pkt_header p) = pz_payload_type self \<and> rtp_version (pkt_header p) = 2"
    using assms(1) m other by (auto simp: frame_packets_def dest!: set_update_subset_insert [THEN subsetD])
  with assms(1,2) pl sn show ?thesis
    by (auto simp: frame_packets_def nth_list_update other)
qed

text \<open>The size of a packet on the wire, plain and with the three bytes of the absolute send time.\<close>

lemma packet_of_wf:
  "pz_payload_type self < 128 \<Longrightarrow> rtp_header_wf (pkt_header (packet_of self marker sn payload))"
  by (simp add: packet_of_def rtp_header_wf_def rtp_header_default_def)

lemma packet_of_size: "rtp_packet_marshal_size (packet_of self marker sn payload) = 12 + length payload"
  by (simp add: packet_of_def rtp_packet_marshal_size_def rtp_header_marshal_size_def
      marshal_size_for_def rtp_header_default_def rtp_packet_padding_def)

lemma send_time_attached:
  assumes "length raw = 3"
  obtains h where "set_extension (pkt_header (packet_of self marker sn payload)) i raw = Ok h"
    "rtp_header_marshal_size h = 20" "\<not> rtp_padding h" "get_extension h i = Some raw"
    "pz_payload_type self < 128 \<Longrightarrow> 1 \<le> i \<Longrightarrow> i \<le> 14 \<Longrightarrow> rtp_header_wf h"
proof -
  let ?h0 = "pkt_header (packet_of self marker sn payload)"
  define h where "h = ?h0\<lparr>rtp_extension := True, rtp_extension_profile := EXTENSION_PROFILE_ONE_BYTE,
    rtp_extensions_padding := 0, rtp_extensions := [\<lparr>ext_id = i, ext_payload = raw\<rparr>]\<rparr>"
  have set: "set_extension ?h0 i raw = Ok h"
    using assms by (simp add: h_def set_extension_def packet_of_def rtp_header_default_def Let_def)
  show thesis
  proof (rule that [OF set])
    show "rtp_header_marshal_size h = 20" "\<not> rtp_padding h" "get_extension h i = Some raw"
      using assms by (simp_all add: h_def packet_of_def rtp_header_default_def rtp_header_marshal_size_def
          marshal_size_for_def get_extension_payload_len_def extension_profile_len_def get_extension_def)
    assume "pz_payload_type self < 128" "1 \<le> i" "i \<le> 14"
    moreover from this have "extension_admissible ?h0 i raw"
      using assms by (auto simp: extension_admissible_def packet_of_def rtp_header_default_def
          get_extension_payload_len_def)
    ultimately show "rtp_header_wf h"
      using set_extension_wf [OF packet_of_wf set] by blast
  qed
qed

definition packets_fit :: "'p packetizer \<Rightarrow> rtp_packet list \<Rightarrow> bool" where
  "packets_fit self packets \<longleftrightarrow>
     (\<forall>p\<in>set packets. rtp_packet_marshal_size p \<le>
        pz_mtu self + (if pz_abs_send_time_ext_id self \<noteq> 0 \<and> rtp_marker (pkt_header p) then 8 else 0)) \<and>
     (pz_payload_type self < 128 \<and> pz_abs_send_time_ext_id self \<le> 14 \<longrightarrow>
        (\<forall>p\<in>set packets. rtp_header_wf (pkt_header p)))"

lemma made_packets_fit:
  assumes "make_packets self (length ps) 0 ps sq = (made, sq')" "12 \<le> pz_mtu self"
    and "\<And>p. p \<in> set ps \<Longrightarrow> length p \<le> pz_mtu self - 12"
  shows "packets_fit self made"
proof -
  have "rtp_packet_marshal_size p \<le> pz_mtu self \<and>
      (pz_payload_type self < 128 \<longrightarrow> rtp_header_wf (pkt_header p))" if "p \<in> set made" for p
  proof -
    from that make_packets_spec [OF assms(1)] obtain k m sn where
      "k < length ps" "p = packet_of self m sn (ps ! k)" by (metis in_set_conv_nth)
    then show ?thesis
      using assms(3) [of "ps ! k"] assms(2) by (simp add: packet_of_size packet_of_wf)
  qed
  then show ?thesis by (auto simp: packets_fit_def intro: trans_le_add1)
qed

lemma attached_packets_fit:
  assumes "packets_fit self made" "j < length made" "made ! j = packet_of self True sn payload"
    and "length payload + 12 \<le> pz_mtu self" "pz_abs_send_time_ext_id self \<noteq> 0" "length raw = 3"
  obtains h where "set_extension (pkt_header (made ! j)) (pz_abs_send_time_ext_id self) raw = Ok h"
    "packets_fit self (made[j := (made ! j)\<lparr>pkt_header := h\<rparr>])"
proof -
  let ?i = "pz_abs_send_time_ext_id self"
  obtain h where h: "set_extension (pkt_header (made ! j)) ?i raw = Ok h" "rtp_header_marshal_size h = 20"
    "\<not> rtp_padding h" "pz_payload_type self < 128 \<Longrightarrow> 1 \<le> ?i \<Longrightarrow> ?i \<le> 14 \<Longrightarrow> rtp_header_wf h"
    using send_time_attached [OF assms(6), of self True sn payload ?i] unfolding assms(3) by metis
  let ?new = "(made ! j)\<lparr>pkt_header := h\<rparr>"
  have "rtp_packet_marshal_size ?new \<le> pz_mtu self + 8"
    using assms(4) h(2,3) by (simp add: rtp_packet_marshal_size_def rtp_packet_padding_def assms(3) packet_of_def)
  moreover have "rtp_marker (pkt_header ?new)"
    using set_extension_other_fields(2) [OF h(1)] by (simp add: assms(3) packet_of_def)
  moreover have "1 \<le> ?i" using assms(5) by (simp add: one_le_u8)
  ultimately have "packets_fit self (made[j := ?new])"
    using assms(1,5) h(4) set_update_subset_insert [of made j ?new] unfolding packets_fit_def by fastforce
  with that h(1) show thesis by blast
qed

lemma packetize_packets:
  assumes "payload_op (pz_payloader self) (pz_mtu self - 12) frame = (Ok ps, pl)" "12 \<le> pz_mtu self"
    and small: "\<And>p. p \<in> set ps \<Longrightarrow> length p \<le> pz_mtu self - 12"
  shows "\<exists>packets. packetize payload_op self now frame samples = (Ok packets,
      self\<lparr>pz_payloader := pl, pz_sequencer := snd (next_n (length ps) (pz_sequencer self)),
           pz_timestamp := pz_timestamp self + samples\<rparr>) \<and>
    frame_packets self ps packets \<and> packets_fit self packets"
proof -
  obtain made sq where made: "make_packets self (length ps) 0 ps (pz_sequencer self) = (made, sq)"
    by fastforce
  note spec = make_packets_spec [OF made] and frame = made_frame_packets [OF made]
    and fit = made_packets_fit [OF made assms(2) small]
  show ?thesis
  proof (cases "ps \<noteq> [] \<and> pz_abs_send_time_ext_id self \<noteq> 0")
    case False
    with assms made frame fit spec(2) show ?thesis
      by (auto simp: packetize_def usize_sub_def Let_def)
  next
    case True
    let ?j = "length ps - 1"
    let ?st = "abs_send_time_new (system_instant_ntp (pz_time_baseline self) now)"
    from True have j: "?j < length ps" by (cases ps) auto
    obtain raw n where raw: "abs_send_time_marshal_to ?st 3 = Ok (raw, n)" "length raw = 3"
      by (simp add: abs_send_time_marshal_to_def)
    obtain sn where lst: "made ! ?j = packet_of self True sn (ps ! ?j)" using spec(3) j by auto
    have jm: "?j < length made" using j spec(1) by simp
    have "length (ps ! ?j) + 12 \<le> pz_mtu self" using small [of "ps ! ?j"] j assms(2) by simp
    from attached_packets_fit [OF fit jm lst this _ raw(2)] True obtain h where
      h: "set_extension (pkt_header (made ! ?j)) (pz_abs_send_time_ext_id self) raw = Ok h"
      "packets_fit self (made[?j := (made ! ?j)\<lparr>pkt_header := h\<rparr>])" by blast
    with frame_packets_update [OF frame jm h(1)] True assms made raw spec(2) show ?thesis
      by (auto simp: packetize_def usize_sub_def Let_def abs_send_time_marshal_size_def)
  qed
qed

context payloader
begin

lemma packetize_frame:
  assumes "12 \<le> pz_mtu self"
  shows "\<exists>ps packets self'. packetize payload self now frame samples = (Ok packets, self') \<and>
    payload (pz_payloader self) (pz_mtu self - 12) frame = (Ok ps, pz_payloader self') \<and>
    frame_packets self ps packets \<and> packets_fit self packets \<and>
    pz_timestamp self' = pz_timestamp self + samples \<and>
    packet_index (pz_sequencer self') = (packet_index (pz_sequencer self) + length packets) mod 2 ^ 80"
proof -
  obtain ps pl where pay: "payload (pz_payloader self) (pz_mtu self - 12) frame = (Ok ps, pl)"
    "\<And>p. p \<in> set ps \<Longrightarrow> length p \<le> pz_mtu self - 12"
    using payload_ok [of "pz_payloader self" "pz_mtu self - 12" frame] by metis
  from packetize_packets [of payload self frame ps pl now samples, OF pay(1) assms pay(2)] pay(1)
  obtain packets where "packetize payload self now frame samples = (Ok packets,
      self\<lparr>pz_payloader := pl, pz_sequencer := snd (next_n (length ps) (pz_sequencer self)),
           pz_timestamp := pz_timestamp self + samples\<rparr>)"
    "frame_packets self ps packets" "packets_fit self packets" by blast
  moreover from this(2) have "length packets = length ps"
    by (auto simp: frame_packets_def)
  ultimately show ?thesis
    using pay(1) by (auto simp: next_n_index)
qed

end

section \<open>Properties\<close>

text \<open>
  C13: The packets of a frame. Packetizing with the VP8 payloader always succeeds when the MTU leaves
  room for the RTP header. The payloads are the payloader's fragments in order, the sequence numbers
  are the consecutive successors of the last one sent, the marker is set on the last packet only, all
  packets carry the timestamp that the frame started with, and that timestamp then advances by the
  samples. A packet exceeds the MTU only if it carries the absolute send time, and then by at most
  eight bytes.
\<close>

theorem packetize_vp8:
  assumes "12 \<le> pz_mtu self"
  shows "\<exists>ps packets self'. packetize vp8_payload self now frame samples = (Ok packets, self') \<and>
    vp8_payload (pz_payloader self) (pz_mtu self - 12) frame = (Ok ps, pz_payloader self') \<and>
    frame_packets self ps packets \<and> packets_fit self packets \<and>
    pz_timestamp self' = pz_timestamp self + samples \<and>
    packet_index (pz_sequencer self') = (packet_index (pz_sequencer self) + length packets) mod 2 ^ 80"
  using vp8.packetize_frame [OF assms] .

definition example_packetizer :: "vp8_payloader packetizer" where
  "example_packetizer = new_packetizer 90000 1700000000000000000 5 1200 96 7
     \<lparr>enable_picture_id = True, vp8_picture_id = 200\<rparr> (new_fixed_sequencer 65535) 90000"

theorem packetize_vp8_witness:
  "\<exists>packets self'. packetize vp8_payload example_packetizer 6 [1, 2, 3] 3000 = (Ok packets, self') \<and>
    pz_timestamp self' = 93000"
  using packetize_vp8 [of example_packetizer 6 "[1, 2, 3]" 3000]
  by (auto simp: example_packetizer_def new_packetizer_def)

text \<open>
  The absolute send time pushes a packet over the MTU. When the last fragment fills the MTU, the
  packet that carries the extension is eight bytes longer than the MTU the packetizer was given.
\<close>

theorem send_time_exceeds_mtu:
  assumes "pz_abs_send_time_ext_id self \<noteq> 0" "12 < pz_mtu self" "length frame = pz_mtu self - 12"
  shows "\<exists>p self'. packetize g7xx_payload self now frame samples = (Ok [p], self') \<and>
    rtp_packet_marshal_size p = pz_mtu self + 8"
proof -
  have ne: "frame \<noteq> []" using assms(2,3) by auto
  have "chunks (pz_mtu self - 12) frame = [frame]"
    using assms(2,3) ne by (simp add: chunks_step)
  then have pay: "g7xx_payload (pz_payloader self) (pz_mtu self - 12) frame = (Ok [frame], pz_payloader self)"
    using fragment_loop_chunks [of 0 "length frame" frame "pz_mtu self - 12" "\<lambda>_. []" True] assms(2) ne
    by (simp add: g7xx_payload_def)
  obtain raw n where raw: "abs_send_time_marshal_to (abs_send_time_new (system_instant_ntp (pz_time_baseline self) now)) 3
      = Ok (raw, n)" "length raw = 3"
    by (simp add: abs_send_time_marshal_to_def)
  obtain h where h: "set_extension (pkt_header (packet_of self True
      (fst (next_sequence_number (pz_sequencer self))) frame)) (pz_abs_send_time_ext_id self) raw = Ok h"
    "rtp_header_marshal_size h = 20" "\<not> rtp_padding h"
    using send_time_attached [OF raw(2)] by metis
  then show ?thesis
    using assms pay raw
    by (simp add: packetize_def usize_sub_def Let_def split_def abs_send_time_marshal_size_def
        rtp_packet_marshal_size_def rtp_packet_padding_def packet_of_def)
qed

theorem send_time_exceeds_mtu_witness:
  "\<exists>p self'. packetize g7xx_payload (enable_abs_send_time (new_packetizer 0 0 0 14 0 7 () (new_fixed_sequencer 1) 8000) 3)
      0 [1, 2] 160 = (Ok [p], self') \<and> rtp_packet_marshal_size p = 22"
  using send_time_exceeds_mtu [of "enable_abs_send_time (new_packetizer 0 0 0 14 0 7 () (new_fixed_sequencer 1) 8000) 3" "[1, 2]" 0 160]
  by (simp add: enable_abs_send_time_def new_packetizer_def)

end
