(* ===== verification/Bitmap.thy ===== *)
theory Bitmap
  imports Rtc_Prelude
begin

text \<open>
  Word-at-a-time operations on circular bitmaps (\<open>rtc-interceptor/src/bitmap.rs\<close>). A closure-taking
  iterator of the source is the list of the calls it makes, in order; a \<open>Break\<close> keeps the first call
  that broke. The theorems at the end say that each operation gives what walking the range bit by bit
  gives: \<open>bm_bit\<close> is that walk's test, and the lists \<open>[0..<len]\<close> its loop. A bitmap has at least one word,
  as the source requires.
\<close>

unbundle bit_operations_syntax

section \<open>Definitions\<close>

definition WORD_BITS :: nat where [simp]: "WORD_BITS = 64"

function segment_loop :: "nat \<Rightarrow> nat \<Rightarrow> nat \<Rightarrow> nat \<Rightarrow> (nat \<times> nat \<times> nat) list" where
  "segment_loop capacity b offset len =
     (if offset < len \<and> b < capacity then
        let n = min (len - offset) (capacity - b) in (b, n, offset) # segment_loop capacity 0 (offset + n) len
      else [])"
  by pat_completeness auto
termination by (relation "measure (\<lambda>(c, b, offset, len). len - offset)") auto

declare segment_loop.simps [simp del]

definition for_each_segment :: "nat \<Rightarrow> nat \<Rightarrow> nat \<Rightarrow> (nat \<times> nat \<times> nat) list" where
  "for_each_segment words start len =
     (let capacity = words * WORD_BITS in segment_loop capacity (start AND (capacity - 1)) 0 len)"

definition head_mask :: "nat \<Rightarrow> u64" where
  "head_mask start = push_bit (start mod WORD_BITS) (- 1)"

definition tail_mask :: "nat \<Rightarrow> u64" where
  "tail_mask end_pos = drop_bit (WORD_BITS - 1 - (end_pos - 1) mod WORD_BITS) (- 1)"

definition for_each_word :: "nat \<Rightarrow> nat \<Rightarrow> (nat \<times> u64) list" where
  "for_each_word start len =
     (let end_pos = start + len; first = start div WORD_BITS; last = (end_pos - 1) div WORD_BITS in
      if first = last then [(first, head_mask start AND tail_mask end_pos)]
      else (first, head_mask start) # map (\<lambda>w. (w, - 1)) [first + 1..<last] @ [(last, tail_mask end_pos)])"

definition count_ones :: "u64 \<Rightarrow> nat" where
  "count_ones w = length (filter (bit w) [0..<64])"

text \<open>\<open>u64::count_ones\<close> returns a \<open>u32\<close>, and the counts are summed at that width.\<close>

definition ones_u32 :: "u64 \<Rightarrow> u32" where
  "ones_u32 w = of_nat (count_ones w)"

definition count_zeros_linear :: "u64 list \<Rightarrow> nat \<Rightarrow> nat \<Rightarrow> u32" where
  "count_zeros_linear words start len =
     (let end_pos = start + len; first = start div WORD_BITS; last = (end_pos - 1) div WORD_BITS in
      if first = last then ones_u32 (NOT (words ! first) AND head_mask start AND tail_mask end_pos)
      else ones_u32 (NOT (words ! first) AND head_mask start) +
        sum_list (map (\<lambda>w. ones_u32 (NOT w)) (take (last - (first + 1)) (drop (first + 1) words))) +
        ones_u32 (NOT (words ! last) AND tail_mask end_pos))"

definition count_zeros :: "u64 list \<Rightarrow> nat \<Rightarrow> nat \<Rightarrow> u32" where
  "count_zeros words start len =
     sum_list (map (\<lambda>(start, len, _). count_zeros_linear words start len) (for_each_segment (length words) start len))"

text \<open>\<open>trailing_zeros\<close> of a word that is not zero: the position of the lowest one.\<close>

definition trailing_zeros_u64 :: "u64 \<Rightarrow> nat" where
  "trailing_zeros_u64 w = (case find (bit w) [0..<64] of None \<Rightarrow> 64 | Some n \<Rightarrow> n)"

lemma trailing_zeros_bit:
  assumes "w \<noteq> 0"
  shows "bit w (trailing_zeros_u64 w)" "trailing_zeros_u64 w < 64" "\<And>n. n < trailing_zeros_u64 w \<Longrightarrow> \<not> bit w n"
proof -
  have "\<exists>n<64. bit w n" using assms bit_imp_le_length [of w] by (auto simp: bit_eq_iff)
  then have "find (bit w) [0..<64] \<noteq> None" by (auto simp: find_None_iff)
  then obtain n where n: "find (bit w) [0..<64] = Some n" by auto
  then have "trailing_zeros_u64 w = n" by (simp add: trailing_zeros_u64_def)
  moreover from n have "n < 64 \<and> bit w n \<and> (\<forall>j<n. \<not> bit w j)" by (auto simp: find_Some_iff)
  ultimately show "bit w (trailing_zeros_u64 w)" "trailing_zeros_u64 w < 64" "\<And>n. n < trailing_zeros_u64 w \<Longrightarrow> \<not> bit w n"
    by auto
qed

text \<open>\<open>w & (w - 1)\<close> clears the lowest one.\<close>

lemma clear_lowest:
  fixes w :: u64
  assumes "w \<noteq> 0"
  shows "bit (w AND (w - 1)) n \<longleftrightarrow> bit w n \<and> n \<noteq> trailing_zeros_u64 w"
proof -
  define t where "t = trailing_zeros_u64 w"
  have low: "bit w t" "t < 64" "\<And>n. n < t \<Longrightarrow> \<not> bit w n" using trailing_zeros_bit [OF assms] by (simp_all add: t_def)
  define rest where "rest = unset_bit t w"
  have rest: "bit rest n \<longleftrightarrow> bit w n \<and> n \<noteq> t" for n by (auto simp: rest_def bit_unset_bit_iff)
  have "rest AND 2 ^ t = 0" by (rule bit_word_eqI) (auto simp: bit_simps rest)
  then have "rest + 2 ^ t = rest OR 2 ^ t" by (rule disjunctive_add_eq_or)
  also have "\<dots> = w" by (rule bit_word_eqI) (use low in \<open>auto simp: bit_simps rest\<close>)
  finally have "w - 1 = rest + mask t" by (auto simp: mask_eq_exp_minus_1)
  also have "\<dots> = rest OR mask t"
    by (rule disjunctive_add_eq_or, rule bit_word_eqI) (use low(3) in \<open>auto simp: bit_simps rest\<close>)
  finally show ?thesis using low by (auto simp: bit_simps rest t_def [symmetric])
qed

function zero_bits :: "u64 \<Rightarrow> nat list" where
  "zero_bits zeros = (if zeros \<noteq> 0 then trailing_zeros_u64 zeros # zero_bits (zeros AND (zeros - 1)) else [])"
  by pat_completeness auto
termination
proof (relation "measure count_ones", goal_cases)
  case (2 w)
  let ?t = "trailing_zeros_u64 w"
  have "filter (bit (w AND (w - 1))) [0..<64] = filter (\<lambda>n. n \<noteq> ?t) (filter (bit w) [0..<64])"
    by (simp add: clear_lowest [OF 2] fun_eq_iff cong: filter_cong)
  moreover have "length (filter (\<lambda>n. n \<noteq> ?t) (filter (bit w) [0..<64])) < length (filter (bit w) [0..<64])"
    using trailing_zeros_bit(1,2) [OF 2] by (intro length_filter_less [of ?t]) simp_all
  ultimately show ?case by (simp add: count_ones_def)
qed simp

declare zero_bits.simps [simp del]

definition for_each_zero :: "u64 list \<Rightarrow> nat \<Rightarrow> nat \<Rightarrow> nat list" where
  "for_each_zero words start len =
     concat (map (\<lambda>(start, len, offset).
       concat (map (\<lambda>(word, m).
         map (\<lambda>b. offset + (word * WORD_BITS + b - start)) (zero_bits (NOT (words ! word) AND m)))
         (for_each_word start len)))
       (for_each_segment (length words) start len))"

definition first_zero :: "u64 list \<Rightarrow> nat \<Rightarrow> nat \<Rightarrow> nat option" where
  "first_zero words start len =
     (let len = min len (length words * WORD_BITS);
          found = concat (map (\<lambda>(start, len, offset).
            concat (map (\<lambda>(word, m).
              let zeros = NOT (words ! word) AND m in
              if zeros = 0 then [] else [offset + (word * WORD_BITS + trailing_zeros_u64 zeros - start)])
              (for_each_word start len)))
            (for_each_segment (length words) start len)) in
      case found of [] \<Rightarrow> None | offset # _ \<Rightarrow> Some offset)"

definition clear_linear :: "u64 list \<Rightarrow> nat \<Rightarrow> nat \<Rightarrow> u64 list" where
  "clear_linear words start len =
     (let end_pos = start + len; first = start div WORD_BITS; last = (end_pos - 1) div WORD_BITS in
      if first = last then words[first := words ! first AND NOT (head_mask start AND tail_mask end_pos)]
      else
        let words = words[first := words ! first AND NOT (head_mask start)];
            words = take (first + 1) words @ replicate (last - (first + 1)) 0 @ drop last words in
        words[last := words ! last AND NOT (tail_mask end_pos)])"

definition bitmap_clear :: "u64 list \<Rightarrow> nat \<Rightarrow> nat \<Rightarrow> u64 list" where
  "bitmap_clear words start len =
     (if len \<ge> length words * WORD_BITS then replicate (length words) 0
      else fold (\<lambda>(start, len, _) words. clear_linear words start len) (for_each_segment (length words) start len) words)"

section \<open>The walk bit by bit\<close>

definition bm_bit :: "u64 list \<Rightarrow> nat \<Rightarrow> bool" where
  "bm_bit words p = (let q = p mod (length words * 64) in bit (words ! (q div 64)) (q mod 64))"

section \<open>One word\<close>

lemma upt_split: "a \<le> b \<Longrightarrow> b \<le> c \<Longrightarrow> [a..<c] = [a..<b] @ [b..<c]"
  using upt_add_eq_append [of a b "c - b"] by simp

lemma zero_bits_eq: "zero_bits w = filter (bit w) [0..<64]"
proof (induction w rule: zero_bits.induct)
  case (1 w)
  show ?case
  proof (cases "w = 0")
    case False
    let ?t = "trailing_zeros_u64 w"
    note low = trailing_zeros_bit [OF False]
    have split: "[0..<64] = [0..<?t] @ ?t # [Suc ?t..<64]"
      using low(2) upt_split [of 0 ?t 64] upt_conv_Cons [of ?t 64] by simp
    have "filter (bit w) [0..<64] = ?t # filter (bit w) [Suc ?t..<64]"
      unfolding split using low(1,3) by simp
    moreover have "filter (bit (w AND (w - 1))) [Suc ?t..<64] = filter (bit w) [Suc ?t..<64]"
      by (rule filter_cong) (auto simp: clear_lowest [OF False])
    then have "filter (bit (w AND (w - 1))) [0..<64] = filter (bit w) [Suc ?t..<64]"
      unfolding split using low(3) by (simp add: clear_lowest [OF False] filter_empty_conv)
    ultimately show ?thesis using 1 False by (simp add: zero_bits.simps [of w])
  qed (simp add: zero_bits.simps)
qed

lemma bit_head_mask [simp]: "bit (head_mask s) n \<longleftrightarrow> n < 64 \<and> s mod 64 \<le> n"
  by (auto simp: head_mask_def bit_simps)

lemma bit_tail_mask [simp]: "bit (tail_mask e) n \<longleftrightarrow> n \<le> (e - 1) mod 64"
  by (auto simp: tail_mask_def bit_simps)

section \<open>The words of a range\<close>

definition word_positions :: "nat \<times> u64 \<Rightarrow> nat list" where
  "word_positions = (\<lambda>(w, m). map (\<lambda>b. w * 64 + b) (filter (bit m) [0..<64]))"

lemma map_plus_upt: "map (\<lambda>b. k + b) [i..<j] = [k + i..<k + j]"
  by (induction j) auto

lemma word_positions_range:
  assumes "\<And>b. b < 64 \<Longrightarrow> bit m b \<longleftrightarrow> i \<le> b \<and> b < j" "j \<le> 64"
  shows "word_positions (w, m) = [w * 64 + i..<w * 64 + j]"
proof -
  have "filter (bit m) [0..<64] = filter (\<lambda>b. i \<le> b \<and> b < j) [0..<64]"
    using assms(1) by (intro filter_cong) auto
  also have "\<dots> = [i..<j]"
  proof (cases "i \<le> j")
    case True
    have "[0..<64] = [0..<i] @ [i..<j] @ [j..<64]"
      using True assms(2) upt_split [of 0 i 64] upt_split [of i j 64] by simp
    then show ?thesis by (auto simp: filter_empty_conv intro: filter_True)
  qed (auto simp: filter_empty_conv)
  finally show ?thesis by (simp add: word_positions_def map_plus_upt)
qed

lemma upt_words: "a \<le> b \<Longrightarrow> concat (map (\<lambda>w. [w * 64..<w * 64 + 64]) [a..<b]) = [a * 64..<b * 64]"
proof (induction b rule: dec_induct)
  case (step b)
  then show ?case using upt_split [of "a * 64" "b * 64" "b * 64 + 64"] by (simp add: add.commute)
qed simp

lemma for_each_word_range:
  assumes "1 \<le> l"
  shows "concat (map word_positions (for_each_word s l)) = [s..<s + l]"
proof -
  define e f z where "e = s + l" and "f = s div 64" and "z = (e - 1) div 64"
  have s: "s = f * 64 + s mod 64" and e: "e - 1 = z * 64 + (e - 1) mod 64"
    by (simp_all add: f_def z_def)
  have "f \<le> z" using assms by (auto simp: f_def z_def e_def intro: div_le_mono)
  have head: "word_positions (f, head_mask s) = [s..<f * 64 + 64]"
    using word_positions_range [of "head_mask s" "s mod 64" 64 f] s by simp
  have e': "e = z * 64 + Suc ((e - 1) mod 64)" using e assms by (simp add: e_def)
  then have tail: "word_positions (z, tail_mask e) = [z * 64..<e]"
    using word_positions_range [of "tail_mask e" 0 "Suc ((e - 1) mod 64)" z] by (simp add: less_Suc_eq_le Suc_leI)
  show ?thesis
  proof (cases "f = z")
    case True
    have "word_positions (f, head_mask s AND tail_mask e) = [f * 64 + s mod 64..<f * 64 + Suc ((e - 1) mod 64)]"
      by (rule word_positions_range) (auto simp: bit_and_iff less_Suc_eq_le Suc_leI)
    with True s e' show ?thesis
      unfolding for_each_word_def Let_def WORD_BITS_def e_def [symmetric] f_def [symmetric] z_def [symmetric] by simp
  next
    case False
    with \<open>f \<le> z\<close> have "f + 1 \<le> z" by simp
    have "map (word_positions \<circ> (\<lambda>w. (w, - 1))) [f + 1..<z] = map (\<lambda>w. [w * 64..<w * 64 + 64]) [f + 1..<z]"
      using word_positions_range [of "- 1" 0 64] by (intro map_cong) simp_all
    then have mid: "concat (map (word_positions \<circ> (\<lambda>w. (w, - 1))) [f + 1..<z]) = [(f + 1) * 64..<z * 64]"
      using upt_words [OF \<open>f + 1 \<le> z\<close>] by (simp only:)
    have "s \<le> f * 64 + 64" "z * 64 \<le> e" using s mod_less_divisor [of 64 s] e by linarith+
    have "(f + 1) * 64 \<le> z * 64" using \<open>f + 1 \<le> z\<close> by (rule mult_le_mono1)
    then have "[s..<e] = [s..<f * 64 + 64] @ [(f + 1) * 64..<z * 64] @ [z * 64..<e]"
      using \<open>s \<le> _\<close> \<open>z * 64 \<le> e\<close> upt_split [of s "f * 64 + 64" e] upt_split [of "(f + 1) * 64" "z * 64" e]
      by (simp add: add.commute)
    then show ?thesis
      unfolding for_each_word_def Let_def WORD_BITS_def e_def [symmetric] f_def [symmetric] z_def [symmetric]
      using False head tail mid by (simp add: add.commute)
  qed
qed

definition lin_bit :: "u64 list \<Rightarrow> nat \<Rightarrow> bool" where
  "lin_bit words p = bit (words ! (p div 64)) (p mod 64)"

lemma bm_bit_lin: "bm_bit ws p = lin_bit ws (p mod (length ws * 64))"
  by (simp add: bm_bit_def lin_bit_def Let_def)

lemma word_zeros:
  "map (\<lambda>b. w * 64 + b) (zero_bits (NOT (ws ! w) AND m)) = filter (\<lambda>p. \<not> lin_bit ws p) (word_positions (w, m))"
proof -
  have "filter (bit (NOT (ws ! w) AND m)) [0..<64] = filter (\<lambda>b. \<not> lin_bit ws (w * 64 + b)) (filter (bit m) [0..<64])"
    unfolding filter_filter by (rule filter_cong) (auto simp: bit_simps lin_bit_def)
  then show ?thesis by (simp add: zero_bits_eq word_positions_def filter_map comp_def)
qed

lemma range_zeros:
  assumes "1 \<le> l"
  shows "concat (map (\<lambda>(w, m). map (\<lambda>b. w * 64 + b) (zero_bits (NOT (ws ! w) AND m))) (for_each_word s l)) =
    filter (\<lambda>p. \<not> lin_bit ws p) [s..<s + l]"
proof -
  have "(\<lambda>(w, m). map (\<lambda>b. w * 64 + b) (zero_bits (NOT (ws ! w) AND m))) = filter (\<lambda>p. \<not> lin_bit ws p) \<circ> word_positions"
    by (auto simp: word_zeros)
  then show ?thesis by (simp add: for_each_word_range [OF assms, symmetric] filter_concat flip: map_map)
qed

lemma filter_shift: "map (\<lambda>p. k + (p - s)) (filter P [s..<s + l]) = filter (\<lambda>i. P (s + (i - k))) [k..<k + l]"
  by (induction l) auto

lemma range_zeros_offset:
  assumes "1 \<le> l"
  shows "concat (map (\<lambda>(w, m). map (\<lambda>b. k + (w * 64 + b - s)) (zero_bits (NOT (ws ! w) AND m))) (for_each_word s l)) =
    filter (\<lambda>i. \<not> lin_bit ws (s + (i - k))) [k..<k + l]"
proof -
  have "(\<lambda>(w, m). map (\<lambda>b. k + (w * 64 + b - s)) (zero_bits (NOT (ws ! w) AND m))) =
    map (\<lambda>p. k + (p - s)) \<circ> (\<lambda>(w, m). map (\<lambda>b. w * 64 + b) (zero_bits (NOT (ws ! w) AND m)))"
    by (auto simp: comp_def)
  then show ?thesis
    by (simp add: range_zeros [OF assms] filter_shift flip: map_map map_concat)
qed

section \<open>The segments of a circular range\<close>

lemma segment_bounds:
  "(s, l, k) \<in> set (segment_loop c b off len) \<Longrightarrow> 1 \<le> l \<and> s + l \<le> c"
proof (induction c b off len rule: segment_loop.induct)
  case (1 c b off len)
  then show ?case
    by (subst (asm) (2) segment_loop.simps) (auto simp: Let_def split: if_splits)
qed

lemma segment_walk:
  "b < c \<Longrightarrow> concat (map (\<lambda>(s, l, k). filter (\<lambda>i. Q (s + (i - k))) [k..<k + l]) (segment_loop c b off len)) =
    filter (\<lambda>i. Q ((b + (i - off)) mod c)) [off..<len]"
proof (induction c b off len rule: segment_loop.induct)
  case (1 c b off len)
  show ?case
  proof (cases "off < len")
    case True
    define n where "n = min (len - off) (c - b)"
    have n: "off + n \<le> len" "b + n \<le> c" "off + n < len \<Longrightarrow> b + n = c" using True 1(2) by (auto simp: n_def)
    have "filter (\<lambda>i. Q (b + (i - off))) [off..<off + n] = filter (\<lambda>i. Q ((b + (i - off)) mod c)) [off..<off + n]"
      using n(2) by (intro filter_cong) auto
    moreover have "filter (\<lambda>i. Q ((0 + (i - (off + n))) mod c)) [off + n..<len] = filter (\<lambda>i. Q ((b + (i - off)) mod c)) [off + n..<len]"
    proof (rule filter_cong [OF refl])
      fix i assume "i \<in> set [off + n..<len]"
      then have "b + (i - off) = (i - (off + n)) + c" using n(3) by auto
      then show "Q ((0 + (i - (off + n))) mod c) = Q ((b + (i - off)) mod c)" by simp
    qed
    moreover have "[off..<len] = [off..<off + n] @ [off + n..<len]" using n(1) by (intro upt_split) auto
    ultimately show ?thesis
      using 1(1) [OF _ n_def] True 1(2) by (subst segment_loop.simps) (simp add: n_def [symmetric])
  qed (simp add: segment_loop.simps)
qed

definition bm_ok :: "u64 list \<Rightarrow> bool" where
  "bm_ok words = (\<exists>k. length words = 2 ^ k)"

lemma bm_start: "bm_ok ws \<Longrightarrow> start AND (length ws * 64 - 1) = start mod (length ws * 64)"
proof -
  assume "bm_ok ws"
  then obtain k where "length ws * 64 = 2 ^ (k + 6)" by (auto simp: bm_ok_def power_add)
  then show ?thesis by (simp only: take_bit_eq_mod [symmetric] take_bit_eq_mask mask_eq_exp_minus_1)
qed

lemma bm_ok_length: "bm_ok ws \<Longrightarrow> 0 < length ws" by (auto simp: bm_ok_def)

lemma for_each_segment_eq:
  "bm_ok ws \<Longrightarrow> for_each_segment (length ws) start len = segment_loop (length ws * 64) (start mod (length ws * 64)) 0 len"
  using bm_start [of ws start] by (simp add: for_each_segment_def Let_def)

lemma segments_walk:
  assumes "bm_ok ws"
  shows "concat (map (\<lambda>(s, l, k). filter (\<lambda>i. Q (s + (i - k))) [k..<k + l]) (for_each_segment (length ws) start len)) =
    filter (\<lambda>i. Q ((start + i) mod (length ws * 64))) [0..<len]"
  using segment_walk [of "start mod (length ws * 64)" "length ws * 64" Q 0 len] bm_ok_length [OF assms]
  by (simp add: for_each_segment_eq [OF assms] mod_add_left_eq)

lemma segments_cong:
  assumes "\<And>s l k. 1 \<le> l \<Longrightarrow> s + l \<le> length ws * 64 \<Longrightarrow> f (s, l, k) = g (s, l, k)"
  shows "map f (for_each_segment (length ws) start len) = map g (for_each_segment (length ws) start len)"
  using assms by (auto simp: for_each_segment_def Let_def dest: segment_bounds)

lemma for_each_zero_walk:
  assumes "bm_ok ws"
  shows "for_each_zero ws start len = filter (\<lambda>i. \<not> bm_bit ws (start + i)) [0..<len]"
  unfolding bm_bit_lin segments_walk [OF assms, where Q = "\<lambda>p. \<not> lin_bit ws p", symmetric] for_each_zero_def
  by (intro arg_cong [where f = concat] segments_cong) (simp add: range_zeros_offset)

section \<open>Counting and searching\<close>

lemma slice_nth: "i \<le> j \<Longrightarrow> j \<le> length xs \<Longrightarrow> take (j - i) (drop i xs) = map ((!) xs) [i..<j]"
  by (rule nth_equalityI) auto

lemma of_nat_length_concat: "of_nat (length (concat xss)) = sum_list (map (of_nat \<circ> length) xss)"
  by (induction xss) simp_all

lemma count_zeros_linear_words:
  assumes "1 \<le> l" "s + l \<le> length ws * 64"
  shows "count_zeros_linear ws s l = sum_list (map (\<lambda>(w, m). ones_u32 (NOT (ws ! w) AND m)) (for_each_word s l))"
proof (cases "s div 64 = (s + l - 1) div 64")
  case False
  define f z where "f = s div 64" and "z = (s + l - 1) div 64"
  have "f \<le> z" using assms(1) by (auto simp: f_def z_def intro: div_le_mono)
  moreover have "z < length ws" using assms by (simp add: z_def less_mult_imp_div_less)
  ultimately have "take (z - (f + 1)) (drop (f + 1) ws) = map ((!) ws) [f + 1..<z]"
    using False f_def z_def by (intro slice_nth) auto
  then show ?thesis
    using False unfolding count_zeros_linear_def for_each_word_def Let_def WORD_BITS_def f_def [symmetric] z_def [symmetric]
    by (simp add: comp_def)
qed (simp add: count_zeros_linear_def for_each_word_def Let_def and.assoc)

lemma count_zeros_linear_walk:
  assumes "1 \<le> l" "s + l \<le> length ws * 64"
  shows "count_zeros_linear ws s l = of_nat (length (filter (\<lambda>p. \<not> lin_bit ws p) [s..<s + l]))"
proof -
  have "(\<lambda>(w, m). ones_u32 (NOT (ws ! w) AND m)) =
    (of_nat \<circ> length) \<circ> (\<lambda>(w, m). map (\<lambda>b. w * 64 + b) (zero_bits (NOT (ws ! w) AND m)))"
    by (auto simp: ones_u32_def count_ones_def zero_bits_eq)
  then show ?thesis
    by (simp add: count_zeros_linear_words [OF assms] range_zeros [OF assms(1), symmetric] of_nat_length_concat flip: map_map)
qed

lemma count_zeros_walk:
  assumes "bm_ok ws"
  shows "count_zeros ws start len = of_nat (length (filter (\<lambda>i. \<not> bm_bit ws (start + i)) [0..<len]))"
proof -
  have "count_zeros_linear ws s l = of_nat (length (filter (\<lambda>i. \<not> lin_bit ws (s + (i - k))) [k..<k + l]))"
    if "1 \<le> l" "s + l \<le> length ws * 64" for s l k
    using arg_cong [OF filter_shift [of k s "\<lambda>p. \<not> lin_bit ws p" l], of length] that
    by (simp add: count_zeros_linear_walk)
  then have "map (\<lambda>(s, l, _). count_zeros_linear ws s l) (for_each_segment (length ws) start len) =
    map ((of_nat \<circ> length) \<circ> (\<lambda>(s, l, k). filter (\<lambda>i. \<not> lin_bit ws (s + (i - k))) [k..<k + l])) (for_each_segment (length ws) start len)"
    by (intro segments_cong) simp
  then show ?thesis
    unfolding bm_bit_lin segments_walk [OF assms, where Q = "\<lambda>p. \<not> lin_bit ws p", symmetric] count_zeros_def
      of_nat_length_concat map_map by (rule arg_cong)
qed

definition first_opt :: "'a list \<Rightarrow> 'a option" where
  "first_opt xs = (case xs of [] \<Rightarrow> None | x # _ \<Rightarrow> Some x)"

lemma first_opt_append: "first_opt (xs @ ys) = (case first_opt xs of None \<Rightarrow> first_opt ys | Some x \<Rightarrow> Some x)"
  by (cases xs) (auto simp: first_opt_def)

lemma first_opt_concat:
  "(\<And>x. x \<in> set xs \<Longrightarrow> first_opt (f x) = first_opt (g x)) \<Longrightarrow> first_opt (concat (map f xs)) = first_opt (concat (map g xs))"
  by (induction xs) (auto simp: first_opt_append split: option.splits)

lemma first_opt_filter: "first_opt (filter P xs) = find P xs"
  by (induction xs) (auto simp: first_opt_def)

lemma first_zero_each:
  "first_zero ws start len = first_opt (for_each_zero ws start (min len (length ws * 64)))"
  unfolding first_zero_def for_each_zero_def Let_def first_opt_def [symmetric] WORD_BITS_def
  by (intro first_opt_concat, clarsimp, intro first_opt_concat)
    (auto simp: first_opt_def zero_bits.simps)

lemma find_append: "find P (xs @ ys) = (case find P xs of None \<Rightarrow> find P ys | Some x \<Rightarrow> Some x)"
  by (induction xs) auto

lemma first_zero_walk:
  assumes "bm_ok ws"
  shows "first_zero ws start len = find (\<lambda>i. \<not> bm_bit ws (start + i)) [0..<len]"
proof (cases "len \<le> length ws * 64")
  case False
  let ?c = "length ws * 64"
  have split: "[0..<len] = [0..<?c] @ [?c..<len]" using False by (intro upt_split) auto
  have "find (\<lambda>i. \<not> bm_bit ws (start + i)) [?c..<len] = None"
    if none: "find (\<lambda>i. \<not> bm_bit ws (start + i)) [0..<?c] = None"
  proof -
    have "bm_bit ws (start + i)" for i
    proof -
      have "i mod ?c < ?c" using bm_ok_length [OF assms] by simp
      with none have "bm_bit ws (start + i mod ?c)" by (auto simp: find_None_iff)
      then show ?thesis by (simp add: bm_bit_lin mod_add_right_eq)
    qed
    then show ?thesis by (simp add: find_None_iff)
  qed
  then show ?thesis
    using False by (auto simp: first_zero_each for_each_zero_walk [OF assms] first_opt_filter split find_append min_def split: option.splits)
qed (simp add: first_zero_each for_each_zero_walk [OF assms] first_opt_filter)

section \<open>Clearing\<close>

lemma le_by_words: "(s :: nat) \<le> p \<longleftrightarrow> s div 64 < p div 64 \<or> s div 64 = p div 64 \<and> s mod 64 \<le> p mod 64"
proof -
  have "s = s div 64 * 64 + s mod 64" "p = p div 64 * 64 + p mod 64" "s mod 64 < 64" "p mod 64 < 64" by simp_all
  then show ?thesis by (cases "s div 64" "p div 64" rule: linorder_cases) linarith+
qed

lemma clear_linear_length [simp]: "s + l \<le> length ws * 64 \<Longrightarrow> 1 \<le> l \<Longrightarrow> length (clear_linear ws s l) = length ws"
proof -
  assume "s + l \<le> length ws * 64" "1 \<le> l"
  then have "s div 64 \<le> (s + l - 1) div 64" "(s + l - 1) div 64 < length ws"
    by (auto simp: less_mult_imp_div_less intro: div_le_mono)
  then show ?thesis by (auto simp: clear_linear_def Let_def)
qed

lemma clear_linear_nth:
  assumes "1 \<le> l" "s + l \<le> length ws * 64" "w < length ws"
  shows "clear_linear ws s l ! w =
    (if w < s div 64 \<or> (s + l - 1) div 64 < w then ws ! w
     else ws ! w AND NOT ((if w = s div 64 then head_mask s else - 1) AND (if w = (s + l - 1) div 64 then tail_mask (s + l) else - 1)))"
proof -
  define f z where "f = s div 64" and "z = (s + l - 1) div 64"
  have "f \<le> z" "z < length ws" using assms by (auto simp: f_def z_def less_mult_imp_div_less intro: div_le_mono)
  then show ?thesis
    unfolding clear_linear_def Let_def WORD_BITS_def f_def [symmetric] z_def [symmetric]
    using assms(3) by (cases "w = f"; cases "w = z") (auto simp: nth_list_update nth_append min_def)
qed

lemma clear_linear_bit:
  assumes "1 \<le> l" "s + l \<le> length ws * 64" "p < length ws * 64"
  shows "lin_bit (clear_linear ws s l) p \<longleftrightarrow> lin_bit ws p \<and> \<not> (s \<le> p \<and> p < s + l)"
proof -
  have w: "p div 64 < length ws" using assms(3) by (simp add: less_mult_imp_div_less)
  have e: "p < s + l \<longleftrightarrow> p \<le> s + l - 1" using assms(1) by auto
  define pd pm sd sm ed em where atoms: "pd = p div 64" "pm = p mod 64" "sd = s div 64" "sm = s mod 64"
    "ed = (s + l - 1) div 64" "em = (s + l - 1) mod 64"
  have em: "(s + l - Suc 0) mod 64 = em" and "pm < 64" by (simp_all add: atoms)
  then show ?thesis
    unfolding e lin_bit_def le_by_words [of s p] le_by_words [of p "s + l - 1"] atoms [symmetric]
      clear_linear_nth [OF assms(1,2) w, folded atoms]
    by (auto simp: bit_simps em atoms(1-5) [symmetric])
qed

lemma clear_fold:
  assumes "\<And>s l k. (s, l, k) \<in> set segs \<Longrightarrow> 1 \<le> l \<and> s + l \<le> length ws * 64"
  shows "length (fold (\<lambda>(s, l, _) ws. clear_linear ws s l) segs ws) = length ws \<and>
    (\<forall>p<length ws * 64. lin_bit (fold (\<lambda>(s, l, _) ws. clear_linear ws s l) segs ws) p \<longleftrightarrow>
      lin_bit ws p \<and> \<not> (\<exists>(s, l, k)\<in>set segs. s \<le> p \<and> p < s + l))"
  using assms
proof (induction segs arbitrary: ws)
  case (Cons seg segs)
  obtain s l k where seg: "seg = (s, l, k)" by (cases seg)
  then have b: "1 \<le> l" "s + l \<le> length ws * 64" using Cons.prems [of s l k] by auto
  with Cons.IH [of "clear_linear ws s l"] Cons.prems show ?case
    by (auto simp: seg clear_linear_bit)
qed simp

lemma segments_cover:
  assumes "bm_ok ws"
  shows "(\<exists>(s, l, k)\<in>set (for_each_segment (length ws) start len). s \<le> p \<and> p < s + l) \<longleftrightarrow>
    (\<exists>i<len. (start + i) mod (length ws * 64) = p)"
proof -
  let ?hits = "\<lambda>(s, l, k). filter (\<lambda>i. s + (i - k) = p) [k..<k + l]"
  have "?hits (s, l, k) \<noteq> [] \<longleftrightarrow> s \<le> p \<and> p < s + l" for s l k
    by (auto simp: filter_empty_conv intro!: bexI [of _ "k + (p - s)"])
  then have "(\<exists>(s, l, k)\<in>set (for_each_segment (length ws) start len). s \<le> p \<and> p < s + l) \<longleftrightarrow>
    concat (map ?hits (for_each_segment (length ws) start len)) \<noteq> []"
    by (auto simp: split_beta)
  also have "\<dots> \<longleftrightarrow> (\<exists>i<len. (start + i) mod (length ws * 64) = p)"
    unfolding segments_walk [OF assms, where Q = "\<lambda>q. q = p"] by (auto simp: filter_empty_conv)
  finally show ?thesis .
qed

lemma segments_clear:
  fixes start len
  assumes "bm_ok ws"
  defines "cleared \<equiv> fold (\<lambda>(s, l, _) ws. clear_linear ws s l) (for_each_segment (length ws) start len) ws"
  shows "length cleared = length ws"
    and "p < length ws * 64 \<Longrightarrow> lin_bit cleared p \<longleftrightarrow> lin_bit ws p \<and> \<not> (\<exists>i<len. (start + i) mod (length ws * 64) = p)"
proof -
  have "1 \<le> l \<and> s + l \<le> length ws * 64" if "(s, l, k) \<in> set (for_each_segment (length ws) start len)" for s l k
    using that by (auto simp: for_each_segment_eq [OF assms(1)] dest: segment_bounds)
  then show "length cleared = length ws"
    and "p < length ws * 64 \<Longrightarrow> lin_bit cleared p \<longleftrightarrow> lin_bit ws p \<and> \<not> (\<exists>i<len. (start + i) mod (length ws * 64) = p)"
    using clear_fold [of "for_each_segment (length ws) start len" ws] unfolding cleared_def segments_cover [OF assms(1)] by blast+
qed

lemma bitmap_clear_length [simp]: "bm_ok ws \<Longrightarrow> length (bitmap_clear ws start len) = length ws"
  by (simp add: bitmap_clear_def segments_clear(1))

lemma bitmap_clear_walk:
  assumes "bm_ok ws"
  shows "bm_bit (bitmap_clear ws start len) p \<longleftrightarrow>
    bm_bit ws p \<and> \<not> (\<exists>i<len. (start + i) mod (length ws * 64) = p mod (length ws * 64))"
proof -
  let ?c = "length ws * 64"
  have q: "p mod ?c < ?c" using bm_ok_length [OF assms] by simp
  show ?thesis
  proof (cases "?c \<le> len")
    case True
    define x where "x = p mod ?c + (?c - start mod ?c)"
    define i where "i = x mod ?c"
    have "i < ?c" using bm_ok_length [OF assms] unfolding i_def by (intro mod_less_divisor) simp
    moreover have "(start + i) mod ?c = p mod ?c"
    proof -
      have "(start + i) mod ?c = (start mod ?c + x) mod ?c"
        by (simp only: i_def mod_add_right_eq mod_add_left_eq)
      also have "start mod ?c + x = p mod ?c + ?c"
        using mod_less_divisor [of ?c start] q unfolding x_def by linarith
      finally show ?thesis by simp
    qed
    ultimately have "\<exists>i<len. (start + i) mod ?c = p mod ?c" using True by (meson less_le_trans)
    moreover have "\<not> lin_bit (replicate (length ws) 0) (p mod ?c)"
      using q by (simp add: lin_bit_def less_mult_imp_div_less)
    ultimately show ?thesis using True by (simp add: bitmap_clear_def bm_bit_lin)
  next
    case False
    then show ?thesis using segments_clear(2) [OF assms q] by (simp add: bitmap_clear_def bm_bit_lin segments_clear(1) [OF assms])
  qed
qed

section \<open>The interface of the receive log and the report stream\<close>

text \<open>
  What the clients of the bitmap rely on. A client numbers its packets with unbounded (unwrapped)
  sequence numbers \<open>x\<close>, of which it sees the low 16 bits; the capacity divides \<open>2^16\<close>, so the bit of
  \<open>x\<close> is the bit of its wire number.
\<close>

locale circular_bitmap =
  fixes ok :: "'w \<Rightarrow> bool"
    and cap :: "'w \<Rightarrow> nat"
    and test :: "'w \<Rightarrow> nat \<Rightarrow> bool"
    and clear :: "'w \<Rightarrow> nat \<Rightarrow> nat \<Rightarrow> 'w"
    and zeros :: "'w \<Rightarrow> nat \<Rightarrow> nat \<Rightarrow> nat list"
    and first :: "'w \<Rightarrow> nat \<Rightarrow> nat \<Rightarrow> nat option"
    and count :: "'w \<Rightarrow> nat \<Rightarrow> nat \<Rightarrow> u32"
  assumes cap_pos: "ok w \<Longrightarrow> 0 < cap w"
    and test_mod: "ok w \<Longrightarrow> test w (p mod cap w) = test w p"
    and clear_ok: "ok w \<Longrightarrow> ok (clear w s n)"
    and clear_cap: "ok w \<Longrightarrow> cap (clear w s n) = cap w"
    and clear_test: "ok w \<Longrightarrow> test (clear w s n) p \<longleftrightarrow> test w p \<and> \<not> (\<exists>i<n. (s + i) mod cap w = p mod cap w)"
    and zeros_walk: "ok w \<Longrightarrow> zeros w s n = filter (\<lambda>i. \<not> test w (s + i)) [0..<n]"
    and first_walk: "ok w \<Longrightarrow> first w s n = find (\<lambda>i. \<not> test w (s + i)) [0..<n]"
    and count_walk: "ok w \<Longrightarrow> count w s n = of_nat (length (filter (\<lambda>i. \<not> test w (s + i)) [0..<n]))"
begin

lemma wire_position:
  assumes "int (cap w) dvd 2 ^ 16"
  shows "int ((unat (word_of_int x :: u16) + i) mod cap w) = (x + int i) mod int (cap w)"
proof -
  have "int (unat (word_of_int x :: u16)) mod int (cap w) = x mod int (cap w)"
    using assms by (simp add: unsigned_of_int take_bit_eq_mod mod_mod_cancel)
  then show ?thesis by (metis mod_add_left_eq of_nat_add zmod_int)
qed

lemma wire_test:
  assumes "ok w" "int (cap w) dvd 2 ^ 16"
  shows "test w (unat (word_of_int x :: u16) + i) = test w (nat ((x + int i) mod int (cap w)))"
  using test_mod [OF assms(1), of "unat (word_of_int x :: u16) + i"] wire_position [OF assms(2), of x i]
  by (metis nat_int)

lemma wire_zeros:
  assumes "ok w" "int (cap w) dvd 2 ^ 16"
  shows "zeros w (unat (word_of_int x :: u16)) n = filter (\<lambda>i. \<not> test w (nat ((x + int i) mod int (cap w)))) [0..<n]"
  by (simp add: zeros_walk [OF assms(1)] wire_test [OF assms])

lemma wire_first:
  assumes "ok w" "int (cap w) dvd 2 ^ 16"
  shows "first w (unat (word_of_int x :: u16)) n = find (\<lambda>i. \<not> test w (nat ((x + int i) mod int (cap w)))) [0..<n]"
  by (simp add: first_walk [OF assms(1)] wire_test [OF assms])

lemma wire_clear:
  assumes "ok w" "int (cap w) dvd 2 ^ 16"
  shows "test (clear w (unat (word_of_int x :: u16)) n) (nat (y mod int (cap w))) \<longleftrightarrow>
    test w (nat (y mod int (cap w))) \<and> \<not> (\<exists>i<n. (x + int i) mod int (cap w) = y mod int (cap w))"
proof -
  have "nat (y mod int (cap w)) mod cap w = nat (y mod int (cap w))"
    using cap_pos [OF assms(1)] by (intro mod_less) (simp add: nat_less_iff)
  moreover have "(unat (word_of_int x :: u16) + i) mod cap w = nat (y mod int (cap w)) \<longleftrightarrow>
    (x + int i) mod int (cap w) = y mod int (cap w)" for i
    using wire_position [OF assms(2), of x i] cap_pos [OF assms(1)]
    by (metis nat_int nat_mod_as_int of_nat_0_less_iff int_nat_eq pos_mod_sign)
  ultimately show ?thesis by (simp add: clear_test [OF assms(1)])
qed

end

lemma bm_ok_clear: "bm_ok ws \<Longrightarrow> bm_ok (bitmap_clear ws start len)"
  by (simp add: bm_ok_def [of "bitmap_clear ws start len"]) (simp add: bm_ok_def)

interpretation bm: circular_bitmap bm_ok "\<lambda>ws. length ws * 64" bm_bit bitmap_clear for_each_zero first_zero count_zeros
proof (unfold_locales, goal_cases)
  case (1 w)
  then show ?case using bm_ok_length [of w] by simp
next
  case (2 w p)
  then show ?case by (simp add: bm_bit_lin)
qed (simp_all add: bm_ok_clear bitmap_clear_walk for_each_zero_walk first_zero_walk count_zeros_walk)

text \<open>C24: Every word-at-a-time operation on a circular bitmap gives what walking the range one bit at a time
  gives, cyclic re-reads included: the clear bits of a range are enumerated in order, their number is counted
  in 32 bits (exactly, for a range of fewer than \<open>2 ^ 32\<close> bits), the first is found, and clearing a range clears exactly its bits and keeps the size.\<close>

theorem bitmap_bit_by_bit:
  assumes "bm_ok ws"
  shows "for_each_zero ws start len = filter (\<lambda>i. \<not> bm_bit ws (start + i)) [0..<len] \<and>
    unat (count_zeros ws start len) = length (filter (\<lambda>i. \<not> bm_bit ws (start + i)) [0..<len]) mod 2 ^ 32 \<and>
    first_zero ws start len = find (\<lambda>i. \<not> bm_bit ws (start + i)) [0..<len] \<and>
    length (bitmap_clear ws start len) = length ws \<and>
    (\<forall>p. bm_bit (bitmap_clear ws start len) p \<longleftrightarrow>
      bm_bit ws p \<and> \<not> (\<exists>i<len. (start + i) mod (length ws * 64) = p mod (length ws * 64)))"
  using assms by (simp add: for_each_zero_walk count_zeros_walk first_zero_walk bitmap_clear_walk unsigned_of_nat take_bit_eq_mod)

theorem bitmap_bit_by_bit_witness:
  "bm_ok [0xFFFFFFFFFFFFFFF6, 0x7FFFFFFFFFFFFFFF] \<and>
   for_each_zero [0xFFFFFFFFFFFFFFF6, 0x7FFFFFFFFFFFFFFF] 127 6 = [0, 1, 4] \<and>
   unat (count_zeros [0xFFFFFFFFFFFFFFF6, 0x7FFFFFFFFFFFFFFF] 127 6) = 3 \<and>
   first_zero [0xFFFFFFFFFFFFFFF6, 0x7FFFFFFFFFFFFFFF] 129 6 = Some 2"
proof -
  let ?ws = "[0xFFFFFFFFFFFFFFF6, 0x7FFFFFFFFFFFFFFF] :: u64 list"
  have ok: "bm_ok ?ws" by (simp add: bm_ok_def) (rule exI [of _ 1], simp)
  have "filter (\<lambda>i. \<not> bm_bit ?ws (127 + i)) [0..<6] = [0, 1, 4] \<and> find (\<lambda>i. \<not> bm_bit ?ws (129 + i)) [0..<6] = Some 2"
    by (simp add: bm_bit_def Let_def upt_rec bit_iff_odd_drop_bit)
  then show ?thesis using ok bitmap_bit_by_bit [OF ok, of 127 6] bitmap_bit_by_bit [OF ok, of 129 6] by simp
qed

end
