(* ===== verification/Nack_Receive_Log.thy ===== *)
theory Nack_Receive_Log
  imports Bitmap
begin

text \<open>
  The log of received sequence numbers behind the negative acknowledgements
  (\<open>rtc-interceptor/src/nack/receive_log.rs\<close>). The definitions follow the source; the specification is a
  history of unwrapped sequence numbers, and the theorems say that the log reports exactly the numbers of
  its window that are missing from that history.
\<close>

unbundle bit_operations_syntax

section \<open>Definitions\<close>

definition UINT16_SIZE_HALF :: u16 where "UINT16_SIZE_HALF = push_bit 15 1"

record receive_log =
  log_packets :: "u64 list"
  log_size :: u16
  log_size_mask :: u16
  log_end :: u16
  log_started :: bool
  log_last_consecutive :: u16

definition receive_log_new :: "u16 \<Rightarrow> receive_log option" where
  "receive_log_new sz =
     (if \<not> list_ex (\<lambda>i. sz = push_bit i 1) [6..<16] then None
      else Some \<lparr>log_packets = replicate (unat (sz div 64)) 0, log_size = sz, log_size_mask = sz - 1,
        log_end = 0, log_started = False, log_last_consecutive = 0\<rparr>)"

definition set_received :: "receive_log \<Rightarrow> u16 \<Rightarrow> receive_log" where
  "set_received self seq =
     (let pos = seq AND log_size_mask self; w = unat (pos div 64) in
      self\<lparr>log_packets := (log_packets self)[w := log_packets self ! w OR push_bit (unat (pos mod 64)) 1]\<rparr>)"

definition get_received :: "receive_log \<Rightarrow> u16 \<Rightarrow> bool" where
  "get_received self seq =
     (let pos = seq AND log_size_mask self in
      log_packets self ! unat (pos div 64) AND push_bit (unat (pos mod 64)) 1 \<noteq> 0)"

definition fix_last_consecutive :: "receive_log \<Rightarrow> receive_log" where
  "fix_last_consecutive self =
     (let first = log_last_consecutive self + 1; span = log_end self - log_last_consecutive self in
      self\<lparr>log_last_consecutive :=
        (case first_zero (log_packets self) (unat first) (unat span) of
           Some offset \<Rightarrow> log_last_consecutive self + of_nat offset
         | None \<Rightarrow> log_end self)\<rparr>)"

definition receive_log_add :: "receive_log \<Rightarrow> u16 \<Rightarrow> receive_log" where
  "receive_log_add self seq =
     (if \<not> log_started self then
        (set_received self seq)\<lparr>log_end := seq, log_started := True, log_last_consecutive := seq\<rparr>
      else
        let diff = seq - log_end self in
        if diff = 0 then self
        else if diff < UINT16_SIZE_HALF then
          let self = self\<lparr>log_packets := bitmap_clear (log_packets self) (unat (log_end self + 1)) (unat (diff - 1)),
                log_end := seq\<rparr>;
              self = (if log_last_consecutive self + 1 = seq then self\<lparr>log_last_consecutive := seq\<rparr>
                else if seq - log_last_consecutive self > log_size self then
                  fix_last_consecutive (self\<lparr>log_last_consecutive := seq - log_size self\<rparr>)
                else self) in
          set_received self seq
        else
          let self = (if log_last_consecutive self + 1 = seq then
                fix_last_consecutive (self\<lparr>log_last_consecutive := seq\<rparr>) else self) in
          set_received self seq)"

definition receive_log_get :: "receive_log \<Rightarrow> u16 \<Rightarrow> bool" where
  "receive_log_get self seq =
     (let diff = log_end self - seq in
      if diff \<ge> UINT16_SIZE_HALF then False
      else if diff \<ge> log_size self then False
      else get_received self seq)"

definition missing_seq_numbers :: "receive_log \<Rightarrow> u16 \<Rightarrow> u16 list" where
  "missing_seq_numbers self skip_last_n =
     (let until = log_end self - skip_last_n; span = until - log_last_consecutive self in
      if span \<ge> UINT16_SIZE_HALF then []
      else let first = log_last_consecutive self + 1 in
        map (\<lambda>offset. first + of_nat offset) (for_each_zero (log_packets self) (unat first) (unat span)))"

definition is_missing :: "receive_log \<Rightarrow> u16 \<Rightarrow> u16 \<Rightarrow> bool" where
  "is_missing self seq skip_last_n =
     (let until = log_end self - skip_last_n; span = until - log_last_consecutive self in
      if span \<ge> UINT16_SIZE_HALF then False
      else let offset = seq - log_last_consecutive self in
        offset \<noteq> 0 \<and> offset \<le> span \<and> \<not> get_received self seq)"

section \<open>The shape of a log\<close>

text \<open>What \<open>ReceiveLog::new\<close> establishes of the fields that never change, and of the bitmap's size.\<close>

definition log_ok :: "receive_log \<Rightarrow> bool" where
  "log_ok self = (\<exists>k. 6 \<le> k \<and> k \<le> 15 \<and> log_size self = 2 ^ k \<and> log_size_mask self = mask k \<and>
     length (log_packets self) * 64 = 2 ^ k)"

lemma log_okE:
  assumes "log_ok L"
  obtains k where "6 \<le> k" "k \<le> 15" "log_size L = 2 ^ k" "unat (log_size L) = 2 ^ k" "log_size_mask L = mask k"
    "length (log_packets L) * 64 = 2 ^ k" "length (log_packets L) = 2 ^ (k - 6)"
proof -
  from assms obtain k where k: "6 \<le> k" "k \<le> 15" "log_size L = 2 ^ k" "log_size_mask L = mask k"
    "length (log_packets L) * 64 = 2 ^ k" unfolding log_ok_def by blast
  have "(2 :: nat) ^ k < 2 ^ 16" using k(2) by (intro power_strict_increasing) simp_all
  then have "unat (log_size L) = 2 ^ k"
    using unat_of_nat_small(2) [of "2 ^ k"] k(3) by simp
  moreover have "(2 :: nat) ^ k = 2 ^ (k - 6) * 64" using k(1) power_add [of "2 :: nat" "k - 6" 6] by simp
  ultimately show ?thesis using k that by simp
qed

lemma log_ok_cap:
  assumes "log_ok L"
  shows "bm_ok (log_packets L)" "length (log_packets L) * 64 = unat (log_size L)"
    "64 \<le> unat (log_size L)" "unat (log_size L) \<le> 2 ^ 15" "int (unat (log_size L)) dvd 2 ^ 16"
proof -
  from assms obtain k where k: "6 \<le> k" "k \<le> 15" "unat (log_size L) = 2 ^ k"
    "length (log_packets L) * 64 = 2 ^ k" "length (log_packets L) = 2 ^ (k - 6)" by (rule log_okE)
  show "bm_ok (log_packets L)" using k(5) by (auto simp: bm_ok_def)
  show "length (log_packets L) * 64 = unat (log_size L)" using k by simp
  show "64 \<le> unat (log_size L)" using k(1,3) power_increasing [of 6 k "2 :: nat"] by simp
  show "unat (log_size L) \<le> 2 ^ 15" using k(2,3) power_increasing [of k 15 "2 :: nat"] by simp
  show "int (unat (log_size L)) dvd 2 ^ 16" using k(2,3) le_imp_power_dvd [of k 16 "2 :: int"] by simp
qed

lemma log_index:
  fixes seq :: u16
  assumes "log_ok L"
  defines "pos \<equiv> seq AND log_size_mask L"
  shows "unat pos = unat seq mod unat (log_size L)"
    and "unat (pos div 64) = unat pos div 64" "unat (pos mod 64) = unat pos mod 64"
    and "unat pos div 64 < length (log_packets L)"
proof -
  from assms(1) obtain k where k: "k \<le> 15" "unat (log_size L) = 2 ^ k" "log_size_mask L = mask k" by (rule log_okE)
  show pos: "unat pos = unat seq mod unat (log_size L)"
    using k by (simp add: pos_def flip: take_bit_eq_mask take_bit_eq_mod) (simp add: unsigned_take_bit_eq)
  show "unat (pos div 64) = unat pos div 64" "unat (pos mod 64) = unat pos mod 64"
    by (simp_all add: unat_div unat_mod)
  show "unat pos div 64 < length (log_packets L)"
    using pos log_ok_cap(2,3) [OF assms(1)] by (intro less_mult_imp_div_less) simp
qed

lemma get_received_bit: "log_ok L \<Longrightarrow> get_received L seq = bm_bit (log_packets L) (unat seq)"
proof -
  assume ok: "log_ok L"
  have "w AND push_bit n 1 \<noteq> 0 \<longleftrightarrow> bit w n" if "n < 64" for w :: u64 and n
    by (simp add: push_bit_eq_mult and_exp_eq_0_iff_not_bit)
  then show ?thesis
    using log_ok_cap(2) [OF ok] by (simp add: get_received_def Let_def bm_bit_def log_index [OF ok])
qed

lemma set_received_fields [simp]:
  "log_size (set_received L seq) = log_size L" "log_size_mask (set_received L seq) = log_size_mask L"
  "log_end (set_received L seq) = log_end L" "log_started (set_received L seq) = log_started L"
  "log_last_consecutive (set_received L seq) = log_last_consecutive L"
  "length (log_packets (set_received L seq)) = length (log_packets L)"
  by (simp_all add: set_received_def Let_def)

lemma set_received_bit:
  assumes "log_ok L"
  shows "bm_bit (log_packets (set_received L seq)) p \<longleftrightarrow>
    bm_bit (log_packets L) p \<or> p mod unat (log_size L) = unat seq mod unat (log_size L)"
proof -
  note cap = log_ok_cap [OF assms]
  define q i where "q = p mod unat (log_size L)" and "i = unat seq mod unat (log_size L)"
  have q: "q div 64 < length (log_packets L)" and i: "i div 64 < length (log_packets L)"
    using cap(2,3) by (auto simp: q_def i_def intro!: less_mult_imp_div_less)
  have eq: "q = i \<longleftrightarrow> q div 64 = i div 64 \<and> q mod 64 = i mod 64" by (metis div_mult_mod_eq)
  have "bm_bit (log_packets (set_received L seq)) p \<longleftrightarrow>
    bit ((log_packets L)[i div 64 := log_packets L ! (i div 64) OR push_bit (i mod 64) 1] ! (q div 64)) (q mod 64)"
    using cap(2) by (simp add: bm_bit_def set_received_def Let_def log_index [OF assms] q_def i_def)
  also have "\<dots> \<longleftrightarrow> bit (log_packets L ! (q div 64)) (q mod 64) \<or> q = i"
    using q i by (auto simp: nth_list_update bit_simps eq)
  finally show ?thesis using cap(2) by (simp add: bm_bit_def q_def i_def Let_def)
qed

section \<open>Unwrapped sequence numbers\<close>

text \<open>The number that \<open>seq\<close> stands for when the highest number so far is \<open>e\<close>: the nearest one.\<close>

definition unwrap :: "int \<Rightarrow> u16 \<Rightarrow> int" where
  "unwrap e seq =
     (let diff = seq - word_of_int e in
      if diff < UINT16_SIZE_HALF then e + uint diff else e - uint (word_of_int e - seq))"

fun unwrap_all :: "int \<Rightarrow> u16 list \<Rightarrow> int list" where
  "unwrap_all e [] = []"
| "unwrap_all e (seq # seqs) = unwrap e seq # unwrap_all (max e (unwrap e seq)) seqs"

text \<open>No packet of the sequence arrives when it is already behind the window.\<close>

fun in_window :: "nat \<Rightarrow> int \<Rightarrow> u16 list \<Rightarrow> bool" where
  "in_window n e [] = True"
| "in_window n e (seq # seqs) = (e - int n < unwrap e seq \<and> in_window n (max e (unwrap e seq)) seqs)"

definition ebit :: "u64 list \<Rightarrow> int \<Rightarrow> bool" where
  "ebit ws x = bm_bit ws (nat (x mod int (length ws * 64)))"

lemma wire_diff: "0 \<le> e - c \<Longrightarrow> e - c < 2 ^ 16 \<Longrightarrow> unat (word_of_int e - word_of_int c :: u16) = nat (e - c)"
  unfolding wi_hom_sub by (simp add: unsigned_of_int take_bit_eq_mod del: of_int_diff)

lemma wire_diff_behind:
  "x < e \<Longrightarrow> e - x \<le> 2 ^ 16 \<Longrightarrow> unat (word_of_int x - word_of_int e :: u16) = nat (x + 2 ^ 16 - e)"
proof -
  assume "x < e" "e - x \<le> 2 ^ 16"
  moreover have w: "word_of_int (x + 2 ^ 16) = (word_of_int x :: u16)"
    by (simp add: word_of_int_eq_iff take_bit_eq_mod del: of_int_add)
  ultimately show ?thesis using wire_diff [of "x + 2 ^ 16" e] unfolding w by simp
qed

lemma alias_eq: "x mod n = y mod n \<Longrightarrow> \<bar>x - y\<bar> < n \<Longrightarrow> x = (y :: int)"
  using dvd_imp_le_int [of "x - y" n] by (cases "x - y = 0") (simp_all add: mod_eq_dvd_iff)

lemma wire_eq: "\<bar>x - y\<bar> < 2 ^ 16 \<Longrightarrow> (word_of_int x :: u16) = word_of_int y \<longleftrightarrow> x = y"
  using alias_eq [of x "2 ^ 16" y] by (auto simp: word_of_int_eq_iff take_bit_eq_mod)

lemma wire_unwrap [simp]: "word_of_int (unwrap e seq) = seq"
  by (simp add: unwrap_def Let_def flip: wi_hom_sub wi_hom_add)

lemma unat_half [simp]: "unat UINT16_SIZE_HALF = 2 ^ 15" by (simp add: UINT16_SIZE_HALF_def)

lemma unwrap_forward:
  assumes "seq - word_of_int e < UINT16_SIZE_HALF"
  shows "unwrap e seq = e + int (unat (seq - word_of_int e))" "unat (seq - word_of_int e) < 2 ^ 15"
  using assms by (simp_all add: unwrap_def word_less_nat_alt)

lemma unwrap_backward:
  assumes "\<not> seq - word_of_int e < UINT16_SIZE_HALF"
  shows "unwrap e seq < e" "e - unwrap e seq \<le> 2 ^ 15"
proof -
  define d where "d = seq - word_of_int e"
  have d: "2 ^ 15 \<le> unat d" "word_of_int e - seq = - d" using assms by (simp_all add: d_def word_less_nat_alt)
  then have "d \<noteq> 0" by auto
  then have "unat (- d) = 2 ^ 16 - unat d" using unat_sub_if' [of 0 d] by (simp add: unat_eq_0)
  moreover have "unwrap e seq = e - int (unat (- d))" using assms d by (simp add: unwrap_def d_def [symmetric])
  ultimately show "unwrap e seq < e" "e - unwrap e seq \<le> 2 ^ 15" using d(1) unat_bounds by auto
qed

section \<open>The operations on unwrapped numbers\<close>

lemma log_update_ok [simp]:
  "log_ok (L\<lparr>log_end := e\<rparr>) = log_ok L" "log_ok (L\<lparr>log_last_consecutive := c\<rparr>) = log_ok L"
  "log_ok (L\<lparr>log_started := b\<rparr>) = log_ok L"
  "length P = length (log_packets L) \<Longrightarrow> log_ok (L\<lparr>log_packets := P\<rparr>) = log_ok L"
  by (simp_all add: log_ok_def)

lemma set_received_ok [simp]: "log_ok (set_received L seq) = log_ok L"
  by (simp add: log_ok_def)

lemma set_received_ebit:
  assumes "log_ok L"
  shows "ebit (log_packets (set_received L (word_of_int x))) y \<longleftrightarrow>
    ebit (log_packets L) y \<or> y mod int (unat (log_size L)) = x mod int (unat (log_size L))"
proof -
  define n where "n = unat (log_size L)"
  have n: "length (log_packets L) * 64 = n" "0 < n" "int n dvd 2 ^ 16" using log_ok_cap [OF assms] by (auto simp: n_def)
  have "unat (word_of_int x :: u16) mod n = nat (x mod int n)"
    using bm.wire_position [of "log_packets L" x 0] n by (simp add: nat_eq_iff2)
  moreover have "nat (y mod int n) mod n = nat (y mod int n)" using n(2) by (intro mod_less) (simp add: nat_less_iff)
  ultimately show ?thesis
    using n(1,2) set_received_bit [OF assms, folded n_def] by (simp add: ebit_def eq_nat_nat_iff n_def [symmetric] del: of_nat_unat)
qed

lemma fix_last_consecutive_advances:
  assumes "log_ok L" "log_last_consecutive L = word_of_int c" "log_end L = word_of_int e" "c \<le> e" "e - c \<le> 2 ^ 15"
  obtains c' where "fix_last_consecutive L = L\<lparr>log_last_consecutive := word_of_int c'\<rparr>" "c \<le> c'" "c' \<le> e"
    "\<And>x. c < x \<Longrightarrow> x \<le> c' \<Longrightarrow> ebit (log_packets L) x"
proof -
  note cap = log_ok_cap [OF assms(1)]
  have first: "log_last_consecutive L + 1 = word_of_int (c + 1)" by (simp add: assms(2) flip: wi_hom_add)
  have span: "unat (log_end L - log_last_consecutive L) = nat (e - c)" using assms(2-5) by (simp add: wire_diff)
  have find: "first_zero (log_packets L) (unat (log_last_consecutive L + 1)) (unat (log_end L - log_last_consecutive L)) =
    find (\<lambda>i. \<not> ebit (log_packets L) (c + 1 + int i)) [0..<nat (e - c)]"
    unfolding first span ebit_def using cap by (intro bm.wire_first) simp_all
  show ?thesis
  proof (cases "find (\<lambda>i. \<not> ebit (log_packets L) (c + 1 + int i)) [0..<nat (e - c)]")
    case None
    show ?thesis
    proof (rule that [of e])
      fix x assume "c < x" "x \<le> e"
      then have "nat (x - c - 1) \<in> set [0..<nat (e - c)]" "c + 1 + int (nat (x - c - 1)) = x" by auto
      with None show "ebit (log_packets L) x" unfolding find_None_iff by metis
    qed (use None find assms(3,4) in \<open>simp_all add: fix_last_consecutive_def Let_def\<close>)
  next
    case (Some k)
    then have k: "k < nat (e - c)" "\<And>j. j < k \<Longrightarrow> ebit (log_packets L) (c + 1 + int j)" by (auto simp: find_Some_iff)
    show ?thesis
    proof (rule that [of "c + int k"])
      show "fix_last_consecutive L = L\<lparr>log_last_consecutive := word_of_int (c + int k)\<rparr>"
        using Some find by (simp add: fix_last_consecutive_def Let_def assms(2) flip: wi_hom_add)
      fix x assume "c < x" "x \<le> c + int k"
      then show "ebit (log_packets L) x" using k(2) [of "nat (x - c - 1)"] by simp
    qed (use k(1) in auto)
  qed
qed

section \<open>The log tracks the history\<close>

definition log_window :: "receive_log \<Rightarrow> int" where
  "log_window L = int (unat (log_size L))"

text \<open>
  \<open>log_tracks b e R L\<close>: the log began with number \<open>b\<close>, the highest is \<open>e\<close>, and \<open>R\<close> is the set of numbers
  received. The bitmap is \<open>R\<close> on the window, and up to \<open>last_consecutive\<close> nothing since \<open>b\<close> is missing.
\<close>

definition log_tracks :: "int \<Rightarrow> int \<Rightarrow> int set \<Rightarrow> receive_log \<Rightarrow> bool" where
  "log_tracks b e R L = (log_ok L \<and> log_started L \<and> log_end L = word_of_int e \<and> e \<in> R \<and> (\<forall>x\<in>R. x \<le> e) \<and>
     (\<forall>x. e - log_window L < x \<and> x \<le> e \<longrightarrow> ebit (log_packets L) x = (x \<in> R)) \<and>
     (\<exists>c. log_last_consecutive L = word_of_int c \<and> b \<le> c \<and> c \<le> e \<and> e - c \<le> log_window L \<and>
       (\<forall>x. e - log_window L < x \<and> b \<le> x \<and> x \<le> c \<longrightarrow> x \<in> R)))"

lemma log_window_bounds: "log_ok L \<Longrightarrow> 64 \<le> log_window L" "log_ok L \<Longrightarrow> log_window L \<le> 2 ^ 15"
  using log_ok_cap(3,4) [of L] unfolding log_window_def by (simp_all del: of_nat_unat)

lemma log_window_update [simp]:
  "log_window (L\<lparr>log_end := e\<rparr>) = log_window L" "log_window (L\<lparr>log_last_consecutive := c\<rparr>) = log_window L"
  "log_window (L\<lparr>log_packets := P\<rparr>) = log_window L" "log_window (set_received L seq) = log_window L"
  "log_window (L\<lparr>log_started := s\<rparr>) = log_window L"
  by (simp_all add: log_window_def)

lemma set_received_tracks:
  assumes "log_ok L" "e - log_window L < x" "x \<le> e"
    and "\<And>y. e - log_window L < y \<Longrightarrow> y \<le> e \<Longrightarrow> y \<noteq> x \<Longrightarrow> ebit (log_packets L) y = (y \<in> R)"
    and "e - log_window L < y" "y \<le> e"
  shows "ebit (log_packets (set_received L (word_of_int x))) y = (y \<in> insert x R)"
proof -
  have "\<bar>y - x\<bar> < log_window L" using assms(2,3,5,6) by linarith
  then show ?thesis
    using assms alias_eq [of y "log_window L" x]
    unfolding set_received_ebit [OF assms(1), folded log_window_def] by (cases "y = x") auto
qed

lemma bitmap_clear_ebit:
  assumes "log_ok L"
  shows "ebit (bitmap_clear (log_packets L) (unat (word_of_int x :: u16)) n) y \<longleftrightarrow>
    ebit (log_packets L) y \<and> \<not> (\<exists>i<n. (x + int i) mod log_window L = y mod log_window L)"
  using bm.wire_clear [of "log_packets L" x n y] log_ok_cap [OF assms]
  by (simp add: ebit_def log_window_def)

text \<open>A jump from \<open>e\<close> to \<open>x\<close> clears the skipped numbers and keeps the rest of the new window.\<close>

lemma clear_skipped:
  assumes "log_ok L" "\<forall>y. e - log_window L < y \<and> y \<le> e \<longrightarrow> ebit (log_packets L) y = (y \<in> R)" "\<forall>y\<in>R. y \<le> e"
    and "e < x" "x - log_window L < y" "y < x"
  shows "ebit (bitmap_clear (log_packets L) (unat (word_of_int (e + 1) :: u16)) (nat (x - e) - 1)) y = (y \<in> R)"
proof (cases "y \<le> e")
  case True
  have "(e + 1 + int i) mod log_window L \<noteq> y mod log_window L" if "i < nat (x - e) - 1" for i
  proof -
    have "\<bar>e + 1 + int i - y\<bar> < log_window L" "e + 1 + int i \<noteq> y" using that True assms(4,5) by linarith+
    then show ?thesis using alias_eq by blast
  qed
  with True assms show ?thesis unfolding bitmap_clear_ebit [OF assms(1)] by auto
next
  case False
  then have "nat (y - e - 1) < nat (x - e) - 1" "e + 1 + int (nat (y - e - 1)) = y" using assms(6) by auto
  then show ?thesis using False assms(3) unfolding bitmap_clear_ebit [OF assms(1)] by force
qed

lemma receive_log_add_ahead:
  assumes "log_started L" "log_end L = word_of_int e" "e < x" "x - e < 2 ^ 15"
  shows "receive_log_add L (word_of_int x) = set_received
    (let self = L\<lparr>log_packets := bitmap_clear (log_packets L) (unat (word_of_int (e + 1) :: u16)) (nat (x - e) - 1),
         log_end := word_of_int x\<rparr> in
     if log_last_consecutive self + 1 = word_of_int x then self\<lparr>log_last_consecutive := word_of_int x\<rparr>
     else if word_of_int x - log_last_consecutive self > log_size self then
       fix_last_consecutive (self\<lparr>log_last_consecutive := word_of_int x - log_size self\<rparr>)
     else self) (word_of_int x)"
proof -
  have n: "unat (word_of_int x - word_of_int e :: u16) = nat (x - e)" using assms(3,4) by (intro wire_diff) simp_all
  then have nz: "word_of_int x - word_of_int e \<noteq> (0 :: u16)" using assms(3) by (metis unat_0 zero_less_nat_eq diff_gt_0_iff_gt less_irrefl)
  have less: "word_of_int x - word_of_int e < UINT16_SIZE_HALF" using n assms(4) by (simp add: word_less_nat_alt nat_less_iff)
  have minus: "unat ((word_of_int x - word_of_int e :: u16) - 1) = nat (x - e) - 1" using n nz by (simp add: unat_minus_one)
  show ?thesis using assms(1,2) nz less minus by (simp add: receive_log_add_def Let_def)
qed

lemma receive_log_add_behind:
  assumes "log_started L" "log_end L = word_of_int e" "x < e" "e - x \<le> 2 ^ 15"
  shows "receive_log_add L (word_of_int x) = set_received
    (if log_last_consecutive L + 1 = word_of_int x then fix_last_consecutive (L\<lparr>log_last_consecutive := word_of_int x\<rparr>) else L)
    (word_of_int x)"
proof -
  have "unat (word_of_int x - word_of_int e :: u16) = nat (x + 2 ^ 16 - e)"
    using assms(3,4) by (intro wire_diff_behind) simp_all
  then have "word_of_int x - word_of_int e \<noteq> (0 :: u16)" "\<not> word_of_int x - word_of_int e < UINT16_SIZE_HALF"
    using assms(3,4) by (auto simp: word_less_nat_alt)
  then show ?thesis using assms(1,2) by (simp add: receive_log_add_def Let_def)
qed

text \<open>The second half of the forward case: where \<open>last_consecutive\<close> goes.\<close>

lemma consecutive_ahead:
  assumes ok: "log_ok L" and x: "log_end L = word_of_int x" "c < x" "x - c < 2 ^ 16"
    and c: "log_last_consecutive L = word_of_int c" "b \<le> c" "\<And>y. x - log_window L < y \<Longrightarrow> b \<le> y \<Longrightarrow> y \<le> c \<Longrightarrow> y \<in> R"
    and bits: "\<And>y. x - log_window L < y \<Longrightarrow> y < x \<Longrightarrow> ebit (log_packets L) y = (y \<in> R)"
  obtains c' where "(if log_last_consecutive L + 1 = word_of_int x then L\<lparr>log_last_consecutive := word_of_int x\<rparr>
     else if word_of_int x - log_last_consecutive L > log_size L then
       fix_last_consecutive (L\<lparr>log_last_consecutive := word_of_int x - log_size L\<rparr>)
     else L) = L\<lparr>log_last_consecutive := word_of_int c'\<rparr>" "b \<le> c'" "c' \<le> x" "x - c' \<le> log_window L"
    "\<And>y. x - log_window L < y \<Longrightarrow> b \<le> y \<Longrightarrow> y \<le> c' \<Longrightarrow> y \<in> insert x R"
proof -
  note win = log_window_bounds [OF ok]
  have next_seq: "word_of_int c + 1 = (word_of_int x :: u16) \<longleftrightarrow> x = c + 1"
    using wire_eq [of "c + 1" x] x(2,3) by auto
  have far: "word_of_int x - word_of_int c > log_size L \<longleftrightarrow> x - c > log_window L"
    using wire_diff [of x c] x(2,3) by (simp add: word_less_nat_alt log_window_def nat_less_iff zless_nat_eq_int_zless)
  have behind: "word_of_int x - log_size L = word_of_int (x - log_window L)" by (simp add: log_window_def)
  consider "x = c + 1" | "x \<noteq> c + 1" "x - c > log_window L" | "x \<noteq> c + 1" "x - c \<le> log_window L" by linarith
  then show thesis
  proof cases
    case 1
    have "y \<in> insert x R" if "x - log_window L < y" "b \<le> y" "y \<le> x" for y
      using that 1 c(3) [of y] by (cases "y = x") auto
    with 1 show thesis using c win by (intro that [of x]) (auto simp: next_seq)
  next
    case 2
    let ?L = "L\<lparr>log_last_consecutive := word_of_int (x - log_window L)\<rparr>"
    obtain c' where fixed: "fix_last_consecutive ?L = ?L\<lparr>log_last_consecutive := word_of_int c'\<rparr>"
      "x - log_window L \<le> c'" "c' \<le> x" "\<And>y. x - log_window L < y \<Longrightarrow> y \<le> c' \<Longrightarrow> ebit (log_packets ?L) y"
      by (rule fix_last_consecutive_advances [of ?L "x - log_window L" x]) (use ok win x(1) in simp_all)
    have "y \<in> insert x R" if "x - log_window L < y" "y \<le> c'" for y
      using fixed(3) fixed(4) [OF that] bits [of y] that by (cases "y = x") auto
    with fixed(1-3) show thesis using 2 c by (intro that [of c']) (auto simp: next_seq far behind)
  next
    case 3
    then show thesis using c x by (intro that [of c]) (auto simp: next_seq far)
  qed
qed

lemma log_tracks_forward:
  assumes T: "log_tracks b e R L" and x: "e < x" "x - e < 2 ^ 15"
  shows "log_tracks b x (insert x R) (receive_log_add L (word_of_int x))"
proof -
  from T obtain c where ok: "log_ok L" and started: "log_started L" and e: "log_end L = word_of_int e" "\<forall>y\<in>R. y \<le> e"
    and bits: "\<forall>y. e - log_window L < y \<and> y \<le> e \<longrightarrow> ebit (log_packets L) y = (y \<in> R)"
    and c: "log_last_consecutive L = word_of_int c" "b \<le> c" "c \<le> e" "e - c \<le> log_window L"
      "\<forall>y. e - log_window L < y \<and> b \<le> y \<and> y \<le> c \<longrightarrow> y \<in> R"
    unfolding log_tracks_def by blast
  note win = log_window_bounds [OF ok]
  define L1 where "L1 = L\<lparr>log_packets := bitmap_clear (log_packets L) (unat (word_of_int (e + 1) :: u16)) (nat (x - e) - 1),
    log_end := word_of_int x\<rparr>"
  have P: "ebit (log_packets L1) y = (y \<in> R)" if "x - log_window L < y" "y < x" for y
    using clear_skipped [OF ok bits e(2) x(1) that] by (simp add: L1_def)
  have L1: "log_ok L1" "log_window L1 = log_window L" "log_end L1 = word_of_int x" "log_last_consecutive L1 = word_of_int c"
    "log_started L1"
    using ok log_ok_cap(1) [OF ok] c(1) started by (simp_all add: L1_def)
  obtain c' where step: "(if log_last_consecutive L1 + 1 = word_of_int x then L1\<lparr>log_last_consecutive := word_of_int x\<rparr>
     else if word_of_int x - log_last_consecutive L1 > log_size L1 then
       fix_last_consecutive (L1\<lparr>log_last_consecutive := word_of_int x - log_size L1\<rparr>)
     else L1) = L1\<lparr>log_last_consecutive := word_of_int c'\<rparr>"
    and c': "b \<le> c'" "c' \<le> x" "x - c' \<le> log_window L" "\<And>y. x - log_window L < y \<Longrightarrow> b \<le> y \<Longrightarrow> y \<le> c' \<Longrightarrow> y \<in> insert x R"
    by (rule consecutive_ahead [OF L1(1,3) _ _ L1(4), of b R, unfolded L1(2)]) (use P c(2-5) x win in auto)
  have "receive_log_add L (word_of_int x) = set_received (L1\<lparr>log_last_consecutive := word_of_int c'\<rparr>) (word_of_int x)"
    using receive_log_add_ahead [OF started e(1) x] unfolding L1_def [symmetric] Let_def step .
  moreover have "ebit (log_packets (set_received (L1\<lparr>log_last_consecutive := word_of_int c'\<rparr>) (word_of_int x))) y = (y \<in> insert x R)"
    if "x - log_window L < y" "y \<le> x" for y
    using that P win L1 by (intro set_received_tracks [of _ x]) simp_all
  ultimately show ?thesis unfolding log_tracks_def using c' L1 e(2) x by auto
qed

lemma log_tracks_backward:
  assumes T: "log_tracks b e R L" and x: "x < e" "e - log_window L < x"
  shows "log_tracks b e (insert x R) (receive_log_add L (word_of_int x))"
proof -
  from T obtain c where ok: "log_ok L" and started: "log_started L" and e: "log_end L = word_of_int e" "\<forall>y\<in>R. y \<le> e" "e \<in> R"
    and bits: "\<forall>y. e - log_window L < y \<and> y \<le> e \<longrightarrow> ebit (log_packets L) y = (y \<in> R)"
    and c: "log_last_consecutive L = word_of_int c" "b \<le> c" "c \<le> e" "e - c \<le> log_window L"
      "\<forall>y. e - log_window L < y \<and> b \<le> y \<and> y \<le> c \<longrightarrow> y \<in> R"
    unfolding log_tracks_def by blast
  note win = log_window_bounds [OF ok]
  define L1 where "L1 = (if log_last_consecutive L + 1 = word_of_int x then
    fix_last_consecutive (L\<lparr>log_last_consecutive := word_of_int x\<rparr>) else L)"
  have next_seq: "word_of_int c + 1 = (word_of_int x :: u16) \<longleftrightarrow> x = c + 1"
    using wire_eq [of "c + 1" x] x c(3,4) win by auto
  obtain c' where c': "L1 = L\<lparr>log_last_consecutive := word_of_int c'\<rparr>" "b \<le> c'" "c' \<le> e" "e - c' \<le> log_window L"
    "\<And>y. e - log_window L < y \<Longrightarrow> b \<le> y \<Longrightarrow> y \<le> c' \<Longrightarrow> y \<in> insert x R"
  proof (cases "x = c + 1")
    case True
    let ?L = "L\<lparr>log_last_consecutive := word_of_int x\<rparr>"
    obtain c' where fixed: "fix_last_consecutive ?L = ?L\<lparr>log_last_consecutive := word_of_int c'\<rparr>"
      "x \<le> c'" "c' \<le> e" "\<And>y. x < y \<Longrightarrow> y \<le> c' \<Longrightarrow> ebit (log_packets ?L) y"
      by (rule fix_last_consecutive_advances [of ?L x e]) (use ok win x e(1) in simp_all)
    have "y \<in> insert x R" if "e - log_window L < y" "b \<le> y" "y \<le> c'" for y
    proof (cases "x < y")
      case True
      then show ?thesis using fixed(3) fixed(4) [OF True] bits that by auto
    qed (use True that c(5) [rule_format, of y] in \<open>cases "y = x"; auto\<close>)
    with fixed(1-3) True show thesis using c x by (intro that [of c']) (auto simp: L1_def next_seq)
  qed (use c next_seq that [of c] in \<open>auto simp: L1_def\<close>)
  have "receive_log_add L (word_of_int x) = set_received L1 (word_of_int x)"
    using receive_log_add_behind [OF started e(1), of x] x win by (simp add: L1_def)
  moreover have "ebit (log_packets (set_received L1 (word_of_int x))) y = (y \<in> insert x R)"
    if "e - log_window L < y" "y \<le> e" for y
    using that bits x c'(1) ok by (intro set_received_tracks [of _ e]) simp_all
  ultimately show ?thesis unfolding log_tracks_def using c' ok started e x by auto
qed

section \<open>Runs of the log\<close>

lemma receive_log_new_ok:
  assumes "receive_log_new sz = Some L"
  shows "log_ok L" "log_size L = sz" "\<not> log_started L" "log_packets L = replicate (unat sz div 64) 0"
proof -
  from assms obtain k where k: "6 \<le> k" "k < 16" "sz = 2 ^ k"
    and L: "L = \<lparr>log_packets = replicate (unat (sz div 64)) 0, log_size = sz, log_size_mask = sz - 1,
      log_end = 0, log_started = False, log_last_consecutive = 0\<rparr>"
    unfolding receive_log_new_def list_ex_iff set_upt by (auto simp: push_bit_eq_mult split: if_splits)
  have "(2 :: nat) ^ k < 2 ^ 16" using k(2) by (intro power_strict_increasing) simp_all
  then have "unat sz = 2 ^ k" using unat_of_nat_small(2) [of "2 ^ k"] k(3) by simp
  moreover have "(2 :: nat) ^ k = 2 ^ (k - 6) * 64" using k(1) power_add [of "2 :: nat" "k - 6" 6] by simp
  ultimately have "unat (sz div 64) * 64 = 2 ^ k" by (simp add: unat_div)
  then show "log_ok L" using k L by (auto simp: log_ok_def mask_eq_exp_minus_1 intro!: exI [of _ k])
  show "log_size L = sz" "\<not> log_started L" "log_packets L = replicate (unat sz div 64) 0"
    using L by (simp_all add: unat_div)
qed

lemma fix_last_consecutive_fields [simp]:
  "log_size (fix_last_consecutive L) = log_size L" "log_size_mask (fix_last_consecutive L) = log_size_mask L"
  "log_packets (fix_last_consecutive L) = log_packets L" "log_ok (fix_last_consecutive L) = log_ok L"
  by (simp_all add: fix_last_consecutive_def Let_def)

lemma receive_log_add_size [simp]: "log_size (receive_log_add L seq) = log_size L"
  by (simp add: receive_log_add_def Let_def)

lemma receive_log_add_ok [simp]: "log_ok L \<Longrightarrow> log_ok (receive_log_add L seq)"
  using log_ok_cap(1) [of L] by (simp add: receive_log_add_def Let_def)

lemma receive_log_run_ok: "log_ok L \<Longrightarrow> log_ok (foldl receive_log_add L seqs) \<and> log_size (foldl receive_log_add L seqs) = log_size L"
  by (induction seqs arbitrary: L) simp_all

lemma ebit_empty: "0 < n \<Longrightarrow> \<not> ebit (replicate n 0) x"
proof -
  assume "0 < n"
  then have "nat (x mod int (n * 64)) < n * 64" by (simp add: nat_less_iff)
  then show ?thesis by (simp add: ebit_def bm_bit_def Let_def less_mult_imp_div_less)
qed

lemma log_tracks_first:
  assumes "receive_log_new sz = Some L"
  shows "log_tracks (uint s) (uint s) {uint s} (receive_log_add L s)"
proof -
  note new = receive_log_new_ok [OF assms]
  define L1 where "L1 = (set_received L s)\<lparr>log_end := s, log_started := True, log_last_consecutive := s\<rparr>"
  have add: "receive_log_add L s = L1" using new(3) by (simp add: receive_log_add_def L1_def)
  have ok: "log_ok L1" "log_window L1 = log_window L" using new(1) by (simp_all add: L1_def log_window_def)
  have "ebit (log_packets L1) x = (x \<in> {uint s})" if "uint s - log_window L < x" "x \<le> uint s" for x
    using set_received_tracks [OF new(1), of "uint s" "uint s" "{}" x] that log_window_bounds(1) [OF new(1)]
      log_ok_cap(3) [OF new(1)] by (simp add: L1_def new(2,4) ebit_empty)
  then show ?thesis
    unfolding add log_tracks_def using ok log_window_bounds(1) [OF ok(1)]
    by (auto simp: L1_def intro!: exI [of _ "uint s"])
qed

lemma log_tracks_step:
  assumes "log_tracks b e R L" "e - log_window L < unwrap e seq"
  shows "log_tracks b (max e (unwrap e seq)) (insert (unwrap e seq) R) (receive_log_add L seq)"
proof -
  have L: "log_ok L" "log_started L" "log_end L = word_of_int e" "e \<in> R" using assms(1) by (auto simp: log_tracks_def)
  have "unwrap e seq < e \<or> e \<le> unwrap e seq \<and> unwrap e seq - e < 2 ^ 15"
    using unwrap_forward [of seq e] unwrap_backward(1) [of seq e]
    by (cases "seq - word_of_int e < UINT16_SIZE_HALF") (auto simp del: of_nat_unat)
  then consider "unwrap e seq < e" | "unwrap e seq = e" | "e < unwrap e seq" "unwrap e seq - e < 2 ^ 15" by force
  then show ?thesis
  proof cases
    case 1
    then show ?thesis using log_tracks_backward [OF assms(1) 1 assms(2)] by (simp add: max_def)
  next
    case 2
    then have "seq = word_of_int e" by (metis wire_unwrap)
    then have "receive_log_add L seq = L" using L by (simp add: receive_log_add_def)
    then show ?thesis using 2 L(4) assms(1) by (simp add: insert_absorb)
  next
    case 3
    then show ?thesis using log_tracks_forward [OF assms(1) 3] by (simp add: max_def)
  qed
qed

lemma log_tracks_run:
  "log_tracks b e R L \<Longrightarrow> in_window (unat (log_size L)) e seqs \<Longrightarrow>
    \<exists>e'. log_tracks b e' (R \<union> set (unwrap_all e seqs)) (foldl receive_log_add L seqs)"
proof (induction seqs arbitrary: e R L)
  case (Cons seq seqs)
  then have "log_tracks b (max e (unwrap e seq)) (insert (unwrap e seq) R) (receive_log_add L seq)"
    by (intro log_tracks_step) (simp_all add: log_window_def)
  from Cons.IH [OF this] Cons.prems(2) show ?case by (simp add: insert_commute)
qed auto

section \<open>What a tracking log answers\<close>

lemma receive_log_get_window:
  assumes "log_ok L" "log_end L = word_of_int e" "e - log_window L < x" "x \<le> e"
  shows "receive_log_get L (word_of_int x) = ebit (log_packets L) x"
proof -
  note cap = log_ok_cap [OF assms(1)] and win = log_window_bounds [OF assms(1)]
  have d: "unat (log_end L - word_of_int x) = nat (e - x)" unfolding assms(2) using assms(3,4) win by (intro wire_diff) auto
  have "get_received L (word_of_int x) = ebit (log_packets L) x"
    using bm.wire_test [of "log_packets L" x 0] cap(1,2,5) by (simp add: get_received_bit [OF assms(1)] ebit_def)
  moreover have "\<not> UINT16_SIZE_HALF \<le> log_end L - word_of_int x" "\<not> log_size L \<le> log_end L - word_of_int x"
    using assms(3,4) win by (simp_all add: word_le_nat_alt d log_window_def nat_le_iff not_le nat_less_iff del: of_nat_unat)
  ultimately show ?thesis by (simp add: receive_log_get_def Let_def)
qed

lemma receive_log_get_tracks:
  "log_tracks b e R L \<Longrightarrow> e - log_window L < x \<Longrightarrow> x \<le> e \<Longrightarrow> receive_log_get L (word_of_int x) = (x \<in> R)"
  using receive_log_get_window [of L e x] by (auto simp: log_tracks_def)

lemma map_upt_upto: "map (\<lambda>i. a + int i) [0..<n] = [a..a + int n - 1]"
proof (induction n)
  case (Suc n)
  have "[a..a + int (Suc n) - 1] = [a..a + int n - 1] @ [a + int n]"
    using upto_rec2 [of a "a + int n"] by simp
  with Suc show ?case by simp
qed simp

lemma missing_tracks_from:
  assumes "log_ok L" "log_end L = word_of_int e" "log_last_consecutive L = word_of_int c" "c \<le> e" "e - c < 2 ^ 15"
    and "skip \<le> UINT16_SIZE_HALF"
  shows "missing_seq_numbers L skip = map word_of_int (filter (\<lambda>x. \<not> ebit (log_packets L) x) [c + 1..e - uint skip])"
proof -
  note cap = log_ok_cap [OF assms(1)]
  define u where "u = e - uint skip"
  have skip: "0 \<le> uint skip" "uint skip \<le> 2 ^ 15" using assms(6) by (auto simp: word_le_def UINT16_SIZE_HALF_def)
  have until: "log_end L - skip - log_last_consecutive L = word_of_int u - word_of_int c"
    by (simp add: assms(2,3) u_def)
  have first: "log_last_consecutive L + 1 = word_of_int (c + 1)" by (simp add: assms(3))
  show ?thesis
  proof (cases "c \<le> u")
    case True
    have less: "u - c < 2 ^ 15" using skip(1) assms(5) unfolding u_def by linarith
    have span: "unat (word_of_int u - word_of_int c :: u16) = nat (u - c)"
      using True less by (intro wire_diff) auto
    have "\<not> UINT16_SIZE_HALF \<le> word_of_int u - word_of_int c"
      using less by (simp add: word_le_nat_alt span nat_le_iff)
    then have "missing_seq_numbers L skip = map (\<lambda>i. word_of_int (c + 1 + int i))
        (for_each_zero (log_packets L) (unat (word_of_int (c + 1) :: u16)) (nat (u - c)))"
      unfolding missing_seq_numbers_def Let_def until first span by simp
    also have "for_each_zero (log_packets L) (unat (word_of_int (c + 1) :: u16)) (nat (u - c)) =
        filter (\<lambda>i. \<not> ebit (log_packets L) (c + 1 + int i)) [0..<nat (u - c)]"
      unfolding ebit_def using cap by (intro bm.wire_zeros) simp_all
    also have "map (\<lambda>i. word_of_int (c + 1 + int i)) \<dots> =
        map word_of_int (filter (\<lambda>x. \<not> ebit (log_packets L) x) (map (\<lambda>i. c + 1 + int i) [0..<nat (u - c)]))"
      by (simp add: filter_map comp_def)
    finally show ?thesis using True unfolding map_upt_upto u_def [symmetric] by simp
  next
    case False
    then have span: "unat (word_of_int u - word_of_int c :: u16) = nat (u + 2 ^ 16 - c)"
      using skip(2) assms(4) by (intro wire_diff_behind) (auto simp: u_def)
    then have "UINT16_SIZE_HALF \<le> word_of_int u - word_of_int c"
      using False skip assms(4) by (simp add: word_le_nat_alt u_def)
    then show ?thesis using False unfolding missing_seq_numbers_def Let_def until u_def [symmetric] by simp
  qed
qed

lemma missing_tracks:
  assumes "log_tracks b e R L" "log_window L < 2 ^ 15" "skip \<le> UINT16_SIZE_HALF"
  shows "missing_seq_numbers L skip =
    map word_of_int (filter (\<lambda>x. x \<notin> R) [max b (e - log_window L) + 1..e - uint skip])"
proof -
  from assms(1) obtain c where L: "log_ok L" "log_end L = word_of_int e"
    and bits: "\<forall>y. e - log_window L < y \<and> y \<le> e \<longrightarrow> ebit (log_packets L) y = (y \<in> R)"
    and c: "log_last_consecutive L = word_of_int c" "b \<le> c" "c \<le> e" "e - c \<le> log_window L"
      "\<forall>y. e - log_window L < y \<and> b \<le> y \<and> y \<le> c \<longrightarrow> y \<in> R"
    unfolding log_tracks_def by blast
  define a u where "a = max b (e - log_window L)" and "u = e - uint skip"
  have a: "a \<le> c" "u \<le> e" "\<And>x. a < x \<Longrightarrow> x \<le> c \<Longrightarrow> x \<in> R" using c(2,4,5) by (auto simp: a_def u_def)
  have "filter (\<lambda>x. \<not> ebit (log_packets L) x) [c + 1..u] = filter (\<lambda>x. x \<notin> R) [c + 1..u]"
    using bits c(4) a(2) by (intro filter_cong) auto
  also have "\<dots> = filter (\<lambda>x. x \<notin> R) [a + 1..u]"
  proof (cases "c \<le> u")
    case True
    then have "[a + 1..u] = [a + 1..c] @ [c + 1..u]" using a(1) upto_split2 [of "a + 1" c u]
      by (cases "a = c") auto
    moreover have "filter (\<lambda>x. x \<notin> R) [a + 1..c] = []" using a(3) by (auto simp: filter_empty_conv)
    ultimately show ?thesis by simp
  next
    case False
    then have "filter (\<lambda>x. x \<notin> R) [a + 1..u] = []" using a(3) by (auto simp: filter_empty_conv)
    then show ?thesis using False by simp
  qed
  finally show ?thesis
    using missing_tracks_from [OF L c(1,3) _ assms(3)] c(4) assms(2) by (simp add: a_def u_def)
qed

lemma is_missing_iff:
  assumes "log_ok L"
  shows "is_missing L seq skip \<longleftrightarrow> seq \<in> set (missing_seq_numbers L skip)"
proof -
  define c span where "c = log_last_consecutive L" and "span = log_end L - skip - c"
  note cap = log_ok_cap [OF assms]
  have bit: "bm_bit (log_packets L) (unat (c + 1) + i) = get_received L (c + 1 + of_nat i)" for i
    using bm.wire_test [of "log_packets L" "uint (c + 1)" i] bm.wire_test [of "log_packets L" "uint (c + 1) + int i" 0] cap(1,2,5)
    by (simp add: get_received_bit [OF assms])
  have offset: "seq - c \<noteq> 0 \<and> seq - c \<le> span \<longleftrightarrow> (\<exists>i<unat span. seq = c + 1 + of_nat i)"
  proof
    assume "seq - c \<noteq> 0 \<and> seq - c \<le> span"
    then have "0 < unat (seq - c)" "unat (seq - c - 1) = unat (seq - c) - 1" "unat (seq - c) \<le> unat span"
      by (auto simp: unat_minus_one word_le_nat_alt unat_gt_0)
    then have "unat (seq - c - 1) < unat span" by linarith
    moreover have "seq = c + 1 + of_nat (unat (seq - c - 1))" by simp
    ultimately show "\<exists>i<unat span. seq = c + 1 + of_nat i" by blast
  next
    assume "\<exists>i<unat span. seq = c + 1 + of_nat i"
    then obtain i where i: "i < unat span" "seq - c = of_nat (Suc i)" by auto
    then have "unat (seq - c) = Suc i" using unat_bounds(2) [of span] by (simp del: of_nat_Suc)
    then show "seq - c \<noteq> 0 \<and> seq - c \<le> span" using i(1) by (auto simp: word_le_nat_alt)
  qed
  have "seq \<in> set (missing_seq_numbers L skip) \<longleftrightarrow>
    \<not> UINT16_SIZE_HALF \<le> span \<and> (\<exists>i<unat span. seq = c + 1 + of_nat i) \<and> \<not> get_received L seq"
    unfolding missing_seq_numbers_def Let_def c_def [symmetric] span_def [symmetric]
    by (auto simp: for_each_zero_walk [OF cap(1)] bit)
  then show ?thesis
    unfolding is_missing_def Let_def c_def [symmetric] span_def [symmetric] offset [symmetric] by auto
qed

lemma missing_distinct: "log_ok L \<Longrightarrow> distinct (missing_seq_numbers L skip)"
proof -
  assume ok: "log_ok L"
  have "inj_on (\<lambda>offset. (c :: u16) + of_nat offset) {offset. offset < unat (w :: u16)}" for c w
    using unat_bounds(2) [of w] by (intro inj_onI) (simp add: word_unat_eq_iff [of "of_nat _"])
  then show ?thesis
    by (auto simp: missing_seq_numbers_def Let_def for_each_zero_walk [OF log_ok_cap(1) [OF ok]] distinct_map intro: inj_on_subset)
qed

section \<open>Theorems\<close>

text \<open>C25: The receive log is exact. Take any run of packets in which no packet arrives when it is already behind
  the window, and unwrap their sequence numbers. Inside the window, \<open>get\<close> says whether the number was received,
  and for a log smaller than 2^15 \<open>missing_seq_numbers\<close> lists, in ascending order, exactly the numbers after the
  first packet, inside the window and before the last \<open>skip\<close>, that were not received. Sequence number wrap-around
  is covered: the numbers are unbounded.\<close>

theorem receive_log_exact:
  assumes new: "receive_log_new sz = Some L" and window: "in_window (unat sz) (uint s) seqs"
  defines "received \<equiv> uint s # unwrap_all (uint s) seqs"
  defines "log \<equiv> foldl receive_log_add L (s # seqs)"
  shows "(\<forall>x. Max (set received) - uint sz < x \<and> x \<le> Max (set received) \<longrightarrow>
      receive_log_get log (word_of_int x) = (x \<in> set received)) \<and>
    (sz < UINT16_SIZE_HALF \<and> skip \<le> UINT16_SIZE_HALF \<longrightarrow>
      missing_seq_numbers log skip = map word_of_int (filter (\<lambda>x. x \<notin> set received)
        [max (uint s) (Max (set received) - uint sz) + 1..Max (set received) - uint skip]))"
proof -
  have size: "log_size (receive_log_add L s) = sz" using receive_log_new_ok(2) [OF new] by simp
  obtain e where T: "log_tracks (uint s) e (set received) log"
    using log_tracks_run [OF log_tracks_first [OF new]] window size by (auto simp: log_def received_def)
  then have "e \<in> set received" "\<forall>x\<in>set received. x \<le> e" by (simp_all add: log_tracks_def)
  then have e: "Max (set received) = e" by (intro Max_eqI) auto
  have w: "log_window log = uint sz"
    using receive_log_run_ok [of "receive_log_add L s" seqs] receive_log_new_ok(1) [OF new] size
    by (simp add: log_window_def log_def)
  have "uint sz < 2 ^ 15" if "sz < UINT16_SIZE_HALF" using that by (simp add: word_less_def UINT16_SIZE_HALF_def)
  then show ?thesis unfolding e using receive_log_get_tracks [OF T] missing_tracks [OF T] by (simp add: w)
qed

theorem receive_log_exact_witness:
  "\<exists>L. receive_log_new 64 = Some L \<and> in_window 64 0xFFFD [2, 0xFFFF] \<and>
    missing_seq_numbers (foldl receive_log_add L [0xFFFD, 2, 0xFFFF]) 1 = [0xFFFE, 0, 1]"
proof -
  define L where "L = \<lparr>log_packets = [0], log_size = 64, log_size_mask = 63, log_end = 0, log_started = False,
    log_last_consecutive = 0\<rparr>"
  have new: "receive_log_new 64 = Some L" by (simp add: receive_log_new_def L_def)
  have un: "unwrap 0xFFFD 2 = 0x10002" "unwrap 0x10002 0xFFFF = 0xFFFF"
    by (simp_all add: unwrap_def UINT16_SIZE_HALF_def)
  then have window: "in_window 64 0xFFFD [2, 0xFFFF]" by simp
  have "filter (\<lambda>x. x \<notin> {0xFFFD, 0x10002, 0xFFFF}) [0xFFFE..0x10001 :: int] = [0xFFFE, 0x10000, 0x10001]" by simp
  moreover have "Max {0xFFFD, 0x10002, 0xFFFF :: int} = 0x10002" by simp
  moreover have "(64 :: u16) < UINT16_SIZE_HALF \<and> 1 \<le> UINT16_SIZE_HALF" by (simp add: UINT16_SIZE_HALF_def)
  ultimately have "missing_seq_numbers (foldl receive_log_add L [0xFFFD, 2, 0xFFFF]) 1 = [0xFFFE, 0, 1]"
    using receive_log_exact [OF new, of "0xFFFD" "[2, 0xFFFF]" 1, THEN conjunct2] un window by simp
  with new window show ?thesis by blast
qed

text \<open>\<open>is_missing\<close>, which is a constant-time test, says whether a number is on the list of \<open>missing_seq_numbers\<close>.\<close>

theorem is_missing_on_list:
  assumes "log_ok L"
  shows "is_missing L seq skip \<longleftrightarrow> seq \<in> set (missing_seq_numbers L skip)"
  using assms by (rule is_missing_iff)

theorem is_missing_on_list_witness:
  "\<exists>L. receive_log_new 128 = Some L \<and> is_missing L 5 0 = (5 \<in> set (missing_seq_numbers L 0))"
proof -
  obtain L where new: "receive_log_new 128 = Some L" by (simp add: receive_log_new_def)
  then show ?thesis using is_missing_on_list [OF receive_log_new_ok(1) [OF new]] by blast
qed

text \<open>C27: A packet that arrives a whole window late marks a newer packet as received: its bit is the bit of the number
  one window later. A loss is then never reported.\<close>

theorem late_packet_hides_loss:
  assumes "log_tracks b e R L" "e - log_window L < x" "x \<le> e" "e - x + log_window L \<le> 2 ^ 15"
  shows "receive_log_get (receive_log_add L (word_of_int (x - log_window L))) (word_of_int x)"
proof -
  have L: "log_ok L" "log_started L" "log_end L = word_of_int e" using assms(1) by (simp_all add: log_tracks_def)
  define late where "late = x - log_window L"
  define L1 where "L1 = (if log_last_consecutive L + 1 = word_of_int late then
    fix_last_consecutive (L\<lparr>log_last_consecutive := word_of_int late\<rparr>) else L)"
  have L1: "log_ok L1" "log_window L1 = log_window L" "log_end L1 = word_of_int e"
    using L by (simp_all add: L1_def log_window_def) (simp add: fix_last_consecutive_def Let_def)
  have "receive_log_add L (word_of_int late) = set_received L1 (word_of_int late)"
    unfolding L1_def using L assms(2-4) log_window_bounds [OF L(1)] by (intro receive_log_add_behind) (auto simp: late_def)
  moreover have "ebit (log_packets (set_received L1 (word_of_int late))) x"
    unfolding set_received_ebit [OF L1(1), folded log_window_def] by (simp add: late_def L1(2))
  ultimately show ?thesis
    unfolding late_def [symmetric] using receive_log_get_window [of "set_received L1 (word_of_int late)" e x] L1 assms(2,3) by simp
qed

theorem late_packet_hides_loss_witness:
  "\<exists>L. receive_log_new 64 = Some L \<and> \<not> receive_log_get (foldl receive_log_add L [0, 100]) 90 \<and>
    receive_log_get (foldl receive_log_add L [0, 100, 26]) 90"
proof -
  obtain L where new: "receive_log_new 64 = Some L" by (simp add: receive_log_new_def)
  define log where "log = foldl receive_log_add L [0, 100]"
  have w: "log_window (receive_log_add L 0) = 64" "log_window log = 64"
    using receive_log_new_ok(2) [OF new] by (simp_all add: log_window_def log_def)
  have "unwrap 0 100 = 100" by (simp add: unwrap_def UINT16_SIZE_HALF_def)
  then have T: "log_tracks 0 100 {0, 100} log"
    using log_tracks_step [OF log_tracks_first [OF new, of 0], of 100] w by (simp add: log_def insert_commute)
  have "\<not> receive_log_get log 90" using receive_log_get_tracks [OF T, of 90] w by simp
  moreover have "receive_log_get (receive_log_add log 26) 90" using late_packet_hides_loss [OF T, of 90] w by simp
  ultimately show ?thesis using new by (auto simp: log_def)
qed

text \<open>A log of the largest size, 32768, goes silent: once its window is full and its oldest number is missing, the
  span to report is 2^15, which \<open>missing_seq_numbers\<close> takes for a negative one, and it reports nothing.\<close>

theorem full_size_log_silent:
  "\<exists>L. receive_log_new 32768 = Some L \<and> (let log = foldl receive_log_add L [0, 32767, 32768] in
    \<not> receive_log_get log 1 \<and> \<not> receive_log_get log 2 \<and> missing_seq_numbers log 0 = [])"
proof -
  obtain L where new: "receive_log_new 32768 = Some L" by (simp add: receive_log_new_def)
  define log where "log = foldl receive_log_add L [0, 32767, 32768]"
  note ok = receive_log_new_ok [OF new]
  have w: "log_window (receive_log_add L 0) = 32768" "log_window (receive_log_add (receive_log_add L 0) 32767) = 32768"
    "log_window log = 32768" using ok(2) by (simp_all add: log_window_def log_def)
  have "unwrap 0 32767 = 32767" "unwrap 32767 32768 = 32768" by (simp_all add: unwrap_def UINT16_SIZE_HALF_def)
  then have T: "log_tracks 0 32768 {0, 32767, 32768} log"
    using log_tracks_step [OF log_tracks_step [OF log_tracks_first [OF new, of 0], of 32767], of 32768] w
    by (simp add: log_def insert_commute)
  have "\<not> receive_log_get log 1" "\<not> receive_log_get log 2"
    using receive_log_get_tracks [OF T, of 1] receive_log_get_tracks [OF T, of 2] w by simp_all
  moreover have "log_end log = 32768" "log_last_consecutive log = 0"
    using ok(2,3) by (simp_all add: log_def receive_log_add_def Let_def UINT16_SIZE_HALF_def)
  then have "missing_seq_numbers log 0 = []" by (simp add: missing_seq_numbers_def UINT16_SIZE_HALF_def)
  ultimately show ?thesis using new by (auto simp: log_def Let_def)
qed

end
