(* ===== verification/Nack_Send_Buffer.thy ===== *)
theory Nack_Send_Buffer
  imports Nack_Receive_Log Rtp_Packet
begin

text \<open>
  The history of sent packets behind the retransmissions (\<open>rtc-interceptor/src/nack/send_buffer.rs\<close>).
  An \<open>Instant\<close> is a natural number of nanoseconds since some fixed origin and a \<open>Duration\<close> a number of
  nanoseconds; the casts of the source to 64 bits are kept. The lemmas give the invariant of the circular array,
  its view as a finite map from sequence numbers to entries, and what eviction keeps.
\<close>

unbundle bit_operations_syntax

section \<open>Definitions\<close>

type_synonym instant = nat

record entry =
  entry_packet :: rtp_packet
  entry_sent_at :: u64

record history_limits =
  max_bytes :: nat
  max_age :: "nat option"

definition UNLIMITED :: history_limits where
  "UNLIMITED = \<lparr>max_bytes = 2 ^ 64 - 1, max_age = None\<rparr>"

record send_buffer =
  sb_packets :: "entry option list"
  sb_size :: u16
  sb_mask :: u16
  sb_highest_added :: u16
  sb_started :: bool
  sb_oldest :: u16
  sb_bytes :: nat
  sb_newest_sent_at :: "instant option"
  sb_epoch :: "instant option"
  sb_limits :: history_limits

definition send_buffer_with_limits :: "u16 \<Rightarrow> history_limits \<Rightarrow> send_buffer option" where
  "send_buffer_with_limits sz limits =
     (if \<not> list_ex (\<lambda>i. sz = push_bit i 1) [0..<16] then None
      else Some \<lparr>sb_packets = replicate (unat sz) None, sb_size = sz, sb_mask = sz - 1, sb_highest_added = 0,
        sb_started = False, sb_oldest = 0, sb_bytes = 0, sb_newest_sent_at = None, sb_epoch = None,
        sb_limits = limits\<rparr>)"

definition sb_clear :: "send_buffer \<Rightarrow> u16 \<Rightarrow> send_buffer" where
  "sb_clear self seq =
     (let i = unat (seq AND sb_mask self) in
      case sb_packets self ! i of
        None \<Rightarrow> self
      | Some entry \<Rightarrow> self\<lparr>sb_packets := (sb_packets self)[i := None],
          sb_bytes := sb_bytes self - length (pkt_payload (entry_packet entry))\<rparr>)"

definition stamp :: "send_buffer \<Rightarrow> instant \<Rightarrow> u64 \<times> send_buffer" where
  "stamp self now =
     (let epoch = (case sb_epoch self of None \<Rightarrow> now | Some epoch \<Rightarrow> epoch) in
      (of_nat (now - epoch), self\<lparr>sb_epoch := Some epoch\<rparr>))"

definition expired :: "send_buffer \<Rightarrow> entry \<Rightarrow> instant \<Rightarrow> bool" where
  "expired self entry now =
     (case (max_age (sb_limits self), sb_epoch self) of
        (Some age, Some epoch) \<Rightarrow>
          (let now = of_nat (now - epoch) :: u64 in
           (if entry_sent_at entry \<le> now then now - entry_sent_at entry else 0) \<ge> of_nat age)
      | _ \<Rightarrow> False)"

text \<open>The body of the eviction loop before \<open>oldest\<close> advances; \<open>None\<close> is its early return.\<close>

definition evict_oldest :: "send_buffer \<Rightarrow> instant \<Rightarrow> send_buffer option" where
  "evict_oldest self now =
     (case sb_packets self ! unat (sb_oldest self AND sb_mask self) of
        None \<Rightarrow> Some self
      | Some entry \<Rightarrow>
          if rtp_sequence_number (pkt_header (entry_packet entry)) = sb_oldest self then
            let is_newest = (sb_oldest self = sb_highest_added self);
                over_budget = (sb_bytes self > max_bytes (sb_limits self) \<and> \<not> is_newest) in
            if \<not> (over_budget \<or> expired self entry now) then None else Some (sb_clear self (sb_oldest self))
          else Some self)"

lemma sb_clear_fields [simp]:
  "sb_size (sb_clear self seq) = sb_size self" "sb_mask (sb_clear self seq) = sb_mask self"
  "sb_highest_added (sb_clear self seq) = sb_highest_added self" "sb_started (sb_clear self seq) = sb_started self"
  "sb_oldest (sb_clear self seq) = sb_oldest self" "sb_newest_sent_at (sb_clear self seq) = sb_newest_sent_at self"
  "sb_epoch (sb_clear self seq) = sb_epoch self" "sb_limits (sb_clear self seq) = sb_limits self"
  "length (sb_packets (sb_clear self seq)) = length (sb_packets self)"
  by (simp_all add: sb_clear_def Let_def split: option.splits)

lemma evict_oldest_fields:
  "evict_oldest self now = Some self' \<Longrightarrow> self' = self \<or> self' = sb_clear self (sb_oldest self)"
  by (auto simp: evict_oldest_def Let_def split: option.splits if_splits)

lemma lag_decreases: "s \<noteq> h + 1 \<Longrightarrow> unat (h - s) < unat (h + 1 - s)" for h s :: u16
proof -
  assume "s \<noteq> h + 1"
  then have "h + 1 - s \<noteq> 0" by auto
  then have "unat (h + 1 - s - 1) = unat (h + 1 - s) - 1" "0 < unat (h + 1 - s)"
    by (rule unat_minus_one, simp add: unat_gt_0)
  then show ?thesis by simp
qed

function evict_loop :: "send_buffer \<Rightarrow> instant \<Rightarrow> send_buffer" where
  "evict_loop self now =
     (if sb_oldest self = sb_highest_added self + 1 then
        self\<lparr>sb_oldest := sb_highest_added self, sb_newest_sent_at := None\<rparr>
      else case evict_oldest self now of
        None \<Rightarrow> self
      | Some self' \<Rightarrow> evict_loop (self'\<lparr>sb_oldest := sb_oldest self + 1\<rparr>) now)"
  by pat_completeness auto
termination
  by (relation "measure (\<lambda>(self, now). unat (sb_highest_added self + 1 - sb_oldest self))")
    (auto dest!: evict_oldest_fields intro!: lag_decreases)

declare evict_loop.simps [simp del]

definition evict :: "send_buffer \<Rightarrow> instant \<Rightarrow> send_buffer" where
  "evict self now = (if \<not> sb_started self then self else evict_loop self now)"

function clear_until :: "send_buffer \<Rightarrow> u16 \<Rightarrow> u16 \<Rightarrow> send_buffer" where
  "clear_until self i seq = (if i \<noteq> seq then clear_until (sb_clear self i) (i + 1) seq else self)"
  by pat_completeness auto
termination
proof (relation "measure (\<lambda>(self, i, seq). unat (seq - i))", goal_cases)
  case (2 self i seq)
  then show ?case using lag_decreases [of i "seq - 1"] by (simp add: algebra_simps)
qed simp

declare clear_until.simps [simp del]

text \<open>The part of \<open>add\<close> that places the packet in the window; \<open>None\<close> is its early return.\<close>

definition sb_place :: "send_buffer \<Rightarrow> u16 \<Rightarrow> send_buffer option" where
  "sb_place self seq =
     (if \<not> sb_started self then Some (self\<lparr>sb_highest_added := seq, sb_oldest := seq, sb_started := True\<rparr>)
      else
        let diff = seq - sb_highest_added self in
        if diff = 0 then None
        else if diff < UINT16_SIZE_HALF then
          let self = (if diff \<ge> sb_size self then
                self\<lparr>sb_packets := map (\<lambda>_. None) (sb_packets self), sb_bytes := 0, sb_oldest := seq\<rparr>
              else
                let self = clear_until self (sb_highest_added self + 1) seq;
                    window_start = seq - (sb_size self - 1) in
                if window_start - sb_oldest self < UINT16_SIZE_HALF then self\<lparr>sb_oldest := window_start\<rparr> else self) in
          Some (self\<lparr>sb_highest_added := seq\<rparr>)
        else if sb_highest_added self - seq \<ge> sb_size self then None
        else if sb_oldest self - seq < UINT16_SIZE_HALF then Some (self\<lparr>sb_oldest := seq\<rparr>)
        else Some self)"

definition sb_store :: "send_buffer \<Rightarrow> rtp_packet \<Rightarrow> instant \<Rightarrow> send_buffer" where
  "sb_store self packet now =
     (let seq = rtp_sequence_number (pkt_header packet);
          self = sb_clear self seq;
          self = self\<lparr>sb_bytes := sb_bytes self + length (pkt_payload packet)\<rparr>;
          (sent_at, self) = stamp self now;
          self = self\<lparr>sb_packets := (sb_packets self)[unat (seq AND sb_mask self) :=
            Some \<lparr>entry_packet = packet, entry_sent_at = sent_at\<rparr>]\<rparr> in
      case sb_newest_sent_at self of
        None \<Rightarrow> self\<lparr>sb_newest_sent_at := Some now\<rparr>
      | Some newest \<Rightarrow> if newest < now then self\<lparr>sb_newest_sent_at := Some now\<rparr> else self)"

definition send_buffer_add :: "send_buffer \<Rightarrow> rtp_packet \<Rightarrow> instant \<Rightarrow> send_buffer" where
  "send_buffer_add self packet now =
     (case sb_place self (rtp_sequence_number (pkt_header packet)) of
        None \<Rightarrow> self
      | Some self \<Rightarrow> evict (sb_store self packet now) now)"

definition send_buffer_get :: "send_buffer \<Rightarrow> u16 \<Rightarrow> instant \<Rightarrow> rtp_packet option" where
  "send_buffer_get self seq now =
     (if \<not> sb_started self then None
      else
        let diff = sb_highest_added self - seq in
        if diff \<ge> UINT16_SIZE_HALF then None
        else if diff \<ge> sb_size self then None
        else case sb_packets self ! unat (seq AND sb_mask self) of
          None \<Rightarrow> None
        | Some entry \<Rightarrow>
            if rtp_sequence_number (pkt_header (entry_packet entry)) \<noteq> seq \<or> expired self entry now then None
            else Some (entry_packet entry))"

definition expires_at :: "send_buffer \<Rightarrow> instant option" where
  "expires_at self =
     (case sb_newest_sent_at self of
        None \<Rightarrow> None
      | Some newest \<Rightarrow> map_option (\<lambda>age. newest + age) (max_age (sb_limits self)))"

definition send_buffer_expire :: "send_buffer \<Rightarrow> instant \<Rightarrow> send_buffer" where
  "send_buffer_expire self now = evict self now"

section \<open>The shape of the array\<close>

abbreviation entry_seq :: "entry \<Rightarrow> u16" where
  "entry_seq e \<equiv> rtp_sequence_number (pkt_header (entry_packet e))"

abbreviation entry_len :: "entry \<Rightarrow> nat" where
  "entry_len e \<equiv> length (pkt_payload (entry_packet e))"

definition slot :: "send_buffer \<Rightarrow> u16 \<Rightarrow> nat" where
  "slot B s = unat (s AND sb_mask B)"

definition entries :: "send_buffer \<Rightarrow> entry set" where
  "entries B = {e. Some e \<in> set (sb_packets B)}"

definition stored_bytes :: "entry option list \<Rightarrow> nat" where
  "stored_bytes ps = sum_list (map (\<lambda>x. case x of None \<Rightarrow> 0 | Some e \<Rightarrow> entry_len e) ps)"

text \<open>How far \<open>s\<close> is behind the number after the highest: the newest packet has lag 1.\<close>

definition lag :: "u16 \<Rightarrow> u16 \<Rightarrow> nat" where
  "lag h s = unat (h + 1 - s)"

text \<open>The array has the announced size, every entry is in its slot, and the byte count is that of the entries.\<close>

definition sb_acc :: "send_buffer \<Rightarrow> bool" where
  "sb_acc B \<longleftrightarrow> (\<exists>k\<le>15. sb_size B = 2 ^ k \<and> sb_mask B = mask k \<and> length (sb_packets B) = 2 ^ k) \<and>
     (\<forall>i<length (sb_packets B). \<forall>e. sb_packets B ! i = Some e \<longrightarrow> i = slot B (entry_seq e)) \<and>
     sb_bytes B = stored_bytes (sb_packets B)"

definition sb_core :: "send_buffer \<Rightarrow> bool" where
  "sb_core B \<longleftrightarrow> sb_acc B \<and> lag (sb_highest_added B) (sb_oldest B) \<le> unat (sb_size B) \<and>
     (\<forall>e\<in>entries B. 1 \<le> lag (sb_highest_added B) (entry_seq e) \<and>
       lag (sb_highest_added B) (entry_seq e) \<le> lag (sb_highest_added B) (sb_oldest B))"

definition sb_ok :: "send_buffer \<Rightarrow> bool" where
  "sb_ok B \<longleftrightarrow> sb_core B \<and> 1 \<le> lag (sb_highest_added B) (sb_oldest B) \<and> (\<not> sb_started B \<longrightarrow> entries B = {})"

lemma sb_accE:
  assumes "sb_acc B"
  obtains k where "k \<le> 15" "sb_size B = 2 ^ k" "unat (sb_size B) = 2 ^ k" "sb_mask B = mask k"
    "length (sb_packets B) = 2 ^ k"
proof -
  from assms obtain k where k: "k \<le> 15" "sb_size B = 2 ^ k" "sb_mask B = mask k" "length (sb_packets B) = 2 ^ k"
    by (auto simp: sb_acc_def)
  have "(2 :: nat) ^ k < 2 ^ 16" using k(1) by (intro power_strict_increasing) simp_all
  then have "unat (sb_size B) = 2 ^ k" using unat_of_nat_small(2) [of "2 ^ k"] k(2) by simp
  with k that show ?thesis by blast
qed

lemma slot_mod: "sb_acc B \<Longrightarrow> slot B s = unat s mod unat (sb_size B)"
  by (elim sb_accE) (simp add: slot_def unsigned_take_bit_eq flip: take_bit_eq_mask take_bit_eq_mod)

lemma slot_less: "sb_acc B \<Longrightarrow> slot B s < length (sb_packets B)"
proof -
  assume ok: "sb_acc B"
  then obtain k where "unat (sb_size B) = 2 ^ k" "length (sb_packets B) = 2 ^ k" by (rule sb_accE)
  then show ?thesis using slot_mod [OF ok, of s] by simp
qed

lemma size_bounds: "sb_acc B \<Longrightarrow> 1 \<le> unat (sb_size B)" "sb_acc B \<Longrightarrow> unat (sb_size B) \<le> 2 ^ 15"
proof -
  assume "sb_acc B"
  then obtain k where "k \<le> 15" "unat (sb_size B) = 2 ^ k" by (rule sb_accE)
  then show "1 \<le> unat (sb_size B)" "unat (sb_size B) \<le> 2 ^ 15" using power_increasing [of k 15 "2 :: nat"] by simp_all
qed

lemma slot_cong:
  assumes "sb_acc B"
  shows "slot B s = slot B t \<longleftrightarrow> lag h s mod unat (sb_size B) = lag h t mod unat (sb_size B)"
proof -
  define n where "n = unat (sb_size B)"
  from assms obtain k where "k \<le> 15" "n = 2 ^ k" unfolding n_def by (rule sb_accE)
  then have dvd: "int n dvd 2 ^ 16" using le_imp_power_dvd [of k 16 "2 :: int"] by simp
  have lag: "int (lag h s mod n) = (uint (h + 1) - uint s) mod int n" for s
    using dvd by (simp add: lag_def zmod_int uint_word_ariths(2) mod_mod_cancel)
  have "int (slot B s) = uint s mod int n" for s
    unfolding slot_mod [OF assms] n_def [symmetric] zmod_int by simp
  then have "slot B s = slot B t \<longleftrightarrow> uint s mod int n = uint t mod int n" by (metis of_nat_eq_iff)
  also have "\<dots> \<longleftrightarrow> (uint (h + 1) - uint s) mod int n = (uint (h + 1) - uint t) mod int n"
    unfolding mod_eq_dvd_iff by (simp add: dvd_diff_commute)
  also have "\<dots> \<longleftrightarrow> lag h s mod n = lag h t mod n" unfolding lag [symmetric] by (rule of_nat_eq_iff)
  finally show ?thesis by (simp add: n_def)
qed

lemma lag_inject: "lag h s = lag h t \<longleftrightarrow> s = t"
  using word_unat_eq_iff [of "h + 1 - s" "h + 1 - t"] by (auto simp: lag_def)

lemma window_mod: "1 \<le> a \<Longrightarrow> a \<le> n \<Longrightarrow> 1 \<le> b \<Longrightarrow> b \<le> n \<Longrightarrow> a mod n = b mod n \<Longrightarrow> a = (b :: nat)"
  by (cases "a = n"; cases "b = n") auto

lemma slot_window:
  assumes "sb_acc B" "slot B s = slot B t" "1 \<le> lag h s" "lag h s \<le> unat (sb_size B)" "1 \<le> lag h t" "lag h t \<le> unat (sb_size B)"
  shows "s = t"
  using window_mod [OF assms(3-6)] slot_cong [OF assms(1), of s t h] assms(2) by (simp add: lag_inject)

section \<open>Clearing and storing\<close>

lemma slot_update [simp]:
  "slot (sb_clear B s) = slot B" "slot (B\<lparr>sb_packets := ps\<rparr>) = slot B" "slot (B\<lparr>sb_bytes := n\<rparr>) = slot B"
  "slot (B\<lparr>sb_oldest := s\<rparr>) = slot B" "slot (B\<lparr>sb_highest_added := h\<rparr>) = slot B"
  "slot (B\<lparr>sb_newest_sent_at := t\<rparr>) = slot B" "slot (B\<lparr>sb_epoch := t\<rparr>) = slot B" "slot (B\<lparr>sb_started := b\<rparr>) = slot B"
  by (simp_all add: slot_def fun_eq_iff)

lemma entries_update [simp]:
  "entries (B\<lparr>sb_bytes := n\<rparr>) = entries B" "entries (B\<lparr>sb_oldest := s\<rparr>) = entries B"
  "entries (B\<lparr>sb_highest_added := h\<rparr>) = entries B" "entries (B\<lparr>sb_newest_sent_at := t\<rparr>) = entries B"
  "entries (B\<lparr>sb_epoch := t\<rparr>) = entries B" "entries (B\<lparr>sb_started := b\<rparr>) = entries B"
  by (simp_all add: entries_def)

lemma sb_acc_update [simp]:
  "sb_acc (B\<lparr>sb_oldest := s\<rparr>) = sb_acc B" "sb_acc (B\<lparr>sb_highest_added := h\<rparr>) = sb_acc B"
  "sb_acc (B\<lparr>sb_newest_sent_at := t\<rparr>) = sb_acc B" "sb_acc (B\<lparr>sb_epoch := t\<rparr>) = sb_acc B"
  "sb_acc (B\<lparr>sb_started := b\<rparr>) = sb_acc B"
  by (simp_all add: sb_acc_def)

lemma entries_nth: "sb_acc B \<Longrightarrow> e \<in> entries B \<longleftrightarrow> sb_packets B ! slot B (entry_seq e) = Some e"
  using slot_less [of B "entry_seq e"] by (auto simp: entries_def in_set_conv_nth sb_acc_def)

lemma stored_bytes_update:
  "i < length ps \<Longrightarrow> stored_bytes (ps[i := x]) =
    stored_bytes ps - (case ps ! i of None \<Rightarrow> 0 | Some e \<Rightarrow> entry_len e) + (case x of None \<Rightarrow> 0 | Some e \<Rightarrow> entry_len e)"
  using elem_le_sum_list [of i "map (\<lambda>x. case x of None \<Rightarrow> 0 | Some e \<Rightarrow> entry_len e) ps"]
  unfolding stored_bytes_def map_update by (simp add: sum_list_update)

lemma sb_clear_packets: "sb_packets (sb_clear B s) = (sb_packets B)[slot B s := None]"
  by (auto simp: sb_clear_def Let_def slot_def list_update_same_conv split: option.splits)
    (metis list_update_id)

lemma sb_clear_acc:
  assumes "sb_acc B"
  shows "sb_acc (sb_clear B s)" "entries (sb_clear B s) = {e \<in> entries B. slot B (entry_seq e) \<noteq> slot B s}"
proof -
  note less = slot_less [OF assms, of s]
  have "sb_bytes (sb_clear B s) = stored_bytes (sb_packets (sb_clear B s))"
    using assms stored_bytes_update [OF less, of None] unfolding sb_clear_packets
    by (auto simp: sb_acc_def sb_clear_def Let_def slot_def split: option.splits)
  moreover have "sb_packets B ! i = Some e" if "(sb_packets B)[slot B s := None] ! i = Some e" "i < length (sb_packets B)" for i e
    using that less by (simp add: nth_list_update split: if_splits)
  ultimately show acc: "sb_acc (sb_clear B s)" using assms by (auto simp: sb_acc_def sb_clear_packets)
  show "entries (sb_clear B s) = {e \<in> entries B. slot B (entry_seq e) \<noteq> slot B s}"
    using less by (auto simp: entries_nth [OF acc] entries_nth [OF assms] sb_clear_packets nth_list_update split: if_splits)
qed

lemma clear_until_spec:
  "sb_acc B \<Longrightarrow> sb_acc (clear_until B i seq) \<and> slot (clear_until B i seq) = slot B \<and>
    entries (clear_until B i seq) = {e \<in> entries B. \<forall>j<unat (seq - i). slot B (entry_seq e) \<noteq> slot B (i + of_nat j)} \<and>
    sb_size (clear_until B i seq) = sb_size B \<and> sb_highest_added (clear_until B i seq) = sb_highest_added B \<and>
    sb_oldest (clear_until B i seq) = sb_oldest B \<and> sb_started (clear_until B i seq) = sb_started B \<and>
    sb_limits (clear_until B i seq) = sb_limits B \<and> sb_epoch (clear_until B i seq) = sb_epoch B \<and>
    sb_newest_sent_at (clear_until B i seq) = sb_newest_sent_at B"
proof (induction B i seq rule: clear_until.induct)
  case (1 B i seq)
  show ?case
  proof (cases "i = seq")
    case False
    then have "seq - i \<noteq> 0" by auto
    then have "unat (seq - i - 1) = unat (seq - i) - 1" "0 < unat (seq - i)"
      by (rule unat_minus_one, simp add: unat_gt_0)
    then have "unat (seq - i) = Suc (unat (seq - (i + 1)))" by (simp add: algebra_simps)
    then have "{e \<in> entries (sb_clear B i). \<forall>j<unat (seq - (i + 1)). slot B (entry_seq e) \<noteq> slot B (i + 1 + of_nat j)} =
      {e \<in> entries B. \<forall>j<unat (seq - i). slot B (entry_seq e) \<noteq> slot B (i + of_nat j)}"
      by (simp add: sb_clear_acc(2) [OF 1(2)] All_less_Suc2 add.assoc)
    then show ?thesis
      using 1(1) [OF False sb_clear_acc(1) [OF 1(2)]] False by (simp add: clear_until.simps [of B])
  qed (simp add: clear_until.simps 1(2))
qed

lemma sb_store_spec:
  fixes now p
  assumes "sb_acc B"
  defines "epoch \<equiv> (case sb_epoch B of None \<Rightarrow> now | Some epoch \<Rightarrow> epoch)"
  defines "new \<equiv> \<lparr>entry_packet = p, entry_sent_at = of_nat (now - epoch)\<rparr>"
  defines "B' \<equiv> sb_store B p now"
  shows "sb_acc B'" "entries B' = insert new {e \<in> entries B. slot B (entry_seq e) \<noteq> slot B (entry_seq new)}"
    "slot B' = slot B" "sb_size B' = sb_size B" "sb_highest_added B' = sb_highest_added B" "sb_oldest B' = sb_oldest B"
    "sb_started B' = sb_started B" "sb_limits B' = sb_limits B" "sb_epoch B' = Some epoch"
    "sb_newest_sent_at B' = Some (case sb_newest_sent_at B of None \<Rightarrow> now | Some newest \<Rightarrow> max newest now)"
proof -
  define C where "C = sb_clear B (entry_seq new)"
  define D where "D = C\<lparr>sb_packets := (sb_packets C)[slot B (entry_seq new) := Some new], sb_bytes := sb_bytes C + entry_len new\<rparr>"
  have C: "sb_acc C" "entries C = {e \<in> entries B. slot B (entry_seq e) \<noteq> slot B (entry_seq new)}" "slot C = slot B"
    using sb_clear_acc [OF assms(1)] by (simp_all add: C_def)
  have B': "B' = D\<lparr>sb_epoch := Some epoch, sb_newest_sent_at :=
      Some (case sb_newest_sent_at B of None \<Rightarrow> now | Some newest \<Rightarrow> max newest now)\<rparr>"
    by (simp add: B'_def D_def C_def sb_store_def stamp_def Let_def new_def epoch_def slot_def max_def split: option.splits)
  note less = slot_less [OF C(1), of "entry_seq new", unfolded C(3)]
  have empty: "sb_packets C ! slot B (entry_seq new) = None"
    using less by (simp add: C_def sb_clear_packets)
  have "sb_bytes D = stored_bytes (sb_packets D)"
    using C(1) stored_bytes_update [OF less, of "Some new"] empty by (simp add: D_def sb_acc_def)
  then have D: "sb_acc D" using C(1,3) less by (auto simp: D_def sb_acc_def nth_list_update split: if_splits)
  have "e \<in> entries D \<longleftrightarrow> e = new \<or> e \<in> entries C" for e
  proof (cases "slot B (entry_seq e) = slot B (entry_seq new)")
    case True
    then have "e \<in> entries D \<longleftrightarrow> e = new" unfolding entries_nth [OF D] using less C(3) by (auto simp: D_def)
    then show ?thesis using True C(2) by auto
  next
    case False
    then have "e \<in> entries D \<longleftrightarrow> e \<in> entries C"
      unfolding entries_nth [OF D] entries_nth [OF C(1)] by (simp add: D_def C(3))
    then show ?thesis using False by auto
  qed
  then have "entries D = insert new (entries C)" by auto
  with D show "sb_acc B'" "entries B' = insert new {e \<in> entries B. slot B (entry_seq e) \<noteq> slot B (entry_seq new)}"
    using C(2) by (simp_all add: B')
  show "slot B' = slot B" "sb_size B' = sb_size B" "sb_highest_added B' = sb_highest_added B" "sb_oldest B' = sb_oldest B"
    "sb_started B' = sb_started B" "sb_limits B' = sb_limits B" "sb_epoch B' = Some epoch"
    "sb_newest_sent_at B' = Some (case sb_newest_sent_at B of None \<Rightarrow> now | Some newest \<Rightarrow> max newest now)"
    using C(3) by (simp_all add: B' D_def C_def)
qed

section \<open>Placing a packet in the window\<close>

lemma lag_ahead: "unat (x - h) = d \<Longrightarrow> lag h s + d < 2 ^ 16 \<Longrightarrow> lag x s = lag h s + d"
proof -
  define a b where "a = h + 1 - s" and "b = x - h"
  assume "unat (x - h) = d" "lag h s + d < 2 ^ 16"
  then have "unat a + unat b < 2 ^ 16" "d = unat b" by (simp_all add: a_def b_def lag_def)
  then have "unat (a + b) = unat a + d" by (simp add: unat_word_ariths(1))
  moreover have x: "x + 1 - s = a + b" by (simp add: a_def b_def)
  ultimately show ?thesis unfolding lag_def x unfolding a_def [symmetric] by simp
qed

lemma lag_self [simp]: "lag h h = 1" by (simp add: lag_def)

lemma lag_diff: "unat (h - s) < 2 ^ 15 \<Longrightarrow> lag h s = unat (h - s) + 1"
proof -
  assume "unat (h - s) < 2 ^ 15"
  moreover have "h + 1 - s = (h - s) + 1" by simp
  ultimately show ?thesis unfolding lag_def by (simp only: unat_word_ariths(1)) simp
qed

lemma lag_compare:
  assumes "lag h s < lag h t + 2 ^ 15" "lag h t \<le> lag h s + 2 ^ 15"
  shows "t - s < UINT16_SIZE_HALF \<longleftrightarrow> lag h t \<le> lag h s"
proof -
  define a b where "a = h + 1 - s" and "b = h + 1 - t"
  have "unat (a - b) = (if unat b \<le> unat a then unat a - unat b else unat a + 2 ^ 16 - unat b)" by (simp add: unat_sub_if')
  moreover have "t - s = a - b" by (simp add: a_def b_def)
  ultimately show ?thesis using assms by (auto simp: word_less_nat_alt lag_def a_def [symmetric] b_def [symmetric])
qed

text \<open>What \<open>add\<close> does before it stores: the entries still in the window stay, in the order of their lags.\<close>

definition placed :: "send_buffer \<Rightarrow> u16 \<Rightarrow> send_buffer \<Rightarrow> bool" where
  "placed B seq B' \<longleftrightarrow> sb_acc B' \<and> sb_started B' \<and> slot B' = slot B \<and> sb_size B' = sb_size B \<and> sb_limits B' = sb_limits B \<and>
     sb_epoch B' = sb_epoch B \<and> sb_newest_sent_at B' = sb_newest_sent_at B \<and> entries B' \<subseteq> entries B \<and>
     (let h = sb_highest_added B' in
      1 \<le> lag h seq \<and> lag h seq \<le> lag h (sb_oldest B') \<and> lag h (sb_oldest B') \<le> unat (sb_size B) \<and>
      (\<forall>e\<in>entries B'. slot B (entry_seq e) \<noteq> slot B seq \<longrightarrow>
        1 \<le> lag h (entry_seq e) \<and> lag h (entry_seq e) \<le> lag h (sb_oldest B')) \<and>
      (\<forall>e\<in>entries B. 1 \<le> lag h (entry_seq e) \<and> (lag h (entry_seq e) \<le> unat (sb_size B) \<longrightarrow> e \<in> entries B')))"

lemma sb_ok_entry:
  assumes "sb_ok B" "e \<in> entries B"
  shows "1 \<le> lag (sb_highest_added B) (entry_seq e)"
    "lag (sb_highest_added B) (entry_seq e) \<le> lag (sb_highest_added B) (sb_oldest B)"
  using assms by (simp_all add: sb_ok_def sb_core_def)

lemma sb_ok_oldest:
  assumes "sb_ok B"
  shows "sb_acc B" "1 \<le> lag (sb_highest_added B) (sb_oldest B)" "lag (sb_highest_added B) (sb_oldest B) \<le> unat (sb_size B)"
  using assms by (simp_all add: sb_ok_def sb_core_def)

text \<open>The slots of the skipped numbers and of \<open>seq\<close> are those of the entries that leave the window.\<close>

lemma skipped_slots:
  assumes "sb_acc B" "unat (seq - h) = d" "1 \<le> lag h s" "lag h s \<le> unat (sb_size B)" "d < unat (sb_size B)"
  shows "(\<exists>j<d. slot B s = slot B (h + 1 + of_nat j)) \<longleftrightarrow> unat (sb_size B) < lag h s + d"
proof -
  define n where "n = unat (sb_size B)"
  have n: "n \<le> 2 ^ 15" "lag h s \<le> n" "d < n" using assms size_bounds [OF assms(1)] by (simp_all add: n_def)
  have ls: "lag seq s = lag h s + d" using assms(2) n by (intro lag_ahead) auto
  have lt: "lag seq (h + 1 + of_nat j) = d - j" if "j < d" for j
  proof -
    have "unat (of_nat j :: u16) = j" using that n by (intro unat_of_nat_small) auto
    then show ?thesis using that assms(2) unat_sub_if' [of "seq - h" "of_nat j"] by (simp add: lag_def algebra_simps)
  qed
  show ?thesis unfolding n_def [symmetric]
  proof
    assume "\<exists>j<d. slot B s = slot B (h + 1 + of_nat j)"
    then obtain j where j: "j < d" "slot B s = slot B (h + 1 + of_nat j)" by blast
    show "n < lag h s + d"
    proof (rule ccontr)
      assume "\<not> n < lag h s + d"
      then have "s = h + 1 + of_nat j"
        using slot_window [OF assms(1) j(2), of seq] ls lt [OF j(1)] assms(3) j(1) n by (simp add: n_def)
      then show False using ls lt [OF j(1)] assms(3) j(1) by simp
    qed
  next
    assume far: "n < lag h s + d"
    then have j: "n - lag h s < d" using n(2) by linarith
    have "lag seq s = lag seq (h + 1 + of_nat (n - lag h s)) + n" unfolding ls lt [OF j] using far n(2) by linarith
    then have "slot B s = slot B (h + 1 + of_nat (n - lag h s))"
      using slot_cong [OF assms(1), of s _ seq] by (simp add: n_def)
    with j show "\<exists>j<d. slot B s = slot B (h + 1 + of_nat j)" by blast
  qed
qed

lemma placed_near:
  assumes ok: "sb_ok B" and started: "sb_started B"
    and d: "seq - sb_highest_added B \<noteq> 0" "unat (seq - sb_highest_added B) < unat (sb_size B)"
  defines "C \<equiv> clear_until B (sb_highest_added B + 1) seq"
  defines "window_start \<equiv> seq - (sb_size B - 1)"
  shows "placed B seq ((if window_start - sb_oldest B < UINT16_SIZE_HALF then C\<lparr>sb_oldest := window_start\<rparr> else C)\<lparr>sb_highest_added := seq\<rparr>)"
proof -
  note acc = sb_ok_oldest(1) [OF ok]
  define h n where "h = sb_highest_added B" and "n = unat (sb_size B)"
  define dd L where "dd = unat (seq - h)" and "L = lag h (sb_oldest B) + dd"
  have dn: "0 < dd" "dd < n" "n \<le> 2 ^ 15" "1 \<le> n"
    using d size_bounds [OF acc] by (simp_all add: dd_def h_def n_def unat_gt_0)
  have L: "dd < L" "L \<le> n + dd" "lag seq (sb_oldest B) = L"
    using sb_ok_oldest [OF ok] dn lag_ahead [of seq h dd "sb_oldest B"] by (simp_all add: L_def h_def n_def dd_def)
  have start: "lag seq window_start = n" by (simp add: lag_def window_start_def n_def)
  have cond: "window_start - sb_oldest B < UINT16_SIZE_HALF \<longleftrightarrow> n \<le> L"
    using lag_compare [of seq "sb_oldest B" window_start] L dn start by simp
  have skipped: "unat (seq - (h + 1)) = dd - 1"
    using unat_minus_one [of "seq - h"] d(1) by (simp add: dd_def h_def algebra_simps)
  have last: "h + 1 + of_nat (dd - 1) = seq" using dn(1) unat_minus_one [of "seq - h"] d(1)
    by (simp add: dd_def h_def of_nat_diff)
  have less: "j < dd \<longleftrightarrow> j < dd - 1 \<or> j = dd - 1" for j using dn(1) by linarith
  have range: "(\<forall>j<dd. P (h + 1 + of_nat j)) \<longleftrightarrow> (\<forall>j<dd - 1. P (h + 1 + of_nat j)) \<and> P seq" for P
    unfolding less using last by auto
  have e: "1 \<le> lag h (entry_seq e)" "lag h (entry_seq e) \<le> n" "lag h (entry_seq e) + dd \<le> L"
    "lag seq (entry_seq e) = lag h (entry_seq e) + dd" if "e \<in> entries B" for e
    using sb_ok_entry [OF ok that] sb_ok_oldest(3) [OF ok] dn lag_ahead [of seq h dd "entry_seq e"]
    by (simp_all add: h_def n_def L_def dd_def)
  have stays: "(\<forall>j<dd. slot B (entry_seq e) \<noteq> slot B (h + 1 + of_nat j)) \<longleftrightarrow> lag h (entry_seq e) + dd \<le> n" if "e \<in> entries B" for e
    using skipped_slots [OF acc, of seq h dd "entry_seq e"] e [OF that] dn by (auto simp: dd_def n_def)
  have C: "sb_acc C" "slot C = slot B" "sb_size C = sb_size B" "sb_started C = sb_started B" "sb_limits C = sb_limits B"
    "sb_epoch C = sb_epoch B" "sb_newest_sent_at C = sb_newest_sent_at B" "sb_oldest C = sb_oldest B"
    "entries C = {e \<in> entries B. \<forall>j<dd - 1. slot B (entry_seq e) \<noteq> slot B (h + 1 + of_nat j)}"
    using clear_until_spec [OF acc, of "h + 1" seq] by (simp_all add: C_def h_def skipped [unfolded h_def])
  have in_window: "lag h (entry_seq e) + dd \<le> n" if "e \<in> entries C" "slot B (entry_seq e) \<noteq> slot B seq" for e
    using that stays [of e] unfolding C(9) range [of "\<lambda>x. slot B (entry_seq e) \<noteq> slot B x"] by simp
  have ahead: "1 \<le> lag seq (entry_seq e)" if "e \<in> entries B" for e using e [OF that] by simp
  have kept: "e \<in> entries C" if "e \<in> entries B" "lag seq (entry_seq e) \<le> n" for e
    using that e(4) [OF that(1)] stays [OF that(1)] unfolding C(9) range [of "\<lambda>x. slot B (entry_seq e) \<noteq> slot B x"] by simp
  have bounds: "\<forall>e\<in>entries C. slot B (entry_seq e) \<noteq> slot B seq \<longrightarrow>
      1 \<le> lag seq (entry_seq e) \<and> lag seq (entry_seq e) \<le> L \<and> lag seq (entry_seq e) \<le> n"
  proof (intro ballI impI)
    fix e assume a: "e \<in> entries C" "slot B (entry_seq e) \<noteq> slot B seq"
    then have "e \<in> entries B" by (simp add: C(9))
    from e [OF this] in_window [OF a]
    show "1 \<le> lag seq (entry_seq e) \<and> lag seq (entry_seq e) \<le> L \<and> lag seq (entry_seq e) \<le> n" by simp
  qed
  have sub: "entries C \<subseteq> entries B" unfolding C(9) by auto
  have first: "lag seq seq \<le> L" "lag seq seq \<le> n" using L(1) dn by simp_all
  define s where "s = (if n \<le> L then window_start else sb_oldest B)"
  have s: "lag seq s \<le> n" "L \<le> lag seq s \<or> n \<le> lag seq s" using start L(3) by (auto simp: s_def)
  have "(if n \<le> L then C\<lparr>sb_oldest := window_start\<rparr> else C) = C\<lparr>sb_oldest := s\<rparr>" by (simp add: s_def C(8) [symmetric])
  moreover have "placed B seq (C\<lparr>sb_oldest := s, sb_highest_added := seq\<rparr>)"
    unfolding placed_def Let_def using C(1-7) started s bounds sub first kept ahead
    by (simp add: n_def [symmetric]) (meson order_trans)
  ultimately show ?thesis unfolding cond by simp
qed

lemma placed_cases:
  assumes ok: "sb_ok B" and place: "sb_place B seq = Some B'"
  shows "placed B seq B'"
proof (cases "sb_started B")
  case False
  then have "B' = B\<lparr>sb_highest_added := seq, sb_oldest := seq, sb_started := True\<rparr>" "entries B = {}"
    using place ok by (auto simp: sb_place_def sb_ok_def)
  then show ?thesis using sb_ok_oldest(1) [OF ok] size_bounds(1) [of B] by (simp add: placed_def Let_def)
next
  case True
  note acc = sb_ok_oldest(1) [OF ok]
  define diff where "diff = seq - sb_highest_added B"
  have nz: "diff \<noteq> 0" using place True by (auto simp: sb_place_def Let_def diff_def)
  consider "diff < UINT16_SIZE_HALF" "sb_size B \<le> diff" | "diff < UINT16_SIZE_HALF" "diff < sb_size B" | "\<not> diff < UINT16_SIZE_HALF"
    by (metis linorder_not_le)
  then show ?thesis
  proof cases
    case 1
    define B1 where "B1 = B\<lparr>sb_packets := map (\<lambda>_. None) (sb_packets B), sb_bytes := 0, sb_oldest := seq\<rparr>"
    have B': "B' = B1\<lparr>sb_highest_added := seq\<rparr>"
      using place True nz 1 by (simp add: sb_place_def Let_def diff_def [symmetric] B1_def)
    have "stored_bytes (map (\<lambda>_. None) ps) = 0" for ps by (induction ps) (simp_all add: stored_bytes_def)
    then have "sb_acc B1" "entries B1 = {}" using acc by (auto simp: B1_def sb_acc_def entries_def)
    moreover have "1 \<le> lag seq (entry_seq e) \<and> \<not> lag seq (entry_seq e) \<le> unat (sb_size B)" if "e \<in> entries B" for e
    proof -
      have "lag seq (entry_seq e) = lag (sb_highest_added B) (entry_seq e) + unat diff"
        using sb_ok_entry [OF ok that] sb_ok_oldest(3) [OF ok] size_bounds(2) [OF acc] 1(1)
        by (intro lag_ahead) (auto simp: diff_def word_less_nat_alt)
      then show ?thesis using sb_ok_entry(1) [OF ok that] 1(2) by (simp add: word_le_nat_alt)
    qed
    ultimately show ?thesis
      using True size_bounds(1) [OF acc] unfolding B' placed_def Let_def by (simp add: B1_def)
  next
    case 2
    define C where "C = clear_until B (sb_highest_added B + 1) seq"
    have "sb_size C = sb_size B" "sb_oldest C = sb_oldest B" using clear_until_spec [OF acc] by (simp_all add: C_def)
    then have "B' = (if seq - (sb_size B - 1) - sb_oldest B < UINT16_SIZE_HALF
        then C\<lparr>sb_oldest := seq - (sb_size B - 1)\<rparr> else C)\<lparr>sb_highest_added := seq\<rparr>"
      using place True nz 2(1) not_le [THEN iffD2, OF 2(2)]
      by (cases "seq - (sb_size B - 1) - sb_oldest B < UINT16_SIZE_HALF")
        (simp_all add: sb_place_def Let_def diff_def [symmetric] C_def [symmetric])
    moreover have "unat (seq - sb_highest_added B) < unat (sb_size B)" using 2(2) by (simp add: diff_def word_less_nat_alt)
    ultimately show ?thesis using placed_near [OF ok True nz [unfolded diff_def]] by (simp only: C_def)
  next
    case 3
    define h where "h = sb_highest_added B"
    have late: "unat (h - seq) < unat (sb_size B)"
      and B': "B' = (if sb_oldest B - seq < UINT16_SIZE_HALF then B\<lparr>sb_oldest := seq\<rparr> else B)"
      using place True nz 3 by (auto simp: sb_place_def Let_def diff_def h_def word_le_nat_alt split: if_splits)
    have seq: "lag h seq = unat (h - seq) + 1" using late size_bounds(2) [OF acc] by (intro lag_diff) simp
    then have "sb_oldest B - seq < UINT16_SIZE_HALF \<longleftrightarrow> lag h (sb_oldest B) \<le> lag h seq"
      using sb_ok_oldest(2,3) [OF ok] size_bounds(2) [OF acc] late by (intro lag_compare) (simp_all add: h_def)
    then show ?thesis
      using True acc seq late sb_ok_oldest(3) [OF ok] sb_ok_entry [OF ok] unfolding B' placed_def Let_def
      by (auto simp: h_def intro: order_trans)
  qed
qed

section \<open>Eviction\<close>

lemma lag_next: "s \<noteq> h + 1 \<Longrightarrow> lag h s = Suc (lag h (s + 1))"
proof -
  assume "s \<noteq> h + 1"
  then have "h + 1 - s \<noteq> 0" by auto
  then have "unat (h + 1 - s - 1) = unat (h + 1 - s) - 1" "0 < unat (h + 1 - s)"
    by (rule unat_minus_one, simp add: unat_gt_0)
  then show ?thesis by (simp add: lag_def)
qed

lemma expired_cong: "sb_limits A = sb_limits B \<Longrightarrow> sb_epoch A = sb_epoch B \<Longrightarrow> expired A = expired B"
  by (simp add: expired_def fun_eq_iff)

lemma evict_oldest_None:
  "evict_oldest B now = None \<Longrightarrow> sb_acc B \<Longrightarrow> \<exists>e\<in>entries B. entry_seq e = sb_oldest B \<and> \<not> expired B e now \<and>
    (sb_bytes B \<le> max_bytes (sb_limits B) \<or> sb_oldest B = sb_highest_added B)"
  by (auto simp: evict_oldest_def Let_def entries_nth slot_def split: option.splits if_splits)

lemma evict_oldest_Some:
  assumes "evict_oldest B now = Some B'" "sb_core B" "1 \<le> lag (sb_highest_added B) (sb_oldest B)"
  shows "sb_acc B'" "entries B' = {e \<in> entries B. entry_seq e \<noteq> sb_oldest B}"
    "\<forall>e\<in>entries B. entry_seq e = sb_oldest B \<longrightarrow> expired B e now \<or>
       sb_bytes B > max_bytes (sb_limits B) \<and> sb_oldest B \<noteq> sb_highest_added B"
proof -
  have acc: "sb_acc B" using assms(2) by (simp add: sb_core_def)
  have same: "entry_seq e = sb_oldest B" if "e \<in> entries B" "slot B (entry_seq e) = slot B (sb_oldest B)" for e
    using slot_window [OF acc that(2), of "sb_highest_added B"] assms(2,3) that(1) by (auto simp: sb_core_def intro: order_trans)
  show "sb_acc B'" using evict_oldest_fields [OF assms(1)] sb_clear_acc(1) [OF acc] acc by auto
  show "entries B' = {e \<in> entries B. entry_seq e \<noteq> sb_oldest B}"
  proof (cases "B' = sb_clear B (sb_oldest B)")
    case True
    then show ?thesis using sb_clear_acc(2) [OF acc, of "sb_oldest B"] same by auto
  next
    case False
    have "\<not> (\<exists>e\<in>entries B. entry_seq e = sb_oldest B)"
    proof
      assume "\<exists>e\<in>entries B. entry_seq e = sb_oldest B"
      then obtain e where "sb_packets B ! slot B (sb_oldest B) = Some e" "entry_seq e = sb_oldest B"
        by (auto simp: entries_nth [OF acc])
      then show False using assms(1) False by (simp add: evict_oldest_def Let_def slot_def split: if_splits)
    qed
    moreover have "B' = B" using evict_oldest_fields [OF assms(1)] False by simp
    ultimately show ?thesis by auto
  qed
  show "\<forall>e\<in>entries B. entry_seq e = sb_oldest B \<longrightarrow> expired B e now \<or>
       sb_bytes B > max_bytes (sb_limits B) \<and> sb_oldest B \<noteq> sb_highest_added B"
  proof (intro ballI impI)
    fix e assume "e \<in> entries B" "entry_seq e = sb_oldest B"
    then have "sb_packets B ! slot B (sb_oldest B) = Some e" "entry_seq e = sb_oldest B" by (auto simp: entries_nth [OF acc])
    then show "expired B e now \<or> sb_bytes B > max_bytes (sb_limits B) \<and> sb_oldest B \<noteq> sb_highest_added B"
      using assms(1) by (auto simp: evict_oldest_def Let_def slot_def split: if_splits)
  qed
qed

text \<open>Eviction keeps the entries up to some lag \<open>c\<close> and stops for a reason: the history is empty, or its oldest
  entry has not expired and the history is within its budget or only the newest packet is left.\<close>

definition evicted :: "send_buffer \<Rightarrow> instant \<Rightarrow> send_buffer \<Rightarrow> bool" where
  "evicted B now B' \<longleftrightarrow> sb_core B' \<and> 1 \<le> lag (sb_highest_added B') (sb_oldest B') \<and>
     slot B' = slot B \<and> sb_size B' = sb_size B \<and> sb_highest_added B' = sb_highest_added B \<and> sb_started B' = sb_started B \<and>
     sb_limits B' = sb_limits B \<and> sb_epoch B' = sb_epoch B \<and>
     (\<exists>c. entries B' = {e \<in> entries B. lag (sb_highest_added B) (entry_seq e) \<le> c}) \<and>
     (if entries B' = {} then sb_newest_sent_at B' = None
      else sb_newest_sent_at B' = sb_newest_sent_at B \<and> (\<exists>e\<in>entries B'. entry_seq e = sb_oldest B' \<and> \<not> expired B e now \<and>
        (sb_bytes B' \<le> max_bytes (sb_limits B) \<or> sb_oldest B' = sb_highest_added B)))"

lemma evict_step:
  assumes "sb_core B" "sb_oldest B \<noteq> sb_highest_added B + 1" "evict_oldest B now = Some B'"
  defines "C \<equiv> B'\<lparr>sb_oldest := sb_oldest B + 1\<rparr>"
  shows "sb_core C" "evict_loop B now = evict_loop C now"
    "slot C = slot B" "sb_size C = sb_size B" "sb_highest_added C = sb_highest_added B" "sb_started C = sb_started B"
    "sb_limits C = sb_limits B" "sb_epoch C = sb_epoch B" "sb_newest_sent_at C = sb_newest_sent_at B" "expired C = expired B"
    "entries C = {e \<in> entries B. entry_seq e \<noteq> sb_oldest B}"
    "\<And>e. e \<in> entries C \<Longrightarrow> lag (sb_highest_added B) (entry_seq e) \<le> lag (sb_highest_added B) (sb_oldest B + 1)"
    "\<forall>e\<in>entries B. entry_seq e = sb_oldest B \<longrightarrow> expired B e now \<or>
       sb_bytes B > max_bytes (sb_limits B) \<and> sb_oldest B \<noteq> sb_highest_added B"
proof -
  have older: "lag (sb_highest_added B) (sb_oldest B) = Suc (lag (sb_highest_added B) (sb_oldest B + 1))"
    using lag_next [OF assms(2)] .
  then have old: "1 \<le> lag (sb_highest_added B) (sb_oldest B)" by simp
  note step = evict_oldest_Some [OF assms(3,1) old]
  show C: "slot C = slot B" "sb_size C = sb_size B" "sb_highest_added C = sb_highest_added B" "sb_started C = sb_started B"
    "sb_limits C = sb_limits B" "sb_epoch C = sb_epoch B" "sb_newest_sent_at C = sb_newest_sent_at B" "expired C = expired B"
    "entries C = {e \<in> entries B. entry_seq e \<noteq> sb_oldest B}"
    using evict_oldest_fields [OF assms(3)] step(2) by (auto simp: C_def intro!: expired_cong)
  show e: "lag (sb_highest_added B) (entry_seq e) \<le> lag (sb_highest_added B) (sb_oldest B + 1)" if "e \<in> entries C" for e
    using that assms(1) older lag_inject [of "sb_highest_added B" "entry_seq e" "sb_oldest B"] by (auto simp: C(9) sb_core_def le_Suc_eq)
  have "sb_acc C" "sb_oldest C = sb_oldest B + 1" using step(1) by (simp_all add: C_def)
  then show "sb_core C" using assms(1) older e by (auto simp: sb_core_def C)
  show "evict_loop B now = evict_loop C now" using assms(2,3) by (simp add: evict_loop.simps [of B] C_def)
  show "\<forall>e\<in>entries B. entry_seq e = sb_oldest B \<longrightarrow> expired B e now \<or>
       sb_bytes B > max_bytes (sb_limits B) \<and> sb_oldest B \<noteq> sb_highest_added B" by (rule step(3))
qed

lemma evict_loop_spec: "sb_core B \<Longrightarrow> evicted B now (evict_loop B now)"
proof (induction B now rule: evict_loop.induct)
  case (1 B now)
  let ?h = "sb_highest_added B"
  consider "sb_oldest B = ?h + 1" | "sb_oldest B \<noteq> ?h + 1" "evict_oldest B now = None"
    | B' where "sb_oldest B \<noteq> ?h + 1" "evict_oldest B now = Some B'" by (cases "evict_oldest B now") auto
  then show ?case
  proof cases
    case 1
    then have "lag ?h (sb_oldest B) = 0" by (simp add: lag_def)
    then have "entries B = {}" using \<open>sb_core B\<close> by (auto simp: sb_core_def)
    then show ?thesis
      using \<open>sb_core B\<close> size_bounds(1) [of B] 1 by (simp add: evicted_def evict_loop.simps [of B] sb_core_def)
  next
    case 2
    have "sb_acc B" "1 \<le> lag ?h (sb_oldest B)" using \<open>sb_core B\<close> lag_next [OF 2(1)] by (simp_all add: sb_core_def)
    with evict_oldest_None [OF 2(2)] 2 \<open>sb_core B\<close> show ?thesis
      by (auto simp: evicted_def evict_loop.simps [of B] sb_core_def intro!: exI [of _ "lag ?h (sb_oldest B)"])
  next
    case (3 B')
    define C where "C = B'\<lparr>sb_oldest := sb_oldest B + 1\<rparr>"
    note step = evict_step [OF \<open>sb_core B\<close> 3, folded C_def]
    have IH: "evicted C now (evict_loop C now)" using 1(1) [OF 3] step(1) by (simp add: C_def)
    have "{e \<in> entries C. lag ?h (entry_seq e) \<le> c} =
      {e \<in> entries B. lag ?h (entry_seq e) \<le> min c (lag ?h (sb_oldest B + 1))}" for c
      using step(12) lag_next [OF 3(1)] by (auto simp: step(11))
    moreover obtain c where "entries (evict_loop C now) = {e \<in> entries C. lag ?h (entry_seq e) \<le> c}"
      using IH by (auto simp: evicted_def step(5))
    ultimately have "\<exists>c. entries (evict_loop C now) = {e \<in> entries B. lag ?h (entry_seq e) \<le> c}" by blast
    with IH show ?thesis
      unfolding evicted_def step(2-10) by (elim conjE) (intro conjI; assumption)
  qed
qed

lemma evict_keeps_newest:
  "sb_core B \<Longrightarrow> e \<in> entries B \<Longrightarrow> entry_seq e = sb_highest_added B \<Longrightarrow> \<not> expired B e now \<Longrightarrow> e \<in> entries (evict_loop B now)"
proof (induction B now rule: evict_loop.induct)
  case (1 B now)
  then have "1 \<le> lag (sb_highest_added B) (sb_oldest B)" by (auto simp: sb_core_def)
  then have more: "sb_oldest B \<noteq> sb_highest_added B + 1" by (auto simp: lag_def)
  show ?case
  proof (cases "evict_oldest B now")
    case None
    then show ?thesis using more 1(3) by (simp add: evict_loop.simps [of B])
  next
    case (Some B')
    note step = evict_step [OF 1(2) more Some]
    have "e \<in> entries (B'\<lparr>sb_oldest := sb_oldest B + 1\<rparr>)" using step(13) 1(3-5) unfolding step(11) by auto
    then show ?thesis unfolding step(2) using 1(1) [OF more Some step(1)] 1(4,5) step(5,10) by simp
  qed
qed

lemma evict_keeps_all:
  "sb_core B \<Longrightarrow> sb_bytes B \<le> max_bytes (sb_limits B) \<Longrightarrow> \<forall>e\<in>entries B. \<not> expired B e now \<Longrightarrow>
    entries (evict_loop B now) = entries B"
proof (induction B now rule: evict_loop.induct)
  case (1 B now)
  consider "sb_oldest B = sb_highest_added B + 1 \<or> evict_oldest B now = None"
    | B' where "sb_oldest B \<noteq> sb_highest_added B + 1" "evict_oldest B now = Some B'" by (cases "evict_oldest B now") auto
  then show ?case
  proof cases
    case 1
    then show ?thesis by (auto simp: evict_loop.simps [of B])
  next
    case (2 B')
    note step = evict_step [OF 1(2) 2]
    have gone: "\<not> (\<exists>e\<in>entries B. entry_seq e = sb_oldest B)" using step(13) 1(3,4) by auto
    then have same: "entries (B'\<lparr>sb_oldest := sb_oldest B + 1\<rparr>) = entries B" unfolding step(11) by auto
    have "sb_bytes B' \<le> sb_bytes B"
      using evict_oldest_fields [OF 2(2)] by (auto simp: sb_clear_def Let_def split: option.splits)
    then show ?thesis unfolding step(2) using 1(1) [OF 2 step(1)] 1(3,4) same step(7,10) by simp
  qed
qed

section \<open>Adding and looking up\<close>

lemma sb_place_ahead:
  "\<not> sb_started B \<or> seq \<noteq> sb_highest_added B \<and> seq - sb_highest_added B < UINT16_SIZE_HALF \<Longrightarrow>
    \<exists>B1. sb_place B seq = Some B1 \<and> sb_highest_added B1 = seq"
  by (cases "sb_started B") (simp_all add: sb_place_def Let_def)

lemma evict_ok:
  assumes "sb_ok B" "sb_started B"
  shows "evicted B now (evict B now)" "sb_ok (evict B now)"
proof -
  show ev: "evicted B now (evict B now)" using assms evict_loop_spec [of B now] by (simp add: evict_def sb_ok_def)
  then show "sb_ok (evict B now)" using assms(2) unfolding evicted_def sb_ok_def by blast
qed

lemma send_buffer_expire_ok: "sb_ok B \<Longrightarrow> sb_ok (send_buffer_expire B now)"
  using evict_ok(2) [of B now] by (cases "sb_started B") (simp_all add: send_buffer_expire_def evict_def)

lemma stored_ok:
  assumes "sb_ok B" "sb_place B (rtp_sequence_number (pkt_header p)) = Some B1"
  shows "sb_ok (sb_store B1 p now)"
proof -
  have P: "placed B (rtp_sequence_number (pkt_header p)) B1" using placed_cases [OF assms] .
  then have "sb_acc B1" by (simp add: placed_def)
  note st = sb_store_spec [OF this, of p now]
  show ?thesis
    using P st(1,2,4-7) unfolding sb_ok_def sb_core_def placed_def Let_def by (auto simp: st)
qed

lemma send_buffer_add_ok: "sb_ok B \<Longrightarrow> sb_ok (send_buffer_add B p now)"
proof (cases "sb_place B (rtp_sequence_number (pkt_header p))")
  case (Some B1)
  assume ok: "sb_ok B"
  have P: "placed B (rtp_sequence_number (pkt_header p)) B1" using placed_cases [OF ok Some] .
  then have "sb_started (sb_store B1 p now)" using sb_store_spec(7) [of B1 p now] by (simp add: placed_def)
  then show ?thesis using evict_ok(2) [OF stored_ok [OF ok Some]] Some by (simp add: send_buffer_add_def)
qed (simp add: send_buffer_add_def)

lemma send_buffer_get_entries:
  assumes "sb_ok B"
  shows "send_buffer_get B s now = Some p \<longleftrightarrow> (\<exists>e\<in>entries B. entry_seq e = s \<and> entry_packet e = p \<and> \<not> expired B e now)"
proof
  note acc = sb_ok_oldest(1) [OF assms]
  assume "send_buffer_get B s now = Some p"
  then obtain e where "sb_packets B ! slot B s = Some e" "entry_seq e = s" "\<not> expired B e now" "entry_packet e = p"
    by (auto simp: send_buffer_get_def Let_def slot_def split: if_splits option.splits)
  then show "\<exists>e\<in>entries B. entry_seq e = s \<and> entry_packet e = p \<and> \<not> expired B e now"
    by (auto simp: entries_nth [OF acc])
next
  note acc = sb_ok_oldest(1) [OF assms]
  assume "\<exists>e\<in>entries B. entry_seq e = s \<and> entry_packet e = p \<and> \<not> expired B e now"
  then obtain e where e: "e \<in> entries B" "entry_seq e = s" "entry_packet e = p" "\<not> expired B e now" by blast
  have "sb_started B" using assms e(1) by (auto simp: sb_ok_def)
  moreover have "unat (sb_highest_added B - s) < unat (sb_size B)"
  proof -
    have "s \<noteq> sb_highest_added B + 1" using sb_ok_entry(1) [OF assms e(1)] by (auto simp: e(2) lag_def)
    from lag_decreases [OF this] show ?thesis
      using sb_ok_entry(2) [OF assms e(1)] sb_ok_oldest(3) [OF assms] by (simp add: e(2) lag_def)
  qed
  moreover have "sb_packets B ! unat (s AND sb_mask B) = Some e" using e(1,2) by (auto simp: entries_nth [OF acc] slot_def)
  ultimately show "send_buffer_get B s now = Some p"
    using e(2-4) size_bounds(2) [OF acc] by (simp add: send_buffer_get_def Let_def word_le_nat_alt)
qed

lemma entries_unique: "sb_acc B \<Longrightarrow> e \<in> entries B \<Longrightarrow> e' \<in> entries B \<Longrightarrow> entry_seq e = entry_seq e' \<Longrightarrow> e = e'"
  by (simp add: entries_nth)

section \<open>Runs\<close>

datatype sb_op = Add rtp_packet instant | Expire instant

fun sb_run :: "send_buffer \<Rightarrow> sb_op \<Rightarrow> send_buffer" where
  "sb_run B (Add p now) = send_buffer_add B p now"
| "sb_run B (Expire now) = send_buffer_expire B now"

text \<open>Within the byte budget, or nothing but the newest packet.\<close>

definition within_budget :: "send_buffer \<Rightarrow> bool" where
  "within_budget B \<longleftrightarrow> sb_bytes B \<le> max_bytes (sb_limits B) \<or> (\<forall>e\<in>entries B. entry_seq e = sb_highest_added B)"

text \<open>No entry is newer than \<open>newest_sent_at\<close>.\<close>

definition sb_timed :: "send_buffer \<Rightarrow> bool" where
  "sb_timed B \<longleftrightarrow> (\<not> sb_started B \<longrightarrow> sb_newest_sent_at B = None) \<and> (\<forall>e\<in>entries B. \<exists>t epoch. sb_newest_sent_at B = Some t \<and> sb_epoch B = Some epoch \<and>
     unat (entry_sent_at e) \<le> t - epoch)"

lemma stored_bytes_empty: "\<forall>x\<in>set ps. x = None \<Longrightarrow> stored_bytes ps = 0"
  by (induction ps) (simp_all add: stored_bytes_def)

lemma evicted_budget: "evicted B now B' \<Longrightarrow> within_budget B'"
proof (cases "entries B' = {}")
  case True
  assume "evicted B now B'"
  then have "sb_acc B'" by (simp add: evicted_def sb_core_def)
  moreover have "\<forall>x\<in>set (sb_packets B'). x = None" using True by (auto simp: entries_def) (metis not_None_eq)
  ultimately show ?thesis using stored_bytes_empty by (simp add: within_budget_def sb_acc_def)
next
  case False
  assume ev: "evicted B now B'"
  then have "sb_bytes B' \<le> max_bytes (sb_limits B') \<or> sb_oldest B' = sb_highest_added B'"
    using False by (auto simp: evicted_def)
  moreover have "entry_seq e = sb_highest_added B'" if "sb_oldest B' = sb_highest_added B'" "e \<in> entries B'" for e
  proof -
    have "lag (sb_highest_added B') (entry_seq e) = lag (sb_highest_added B') (sb_highest_added B')"
      using ev that by (auto simp: evicted_def sb_core_def)
    then show ?thesis by (simp only: lag_inject)
  qed
  ultimately show ?thesis by (auto simp: within_budget_def)
qed

lemma evicted_timed:
  assumes "evicted B now B'" "sb_timed B"
  shows "sb_timed B'"
  using assms by (auto simp: evicted_def sb_timed_def split: if_splits)

lemma stored_timed:
  assumes "sb_ok B" "sb_timed B" "sb_place B (rtp_sequence_number (pkt_header p)) = Some B1"
  shows "sb_timed (sb_store B1 p now)"
proof -
  have P: "placed B (rtp_sequence_number (pkt_header p)) B1" using placed_cases [OF assms(1,3)] .
  then have "sb_acc B1" by (simp add: placed_def)
  note st = sb_store_spec [OF this, of p now]
  define epoch where "epoch = (case sb_epoch B1 of None \<Rightarrow> now | Some epoch \<Rightarrow> epoch)"
  define t where "t = (case sb_newest_sent_at B1 of None \<Rightarrow> now | Some newest \<Rightarrow> max newest now)"
  have "unat (of_nat (now - epoch) :: u64) \<le> t - epoch"
  proof -
    have "unat (of_nat (now - epoch) :: u64) \<le> now - epoch" by (simp add: unat_of_nat take_bit_eq_mod)
    also have "\<dots> \<le> t - epoch" by (auto simp: t_def split: option.splits)
    finally show ?thesis .
  qed
  moreover have "unat (entry_sent_at e) \<le> t - epoch" if "e \<in> entries B1" for e
  proof -
    have same: "sb_newest_sent_at B1 = sb_newest_sent_at B" "sb_epoch B1 = sb_epoch B" "e \<in> entries B"
      using P that by (auto simp: placed_def)
    from assms(2) same(3) obtain t0 ep where "sb_newest_sent_at B = Some t0" "sb_epoch B = Some ep" "unat (entry_sent_at e) \<le> t0 - ep"
      unfolding sb_timed_def by blast
    then show ?thesis by (simp add: t_def epoch_def same(1,2))
  qed
  ultimately show ?thesis
    using P unfolding sb_timed_def st(2,7,9,10) epoch_def [symmetric] t_def [symmetric] by (auto simp: placed_def)
qed

definition sb_inv :: "send_buffer \<Rightarrow> bool" where
  "sb_inv B \<longleftrightarrow> sb_ok B \<and> sb_timed B \<and> within_budget B"

lemma send_buffer_add_inv: "sb_inv B \<Longrightarrow> sb_inv (send_buffer_add B p now)"
proof (cases "sb_place B (rtp_sequence_number (pkt_header p))")
  case (Some B1)
  assume inv: "sb_inv B"
  then have ok: "sb_ok B" "sb_timed B" by (simp_all add: sb_inv_def)
  have "sb_started (sb_store B1 p now)"
    using placed_cases [OF ok(1) Some] sb_store_spec(7) [of B1 p now] by (simp add: placed_def)
  note ev = evict_ok [OF stored_ok [OF ok(1) Some] this, of now]
  show ?thesis
    using ev(2) evicted_budget [OF ev(1)] evicted_timed [OF ev(1) stored_timed [OF ok Some]] Some
    by (simp add: sb_inv_def send_buffer_add_def)
qed (simp add: send_buffer_add_def)

lemma send_buffer_expire_inv: "sb_inv B \<Longrightarrow> sb_inv (send_buffer_expire B now)"
proof (cases "sb_started B")
  case True
  assume "sb_inv B"
  then have ok: "sb_ok B" "sb_timed B" by (simp_all add: sb_inv_def)
  note ev = evict_ok [OF ok(1) True, of now]
  show ?thesis using ev(2) evicted_budget [OF ev(1)] evicted_timed [OF ev(1) ok(2)] by (simp add: sb_inv_def send_buffer_expire_def)
qed (simp add: send_buffer_expire_def evict_def)

lemma sb_run_inv: "sb_inv B \<Longrightarrow> sb_inv (foldl sb_run B ops)"
proof (induction ops arbitrary: B)
  case (Cons op ops)
  then show ?case by (cases op) (simp_all add: send_buffer_add_inv send_buffer_expire_inv)
qed simp

lemma with_limits_inv:
  assumes "send_buffer_with_limits sz limits = Some B"
  shows "sb_inv B" "sb_size B = sz" "sb_limits B = limits" "\<not> sb_started B"
proof -
  from assms obtain k where k: "k < 16" "sz = 2 ^ k"
    and B: "B = \<lparr>sb_packets = replicate (unat sz) None, sb_size = sz, sb_mask = sz - 1, sb_highest_added = 0,
        sb_started = False, sb_oldest = 0, sb_bytes = 0, sb_newest_sent_at = None, sb_epoch = None, sb_limits = limits\<rparr>"
    unfolding send_buffer_with_limits_def list_ex_iff set_upt by (auto simp: push_bit_eq_mult split: if_splits)
  have "(2 :: nat) ^ k < 2 ^ 16" using k(1) by (intro power_strict_increasing) simp_all
  then have sz: "unat sz = 2 ^ k" using unat_of_nat_small(2) [of "2 ^ k"] k(2) by simp
  have "stored_bytes (replicate n None) = 0" for n by (rule stored_bytes_empty) simp
  then have acc: "sb_acc B" using k sz by (auto simp: B sb_acc_def mask_eq_exp_minus_1 intro!: exI [of _ k])
  have "entries B = {}" by (auto simp: B entries_def)
  then show "sb_inv B"
    using acc size_bounds(1) [OF acc] by (simp add: sb_inv_def sb_ok_def sb_core_def sb_timed_def within_budget_def) (simp add: B)
  show "sb_size B = sz" "sb_limits B = limits" "\<not> sb_started B" by (simp_all add: B)
qed

section \<open>Theorems\<close>

definition example_packet :: "u16 \<Rightarrow> rtp_packet" where
  "example_packet seq = \<lparr>pkt_header = rtp_header_default\<lparr>rtp_sequence_number := seq\<rparr>, pkt_payload = [1, 2, 3]\<rparr>"

lemma example_packet_simps [simp]:
  "rtp_sequence_number (pkt_header (example_packet seq)) = seq" "length (pkt_payload (example_packet seq)) = 3"
  by (simp_all add: example_packet_def)

text \<open>C28: The history stays consistent along any run of \<open>add\<close> and \<open>expire\<close>: every stored packet is in the slot of its
  sequence number and inside the window that ends at the highest number, the byte count is the sum of the stored
  payloads (so the subtractions never underflow), and the history is within its byte budget or holds nothing but the
  newest packet.\<close>

theorem send_buffer_invariant:
  assumes "send_buffer_with_limits sz limits = Some B"
  shows "let B' = foldl sb_run B ops in
    sb_bytes B' = stored_bytes (sb_packets B') \<and>
    (sb_bytes B' \<le> max_bytes (sb_limits B') \<or> (\<forall>e\<in>entries B'. entry_seq e = sb_highest_added B')) \<and>
    (\<forall>e\<in>entries B'. sb_packets B' ! unat (entry_seq e AND sb_mask B') = Some e \<and>
      lag (sb_highest_added B') (entry_seq e) \<le> length (sb_packets B'))"
proof -
  define B' where "B' = foldl sb_run B ops"
  have inv: "sb_ok B'" "within_budget B'" using sb_run_inv [OF with_limits_inv(1) [OF assms]] by (simp_all add: B'_def sb_inv_def)
  note acc = sb_ok_oldest(1) [OF inv(1)]
  obtain k where "unat (sb_size B') = length (sb_packets B')" using acc by (rule sb_accE) simp
  moreover have "lag (sb_highest_added B') (entry_seq e) \<le> unat (sb_size B')" if "e \<in> entries B'" for e
    using sb_ok_entry(2) [OF inv(1) that] sb_ok_oldest(3) [OF inv(1)] by simp
  ultimately show ?thesis
    using inv(2) acc unfolding B'_def [symmetric] Let_def by (auto simp: within_budget_def entries_nth [OF acc] slot_def sb_acc_def)
qed

theorem send_buffer_invariant_witness:
  "\<exists>B. send_buffer_with_limits 4 UNLIMITED = Some B \<and> (let B' = foldl sb_run B [Add (example_packet 7) 5, Expire 9] in
    sb_bytes B' = stored_bytes (sb_packets B'))"
proof -
  obtain B where B: "send_buffer_with_limits 4 UNLIMITED = Some B" by (simp add: send_buffer_with_limits_def upt_rec)
  then show ?thesis using send_buffer_invariant [OF B, of "[Add (example_packet 7) 5, Expire 9]"] by (auto simp: Let_def)
qed

text \<open>The packet sent last can be retransmitted at once, whatever the byte limit, unless the age limit is zero (as
  a 64-bit number of nanoseconds).\<close>

theorem newest_retrievable:
  assumes "send_buffer_with_limits sz limits = Some B0" "B = foldl sb_run B0 ops"
    and ahead: "\<not> sb_started B \<or> seq \<noteq> sb_highest_added B \<and> seq - sb_highest_added B < UINT16_SIZE_HALF"
    and age: "\<forall>age. max_age (sb_limits B) = Some age \<longrightarrow> (of_nat age :: u64) \<noteq> 0"
    and p: "rtp_sequence_number (pkt_header p) = seq"
  shows "send_buffer_get (send_buffer_add B p now) seq now = Some p"
proof -
  have ok: "sb_ok B" using sb_run_inv [OF with_limits_inv(1) [OF assms(1)]] assms(2) by (simp add: sb_inv_def)
  obtain B1 where B1: "sb_place B seq = Some B1" "sb_highest_added B1 = seq" using sb_place_ahead [OF ahead] by blast
  have P: "placed B seq B1" using placed_cases [OF ok B1(1)] .
  then have "sb_acc B1" by (simp add: placed_def)
  note st = sb_store_spec [OF this, of p now]
  define epoch new where "epoch = (case sb_epoch B1 of None \<Rightarrow> now | Some epoch \<Rightarrow> epoch)"
    and "new = \<lparr>entry_packet = p, entry_sent_at = of_nat (now - epoch)\<rparr>"
  have new: "new \<in> entries (sb_store B1 p now)" "entry_seq new = sb_highest_added (sb_store B1 p now)"
    unfolding st(2,5) using B1(2) p by (simp_all add: new_def epoch_def)
  have "sb_limits (sb_store B1 p now) = sb_limits B" using P st(8) by (simp add: placed_def)
  then have fresh: "\<not> expired (sb_store B1 p now) new now"
    using age by (auto simp: expired_def st(9) epoch_def [symmetric] new_def split: option.splits)
  have "sb_started (sb_store B1 p now)" using P st(7) by (simp add: placed_def)
  have stored: "sb_ok (sb_store B1 p now)" using stored_ok [OF ok, of p B1] B1(1) p by simp
  then have core: "sb_core (sb_store B1 p now)" by (simp add: sb_ok_def)
  note ev = evict_ok [OF stored \<open>sb_started _\<close>, of now]
  have "new \<in> entries (evict (sb_store B1 p now) now)"
    using evict_keeps_newest [OF core new fresh] \<open>sb_started _\<close> by (simp add: evict_def)
  moreover have "expired (evict (sb_store B1 p now) now) = expired (sb_store B1 p now)"
    using ev(1) by (intro expired_cong) (simp_all add: evicted_def)
  ultimately show ?thesis
    using fresh p send_buffer_get_entries [OF ev(2), of seq now p] B1(1) by (auto simp: send_buffer_add_def new_def)
qed

theorem newest_retrievable_witness:
  "\<exists>B. send_buffer_with_limits 4 \<lparr>max_bytes = 0, max_age = Some 10\<rparr> = Some B \<and>
    send_buffer_get (send_buffer_add B (example_packet 7) 5) 7 5 = Some (example_packet 7)"
proof -
  obtain B where B: "send_buffer_with_limits 4 \<lparr>max_bytes = 0, max_age = Some 10\<rparr> = Some B"
    by (simp add: send_buffer_with_limits_def upt_rec)
  have "send_buffer_get (send_buffer_add B (example_packet 7) 5) 7 5 = Some (example_packet 7)"
    using with_limits_inv(3,4) [OF B] by (intro newest_retrievable [OF B, of _ "[]"]) simp_all
  with B show ?thesis by blast
qed

text \<open>The clock of a run never goes back.\<close>

fun sb_time :: "sb_op \<Rightarrow> instant" where
  "sb_time (Add p now) = now"
| "sb_time (Expire now) = now"

definition clocked :: "instant \<Rightarrow> send_buffer \<Rightarrow> bool" where
  "clocked now B \<longleftrightarrow> (\<forall>epoch. sb_epoch B = Some epoch \<longrightarrow> epoch \<le> now \<and> (\<forall>t. sb_newest_sent_at B = Some t \<longrightarrow> epoch \<le> t))"

lemma evicted_clocked: "evicted B now B' \<Longrightarrow> clocked t B \<Longrightarrow> clocked t B'"
  by (auto simp: evicted_def clocked_def split: if_splits)

lemma sb_run_clocked:
  assumes "sb_inv B" "clocked t B" "t \<le> sb_time op"
  shows "clocked (sb_time op) (sb_run B op)"
proof (cases op)
  case (Add p now)
  have ok: "sb_ok B" using assms(1) by (simp add: sb_inv_def)
  show ?thesis
  proof (cases "sb_place B (rtp_sequence_number (pkt_header p))")
    case None
    then show ?thesis using Add assms(2,3) by (auto simp: send_buffer_add_def clocked_def)
  next
    case (Some B1)
    have P: "placed B (rtp_sequence_number (pkt_header p)) B1" using placed_cases [OF ok Some] .
    then have "sb_acc B1" by (simp add: placed_def)
    note st = sb_store_spec [OF this, of p now]
    have started: "sb_started (sb_store B1 p now)" using P st(7) by (simp add: placed_def)
    have same: "sb_epoch B1 = sb_epoch B" "sb_newest_sent_at B1 = sb_newest_sent_at B" using P by (simp_all add: placed_def)
    have "clocked now (sb_store B1 p now)"
      using assms(2,3) Add unfolding clocked_def st(9,10) same
      by (auto simp: max_def split: option.splits)
    then show ?thesis
      using evicted_clocked [OF evict_ok(1) [OF stored_ok [OF ok Some] started]] Add Some by (simp add: send_buffer_add_def)
  qed
next
  case (Expire now)
  have ok: "sb_ok B" using assms(1) by (simp add: sb_inv_def)
  have "clocked now B" using assms(2,3) Expire by (auto simp: clocked_def)
  then show ?thesis
    using evicted_clocked [OF evict_ok(1) [OF ok]] Expire by (cases "sb_started B") (simp_all add: send_buffer_expire_def evict_def)
qed

lemma sb_runs_clocked:
  "sb_inv B \<Longrightarrow> clocked t B \<Longrightarrow> sorted (map sb_time ops) \<Longrightarrow> \<forall>op\<in>set ops. t \<le> sb_time op \<Longrightarrow> \<forall>op\<in>set ops. sb_time op \<le> now \<Longrightarrow>
    t \<le> now \<Longrightarrow> clocked now (foldl sb_run B ops)"
proof (induction ops arbitrary: B t)
  case (Cons op ops)
  have "clocked (sb_time op) (sb_run B op)" using Cons.prems by (intro sb_run_clocked [of B t]) auto
  moreover have "sb_inv (sb_run B op)" using sb_run_inv [OF Cons.prems(1), of "[op]"] by simp
  ultimately show ?case using Cons.IH [of "sb_run B op" "sb_time op"] Cons.prems by simp
qed (auto simp: clocked_def)

lemma all_expired:
  assumes "sb_timed B" "clocked now B" "expires_at B = Some t" "t \<le> now" "now - the (sb_epoch B) < 2 ^ 64" "e \<in> entries B"
  shows "expired B e now"
proof -
  from assms(1,6) obtain newest epoch where n: "sb_newest_sent_at B = Some newest" "sb_epoch B = Some epoch"
    "unat (entry_sent_at e) \<le> newest - epoch" unfolding sb_timed_def by blast
  from assms(3) n(1) obtain age where age: "max_age (sb_limits B) = Some age" "t = newest + age" by (auto simp: expires_at_def)
  have "epoch \<le> newest" using assms(2) n(1,2) by (simp add: clocked_def)
  have now: "unat (of_nat (now - epoch) :: u64) = now - epoch"
    using assms(5) n(2) by (simp add: unat_of_nat take_bit_nat_eq_self)
  have "unat (entry_sent_at e) \<le> now - epoch" using n(3) assms(4) age(2) by linarith
  then have sent: "entry_sent_at e \<le> of_nat (now - epoch)" by (simp add: word_le_nat_alt now)
  then have "unat (of_nat (now - epoch) - entry_sent_at e) = now - epoch - unat (entry_sent_at e)"
    by (simp add: unat_sub now word_le_nat_alt)
  moreover have "unat (of_nat age :: u64) \<le> age" by (simp add: unat_of_nat take_bit_eq_mod)
  ultimately have "of_nat age \<le> of_nat (now - epoch) - entry_sent_at e"
    using n(3) assms(4) age(2) \<open>epoch \<le> newest\<close> unfolding word_le_nat_alt by linarith
  then show ?thesis using age(1) n(2) sent by (simp add: expired_def Let_def)
qed

text \<open>C29: A stream that stops sending releases its history: when the instant that \<open>expires_at\<close> announces has come,
  \<open>expire\<close> drops every packet, whatever was sent before, and no further timeout is announced. The clock is assumed
  monotonic and the run shorter than 2^64 nanoseconds.\<close>

theorem history_expires:
  assumes "send_buffer_with_limits sz limits = Some B" "sorted (map sb_time ops)" "\<forall>op\<in>set ops. sb_time op \<le> now" "now < 2 ^ 64"
    and "expires_at (foldl sb_run B ops) = Some t" "t \<le> now"
  shows "let B' = send_buffer_expire (foldl sb_run B ops) now in
    entries B' = {} \<and> sb_bytes B' = 0 \<and> expires_at B' = None"
proof -
  define B1 where "B1 = foldl sb_run B ops"
  note new = with_limits_inv [OF assms(1)]
  have inv: "sb_ok B1" "sb_timed B1" using sb_run_inv [OF new(1)] by (simp_all add: B1_def sb_inv_def)
  have "sb_epoch B = None" using assms(1) by (auto simp: send_buffer_with_limits_def split: if_splits)
  then have "clocked now B1" unfolding B1_def using new(1) assms(2,3) by (intro sb_runs_clocked [of B 0]) (auto simp: clocked_def)
  have gone: "expired B1 e now" if "e \<in> entries B1" for e
    using all_expired [OF inv(2) \<open>clocked now B1\<close> _ assms(6) _ that] assms(4,5) by (simp add: B1_def)
  show ?thesis
  proof (cases "sb_started B1")
    case True
    note ev = evict_ok(1) [OF inv(1) True, of now]
    have empty: "entries (evict B1 now) = {}"
    proof (rule ccontr)
      assume "entries (evict B1 now) \<noteq> {}"
      then obtain e where "e \<in> entries (evict B1 now)" "\<not> expired B1 e now" using ev by (auto simp: evicted_def)
      then show False using gone ev by (auto simp: evicted_def)
    qed
    moreover have "sb_bytes (evict B1 now) = 0"
    proof -
      have "sb_acc (evict B1 now)" using ev by (simp add: evicted_def sb_core_def)
      moreover have "\<forall>x\<in>set (sb_packets (evict B1 now)). x = None" using empty by (auto simp: entries_def) (metis not_None_eq)
      ultimately show ?thesis using stored_bytes_empty by (simp add: sb_acc_def)
    qed
    moreover have "sb_newest_sent_at (evict B1 now) = None" using ev empty by (simp add: evicted_def)
    ultimately show ?thesis by (simp add: send_buffer_expire_def B1_def [symmetric] expires_at_def Let_def)
  next
    case False
    then show ?thesis using inv(2) assms(5) by (simp add: sb_timed_def expires_at_def B1_def)
  qed
qed

theorem history_expires_witness:
  "\<exists>B. send_buffer_with_limits 1 \<lparr>max_bytes = 9, max_age = Some 10\<rparr> = Some B \<and>
    expires_at (foldl sb_run B [Add (example_packet 7) 5]) = Some 15 \<and>
    entries (foldl sb_run B [Add (example_packet 7) 5]) \<noteq> {} \<and>
    entries (send_buffer_expire (foldl sb_run B [Add (example_packet 7) 5]) 15) = {}"
proof -
  define B where "B = \<lparr>sb_packets = [None], sb_size = 1, sb_mask = 0, sb_highest_added = 0, sb_started = False, sb_oldest = 0,
    sb_bytes = 0, sb_newest_sent_at = None, sb_epoch = None, sb_limits = \<lparr>max_bytes = 9, max_age = Some 10\<rparr>\<rparr>"
  have B: "send_buffer_with_limits 1 \<lparr>max_bytes = 9, max_age = Some 10\<rparr> = Some B"
    by (simp add: send_buffer_with_limits_def upt_rec B_def)
  have "foldl sb_run B [Add (example_packet 7) 5] = B\<lparr>sb_packets := [Some \<lparr>entry_packet = example_packet 7, entry_sent_at = 0\<rparr>],
      sb_highest_added := 7, sb_started := True, sb_oldest := 7, sb_bytes := 3, sb_newest_sent_at := Some 5, sb_epoch := Some 5\<rparr>"
    by (simp add: B_def send_buffer_add_def sb_place_def sb_store_def sb_clear_def stamp_def Let_def evict_def evict_loop.simps
        evict_oldest_def expired_def)
  then have run: "expires_at (foldl sb_run B [Add (example_packet 7) 5]) = Some 15"
    "entries (foldl sb_run B [Add (example_packet 7) 5]) \<noteq> {}"
    by (simp_all add: B_def expires_at_def entries_def)
  with B show ?thesis using history_expires [OF B, of "[Add (example_packet 7) 5]" 15 15] by (auto simp: Let_def)
qed

section \<open>A history without eviction\<close>

lemma sb_clear_bytes: "sb_bytes (sb_clear B s) \<le> sb_bytes B"
  by (simp add: sb_clear_def Let_def split: option.splits)

lemma clear_until_bytes: "sb_bytes (clear_until B i seq) \<le> sb_bytes B"
proof (induction B i seq rule: clear_until.induct)
  case (1 B i seq)
  then show ?case using sb_clear_bytes [of B i] by (subst clear_until.simps) (auto intro: order_trans)
qed

lemma sb_place_bytes: "sb_place B seq = Some B1 \<Longrightarrow> sb_bytes B1 \<le> sb_bytes B"
  using clear_until_bytes [of B "sb_highest_added B + 1" seq] by (auto simp: sb_place_def Let_def split: if_splits)

lemma sb_store_bytes: "sb_bytes (sb_store B1 p now) \<le> sb_bytes B1 + length (pkt_payload p)"
  using sb_clear_bytes [of B1 "rtp_sequence_number (pkt_header p)"]
  by (simp add: sb_store_def stamp_def Let_def split: option.splits)

lemma evict_loop_bytes: "sb_bytes (evict_loop B now) \<le> sb_bytes B"
proof (induction B now rule: evict_loop.induct)
  case (1 B now)
  show ?case
  proof (cases "sb_oldest B = sb_highest_added B + 1 \<or> evict_oldest B now = None")
    case True
    then show ?thesis by (auto simp: evict_loop.simps [of B])
  next
    case False
    then obtain B' where B': "sb_oldest B \<noteq> sb_highest_added B + 1" "evict_oldest B now = Some B'" by auto
    have "sb_bytes B' \<le> sb_bytes B" using evict_oldest_fields [OF B'(2)] sb_clear_bytes by auto
    with 1(1) [OF B'] B' show ?thesis by (simp add: evict_loop.simps [of B])
  qed
qed

text \<open>Without an age limit and within the byte limit, \<open>add\<close> is an insertion into a window of a finite map.\<close>

lemma send_buffer_lookup:
  assumes ok: "sb_ok B" and place: "sb_place B seq = Some B1" and p: "rtp_sequence_number (pkt_header p) = seq"
    and limits: "max_age (sb_limits B) = None" "sb_bytes B + length (pkt_payload p) \<le> max_bytes (sb_limits B)"
  shows "send_buffer_get (send_buffer_add B p now) s t =
    (if s = seq then Some p else if lag (sb_highest_added B1) s \<le> unat (sb_size B) then send_buffer_get B s t else None)"
    and "sb_highest_added (send_buffer_add B p now) = sb_highest_added B1" "sb_started (send_buffer_add B p now)"
    "sb_bytes (send_buffer_add B p now) \<le> sb_bytes B + length (pkt_payload p)"
proof -
  have P: "placed B seq B1" using placed_cases [OF ok place] .
  then have acc: "sb_acc B1" by (simp add: placed_def)
  define S where "S = sb_store B1 p now"
  note st = sb_store_spec [OF acc, of p now, folded S_def]
  have S: "sb_ok S" using stored_ok [OF ok, of p B1] place p by (simp add: S_def)
  have f: "sb_started S" "sb_limits S = sb_limits B" "sb_size S = sb_size B" "slot B1 = slot B" "sb_size B1 = sb_size B"
    using P st(4,7,8) by (simp_all add: placed_def)
  have add: "send_buffer_add B p now = evict S now" using place p by (simp add: send_buffer_add_def S_def)
  have bytes: "sb_bytes S \<le> sb_bytes B + length (pkt_payload p)"
    using sb_store_bytes [of B1 p now] sb_place_bytes [OF place] by (simp add: S_def)
  note ev = evict_ok [OF S f(1), of now]
  have never: "\<not> expired B e t" "\<not> expired S e t" "\<not> expired (evict S now) e t" for e t
    using limits(1) f(2) ev(1) by (simp_all add: expired_def evicted_def)
  have same: "entries (evict S now) = entries S"
    using evict_keeps_all [of S now] S bytes limits(2) f(1,2) never by (simp add: evict_def sb_ok_def)
  show "sb_highest_added (send_buffer_add B p now) = sb_highest_added B1" "sb_started (send_buffer_add B p now)"
    using ev(1) st(5) f(1) by (simp_all add: add evicted_def)
  show "sb_bytes (send_buffer_add B p now) \<le> sb_bytes B + length (pkt_payload p)"
    using bytes evict_loop_bytes [of S now] f(1) by (simp add: add evict_def)
  have get: "send_buffer_get (send_buffer_add B p now) s t = Some q \<longleftrightarrow> (\<exists>e\<in>entries S. entry_seq e = s \<and> entry_packet e = q)" for q
    unfolding add send_buffer_get_entries [OF ev(2)] same using never by blast
  have other: "(\<exists>e\<in>entries S. entry_seq e = s \<and> entry_packet e = q) \<longleftrightarrow>
      (\<exists>e\<in>entries B1. slot B s \<noteq> slot B seq \<and> entry_seq e = s \<and> entry_packet e = q)" if "s \<noteq> seq" for q
    unfolding st(2) using that p f(4) by auto
  let ?h = "sb_highest_added B1"
  have old: "send_buffer_get B s t = Some q \<longleftrightarrow> (\<exists>e\<in>entries B. entry_seq e = s \<and> entry_packet e = q)" for q
    unfolding send_buffer_get_entries [OF ok] using never by blast
  have P': "1 \<le> lag ?h seq" "lag ?h seq \<le> unat (sb_size B)" "entries B1 \<subseteq> entries B"
    "\<And>e. e \<in> entries B1 \<Longrightarrow> slot B (entry_seq e) \<noteq> slot B seq \<Longrightarrow> lag ?h (entry_seq e) \<le> unat (sb_size B)"
    "\<And>e. e \<in> entries B \<Longrightarrow> 1 \<le> lag ?h (entry_seq e)"
    "\<And>e. e \<in> entries B \<Longrightarrow> lag ?h (entry_seq e) \<le> unat (sb_size B) \<Longrightarrow> e \<in> entries B1"
    using P unfolding placed_def Let_def by (auto intro: order_trans)
  show "send_buffer_get (send_buffer_add B p now) s t =
    (if s = seq then Some p else if lag ?h s \<le> unat (sb_size B) then send_buffer_get B s t else None)"
  proof -
    consider "s = seq" | "s \<noteq> seq" "lag ?h s \<le> unat (sb_size B)" | "s \<noteq> seq" "\<not> lag ?h s \<le> unat (sb_size B)" by blast
    then show ?thesis
    proof cases
      case 1
      then have "send_buffer_get (send_buffer_add B p now) s t = Some p" unfolding get st(2) using p by simp
      with 1 show ?thesis by simp
    next
      case 2
      have "slot B s \<noteq> slot B seq" if "e \<in> entries B" "entry_seq e = s" for e
        using slot_window [OF sb_ok_oldest(1) [OF ok], of s seq ?h] P'(1,2) P'(5) [OF that(1)] that(2) 2 by auto
      then have "send_buffer_get (send_buffer_add B p now) s t = Some q \<longleftrightarrow> send_buffer_get B s t = Some q" for q
        unfolding get old other [OF 2(1)] using P'(3,6) 2(2) by blast
      then have "send_buffer_get (send_buffer_add B p now) s t = send_buffer_get B s t" by (metis option.exhaust)
      with 2 show ?thesis by simp
    next
      case 3
      have "send_buffer_get (send_buffer_add B p now) s t \<noteq> Some q" for q
        unfolding get other [OF 3(1)] using P'(4) 3(2) by blast
      then have "send_buffer_get (send_buffer_add B p now) s t = None" by (metis option.exhaust)
      with 3 show ?thesis by simp
    qed
  qed
qed

definition send_all :: "send_buffer \<Rightarrow> (rtp_packet \<times> instant) list \<Rightarrow> send_buffer" where
  "send_all B ps = foldl sb_run B (map (\<lambda>(p, now). Add p now) ps)"

lemma sb_run_limits: "sb_ok B \<Longrightarrow> sb_limits (send_buffer_add B p now) = sb_limits B \<and> sb_size (send_buffer_add B p now) = sb_size B"
proof (cases "sb_place B (rtp_sequence_number (pkt_header p))")
  case (Some B1)
  assume ok: "sb_ok B"
  have P: "placed B (rtp_sequence_number (pkt_header p)) B1" using placed_cases [OF ok Some] .
  then have "sb_acc B1" by (simp add: placed_def)
  note st = sb_store_spec [OF this, of p now]
  have "sb_started (sb_store B1 p now)" using P st(7) by (simp add: placed_def)
  then show ?thesis
    using evict_ok(1) [OF stored_ok [OF ok Some], of now] Some P st(4,8) by (simp add: evicted_def send_buffer_add_def placed_def)
qed (simp add: send_buffer_add_def)

lemma lag_consecutive: "n - i \<le> 2 ^ 15 \<Longrightarrow> i \<le> n \<Longrightarrow> lag (s + of_nat n - 1) (s + of_nat i) = n - i"
proof -
  assume n: "n - i \<le> 2 ^ 15" "i \<le> n"
  have eq: "s + of_nat n - 1 + 1 - (s + of_nat i) = (of_nat (n - i) :: u16)" using n(2) by (simp add: of_nat_diff)
  show ?thesis unfolding lag_def eq by (rule unat_of_nat_small(2)) (use n(1) in simp)
qed

lemma send_all_history:
  assumes B: "sb_inv B" "\<not> sb_started B" "sb_size B = sz" "sb_limits B = limits" "sb_bytes B = 0"
    and limits: "max_age limits = None" "sum_list (map (\<lambda>(p, _). length (pkt_payload p)) ps) \<le> max_bytes limits"
    and seqs: "\<forall>i<length ps. rtp_sequence_number (pkt_header (fst (ps ! i))) = s0 + of_nat i"
  shows "sb_inv (send_all B ps) \<and> sb_size (send_all B ps) = sz \<and> sb_limits (send_all B ps) = limits \<and>
    sb_bytes (send_all B ps) \<le> sum_list (map (\<lambda>(p, _). length (pkt_payload p)) ps) \<and>
    (ps \<noteq> [] \<longrightarrow> sb_started (send_all B ps) \<and> sb_highest_added (send_all B ps) = s0 + of_nat (length ps) - 1) \<and>
    (\<forall>i<length ps. length ps - i \<le> unat sz \<longrightarrow> send_buffer_get (send_all B ps) (s0 + of_nat i) t = Some (fst (ps ! i)))"
  using limits(2) seqs
proof (induction ps rule: rev_induct)
  case Nil
  then show ?case using B by (simp add: send_all_def)
next
  case (snoc x ps)
  obtain p now where x: "x = (p, now)" by (cases x)
  define C where "C = send_all B ps"
  have seqs: "\<forall>i<length ps. rtp_sequence_number (pkt_header (fst (ps ! i))) = s0 + of_nat i"
    using snoc.prems(2) by (auto simp: nth_append split: if_splits)
  have p: "rtp_sequence_number (pkt_header p) = s0 + of_nat (length ps)" using snoc.prems(2) x by (auto simp: nth_append)
  from snoc.IH seqs snoc.prems(1) have IH: "sb_inv C" "sb_size C = sz" "sb_limits C = limits"
    "sb_bytes C \<le> sum_list (map (\<lambda>(p, _). length (pkt_payload p)) ps)"
    "ps \<noteq> [] \<Longrightarrow> sb_started C \<and> sb_highest_added C = s0 + of_nat (length ps) - 1"
    "\<And>i. i < length ps \<Longrightarrow> length ps - i \<le> unat sz \<Longrightarrow> send_buffer_get C (s0 + of_nat i) t = Some (fst (ps ! i))"
    by (auto simp: C_def)
  have ok: "sb_ok C" using IH(1) by (simp add: sb_inv_def)
  have step: "send_all B (ps @ [x]) = send_buffer_add C p now" by (simp add: send_all_def C_def x)
  have "\<not> sb_started C \<or> s0 + of_nat (length ps) \<noteq> sb_highest_added C \<and> s0 + of_nat (length ps) - sb_highest_added C < UINT16_SIZE_HALF"
    using IH(5) B(2) by (cases "ps = []") (auto simp: C_def send_all_def UINT16_SIZE_HALF_def)
  from sb_place_ahead [OF this] obtain B1 where B1: "sb_place C (s0 + of_nat (length ps)) = Some B1"
    "sb_highest_added B1 = s0 + of_nat (length ps)" by blast
  have bytes: "sb_bytes C + length (pkt_payload p) \<le> max_bytes (sb_limits C)" using IH(3,4) snoc.prems(1) x by simp
  note look = send_buffer_lookup [OF ok B1(1) p, unfolded B1(2), OF _ bytes, of now]
  have age: "max_age (sb_limits C) = None" using IH(3) limits(1) by simp
  have "send_buffer_get (send_buffer_add C p now) (s0 + of_nat i) t = Some (fst ((ps @ [x]) ! i))"
    if i: "i < Suc (length ps)" "Suc (length ps) - i \<le> unat sz" for i
  proof (cases "i = length ps")
    case True
    then show ?thesis using look(1) [OF age, of "s0 + of_nat i" t] x by simp
  next
    case False
    then have less: "i < length ps" using i by simp
    have lag: "lag (s0 + of_nat (length ps)) (s0 + of_nat i) = Suc (length ps) - i"
      using lag_consecutive [of "Suc (length ps)" i s0] i size_bounds(2) [OF sb_ok_oldest(1) [OF ok]] IH(2) by (simp add: algebra_simps)
    then have "s0 + of_nat i \<noteq> s0 + of_nat (length ps)" using less lag_self [of "s0 + of_nat (length ps)"] by auto
    then show ?thesis using look(1) [OF age, of "s0 + of_nat i" t] lag i IH(2,6) less by (simp add: nth_append)
  qed
  then show ?case
    unfolding step using send_buffer_add_inv [OF IH(1)] sb_run_limits [OF ok, of p now] IH(2-4) look(2-4) [OF age] x
    by (auto intro: order_trans)
qed

text \<open>C30: A sender that numbers its packets consecutively can retransmit each of the last \<open>size\<close> packets, and gets
  exactly the packet it sent, also across the wrap of the sequence numbers. The limits are those of a history bounded
  by the packet count: no age limit, and a byte limit that the payloads do not exceed.\<close>

theorem sent_packets_retrievable:
  assumes "send_buffer_with_limits sz limits = Some B" "max_age limits = None"
    and "sum_list (map (\<lambda>(p, _). length (pkt_payload p)) ps) \<le> max_bytes limits"
    and "\<forall>i<length ps. rtp_sequence_number (pkt_header (fst (ps ! i))) = s0 + of_nat i"
    and "i < length ps" "length ps - i \<le> unat sz"
  shows "send_buffer_get (send_all B ps) (s0 + of_nat i) t = Some (fst (ps ! i))"
proof -
  have "sb_bytes B = 0" using assms(1) by (auto simp: send_buffer_with_limits_def split: if_splits)
  then show ?thesis
    using send_all_history [OF with_limits_inv(1,4,2,3) [OF assms(1)] _ assms(2-4)] assms(5,6) by blast
qed

theorem sent_packets_retrievable_witness:
  "\<exists>B. send_buffer_with_limits 2 UNLIMITED = Some B \<and>
    send_buffer_get (send_all B [(example_packet 0xFFFF, 1), (example_packet 0, 2)]) 0xFFFF 3 = Some (example_packet 0xFFFF)"
proof -
  obtain B where B: "send_buffer_with_limits 2 UNLIMITED = Some B" by (simp add: send_buffer_with_limits_def upt_rec)
  have "send_buffer_get (send_all B [(example_packet 0xFFFF, 1), (example_packet 0, 2)]) (0xFFFF + of_nat 0) 3 =
    Some (fst ([(example_packet 0xFFFF, 1), (example_packet 0, 2 :: nat)] ! 0))"
    by (rule sent_packets_retrievable [OF B]) (auto simp: UNLIMITED_def less_Suc_eq)
  with B show ?thesis by auto
qed

end
