(* ===== verification/Rtcp_Header.thy ===== *)
theory Rtcp_Header
  imports Wire_Codec
begin

text \<open>
  The RTCP header (\<open>rtc-rtcp/src/header.rs\<close>) and the helpers of \<open>rtc-rtcp/src/util.rs\<close>: the
  padding to a multiple of four bytes and the bit fields of 16 and 32 bits.

  Every RTCP packet is encoded the same way: the header, a body, and padding bytes when the header
  says so. \<open>rtcp_put\<close> is that common tail of the \<open>marshal_to\<close> methods, and the locale \<open>rtcp_codec\<close>
  is the contract each packet type of the later theories meets: on top of \<open>packet_codec\<close>, the bytes
  start with the packet's header, whose length field counts the rest in words. The dispatcher in
  \<open>Rtcp_Packet\<close> relies on nothing else.
\<close>

unbundle bit_operations_syntax

section \<open>Packet types and the header\<close>

datatype packet_type =
    Unsupported
  | SenderReport
  | ReceiverReport
  | SourceDescription
  | Goodbye
  | ApplicationDefined
  | TransportSpecificFeedback
  | PayloadSpecificFeedback
  | ExtendedReport

definition FORMAT_SLI :: u8 where [simp]: "FORMAT_SLI = 2"
definition FORMAT_PLI :: u8 where [simp]: "FORMAT_PLI = 1"
definition FORMAT_FIR :: u8 where [simp]: "FORMAT_FIR = 4"
definition FORMAT_TLN :: u8 where [simp]: "FORMAT_TLN = 1"
definition FORMAT_RRR :: u8 where [simp]: "FORMAT_RRR = 5"
definition FORMAT_REMB :: u8 where [simp]: "FORMAT_REMB = 15"
definition FORMAT_TCC :: u8 where [simp]: "FORMAT_TCC = 15"
definition FORMAT_CCFB :: u8 where [simp]: "FORMAT_CCFB = 11"

definition RTCP_HEADER_LENGTH :: nat where [simp]: "RTCP_HEADER_LENGTH = 4"
definition COUNT_MAX :: nat where [simp]: "COUNT_MAX = 31"
definition SSRC_LENGTH :: nat where [simp]: "SSRC_LENGTH = 4"
definition SDES_MAX_OCTET_COUNT :: nat where [simp]: "SDES_MAX_OCTET_COUNT = 255"
definition FIR_MIN_OCTET_COUNT :: nat where [simp]: "FIR_MIN_OCTET_COUNT = 20"

fun packet_type_as_u8 :: "packet_type \<Rightarrow> u8" where
  "packet_type_as_u8 Unsupported = 0"
| "packet_type_as_u8 SenderReport = 200"
| "packet_type_as_u8 ReceiverReport = 201"
| "packet_type_as_u8 SourceDescription = 202"
| "packet_type_as_u8 Goodbye = 203"
| "packet_type_as_u8 ApplicationDefined = 204"
| "packet_type_as_u8 TransportSpecificFeedback = 205"
| "packet_type_as_u8 PayloadSpecificFeedback = 206"
| "packet_type_as_u8 ExtendedReport = 207"

definition packet_type_from :: "u8 \<Rightarrow> packet_type" where
  "packet_type_from b =
     (if b = 200 then SenderReport else if b = 201 then ReceiverReport
      else if b = 202 then SourceDescription else if b = 203 then Goodbye
      else if b = 204 then ApplicationDefined else if b = 205 then TransportSpecificFeedback
      else if b = 206 then PayloadSpecificFeedback else if b = 207 then ExtendedReport
      else Unsupported)"

lemma packet_type_from_as_u8 [simp]: "packet_type_from (packet_type_as_u8 t) = t"
  by (cases t) (simp_all add: packet_type_from_def)

record rtcp_header =
  rtcp_padding :: bool
  rtcp_count :: u8
  rtcp_packet_type :: packet_type
  rtcp_length :: u16

definition rtcp_header_marshal_size :: "rtcp_header \<Rightarrow> nat" where
  "rtcp_header_marshal_size h = RTCP_HEADER_LENGTH"

definition rtcp_header_marshal_to :: "rtcp_header \<Rightarrow> nat \<Rightarrow> (u8 list \<times> nat) result" where
  "rtcp_header_marshal_to h cap =
     (if rtcp_count h > 31 then Err InvalidHeader
      else if cap < RTCP_HEADER_LENGTH then Err BufferTooShort
      else
        let b0 = push_bit 6 2 OR push_bit 5 (if rtcp_padding h then 1 else 0) OR push_bit 0 (rtcp_count h) in
        put_all cap (put_u8 b0 @ put_u8 (packet_type_as_u8 (rtcp_packet_type h)) @ put_u16 (rtcp_length h))
          RTCP_HEADER_LENGTH)"

definition rtcp_header_unmarshal :: "u8 list \<Rightarrow> (rtcp_header \<times> u8 list) result" where
  "rtcp_header_unmarshal raw_packet =
     (if length raw_packet < RTCP_HEADER_LENGTH then Err PacketTooShort
      else and_then (get_u8 raw_packet) (\<lambda>(b0, raw_packet).
        let version = drop_bit 6 b0 AND 3 in
        if version \<noteq> 2 then Err BadVersion
        else
          let padding = drop_bit 5 b0 AND 1 > 0; count = drop_bit 0 b0 AND 0x1f in
          and_then (get_u8 raw_packet) (\<lambda>(b1, raw_packet).
          and_then (get_u16 raw_packet) (\<lambda>(len, raw_packet).
            Ok (\<lparr>rtcp_padding = padding, rtcp_count = count,
                 rtcp_packet_type = packet_type_from b1, rtcp_length = len\<rparr>, raw_packet)))))"

subsection \<open>The header as bytes\<close>

definition rtcp_header_wf :: "rtcp_header \<Rightarrow> bool" where
  "rtcp_header_wf h \<longleftrightarrow> rtcp_count h \<le> 31"

definition rtcp_first_byte :: "rtcp_header \<Rightarrow> u8" where
  "rtcp_first_byte h = push_bit 6 2 OR push_bit 5 (if rtcp_padding h then 1 else 0) OR rtcp_count h"

definition rtcp_header_bytes :: "rtcp_header \<Rightarrow> u8 list" where
  "rtcp_header_bytes h =
     put_u8 (rtcp_first_byte h) @ put_u8 (packet_type_as_u8 (rtcp_packet_type h)) @ put_u16 (rtcp_length h)"

lemma length_rtcp_header_bytes [simp]: "length (rtcp_header_bytes h) = 4"
  by (simp add: rtcp_header_bytes_def)

lemma rtcp_header_marshal_to_eq:
  "rtcp_header_wf h \<Longrightarrow> rtcp_header_marshal_to h cap =
     (if cap < 4 then Err BufferTooShort else Ok (rtcp_header_bytes h, 4))"
  by (simp add: rtcp_header_marshal_to_def rtcp_header_wf_def rtcp_header_bytes_def rtcp_first_byte_def
      Let_def linorder_not_less)

lemma rtcp_first_byte_fields:
  assumes "rtcp_header_wf h"
  shows "drop_bit 6 (rtcp_first_byte h) AND 3 = 2"
    and "0 < drop_bit 5 (rtcp_first_byte h) AND 1 \<longleftrightarrow> rtcp_padding h"
    and "rtcp_first_byte h AND 0x1f = rtcp_count h"
proof -
  have "rtcp_count h < 2 ^ 5"
    using assms by (simp add: rtcp_header_wf_def word_le_nat_alt word_less_nat_alt)
  then have c: "n < 5" if "bit (rtcp_count h) n" for n
    using that by (rule bit_less_exp)
  have two: "bit (2 :: u8) n \<longleftrightarrow> n = 1" for n
    using bit_exp_u8 [of 1 n] by (simp del: bit_numeral_word_iff)
  show "drop_bit 6 (rtcp_first_byte h) AND 3 = 2"
    unfolding rtcp_first_byte_def field_masks
    by (rule bit_word_eqI) (use c in \<open>auto simp: bit_simps two simp del: bit_numeral_word_iff push_bit_numeral dest: c\<close>)
  show "0 < drop_bit 5 (rtcp_first_byte h) AND 1 \<longleftrightarrow> rtcp_padding h"
    unfolding and_one_pos rtcp_first_byte_def
    by (auto simp: bit_simps two simp del: bit_numeral_word_iff push_bit_numeral dest: c)
  show "rtcp_first_byte h AND 0x1f = rtcp_count h"
    unfolding rtcp_first_byte_def field_masks
    by (rule bit_word_eqI) (auto simp: bit_simps two simp del: bit_numeral_word_iff push_bit_numeral dest: c)
qed

lemma rtcp_header_unmarshal_bytes [simp]:
  "rtcp_header_wf h \<Longrightarrow> rtcp_header_unmarshal (rtcp_header_bytes h @ r) = Ok (h, r)"
  by (simp add: rtcp_header_unmarshal_def rtcp_header_bytes_def rtcp_first_byte_fields Let_def)

interpretation rtcp_header_codec:
  stream_codec rtcp_header_marshal_size rtcp_header_marshal_to rtcp_header_unmarshal rtcp_header_wf
  by unfold_locales
    (auto simp: rtcp_header_marshal_to_eq rtcp_header_marshal_size_def split: if_splits)

text \<open>A parsed header is well formed, so that it can be written again.\<close>

lemma rtcp_header_unmarshal_wf:
  assumes "rtcp_header_unmarshal bs = Ok (h, r)"
  shows "rtcp_header_wf h"
proof -
  have "(b :: u8) AND 31 \<le> 31" for b
    by (simp add: word_and_le1)
  then show ?thesis
    using assms by (auto simp: rtcp_header_unmarshal_def rtcp_header_wf_def Let_def split: if_splits)
qed

lemma rtcp_header_unmarshal_cases:
  "(\<exists>h. rtcp_header_unmarshal bs = Ok (h, drop 4 bs)) \<and> 4 \<le> length bs \<or>
   rtcp_header_unmarshal bs = Err PacketTooShort \<or> rtcp_header_unmarshal bs = Err BadVersion"
  by (simp add: rtcp_header_unmarshal_def reads Let_def)

interpretation rtcp_header_decoder: robust_decoder rtcp_header_unmarshal
proof (unfold_locales, goal_cases)
  case (1 bs)
  then show ?case using rtcp_header_unmarshal_cases [of bs] by auto
next
  case (2 bs h r)
  then show ?case using rtcp_header_unmarshal_cases [of bs] by (auto simp: suffix_drop)
qed

section \<open>Padding\<close>

definition get_padding_size :: "nat \<Rightarrow> nat" where
  "get_padding_size len = (if len mod 4 = 0 then 0 else 4 - len mod 4)"

definition rtcp_put_padding :: "nat \<Rightarrow> u8 list" where
  "rtcp_put_padding len =
     (let padding_size = get_padding_size len in
      map (\<lambda>i. if i = padding_size - 1 then of_nat padding_size else 0) [0..<padding_size])"

lemma length_rtcp_put_padding [simp]: "length (rtcp_put_padding n) = get_padding_size n"
  by (simp add: rtcp_put_padding_def Let_def)

lemma padded_size_aligned [simp]: "(n + get_padding_size n) mod 4 = 0"
  using padded_aligned [of n] by (simp add: get_padding_size_def)

lemma padded_size_words [simp]: "4 * ((n + get_padding_size n) div 4) = n + get_padding_size n"
  using mult_div_mod_eq [of 4 "n + get_padding_size n"] by simp

lemma get_padding_size_aligned [simp]: "n mod 4 = 0 \<Longrightarrow> get_padding_size n = 0"
  by (simp add: get_padding_size_def)

lemma padded_size_bound:
  assumes "n \<le> 262140"
  shows "n + get_padding_size n \<le> 262144"
proof -
  have "get_padding_size n \<le> 4" by (simp add: get_padding_size_def)
  with assms show ?thesis by linarith
qed

text \<open>A sum of parts that are all aligned is aligned.\<close>

lemma sum_list_aligned: "(\<And>x. x \<in> set xs \<Longrightarrow> f x mod 4 = 0) \<Longrightarrow> (\<Sum>x\<leftarrow>xs. f x) mod 4 = (0 :: nat)"
proof (induction xs)
  case (Cons x xs)
  then have "f x mod 4 = 0" "(\<Sum>x\<leftarrow>xs. f x) mod 4 = 0" by simp_all
  then show ?case by (simp add: mod_add_eq [symmetric])
qed simp

section \<open>Encoding a packet\<close>

text \<open>
  The part the \<open>marshal_to\<close> methods share after their guards: \<open>h.marshal_to(buf)?\<close>, the body, and
  \<open>if h.padding { put_padding(buf, self.raw_size()); }\<close>.
\<close>

definition rtcp_put :: "rtcp_header \<Rightarrow> u8 list \<Rightarrow> nat \<Rightarrow> nat \<Rightarrow> nat \<Rightarrow> (u8 list \<times> nat) result" where
  "rtcp_put h body raw_size marshal_size cap =
     and_then (rtcp_header_marshal_to h cap) (\<lambda>(bs, n).
       put_all cap (advance_buf n bs @ body @ (if rtcp_padding h then rtcp_put_padding raw_size else []))
         marshal_size)"

text \<open>The header that all packet types compute from their sizes.\<close>

definition rtcp_header_for :: "u8 \<Rightarrow> packet_type \<Rightarrow> nat \<Rightarrow> rtcp_header" where
  "rtcp_header_for count packet_type raw_size =
     \<lparr>rtcp_padding = get_padding_size raw_size \<noteq> 0, rtcp_count = count, rtcp_packet_type = packet_type,
      rtcp_length = of_nat ((raw_size + get_padding_size raw_size) div 4 - 1)\<rparr>"

lemma rtcp_header_for_simps [simp]:
  "rtcp_header_wf (rtcp_header_for c t n) \<longleftrightarrow> c \<le> 31"
  "rtcp_packet_type (rtcp_header_for c t n) = t" "rtcp_count (rtcp_header_for c t n) = c"
  by (simp_all add: rtcp_header_for_def rtcp_header_wf_def)

lemma rtcp_length_for:
  assumes "4 \<le> n" "n + get_padding_size n \<le> 262144"
  shows "4 * unat (rtcp_length (rtcp_header_for c t n)) = n + get_padding_size n - 4"
proof -
  define w where "w = (n + get_padding_size n) div 4"
  have w: "4 * w = n + get_padding_size n"
    by (simp add: w_def)
  with assms have "w - 1 < 65536" by linarith
  then have "unat (of_nat (w - 1) :: u16) = w - 1"
    by (rule unat_of_nat_small)
  then show ?thesis
    using w assms(1) by (simp add: rtcp_header_for_def w_def [symmetric])
qed

definition rtcp_body :: "u8 list \<Rightarrow> u8 list" where
  "rtcp_body body = body @ (if get_padding_size (length body) \<noteq> 0 then rtcp_put_padding (length body) else [])"

lemma get_padding_size_4 [simp]: "get_padding_size (4 + n) = get_padding_size n"
  by (simp add: get_padding_size_def)

lemma rtcp_put_padding_4 [simp]: "rtcp_put_padding (4 + n) = rtcp_put_padding n"
  by (simp add: rtcp_put_padding_def)

lemma length_rtcp_body [simp]: "length (rtcp_body body) = length body + get_padding_size (length body)"
  by (simp add: rtcp_body_def)

lemma rtcp_body_aligned [simp]: "length body mod 4 = 0 \<Longrightarrow> rtcp_body body = body"
  by (simp add: rtcp_body_def)

lemma rtcp_put_eq:
  assumes "c \<le> 31" "n = 4 + length body" "n + get_padding_size n \<le> cap"
  shows "rtcp_put (rtcp_header_for c t n) body n (n + get_padding_size n) cap =
    Ok (rtcp_header_bytes (rtcp_header_for c t n) @ rtcp_body body, n + get_padding_size n)"
  using assms by (simp add: rtcp_put_def rtcp_header_marshal_to_eq rtcp_body_def)
    (simp add: rtcp_header_for_def)

section \<open>The contract of a packet type\<close>

locale rtcp_codec = packet_codec marshal_size marshal_to unmarshal wf
  for marshal_size :: "'a \<Rightarrow> nat"
    and marshal_to :: "'a \<Rightarrow> nat \<Rightarrow> (u8 list \<times> nat) result"
    and unmarshal :: "u8 list \<Rightarrow> ('a \<times> u8 list) result"
    and wf :: "'a \<Rightarrow> bool" +
  fixes header :: "'a \<Rightarrow> rtcp_header"
  assumes framed: "wf x \<Longrightarrow> marshal_to x cap = Ok (bs, n) \<Longrightarrow>
      \<exists>body. bs = rtcp_header_bytes (header x) @ body \<and> length body = 4 * unat (rtcp_length (header x))"
    and header_wf: "wf x \<Longrightarrow> rtcp_header_wf (header x)"
begin

lemma size_from_header: "wf x \<Longrightarrow> marshal_size x = 4 + 4 * unat (rtcp_length (header x))"
  using marshal_to_fits [of x "marshal_size x"] framed [of x "marshal_size x"] by fastforce

lemma marshalled:
  assumes "wf x" "marshal_to x cap = Ok (bs, n)"
  shows "n = marshal_size x" "length bs = marshal_size x" "marshal_size x \<le> cap"
  using marshal_to_fits [of x cap] marshal_to_short [of x cap] assms
  by (cases "marshal_size x \<le> cap"; auto)+

text \<open>A packet announces its own size: a reader who sees only the first four bytes knows its end.\<close>

lemma header_first:
  assumes "wf x" "marshal_to x cap = Ok (bs, n)"
  shows "\<exists>body. rtcp_header_unmarshal (bs @ r) = Ok (header x, body @ r) \<and>
    length body = 4 * unat (rtcp_length (header x)) \<and> bs = rtcp_header_bytes (header x) @ body"
proof -
  obtain body where "bs = rtcp_header_bytes (header x) @ body" "length body = 4 * unat (rtcp_length (header x))"
    using framed [OF assms] by blast
  with header_wf [OF assms(1)] show ?thesis by auto
qed

end

text \<open>How a packet type meets the contract: from its body and the parse of its own bytes.\<close>

lemma rtcp_codecI:
  fixes valid :: "'a \<Rightarrow> bool"
    and marshal_to :: "'a \<Rightarrow> nat \<Rightarrow> (u8 list \<times> nat) result"
  assumes count: "\<And>x. valid x \<Longrightarrow> count x \<le> 31"
    and size: "\<And>x. valid x \<Longrightarrow> marshal_size x = raw_size x + get_padding_size (raw_size x)"
    and raw: "\<And>x. valid x \<Longrightarrow> raw_size x = 4 + length (body x)"
    and small: "\<And>x. valid x \<Longrightarrow> raw_size x \<le> 262140"
    and header: "\<And>x. valid x \<Longrightarrow> header x = rtcp_header_for (count x) (ptype x) (raw_size x)"
    and put: "\<And>x cap. valid x \<Longrightarrow> marshal_size x \<le> cap \<Longrightarrow>
      marshal_to x cap = rtcp_put (header x) (body x) (raw_size x) (marshal_size x) cap"
    and short: "\<And>x cap. valid x \<Longrightarrow> cap < marshal_size x \<Longrightarrow> marshal_to x cap = Err BufferTooShort"
    and parse: "\<And>x. valid x \<Longrightarrow> unmarshal (rtcp_header_bytes (header x) @ rtcp_body (body x)) = Ok (x, [])"
  shows "rtcp_codec marshal_size marshal_to unmarshal valid header"
proof -
  have eq: "marshal_to x cap = Ok (rtcp_header_bytes (header x) @ rtcp_body (body x), marshal_size x)"
    if "valid x" "marshal_size x \<le> cap" for x cap
    using put [OF that] header [OF that(1)] rtcp_put_eq [OF count [OF that(1)] raw [OF that(1)], of cap "ptype x"]
      that(2) size [OF that(1)] by simp
  have len: "length (rtcp_body (body x)) = 4 * unat (rtcp_length (header x))" if "valid x" for x
    using rtcp_length_for [of "raw_size x" "count x" "ptype x"] raw [OF that] padded_size_bound [OF small [OF that]]
      header [OF that] by simp
  have fits: "marshal_size x \<le> cap" if "valid x" "marshal_to x cap = Ok (bs, n)" for x cap bs n
    using short [of x cap] that by (cases "cap < marshal_size x") auto
  show ?thesis
  proof (unfold_locales, goal_cases)
    case (1 x cap)
    then show ?case using eq raw [of x] size [of x] by simp
  next
    case (2 x cap)
    then show ?case using short by simp
  next
    case (3 x cap bs n)
    then show ?case using eq [OF 3(1) fits [OF 3]] parse [OF 3(1)] by auto
  next
    case (4 x cap bs n)
    then show ?case using eq [OF 4(1) fits [OF 4]] len [OF 4(1)] by auto
  next
    case (5 x)
    then show ?case using header count by simp
  qed
qed

text \<open>
  Reading the header of a packet whose type is checked right after: what a parser knows when it gets
  to its body.
\<close>

lemma rtcp_header_unmarshal_Ok:
  "rtcp_header_unmarshal bs = Ok (h, r) \<Longrightarrow> r = drop 4 bs \<and> 4 \<le> length bs"
  using rtcp_header_unmarshal_cases [of bs] by auto

lemma safe_rtcp_header:
  assumes "\<And>h. rtcp_header_unmarshal bs = Ok (h, drop 4 bs) \<Longrightarrow> 4 \<le> length bs \<Longrightarrow> safe bs (f h (drop 4 bs))"
  shows "safe bs (and_then (rtcp_header_unmarshal bs) (\<lambda>(h, r). f h r))"
  using rtcp_header_unmarshal_cases [of bs] assms by auto

end
