(* ===== verification/Rtcp_Reports.thy ===== *)
theory Rtcp_Reports
  imports Rtcp_Header
begin

text \<open>
  The reports of RTCP (\<open>rtc-rtcp/src/reception_report.rs\<close>, \<open>sender_report/mod.rs\<close>,
  \<open>receiver_report/mod.rs\<close>) and the goodbye packet (\<open>goodbye/mod.rs\<close>). A reception report is a
  \<open>stream_codec\<close>, because the two report packets write a sequence of them; the packets are
  instances of \<open>rtcp_codec\<close>.

  The parsers of the two report packets take all remaining bytes for the profile extensions,
  padding included, so a report whose extensions are not a multiple of four bytes does not come
  back as it was sent (\<open>report_padding_kept\<close>); well-formedness excludes such extensions.
\<close>

unbundle bit_operations_syntax

section \<open>Reception report\<close>

definition RECEPTION_REPORT_LENGTH :: nat where [simp]: "RECEPTION_REPORT_LENGTH = 24"

record reception_report =
  rr_ssrc :: u32
  rr_fraction_lost :: u8
  rr_total_lost :: u32
  rr_last_sequence_number :: u32
  rr_jitter :: u32
  rr_last_sender_report :: u32
  rr_delay :: u32

definition reception_report_raw_size :: "reception_report \<Rightarrow> nat" where
  "reception_report_raw_size r = RECEPTION_REPORT_LENGTH"

definition reception_report_marshal_size :: "reception_report \<Rightarrow> nat" where
  "reception_report_marshal_size r =
     (let l = reception_report_raw_size r in l + get_padding_size l)"

definition reception_report_marshal_to :: "reception_report \<Rightarrow> nat \<Rightarrow> (u8 list \<times> nat) result" where
  "reception_report_marshal_to r cap =
     (if cap < reception_report_marshal_size r then Err BufferTooShort
      else if rr_total_lost r \<ge> push_bit 25 1 then Err InvalidTotalLost
      else put_all cap
        (put_u32 (rr_ssrc r) @ put_u8 (rr_fraction_lost r) @
         put_u8 (ucast (drop_bit 16 (rr_total_lost r) AND 0xFF)) @
         put_u8 (ucast (drop_bit 8 (rr_total_lost r) AND 0xFF)) @
         put_u8 (ucast (rr_total_lost r AND 0xFF)) @
         put_u32 (rr_last_sequence_number r) @ put_u32 (rr_jitter r) @
         put_u32 (rr_last_sender_report r) @ put_u32 (rr_delay r) @
         rtcp_put_padding (reception_report_raw_size r))
        (reception_report_marshal_size r))"

definition reception_report_unmarshal :: "u8 list \<Rightarrow> (reception_report \<times> u8 list) result" where
  "reception_report_unmarshal raw_packet =
     (if length raw_packet < RECEPTION_REPORT_LENGTH then Err PacketTooShort
      else and_then (get_u32 raw_packet) (\<lambda>(ssrc, raw_packet).
        and_then (get_u8 raw_packet) (\<lambda>(fraction_lost, raw_packet).
        and_then (get_u8 raw_packet) (\<lambda>(t0, raw_packet).
        and_then (get_u8 raw_packet) (\<lambda>(t1, raw_packet).
        and_then (get_u8 raw_packet) (\<lambda>(t2, raw_packet).
        let total_lost = ucast t2 OR push_bit 8 (ucast t1) OR push_bit 16 (ucast t0) in
        and_then (get_u32 raw_packet) (\<lambda>(last_sequence_number, raw_packet).
        and_then (get_u32 raw_packet) (\<lambda>(jitter, raw_packet).
        and_then (get_u32 raw_packet) (\<lambda>(last_sender_report, raw_packet).
        and_then (get_u32 raw_packet) (\<lambda>(delay, raw_packet).
          Ok (\<lparr>rr_ssrc = ssrc, rr_fraction_lost = fraction_lost, rr_total_lost = total_lost,
               rr_last_sequence_number = last_sequence_number, rr_jitter = jitter,
               rr_last_sender_report = last_sender_report, rr_delay = delay\<rparr>, raw_packet)))))))))))"

definition reception_report_wf :: "reception_report \<Rightarrow> bool" where
  "reception_report_wf r \<longleftrightarrow> rr_total_lost r < 2 ^ 24"

lemma reception_report_size [simp]: "reception_report_marshal_size r = 24"
  by (simp add: reception_report_marshal_size_def reception_report_raw_size_def)

lemma join_bytes_u24:
  assumes "(x :: u32) < 2 ^ 24"
  shows "(ucast (ucast (x AND 0xFF) :: u8) :: u32) OR push_bit 8 (ucast (ucast (drop_bit 8 x AND 0xFF) :: u8))
    OR push_bit 16 (ucast (ucast (drop_bit 16 x AND 0xFF) :: u8)) = x" (is "?l = x")
proof (rule bit_word_eqI)
  fix n assume "n < LENGTH(32)"
  then consider "n < 8" | "8 \<le> n \<and> n < 16" | "16 \<le> n \<and> n < 24" | "24 \<le> n \<and> n < 32"
    by fastforce
  then show "bit ?l n = bit x n"
    unfolding field_masks using bit_less_exp [OF assms, of n] by cases (auto simp: bit_simps)
qed

definition reception_report_bytes :: "reception_report \<Rightarrow> u8 list" where
  "reception_report_bytes r =
     put_u32 (rr_ssrc r) @ put_u8 (rr_fraction_lost r) @
     put_u8 (ucast (drop_bit 16 (rr_total_lost r) AND 0xFF)) @
     put_u8 (ucast (drop_bit 8 (rr_total_lost r) AND 0xFF)) @
     put_u8 (ucast (rr_total_lost r AND 0xFF)) @
     put_u32 (rr_last_sequence_number r) @ put_u32 (rr_jitter r) @
     put_u32 (rr_last_sender_report r) @ put_u32 (rr_delay r)"

lemma length_reception_report_bytes [simp]: "length (reception_report_bytes r) = 24"
  by (simp add: reception_report_bytes_def)

lemma reception_report_marshal_to_eq:
  assumes "reception_report_wf r"
  shows "reception_report_marshal_to r cap =
    (if cap < 24 then Err BufferTooShort else Ok (reception_report_bytes r, 24))"
proof -
  have "\<not> 2 ^ 25 \<le> rr_total_lost r"
    using assms by (simp add: reception_report_wf_def word_less_nat_alt word_le_nat_alt)
  then show ?thesis
    by (simp add: reception_report_marshal_to_def reception_report_bytes_def reception_report_raw_size_def
        rtcp_put_padding_def)
qed

lemma reception_report_unmarshal_bytes [simp]:
  "reception_report_wf r \<Longrightarrow> reception_report_unmarshal (reception_report_bytes r @ rest) = Ok (r, rest)"
  using join_bytes_u24 [of "rr_total_lost r"]
  by (simp add: reception_report_bytes_def reception_report_unmarshal_def reception_report_wf_def)

interpretation reception_report_codec: stream_codec
  reception_report_marshal_size reception_report_marshal_to reception_report_unmarshal reception_report_wf
  by unfold_locales (auto simp: reception_report_marshal_to_eq split: if_splits)

lemma reception_report_unmarshal_cases:
  "24 \<le> length bs \<Longrightarrow> \<exists>r. reception_report_unmarshal bs = Ok (r, drop 24 bs)"
  "length bs < 24 \<Longrightarrow> reception_report_unmarshal bs = Err PacketTooShort"
  by (simp_all add: reception_report_unmarshal_def reads Let_def)

interpretation reception_report_decoder: robust_decoder reception_report_unmarshal
proof (unfold_locales, goal_cases)
  case (1 bs)
  then show ?case using reception_report_unmarshal_cases [of bs] by (cases "24 \<le> length bs") auto
next
  case (2 bs h r)
  then show ?case
    using reception_report_unmarshal_cases [of bs] by (cases "24 \<le> length bs") (auto simp: suffix_drop)
qed

text \<open>The loop over the reports of a packet, with the check of the offset before each of them.\<close>

fun unmarshal_reports :: "nat \<Rightarrow> nat \<Rightarrow> nat \<Rightarrow> u8 list \<Rightarrow> (reception_report list \<times> u8 list) result" where
  "unmarshal_reports 0 offset raw_packet_len raw_packet = Ok ([], raw_packet)"
| "unmarshal_reports (Suc n) offset raw_packet_len raw_packet =
     (if offset + RECEPTION_REPORT_LENGTH > raw_packet_len then Err PacketTooShort
      else and_then (reception_report_unmarshal raw_packet) (\<lambda>(r, raw_packet).
        and_then (unmarshal_reports n (offset + RECEPTION_REPORT_LENGTH) raw_packet_len raw_packet)
          (\<lambda>(rs, raw_packet). Ok (r # rs, raw_packet))))"

text \<open>The check of the offset is implied by the check that each report makes.\<close>

lemma unmarshal_reports_eq_get_many:
  "offset + length bs = raw_packet_len \<Longrightarrow>
   unmarshal_reports n offset raw_packet_len bs = get_many reception_report_unmarshal n bs"
proof (induction n arbitrary: offset bs)
  case (Suc n)
  show ?case
  proof (cases "24 \<le> length bs")
    case True
    then obtain r where r: "reception_report_unmarshal bs = Ok (r, drop 24 bs)"
      using reception_report_unmarshal_cases [of bs] by auto
    have "unmarshal_reports n (offset + 24) raw_packet_len (drop 24 bs) =
        get_many reception_report_unmarshal n (drop 24 bs)"
      using Suc.prems True by (intro Suc.IH) simp
    with r Suc.prems True show ?thesis by simp
  next
    case False
    then show ?thesis using Suc.prems reception_report_unmarshal_cases(2) [of bs] by simp
  qed
qed simp

definition reports_wf :: "reception_report list \<Rightarrow> bool" where
  "reports_wf rs \<longleftrightarrow> length rs \<le> 31 \<and> (\<forall>r\<in>set rs. reception_report_wf r)"

definition reports_bytes :: "reception_report list \<Rightarrow> u8 list" where
  "reports_bytes rs = concat (map reception_report_bytes rs)"

lemma length_reports_bytes [simp]: "length (reports_bytes rs) = 24 * length rs"
  by (induction rs) (simp_all add: reports_bytes_def)

lemma marshal_all_reports:
  "reports_wf rs \<Longrightarrow> 24 * length rs \<le> cap \<Longrightarrow>
   marshal_all reception_report_marshal_to rs cap = Ok (reports_bytes rs, 24 * length rs)"
  using marshal_all_bytes [of rs reception_report_bytes reception_report_marshal_to cap]
    length_reports_bytes [of rs]
  by (simp add: reports_wf_def reports_bytes_def reception_report_marshal_to_eq)

lemma unmarshal_reports_bytes:
  "reports_wf rs \<Longrightarrow> offset + 24 * length rs + length rest = raw_packet_len \<Longrightarrow> n = length rs \<Longrightarrow>
   unmarshal_reports n offset raw_packet_len (reports_bytes rs @ rest) = Ok (rs, rest)"
  using unmarshal_reports_eq_get_many [of offset "reports_bytes rs @ rest" raw_packet_len n]
    get_many_bytes [of rs reception_report_unmarshal reception_report_bytes rest]
  by (simp add: reports_wf_def) (simp add: reports_bytes_def)

lemma unmarshal_reports_robust:
  assumes "offset + length bs = raw_packet_len"
  shows "unmarshal_reports n offset raw_packet_len bs \<noteq> Err Panic"
    and "unmarshal_reports n offset raw_packet_len bs = Ok (rs, r) \<Longrightarrow> suffix r bs"
  using assms reception_report_decoder.get_many_no_panic reception_report_decoder.get_many_suffix
  by (simp_all add: unmarshal_reports_eq_get_many)

lemma of_nat_count [simp]: "n \<le> 31 \<Longrightarrow> (of_nat n :: u8) \<le> 31" "n \<le> 31 \<Longrightarrow> unat (of_nat n :: u8) = n"
  by (simp_all add: word_le_nat_alt)

section \<open>Sender report\<close>

definition SR_HEADER_LENGTH :: nat where [simp]: "SR_HEADER_LENGTH = 24"
definition SR_REPORT_OFFSET :: nat where [simp]: "SR_REPORT_OFFSET = RTCP_HEADER_LENGTH + SR_HEADER_LENGTH"

record sender_report =
  sr_ssrc :: u32
  sr_ntp_time :: u64
  sr_rtp_time :: u32
  sr_packet_count :: u32
  sr_octet_count :: u32
  sr_reports :: "reception_report list"
  sr_profile_extensions :: "u8 list"

definition sender_report_raw_size :: "sender_report \<Rightarrow> nat" where
  "sender_report_raw_size s =
     RTCP_HEADER_LENGTH + SR_HEADER_LENGTH + (\<Sum>r\<leftarrow>sr_reports s. reception_report_marshal_size r) +
     length (sr_profile_extensions s)"

definition sender_report_marshal_size :: "sender_report \<Rightarrow> nat" where
  "sender_report_marshal_size s = (let l = sender_report_raw_size s in l + get_padding_size l)"

definition sender_report_header :: "sender_report \<Rightarrow> rtcp_header" where
  "sender_report_header s =
     rtcp_header_for (of_nat (length (sr_reports s))) SenderReport (sender_report_raw_size s)"

definition sender_report_destination_ssrc :: "sender_report \<Rightarrow> u32 list" where
  "sender_report_destination_ssrc s = map rr_ssrc (sr_reports s) @ [sr_ssrc s]"

definition sender_report_marshal_to :: "sender_report \<Rightarrow> nat \<Rightarrow> (u8 list \<times> nat) result" where
  "sender_report_marshal_to s cap =
     (if length (sr_reports s) > COUNT_MAX then Err TooManyReports
      else if cap < sender_report_marshal_size s then Err BufferTooShort
      else
        let h = sender_report_header s;
            info = put_u32 (sr_ssrc s) @ put_u64 (sr_ntp_time s) @ put_u32 (sr_rtp_time s) @
              put_u32 (sr_packet_count s) @ put_u32 (sr_octet_count s) in
        and_then (marshal_all reception_report_marshal_to (sr_reports s) (cap - RTCP_HEADER_LENGTH - length info))
          (\<lambda>(reps, _). rtcp_put h (info @ reps @ sr_profile_extensions s) (sender_report_raw_size s)
            (sender_report_marshal_size s) cap))"

definition sender_report_unmarshal :: "u8 list \<Rightarrow> (sender_report \<times> u8 list) result" where
  "sender_report_unmarshal raw_packet =
     (let raw_packet_len = length raw_packet in
      if raw_packet_len < RTCP_HEADER_LENGTH + SR_HEADER_LENGTH then Err PacketTooShort
      else and_then (rtcp_header_unmarshal raw_packet) (\<lambda>(header, raw_packet).
        if rtcp_packet_type header \<noteq> SenderReport then Err WrongType
        else and_then (get_u32 raw_packet) (\<lambda>(ssrc, raw_packet).
          and_then (get_u64 raw_packet) (\<lambda>(ntp_time, raw_packet).
          and_then (get_u32 raw_packet) (\<lambda>(rtp_time, raw_packet).
          and_then (get_u32 raw_packet) (\<lambda>(packet_count, raw_packet).
          and_then (get_u32 raw_packet) (\<lambda>(octet_count, raw_packet).
          and_then (unmarshal_reports (unat (rtcp_count header)) SR_REPORT_OFFSET raw_packet_len raw_packet)
            (\<lambda>(reports, raw_packet).
          and_then (copy_to_bytes (length raw_packet) raw_packet) (\<lambda>(profile_extensions, raw_packet).
            Ok (\<lparr>sr_ssrc = ssrc, sr_ntp_time = ntp_time, sr_rtp_time = rtp_time,
                 sr_packet_count = packet_count, sr_octet_count = octet_count, sr_reports = reports,
                 sr_profile_extensions = profile_extensions\<rparr>, raw_packet))))))))))"

definition sender_report_wf :: "sender_report \<Rightarrow> bool" where
  "sender_report_wf s \<longleftrightarrow> reports_wf (sr_reports s) \<and> length (sr_profile_extensions s) mod 4 = 0 \<and>
     length (sr_profile_extensions s) \<le> 260000"

definition sender_report_body :: "sender_report \<Rightarrow> u8 list" where
  "sender_report_body s =
     put_u32 (sr_ssrc s) @ put_u64 (sr_ntp_time s) @ put_u32 (sr_rtp_time s) @
     put_u32 (sr_packet_count s) @ put_u32 (sr_octet_count s) @
     reports_bytes (sr_reports s) @ sr_profile_extensions s"

lemma length_sender_report_body:
  "length (sender_report_body s) = 24 + 24 * length (sr_reports s) + length (sr_profile_extensions s)"
  by (simp add: sender_report_body_def)

lemma sum_report_sizes: "(\<Sum>r\<leftarrow>rs. 24) = 24 * length rs"
  by (simp add: sum_list_triv)

interpretation sender_report_codec: rtcp_codec sender_report_marshal_size sender_report_marshal_to
  sender_report_unmarshal sender_report_wf sender_report_header
proof (rule rtcp_codecI [where body = sender_report_body and raw_size = sender_report_raw_size
      and count = "\<lambda>s. of_nat (length (sr_reports s))" and ptype = "\<lambda>_. SenderReport"], goal_cases)
  case (1 s) then show ?case by (simp add: sender_report_wf_def reports_wf_def)
next
  case (2 s) then show ?case by (simp add: sender_report_marshal_size_def Let_def)
next
  case (3 s) then show ?case
    by (simp add: sender_report_raw_size_def length_sender_report_body sum_report_sizes)
next
  case (4 s)
  then have "length (sr_reports s) \<le> 31" "length (sr_profile_extensions s) \<le> 260000"
    by (simp_all add: sender_report_wf_def reports_wf_def)
  then show ?case
    by (simp add: sender_report_raw_size_def sum_report_sizes)
next
  case (5 s) then show ?case by (simp add: sender_report_header_def)
next
  case (6 s cap)
  then have "24 * length (sr_reports s) \<le> cap - 28"
    by (simp add: sender_report_marshal_size_def sender_report_raw_size_def sum_report_sizes Let_def)
  with 6 show ?case
    using marshal_all_reports [of "sr_reports s" "cap - 28"]
    by (simp add: sender_report_marshal_to_def sender_report_body_def sender_report_wf_def reports_wf_def
        Let_def)
next
  case (7 s cap)
  then show ?case by (simp add: sender_report_marshal_to_def sender_report_wf_def reports_wf_def)
next
  case (8 s)
  then have wf: "reports_wf (sr_reports s)" and len: "length (sr_reports s) \<le> 31"
    and ext: "length (sr_profile_extensions s) mod 4 = 0"
    by (simp_all add: sender_report_wf_def reports_wf_def)
  have "length (sender_report_body s) mod 4 = 0"
    using ext by (simp add: length_sender_report_body mod_add_eq [symmetric])
  with wf len show ?case
    by (simp add: sender_report_unmarshal_def sender_report_header_def sender_report_body_def
        unmarshal_reports_bytes Let_def)
qed

interpretation sender_report_decoder: robust_decoder sender_report_unmarshal
proof (unfold_locales, goal_cases)
  case (1 bs)
  then show ?case
    using unmarshal_reports_robust(1) [of 28 "drop 28 bs" "length bs"] rtcp_header_unmarshal_cases [of bs]
    by (auto simp: sender_report_unmarshal_def reads Let_def and_then_def split: sum.splits)
next
  case (2 bs s r)
  then show ?case
    by (auto simp: sender_report_unmarshal_def Let_def copy_to_bytes_def split: if_splits)
qed

section \<open>Receiver report\<close>

definition RR_REPORT_OFFSET :: nat where [simp]: "RR_REPORT_OFFSET = RTCP_HEADER_LENGTH + SSRC_LENGTH"

record receiver_report =
  recv_ssrc :: u32
  recv_reports :: "reception_report list"
  recv_profile_extensions :: "u8 list"

definition receiver_report_raw_size :: "receiver_report \<Rightarrow> nat" where
  "receiver_report_raw_size s =
     RTCP_HEADER_LENGTH + SSRC_LENGTH + (\<Sum>r\<leftarrow>recv_reports s. reception_report_marshal_size r) +
     length (recv_profile_extensions s)"

definition receiver_report_marshal_size :: "receiver_report \<Rightarrow> nat" where
  "receiver_report_marshal_size s = (let l = receiver_report_raw_size s in l + get_padding_size l)"

definition receiver_report_header :: "receiver_report \<Rightarrow> rtcp_header" where
  "receiver_report_header s =
     rtcp_header_for (of_nat (length (recv_reports s))) ReceiverReport (receiver_report_raw_size s)"

definition receiver_report_destination_ssrc :: "receiver_report \<Rightarrow> u32 list" where
  "receiver_report_destination_ssrc s = map rr_ssrc (recv_reports s)"

definition receiver_report_marshal_to :: "receiver_report \<Rightarrow> nat \<Rightarrow> (u8 list \<times> nat) result" where
  "receiver_report_marshal_to s cap =
     (if length (recv_reports s) > COUNT_MAX then Err TooManyReports
      else if cap < receiver_report_marshal_size s then Err BufferTooShort
      else
        let h = receiver_report_header s in
        and_then (marshal_all reception_report_marshal_to (recv_reports s) (cap - RTCP_HEADER_LENGTH - SSRC_LENGTH))
          (\<lambda>(reps, _). rtcp_put h (put_u32 (recv_ssrc s) @ reps @ recv_profile_extensions s)
            (receiver_report_raw_size s) (receiver_report_marshal_size s) cap))"

definition receiver_report_unmarshal :: "u8 list \<Rightarrow> (receiver_report \<times> u8 list) result" where
  "receiver_report_unmarshal raw_packet =
     (let raw_packet_len = length raw_packet in
      if raw_packet_len < RTCP_HEADER_LENGTH + SSRC_LENGTH then Err PacketTooShort
      else and_then (rtcp_header_unmarshal raw_packet) (\<lambda>(header, raw_packet).
        if rtcp_packet_type header \<noteq> ReceiverReport then Err WrongType
        else and_then (get_u32 raw_packet) (\<lambda>(ssrc, raw_packet).
          and_then (unmarshal_reports (unat (rtcp_count header)) RR_REPORT_OFFSET raw_packet_len raw_packet)
            (\<lambda>(reports, raw_packet).
          and_then (copy_to_bytes (length raw_packet) raw_packet) (\<lambda>(profile_extensions, raw_packet).
            Ok (\<lparr>recv_ssrc = ssrc, recv_reports = reports,
                 recv_profile_extensions = profile_extensions\<rparr>, raw_packet))))))"

definition receiver_report_wf :: "receiver_report \<Rightarrow> bool" where
  "receiver_report_wf s \<longleftrightarrow> reports_wf (recv_reports s) \<and> length (recv_profile_extensions s) mod 4 = 0 \<and>
     length (recv_profile_extensions s) \<le> 260000"

definition receiver_report_body :: "receiver_report \<Rightarrow> u8 list" where
  "receiver_report_body s = put_u32 (recv_ssrc s) @ reports_bytes (recv_reports s) @ recv_profile_extensions s"

lemma length_receiver_report_body:
  "length (receiver_report_body s) = 4 + 24 * length (recv_reports s) + length (recv_profile_extensions s)"
  by (simp add: receiver_report_body_def)

interpretation receiver_report_codec: rtcp_codec receiver_report_marshal_size receiver_report_marshal_to
  receiver_report_unmarshal receiver_report_wf receiver_report_header
proof (rule rtcp_codecI [where body = receiver_report_body and raw_size = receiver_report_raw_size
      and count = "\<lambda>s. of_nat (length (recv_reports s))" and ptype = "\<lambda>_. ReceiverReport"], goal_cases)
  case (1 s) then show ?case by (simp add: receiver_report_wf_def reports_wf_def)
next
  case (2 s) then show ?case by (simp add: receiver_report_marshal_size_def Let_def)
next
  case (3 s) then show ?case
    by (simp add: receiver_report_raw_size_def length_receiver_report_body sum_report_sizes)
next
  case (4 s)
  then have "length (recv_reports s) \<le> 31" "length (recv_profile_extensions s) \<le> 260000"
    by (simp_all add: receiver_report_wf_def reports_wf_def)
  then show ?case by (simp add: receiver_report_raw_size_def sum_report_sizes)
next
  case (5 s) then show ?case by (simp add: receiver_report_header_def)
next
  case (6 s cap)
  then have "24 * length (recv_reports s) \<le> cap - 8"
    by (simp add: receiver_report_marshal_size_def receiver_report_raw_size_def sum_report_sizes Let_def)
  with 6 show ?case
    using marshal_all_reports [of "recv_reports s" "cap - 8"]
    by (simp add: receiver_report_marshal_to_def receiver_report_body_def receiver_report_wf_def reports_wf_def
        Let_def)
next
  case (7 s cap)
  then show ?case by (simp add: receiver_report_marshal_to_def receiver_report_wf_def reports_wf_def)
next
  case (8 s)
  then have wf: "reports_wf (recv_reports s)" and len: "length (recv_reports s) \<le> 31"
    and ext: "length (recv_profile_extensions s) mod 4 = 0"
    by (simp_all add: receiver_report_wf_def reports_wf_def)
  have "length (receiver_report_body s) mod 4 = 0"
    using ext by (simp add: length_receiver_report_body mod_add_eq [symmetric])
  with wf len show ?case
    by (simp add: receiver_report_unmarshal_def receiver_report_header_def receiver_report_body_def
        unmarshal_reports_bytes Let_def)
qed

interpretation receiver_report_decoder: robust_decoder receiver_report_unmarshal
proof (unfold_locales, goal_cases)
  case (1 bs)
  then show ?case
    using unmarshal_reports_robust(1) [of 8 "drop 8 bs" "length bs"] rtcp_header_unmarshal_cases [of bs]
    by (auto simp: receiver_report_unmarshal_def reads Let_def and_then_def split: sum.splits)
next
  case (2 bs s r)
  then show ?case
    by (auto simp: receiver_report_unmarshal_def Let_def copy_to_bytes_def split: if_splits)
qed

section \<open>Goodbye\<close>

record goodbye =
  bye_sources :: "u32 list"
  bye_reason :: "u8 list"

definition goodbye_raw_size :: "goodbye \<Rightarrow> nat" where
  "goodbye_raw_size g =
     (let srcs_length = length (bye_sources g) * SSRC_LENGTH; reason_length = length (bye_reason g) + 1
      in RTCP_HEADER_LENGTH + srcs_length + reason_length)"

definition goodbye_marshal_size :: "goodbye \<Rightarrow> nat" where
  "goodbye_marshal_size g = (let l = goodbye_raw_size g in l + get_padding_size l)"

definition goodbye_header :: "goodbye \<Rightarrow> rtcp_header" where
  "goodbye_header g = rtcp_header_for (of_nat (length (bye_sources g))) Goodbye (goodbye_raw_size g)"

definition goodbye_destination_ssrc :: "goodbye \<Rightarrow> u32 list" where
  "goodbye_destination_ssrc g = bye_sources g"

definition goodbye_marshal_to :: "goodbye \<Rightarrow> nat \<Rightarrow> (u8 list \<times> nat) result" where
  "goodbye_marshal_to g cap =
     (if length (bye_sources g) > COUNT_MAX then Err TooManySources
      else if length (bye_reason g) > SDES_MAX_OCTET_COUNT then Err ReasonTooLong
      else if cap < goodbye_marshal_size g then Err BufferTooShort
      else rtcp_put (goodbye_header g)
        (concat (map put_u32 (bye_sources g)) @ put_u8 (of_nat (length (bye_reason g))) @
         (if bye_reason g \<noteq> [] then bye_reason g else []))
        (goodbye_raw_size g) (goodbye_marshal_size g) cap)"

definition goodbye_unmarshal :: "u8 list \<Rightarrow> (goodbye \<times> u8 list) result" where
  "goodbye_unmarshal raw_packet =
     (let raw_packet_len = length raw_packet in
      and_then (rtcp_header_unmarshal raw_packet) (\<lambda>(header, raw_packet).
        if rtcp_packet_type header \<noteq> Goodbye then Err WrongType
        else if get_padding_size raw_packet_len \<noteq> 0 then Err PacketTooShort
        else
          let reason_offset = RTCP_HEADER_LENGTH + unat (rtcp_count header) * SSRC_LENGTH in
          if reason_offset > raw_packet_len then Err PacketTooShort
          else and_then (get_many get_u32 (unat (rtcp_count header)) raw_packet) (\<lambda>(sources, raw_packet).
            and_then
              (if reason_offset < raw_packet_len then
                 and_then (get_u8 raw_packet) (\<lambda>(reason_len, raw_packet).
                   let reason_end = reason_offset + 1 + unat reason_len in
                   if reason_end > raw_packet_len then Err PacketTooShort
                   else copy_to_bytes (unat reason_len) raw_packet)
               else Ok ([], raw_packet))
              (\<lambda>(reason, raw_packet).
                and_then (advance (length raw_packet) raw_packet) (\<lambda>raw_packet.
                  Ok (\<lparr>bye_sources = sources, bye_reason = reason\<rparr>, raw_packet))))))"

definition goodbye_wf :: "goodbye \<Rightarrow> bool" where
  "goodbye_wf g \<longleftrightarrow> length (bye_sources g) \<le> 31 \<and> length (bye_reason g) \<le> 255"

definition goodbye_body :: "goodbye \<Rightarrow> u8 list" where
  "goodbye_body g =
     concat (map put_u32 (bye_sources g)) @ put_u8 (of_nat (length (bye_reason g))) @ bye_reason g"

lemma length_goodbye_body: "length (goodbye_body g) = 4 * length (bye_sources g) + length (bye_reason g) + 1"
  by (simp add: goodbye_body_def u32_codec.concat_length)

lemma goodbye_body_parses:
  assumes "goodbye_wf g"
  shows "goodbye_unmarshal (rtcp_header_bytes (goodbye_header g) @ rtcp_body (goodbye_body g)) = Ok (g, [])"
proof -
  define pad where "pad = (if get_padding_size (length (goodbye_body g)) \<noteq> 0
    then rtcp_put_padding (length (goodbye_body g)) else [])"
  define body where "body = rtcp_body (goodbye_body g)"
  have body: "body = concat (map put_u32 (bye_sources g)) @
      put_u8 (of_nat (length (bye_reason g))) @ bye_reason g @ pad"
    by (simp add: body_def rtcp_body_def pad_def) (simp add: goodbye_body_def)
  have len: "length body = 4 * length (bye_sources g) + length (bye_reason g) + 1 + length pad"
    by (simp add: body u32_codec.concat_length)
  have aligned: "get_padding_size (4 + length body) = 0"
    by (simp add: body_def)
  have sources: "get_many get_u32 (length (bye_sources g)) body =
      Ok (bye_sources g, put_u8 (of_nat (length (bye_reason g))) @ bye_reason g @ pad)"
    unfolding body by (rule u32_codec.get_many_concat) simp
  have head: "rtcp_header_unmarshal (rtcp_header_bytes (goodbye_header g) @ body) = Ok (goodbye_header g, body)"
    and count: "rtcp_packet_type (goodbye_header g) = Goodbye" "unat (rtcp_count (goodbye_header g)) = length (bye_sources g)"
    and reason: "unat (of_nat (length (bye_reason g)) :: u8) = length (bye_reason g)"
    using assms by (simp_all add: goodbye_wf_def goodbye_header_def)
  show ?thesis
    using aligned unfolding goodbye_unmarshal_def body_def [symmetric] Let_def
    by (simp add: head count sources len reason del: get_padding_size_4)
qed

interpretation goodbye_codec: rtcp_codec goodbye_marshal_size goodbye_marshal_to
  goodbye_unmarshal goodbye_wf goodbye_header
proof (rule rtcp_codecI [where body = goodbye_body and raw_size = goodbye_raw_size
      and count = "\<lambda>g. of_nat (length (bye_sources g))" and ptype = "\<lambda>_. Goodbye"], goal_cases)
  case (6 g cap)
  then show ?case by (simp add: goodbye_marshal_to_def goodbye_body_def goodbye_wf_def)
next
  case (8 g)
  then show ?case by (rule goodbye_body_parses)
qed (auto simp: goodbye_wf_def goodbye_marshal_size_def goodbye_raw_size_def length_goodbye_body
    goodbye_header_def goodbye_marshal_to_def Let_def)

interpretation goodbye_decoder: robust_decoder goodbye_unmarshal
proof (unfold_locales, goal_cases)
  case (1 bs)
  show ?case
  proof (cases "rtcp_header_unmarshal bs")
    case (Inl e)
    then show ?thesis using rtcp_header_decoder.dec_no_panic [of bs] by (simp add: goodbye_unmarshal_def)
  next
    case (Inr hr)
    then obtain h where h: "rtcp_header_unmarshal bs = Ok (h, drop 4 bs)" "4 \<le> length bs"
      using rtcp_header_unmarshal_Ok [of bs] by (cases hr) auto
    show ?thesis
    proof (cases "4 + unat (rtcp_count h) * 4 \<le> length bs")
      case True
      then have "unat (rtcp_count h) * 4 \<le> length (drop 4 bs)" by simp
      from u32_codec.get_many_total [OF this] obtain xs where
        "get_many get_u32 (unat (rtcp_count h)) (drop 4 bs) = Ok (xs, drop (unat (rtcp_count h) * 4) (drop 4 bs))"
        by blast
      with h True show ?thesis
        by (simp add: goodbye_unmarshal_def reads Let_def)
    next
      case False
      with h show ?thesis by (simp add: goodbye_unmarshal_def Let_def)
    qed
  qed
next
  case (2 bs g r)
  then show ?case
    by (auto simp: goodbye_unmarshal_def Let_def advance_def split: if_splits)
qed

section \<open>Properties\<close>

text \<open>
  A report whose profile extensions are not a multiple of four bytes comes back with the padding
  bytes as part of the extensions.
\<close>

theorem report_padding_kept:
  "let rr = \<lparr>recv_ssrc = 1, recv_reports = [], recv_profile_extensions = [7]\<rparr> in
   and_then (marshal (receiver_report_marshal_size rr) (receiver_report_marshal_to rr)) receiver_report_unmarshal =
     Ok (rr\<lparr>recv_profile_extensions := [7, 0, 0, 3]\<rparr>, [])"
  by code_simp

end
