(* ===== verification/Rtcp_Sdes.thy ===== *)
theory Rtcp_Sdes
  imports Rtcp_Header
begin

text \<open>
  The source description packet (\<open>rtc-rtcp/src/source_description/mod.rs\<close>): items, chunks with
  their terminating octet and alignment, and the packet. The two parse loops recurse on the distance
  of the offset to the end of the buffer, as the source counts it; every item and every chunk has a
  positive size, so both terminate.
\<close>

section \<open>Items\<close>

datatype sdes_type =
  SdesEnd | SdesCname | SdesName | SdesEmail | SdesPhone | SdesLocation | SdesTool | SdesNote | SdesPrivate

fun sdes_type_as_u8 :: "sdes_type \<Rightarrow> u8" where
  "sdes_type_as_u8 SdesEnd = 0"
| "sdes_type_as_u8 SdesCname = 1"
| "sdes_type_as_u8 SdesName = 2"
| "sdes_type_as_u8 SdesEmail = 3"
| "sdes_type_as_u8 SdesPhone = 4"
| "sdes_type_as_u8 SdesLocation = 5"
| "sdes_type_as_u8 SdesTool = 6"
| "sdes_type_as_u8 SdesNote = 7"
| "sdes_type_as_u8 SdesPrivate = 8"

definition sdes_type_from :: "u8 \<Rightarrow> sdes_type" where
  "sdes_type_from b =
     (if b = 1 then SdesCname else if b = 2 then SdesName else if b = 3 then SdesEmail
      else if b = 4 then SdesPhone else if b = 5 then SdesLocation else if b = 6 then SdesTool
      else if b = 7 then SdesNote else if b = 8 then SdesPrivate else SdesEnd)"

definition SDES_SOURCE_LEN :: nat where [simp]: "SDES_SOURCE_LEN = 4"
definition SDES_TYPE_LEN :: nat where [simp]: "SDES_TYPE_LEN = 1"
definition SDES_OCTET_COUNT_LEN :: nat where [simp]: "SDES_OCTET_COUNT_LEN = 1"
definition SDES_TEXT_OFFSET :: nat where [simp]: "SDES_TEXT_OFFSET = 2"

record sdes_item =
  sdes_type :: sdes_type
  sdes_text :: "u8 list"

definition sdes_item_marshal_size :: "sdes_item \<Rightarrow> nat" where
  "sdes_item_marshal_size it = SDES_TYPE_LEN + SDES_OCTET_COUNT_LEN + length (sdes_text it)"

definition sdes_item_marshal_to :: "sdes_item \<Rightarrow> nat \<Rightarrow> (u8 list \<times> nat) result" where
  "sdes_item_marshal_to it cap =
     (if sdes_type it = SdesEnd then Err SdesMissingType
      else if cap < sdes_item_marshal_size it then Err BufferTooShort
      else if length (sdes_text it) > SDES_MAX_OCTET_COUNT then Err SdesTextTooLong
      else put_all cap
        (put_u8 (sdes_type_as_u8 (sdes_type it)) @ put_u8 (of_nat (length (sdes_text it))) @ sdes_text it)
        (sdes_item_marshal_size it))"

definition sdes_item_unmarshal :: "u8 list \<Rightarrow> (sdes_item \<times> u8 list) result" where
  "sdes_item_unmarshal raw_packet =
     (let raw_packet_len = length raw_packet in
      if raw_packet_len < SDES_TYPE_LEN then Err PacketTooShort
      else and_then (get_u8 raw_packet) (\<lambda>(b, raw_packet).
        let ty = sdes_type_from b in
        if ty = SdesEnd then Ok (\<lparr>sdes_type = ty, sdes_text = []\<rparr>, raw_packet)
        else if raw_packet_len < SDES_TYPE_LEN + SDES_OCTET_COUNT_LEN then Err PacketTooShort
        else and_then (get_u8 raw_packet) (\<lambda>(octet_count, raw_packet).
          if SDES_TEXT_OFFSET + unat octet_count > raw_packet_len then Err PacketTooShort
          else and_then (copy_to_bytes (unat octet_count) raw_packet) (\<lambda>(text, raw_packet).
            Ok (\<lparr>sdes_type = ty, sdes_text = text\<rparr>, raw_packet)))))"

section \<open>Chunks\<close>

record sdes_chunk =
  sdes_source :: u32
  sdes_items :: "sdes_item list"

definition sdes_chunk_raw_size :: "sdes_chunk \<Rightarrow> nat" where
  "sdes_chunk_raw_size c =
     SDES_SOURCE_LEN + (\<Sum>it\<leftarrow>sdes_items c. sdes_item_marshal_size it) + SDES_TYPE_LEN"

definition sdes_chunk_marshal_size :: "sdes_chunk \<Rightarrow> nat" where
  "sdes_chunk_marshal_size c = (let l = sdes_chunk_raw_size c in l + get_padding_size l)"

definition sdes_chunk_marshal_to :: "sdes_chunk \<Rightarrow> nat \<Rightarrow> (u8 list \<times> nat) result" where
  "sdes_chunk_marshal_to c cap =
     (if cap < sdes_chunk_marshal_size c then Err BufferTooShort
      else and_then (marshal_all sdes_item_marshal_to (sdes_items c) (cap - SDES_SOURCE_LEN)) (\<lambda>(its, _).
        put_all cap
          (put_u32 (sdes_source c) @ its @ put_u8 (sdes_type_as_u8 SdesEnd) @
           rtcp_put_padding (sdes_chunk_raw_size c))
          (sdes_chunk_marshal_size c)))"

function unmarshal_items :: "nat \<Rightarrow> nat \<Rightarrow> u8 list \<Rightarrow> (sdes_item list \<times> u8 list) result" where
  "unmarshal_items offset raw_packet_len raw_packet =
     (if offset < raw_packet_len then
        and_then (sdes_item_unmarshal raw_packet) (\<lambda>(item, raw_packet).
          if sdes_type item = SdesEnd then
            let padding_len = get_padding_size (offset + 1) in
            if length raw_packet \<ge> padding_len
            then and_then (advance padding_len raw_packet) (\<lambda>raw_packet. Ok ([], raw_packet))
            else Err PacketTooShort
          else and_then (unmarshal_items (offset + sdes_item_marshal_size item) raw_packet_len raw_packet)
            (\<lambda>(items, raw_packet). Ok (item # items, raw_packet)))
      else Err PacketTooShort)"
  by auto
termination
  by (relation "measure (\<lambda>(offset, raw_packet_len, _). raw_packet_len - offset)")
    (auto simp: sdes_item_marshal_size_def)

declare unmarshal_items.simps [simp del]

definition sdes_chunk_unmarshal :: "u8 list \<Rightarrow> (sdes_chunk \<times> u8 list) result" where
  "sdes_chunk_unmarshal raw_packet =
     (let raw_packet_len = length raw_packet in
      if raw_packet_len < SDES_SOURCE_LEN + SDES_TYPE_LEN then Err PacketTooShort
      else and_then (get_u32 raw_packet) (\<lambda>(source, raw_packet).
        and_then (unmarshal_items SDES_SOURCE_LEN raw_packet_len raw_packet) (\<lambda>(items, raw_packet).
          Ok (\<lparr>sdes_source = source, sdes_items = items\<rparr>, raw_packet))))"

section \<open>The packet\<close>

record source_description =
  sdes_chunks :: "sdes_chunk list"

definition source_description_raw_size :: "source_description \<Rightarrow> nat" where
  "source_description_raw_size s = RTCP_HEADER_LENGTH + (\<Sum>c\<leftarrow>sdes_chunks s. sdes_chunk_marshal_size c)"

definition source_description_marshal_size :: "source_description \<Rightarrow> nat" where
  "source_description_marshal_size s = (let l = source_description_raw_size s in l + get_padding_size l)"

definition source_description_header :: "source_description \<Rightarrow> rtcp_header" where
  "source_description_header s =
     rtcp_header_for (of_nat (length (sdes_chunks s))) SourceDescription (source_description_raw_size s)"

definition source_description_destination_ssrc :: "source_description \<Rightarrow> u32 list" where
  "source_description_destination_ssrc s = map sdes_source (sdes_chunks s)"

definition source_description_marshal_to :: "source_description \<Rightarrow> nat \<Rightarrow> (u8 list \<times> nat) result" where
  "source_description_marshal_to s cap =
     (if length (sdes_chunks s) > COUNT_MAX then Err TooManyChunks
      else if cap < source_description_marshal_size s then Err BufferTooShort
      else
        let h = source_description_header s in
        and_then (marshal_all sdes_chunk_marshal_to (sdes_chunks s) (cap - RTCP_HEADER_LENGTH)) (\<lambda>(cs, _).
          rtcp_put h cs (source_description_raw_size s) (source_description_marshal_size s) cap))"

function unmarshal_chunks :: "nat \<Rightarrow> nat \<Rightarrow> u8 list \<Rightarrow> (sdes_chunk list \<times> u8 list) result" where
  "unmarshal_chunks offset raw_packet_len raw_packet =
     (if offset < raw_packet_len then
        and_then (sdes_chunk_unmarshal raw_packet) (\<lambda>(chunk, raw_packet).
          and_then (unmarshal_chunks (offset + sdes_chunk_marshal_size chunk) raw_packet_len raw_packet)
            (\<lambda>(chunks, raw_packet). Ok (chunk # chunks, raw_packet)))
      else Ok ([], raw_packet))"
  by auto
termination
  by (relation "measure (\<lambda>(offset, raw_packet_len, _). raw_packet_len - offset)")
    (auto simp: sdes_chunk_marshal_size_def sdes_chunk_raw_size_def Let_def)

declare unmarshal_chunks.simps [simp del]

definition source_description_unmarshal :: "u8 list \<Rightarrow> (source_description \<times> u8 list) result" where
  "source_description_unmarshal raw_packet =
     (let raw_packet_len = length raw_packet in
      and_then (rtcp_header_unmarshal raw_packet) (\<lambda>(h, raw_packet).
        if rtcp_packet_type h \<noteq> SourceDescription then Err WrongType
        else and_then (unmarshal_chunks RTCP_HEADER_LENGTH raw_packet_len raw_packet) (\<lambda>(chunks, raw_packet).
          if length chunks \<noteq> unat (rtcp_count h) then Err InvalidHeader
          else and_then (advance (length raw_packet) raw_packet) (\<lambda>raw_packet.
            Ok (\<lparr>sdes_chunks = chunks\<rparr>, raw_packet)))))"

section \<open>Round trip\<close>

definition sdes_item_wf :: "sdes_item \<Rightarrow> bool" where
  "sdes_item_wf it \<longleftrightarrow> sdes_type it \<noteq> SdesEnd \<and> length (sdes_text it) \<le> 255"

definition sdes_chunk_wf :: "sdes_chunk \<Rightarrow> bool" where
  "sdes_chunk_wf c \<longleftrightarrow> (\<forall>it\<in>set (sdes_items c). sdes_item_wf it)"

definition source_description_wf :: "source_description \<Rightarrow> bool" where
  "source_description_wf s \<longleftrightarrow> length (sdes_chunks s) \<le> 31 \<and> (\<forall>c\<in>set (sdes_chunks s). sdes_chunk_wf c) \<and>
     (\<Sum>c\<leftarrow>sdes_chunks s. sdes_chunk_marshal_size c) \<le> 262136"

lemma sdes_type_from_as_u8 [simp]: "sdes_type_from (sdes_type_as_u8 t) = t"
  by (cases t) (simp_all add: sdes_type_from_def)

definition sdes_item_bytes :: "sdes_item \<Rightarrow> u8 list" where
  "sdes_item_bytes it =
     put_u8 (sdes_type_as_u8 (sdes_type it)) @ put_u8 (of_nat (length (sdes_text it))) @ sdes_text it"

definition sdes_items_bytes :: "sdes_item list \<Rightarrow> u8 list" where
  "sdes_items_bytes its = concat (map sdes_item_bytes its)"

definition sdes_chunk_bytes :: "sdes_chunk \<Rightarrow> u8 list" where
  "sdes_chunk_bytes c =
     put_u32 (sdes_source c) @ sdes_items_bytes (sdes_items c) @ put_u8 0 @ rtcp_put_padding (sdes_chunk_raw_size c)"

lemma length_sdes_item_bytes: "length (sdes_item_bytes it) = sdes_item_marshal_size it"
  by (simp add: sdes_item_bytes_def sdes_item_marshal_size_def)

lemma length_sdes_items_bytes: "length (sdes_items_bytes its) = (\<Sum>it\<leftarrow>its. sdes_item_marshal_size it)"
  by (induction its) (simp_all add: sdes_items_bytes_def length_sdes_item_bytes)

lemma length_sdes_chunk_bytes: "length (sdes_chunk_bytes c) = sdes_chunk_marshal_size c"
  by (simp add: sdes_chunk_bytes_def sdes_chunk_marshal_size_def sdes_chunk_raw_size_def
      length_sdes_items_bytes Let_def)

lemma sdes_item_marshal_to_eq:
  "sdes_item_wf it \<Longrightarrow> sdes_item_marshal_to it cap =
     (if cap < sdes_item_marshal_size it then Err BufferTooShort
      else Ok (sdes_item_bytes it, sdes_item_marshal_size it))"
  by (auto simp: sdes_item_marshal_to_def sdes_item_wf_def sdes_item_bytes_def sdes_item_marshal_size_def)

lemma sdes_item_unmarshal_bytes [simp]:
  "sdes_item_wf it \<Longrightarrow> sdes_item_unmarshal (sdes_item_bytes it @ r) = Ok (it, r)"
  by (simp add: sdes_item_unmarshal_def sdes_item_wf_def sdes_item_bytes_def Let_def)

lemma sdes_item_unmarshal_end: "sdes_item_unmarshal (put_u8 0 @ r) = Ok (\<lparr>sdes_type = SdesEnd, sdes_text = []\<rparr>, r)"
  by (simp add: sdes_item_unmarshal_def sdes_type_from_def)

lemma unmarshal_items_bytes:
  "(\<And>it. it \<in> set its \<Longrightarrow> sdes_item_wf it) \<Longrightarrow> offset + length (sdes_items_bytes its) < raw_packet_len \<Longrightarrow>
   length pad = get_padding_size (offset + length (sdes_items_bytes its) + 1) \<Longrightarrow>
   unmarshal_items offset raw_packet_len (sdes_items_bytes its @ put_u8 0 @ pad @ r) = Ok (its, r)"
proof (induction its arbitrary: offset)
  case Nil
  then show ?case
    by (simp add: unmarshal_items.simps [of offset] sdes_items_bytes_def sdes_item_unmarshal_end advance_def)
next
  case (Cons it its)
  have eq: "sdes_items_bytes (it # its) = sdes_item_bytes it @ sdes_items_bytes its"
    by (simp add: sdes_items_bytes_def)
  have "unmarshal_items (offset + sdes_item_marshal_size it) raw_packet_len
      (sdes_items_bytes its @ put_u8 0 @ pad @ r) = Ok (its, r)"
    using Cons.prems by (intro Cons.IH) (simp_all add: eq length_sdes_item_bytes add.assoc)
  moreover have "sdes_item_wf it" "sdes_type it \<noteq> SdesEnd" "offset < raw_packet_len"
    using Cons.prems by (simp_all add: sdes_item_wf_def)
  ultimately show ?case
    by (simp add: unmarshal_items.simps [of offset] eq)
qed

lemma sdes_chunk_unmarshal_bytes [simp]:
  assumes "sdes_chunk_wf c"
  shows "sdes_chunk_unmarshal (sdes_chunk_bytes c @ r) = Ok (c, r)"
proof -
  have "unmarshal_items 4 (sdes_chunk_marshal_size c + length r)
      (sdes_items_bytes (sdes_items c) @ put_u8 0 @ rtcp_put_padding (sdes_chunk_raw_size c) @ r) =
      Ok (sdes_items c, r)"
    using assms
    by (intro unmarshal_items_bytes)
      (simp_all add: sdes_chunk_wf_def sdes_chunk_marshal_size_def sdes_chunk_raw_size_def
        length_sdes_items_bytes Let_def)
  then show ?thesis
    using length_sdes_chunk_bytes [of c]
    by (simp add: sdes_chunk_unmarshal_def Let_def) (simp add: sdes_chunk_bytes_def)
qed

lemma sdes_chunk_marshal_to_eq:
  assumes "sdes_chunk_wf c"
  shows "sdes_chunk_marshal_to c cap =
    (if cap < sdes_chunk_marshal_size c then Err BufferTooShort
     else Ok (sdes_chunk_bytes c, sdes_chunk_marshal_size c))"
proof (cases "cap < sdes_chunk_marshal_size c")
  case False
  then have fits: "length (sdes_items_bytes (sdes_items c)) \<le> cap - 4"
    by (simp add: sdes_chunk_marshal_size_def sdes_chunk_raw_size_def length_sdes_items_bytes Let_def)
  have "marshal_all sdes_item_marshal_to (sdes_items c) (cap - 4) =
      Ok (sdes_items_bytes (sdes_items c), length (sdes_items_bytes (sdes_items c)))"
    unfolding sdes_items_bytes_def
    by (rule marshal_all_bytes)
      (use assms fits in \<open>auto simp: sdes_chunk_wf_def sdes_item_marshal_to_eq length_sdes_item_bytes sdes_items_bytes_def\<close>)
  with False show ?thesis
    using length_sdes_chunk_bytes [of c] by (simp add: sdes_chunk_marshal_to_def sdes_chunk_bytes_def)
qed (simp add: sdes_chunk_marshal_to_def)

interpretation sdes_chunk_codec:
  stream_codec sdes_chunk_marshal_size sdes_chunk_marshal_to sdes_chunk_unmarshal sdes_chunk_wf
  by unfold_locales (auto simp: sdes_chunk_marshal_to_eq length_sdes_chunk_bytes split: if_splits)

definition sdes_chunks_bytes :: "sdes_chunk list \<Rightarrow> u8 list" where
  "sdes_chunks_bytes cs = concat (map sdes_chunk_bytes cs)"

lemma length_sdes_chunks_bytes: "length (sdes_chunks_bytes cs) = (\<Sum>c\<leftarrow>cs. sdes_chunk_marshal_size c)"
  by (induction cs) (simp_all add: sdes_chunks_bytes_def length_sdes_chunk_bytes)

lemma sdes_chunk_size_aligned: "sdes_chunk_marshal_size c mod 4 = 0"
  by (simp add: sdes_chunk_marshal_size_def Let_def)

lemma sdes_chunks_aligned: "(\<Sum>c\<leftarrow>cs. sdes_chunk_marshal_size c) mod 4 = 0"
  by (rule sum_list_aligned) (rule sdes_chunk_size_aligned)

lemma sdes_chunk_size_pos: "0 < sdes_chunk_marshal_size c"
  by (simp add: sdes_chunk_marshal_size_def sdes_chunk_raw_size_def Let_def)

lemma unmarshal_chunks_bytes:
  "(\<And>c. c \<in> set cs \<Longrightarrow> sdes_chunk_wf c) \<Longrightarrow> offset + length (sdes_chunks_bytes cs) = raw_packet_len \<Longrightarrow>
   unmarshal_chunks offset raw_packet_len (sdes_chunks_bytes cs) = Ok (cs, [])"
proof (induction cs arbitrary: offset)
  case Nil
  then show ?case by (simp add: unmarshal_chunks.simps [of raw_packet_len] sdes_chunks_bytes_def)
next
  case (Cons c cs)
  have eq: "sdes_chunks_bytes (c # cs) = sdes_chunk_bytes c @ sdes_chunks_bytes cs"
    by (simp add: sdes_chunks_bytes_def)
  have "unmarshal_chunks (offset + sdes_chunk_marshal_size c) raw_packet_len (sdes_chunks_bytes cs) = Ok (cs, [])"
    using Cons.prems by (intro Cons.IH) (simp_all add: eq length_sdes_chunk_bytes)
  moreover have "sdes_chunk_wf c" "offset < raw_packet_len"
    using Cons.prems sdes_chunk_size_pos [of c] by (simp_all add: eq length_sdes_chunk_bytes)
  ultimately show ?case by (simp add: unmarshal_chunks.simps [of offset] eq)
qed

interpretation source_description_codec: rtcp_codec source_description_marshal_size source_description_marshal_to
  source_description_unmarshal source_description_wf source_description_header
proof (rule rtcp_codecI [where body = "\<lambda>s. sdes_chunks_bytes (sdes_chunks s)"
      and raw_size = source_description_raw_size and count = "\<lambda>s. of_nat (length (sdes_chunks s))"
      and ptype = "\<lambda>_. SourceDescription"], goal_cases)
  case (1 s) then show ?case by (simp add: source_description_wf_def word_le_nat_alt)
next
  case (2 s) then show ?case by (simp add: source_description_marshal_size_def Let_def)
next
  case (3 s) then show ?case by (simp add: source_description_raw_size_def length_sdes_chunks_bytes)
next
  case (4 s) then show ?case by (simp add: source_description_raw_size_def source_description_wf_def)
next
  case (5 s) then show ?case by (simp add: source_description_header_def)
next
  case (6 s cap)
  then have fits: "length (sdes_chunks_bytes (sdes_chunks s)) \<le> cap - 4"
    by (simp add: source_description_marshal_size_def source_description_raw_size_def length_sdes_chunks_bytes Let_def)
  have "marshal_all sdes_chunk_marshal_to (sdes_chunks s) (cap - 4) =
      Ok (sdes_chunks_bytes (sdes_chunks s), length (sdes_chunks_bytes (sdes_chunks s)))"
    unfolding sdes_chunks_bytes_def
    by (rule marshal_all_bytes) (use 6 fits in \<open>auto simp: source_description_wf_def sdes_chunk_marshal_to_eq
        length_sdes_chunk_bytes sdes_chunks_bytes_def\<close>)
  with 6 show ?case by (simp add: source_description_marshal_to_def source_description_wf_def)
next
  case (7 s cap) then show ?case by (simp add: source_description_marshal_to_def source_description_wf_def)
next
  case (8 s)
  have "unmarshal_chunks 4 (4 + length (sdes_chunks_bytes (sdes_chunks s))) (sdes_chunks_bytes (sdes_chunks s)) =
      Ok (sdes_chunks s, [])"
    by (rule unmarshal_chunks_bytes) (use 8 in \<open>auto simp: source_description_wf_def\<close>)
  moreover have "rtcp_body (sdes_chunks_bytes (sdes_chunks s)) = sdes_chunks_bytes (sdes_chunks s)"
    by (simp add: length_sdes_chunks_bytes sdes_chunks_aligned)
  moreover have "(of_nat (length (sdes_chunks s)) :: u8) \<le> 31" "length (sdes_chunks s) < 256"
    using 8 by (simp_all add: source_description_wf_def word_le_nat_alt)
  ultimately show ?case
    by (simp add: source_description_unmarshal_def source_description_header_def advance_def Let_def)
qed

section \<open>Untrusted bytes\<close>

interpretation sdes_item_decoder: robust_decoder sdes_item_unmarshal
  by (rule robust_decoderI) (simp add: sdes_item_unmarshal_def reads Let_def suffix_drop)

lemma safe_unmarshal_items: "safe bs (unmarshal_items offset raw_packet_len bs)"
proof (induction offset raw_packet_len bs rule: unmarshal_items.induct)
  case (1 offset raw_packet_len bs)
  have more: "safe bs (and_then (unmarshal_items (offset + sdes_item_marshal_size it) raw_packet_len r)
      (\<lambda>(items, r). Ok (it # items, r)))"
    if "offset < raw_packet_len" "sdes_item_unmarshal bs = Ok (it, r)" "suffix r bs" "sdes_type it \<noteq> SdesEnd" for it r
    using "1.IH" [of "(it, r)" it r] that
    by (intro safe_and_then) (auto intro: safe_trans)
  have stop: "safe bs (and_then (advance n r) (\<lambda>r. Ok ([] :: sdes_item list, r)))"
    if "suffix r bs" "n \<le> length r" for n r
    using that suffix_order.trans [OF suffix_drop that(1)] by (simp add: reads)
  show ?case
  proof (cases "offset < raw_packet_len")
    case True
    then show ?thesis
      unfolding unmarshal_items.simps [of offset] if_P [OF True] Let_def
      by (intro safe_and_then sdes_item_decoder.dec_safe) (use more stop in \<open>simp del: safe_Ok\<close>)
  qed (simp add: unmarshal_items.simps [of offset])
qed

interpretation sdes_chunk_decoder: robust_decoder sdes_chunk_unmarshal
proof (rule robust_decoderI)
  fix bs
  have "safe bs (and_then (unmarshal_items 4 (length bs) (drop 4 bs))
      (\<lambda>(items, r). Ok (\<lparr>sdes_source = u32_at bs, sdes_items = items\<rparr>, r)))"
    by (rule safe_drop [of 4], rule safe_and_then [OF safe_unmarshal_items]) simp
  then show "safe bs (sdes_chunk_unmarshal bs)"
    by (simp add: sdes_chunk_unmarshal_def reads Let_def)
qed

lemma safe_unmarshal_chunks: "safe bs (unmarshal_chunks offset raw_packet_len bs)"
proof (induction offset raw_packet_len bs rule: unmarshal_chunks.induct)
  case (1 offset raw_packet_len bs)
  have "safe bs (and_then (unmarshal_chunks (offset + sdes_chunk_marshal_size c) raw_packet_len r)
      (\<lambda>(cs, r). Ok (c # cs, r)))"
    if "offset < raw_packet_len" "sdes_chunk_unmarshal bs = Ok (c, r)" "suffix r bs" for c r
    using "1.IH" [of "(c, r)" c r] that
    by (intro safe_and_then) (auto intro: safe_trans)
  note more = this
  show ?case
  proof (cases "offset < raw_packet_len")
    case True
    show ?thesis
      unfolding unmarshal_chunks.simps [of offset] if_P [OF True]
      by (rule safe_and_then [OF sdes_chunk_decoder.dec_safe]) (rule more [OF True])
  qed (simp add: unmarshal_chunks.simps [of offset])
qed

interpretation source_description_decoder: robust_decoder source_description_unmarshal
proof (rule robust_decoderI)
  fix bs
  have "safe bs (and_then (unmarshal_chunks 4 (length bs) (drop 4 bs)) (\<lambda>(chunks, r).
      if length chunks \<noteq> n then Err InvalidHeader
      else and_then (advance (length r) r) (\<lambda>r. Ok (\<lparr>sdes_chunks = chunks\<rparr>, r))))" for n
    by (rule safe_drop [of 4], rule safe_and_then [OF safe_unmarshal_chunks]) simp
  then show "safe bs (source_description_unmarshal bs)"
    unfolding source_description_unmarshal_def Let_def by (intro safe_rtcp_header) simp
qed

end
