(* ===== verification/Rtcp_Feedback.thy ===== *)
theory Rtcp_Feedback
  imports Rtcp_Header
begin

text \<open>
  The feedback messages with a fixed layout: generic NACK
  (\<open>rtc-rtcp/src/transport_feedbacks/transport_layer_nack/mod.rs\<close>), rapid resynchronisation request,
  picture loss indication, slice loss indication and full intra request
  (\<open>rtc-rtcp/src/transport_feedbacks\<close> and \<open>rtc-rtcp/src/payload_feedbacks\<close>).

  For NACK, besides the packet: the iterator over the sequence numbers of a pair, and the packing of
  a list of sequence numbers into pairs, which are shown to denote the same set.
\<close>

unbundle bit_operations_syntax

section \<open>NACK pairs\<close>

record nack_pair =
  np_packet_id :: u16
  np_lost_packets :: u16

record nack_iterator =
  ni_packet_id :: u16
  ni_bitfield :: u16
  ni_has_yielded_packet_id :: bool

definition trailing_zeros :: "u16 \<Rightarrow> nat" where
  "trailing_zeros b = length (takeWhile (\<lambda>i. \<not> bit b i) [0..<16])"

definition nack_next :: "nack_iterator \<Rightarrow> (u16 \<times> nack_iterator) option" where
  "nack_next self =
     (if \<not> ni_has_yielded_packet_id self then
        Some (ni_packet_id self, self\<lparr>ni_has_yielded_packet_id := True\<rparr>)
      else if ni_bitfield self \<noteq> 0 then
        let i = of_nat (trailing_zeros (ni_bitfield self)) in
        Some (ni_packet_id self + (i + 1), self\<lparr>ni_bitfield := ni_bitfield self AND (ni_bitfield self - 1)\<rparr>)
      else None)"

definition nack_pair_new :: "u16 \<Rightarrow> nack_pair" where
  "nack_pair_new seq = \<lparr>np_packet_id = seq, np_lost_packets = 0\<rparr>"

definition nack_pair_into_iter :: "nack_pair \<Rightarrow> nack_iterator" where
  "nack_pair_into_iter p =
     \<lparr>ni_packet_id = np_packet_id p, ni_bitfield = np_lost_packets p, ni_has_yielded_packet_id = False\<rparr>"

text \<open>Collecting an iterator. Every step after the first clears a bit, so it ends.\<close>

function nack_collect :: "nack_iterator \<Rightarrow> u16 list" where
  "nack_collect it = (case nack_next it of None \<Rightarrow> [] | Some (x, it') \<Rightarrow> x # nack_collect it')"
  by auto
termination
proof (relation "measure (\<lambda>it. unat (ni_bitfield it) + (if ni_has_yielded_packet_id it then 0 else 1))", goal_cases)
  case (2 it x y it')
  have "unat (b AND (b - 1)) < unat b" if "b \<noteq> 0" for b :: u16
  proof -
    have "b AND (b - 1) \<le> b - 1" by (rule word_and_le1)
    also have "b - 1 < b" using that by (simp add: word_less_1 word_neq_0_conv measure_unat unat_minus_one word_less_nat_alt)
    finally show ?thesis by (simp add: word_less_nat_alt)
  qed
  with 2 show ?case
    by (auto simp: nack_next_def Let_def split: if_splits)
qed simp

declare nack_collect.simps [simp del]

definition packet_list :: "nack_pair \<Rightarrow> u16 list" where
  "packet_list p = nack_collect (nack_pair_into_iter p)"

subsection \<open>The numbers of a pair\<close>

lemma clear_lowest_bit:
  fixes b :: "'a::len word"
  assumes "\<And>n. n < t \<Longrightarrow> \<not> bit b n" "bit b t"
  shows "b AND (b - 1) = unset_bit t b"
proof -
  define c where "c = unset_bit t b"
  have c: "\<not> bit c n" if "n \<le> t" for n
    using assms that by (cases "n = t") (simp_all add: c_def bit_simps)
  have t: "t < LENGTH('a)" using assms(2) by (rule bit_imp_le_length)
  have "b = c OR 2 ^ t"
    by (rule bit_word_eqI) (use assms(2) t in \<open>auto simp: c_def bit_simps\<close>)
  also have "\<dots> = c + 2 ^ t"
    by (rule disjunctive_add_eq_or [symmetric]) (rule bit_word_eqI, use c in \<open>auto simp: bit_simps\<close>)
  finally have b: "b = c + 2 ^ t" .
  have "b - 1 = c + mask t"
    by (simp add: b mask_eq_exp_minus_1)
  also have "\<dots> = c OR mask t"
    by (rule disjunctive_add_eq_or) (rule bit_word_eqI, use c in \<open>auto simp: bit_simps\<close>)
  finally have m: "b - 1 = c OR mask t" .
  have "b AND (b - 1) = c"
    unfolding m by (rule bit_word_eqI) (use c in \<open>auto simp: c_def bit_simps\<close>)
  then show ?thesis by (simp add: c_def)
qed

lemma trailing_zeros_lowest:
  assumes "b \<noteq> 0"
  shows "trailing_zeros b < 16" "bit b (trailing_zeros b)" "n < trailing_zeros b \<Longrightarrow> \<not> bit b n"
proof -
  obtain k where k: "bit b k" "k < 16"
    using assms by (auto simp: bit_eq_iff dest: bit_imp_le_length)
  let ?P = "\<lambda>i. \<not> bit b i"
  have lt: "length (takeWhile ?P [0..<16]) < length [0..<16]"
  proof (rule ccontr)
    assume "\<not> ?thesis"
    then have "takeWhile ?P [0..<16] = [0..<16]"
      by (metis length_takeWhile_le linorder_not_less nat_less_le takeWhile_eq_all_conv
          takeWhile_eq_take take_all_iff)
    then show False using k by (simp only: takeWhile_eq_all_conv) auto
  qed
  then show "trailing_zeros b < 16" by (simp add: trailing_zeros_def)
  then show "bit b (trailing_zeros b)"
    using nth_length_takeWhile [OF lt] by (simp add: trailing_zeros_def)
  assume "n < trailing_zeros b"
  then have "n < length (takeWhile ?P [0..<16])" "[0..<16] ! n = n"
    using \<open>trailing_zeros b < 16\<close> by (simp_all add: trailing_zeros_def)
  then show "\<not> bit b n"
    using takeWhile_nth [of n ?P "[0..<16]"] nth_mem set_takeWhileD by metis
qed

lemma filter_bits_lowest:
  fixes b :: u16
  assumes "t < 16" "bit b t" "\<And>n. n < t \<Longrightarrow> \<not> bit b n"
  shows "filter (bit b) [0..<16] = t # filter (bit (unset_bit t b)) [0..<16]"
proof -
  have split: "[0..<16] = [0..<t] @ t # [Suc t..<16]"
    using assms(1) upt_add_eq_append [of 0 t "16 - t"] by (simp add: upt_conv_Cons)
  have low: "filter (bit b) [0..<t] = []" "filter (bit (unset_bit t b)) [0..<t] = []"
    using assms(3) by (auto simp: filter_empty_conv bit_simps)
  have high: "filter (bit (unset_bit t b)) [Suc t..<16] = filter (bit b) [Suc t..<16]"
    by (rule filter_cong) (auto simp: bit_simps)
  show ?thesis
    unfolding split using assms(2) low high by (simp add: bit_simps)
qed

lemma nack_collect_yielded:
  "ni_has_yielded_packet_id it \<Longrightarrow>
   nack_collect it = map (\<lambda>i. ni_packet_id it + of_nat (Suc i)) (filter (bit (ni_bitfield it)) [0..<16])"
proof (induction it rule: nack_collect.induct)
  case (1 it)
  let ?b = "ni_bitfield it" let ?t = "trailing_zeros ?b"
  show ?case
  proof (cases "?b = 0")
    case True
    then show ?thesis using 1 by (simp add: nack_collect.simps [of it] nack_next_def)
  next
    case False
    note t = trailing_zeros_lowest [OF False]
    let ?it = "it\<lparr>ni_bitfield := unset_bit ?t ?b\<rparr>"
    have step: "nack_next it = Some (ni_packet_id it + of_nat (Suc ?t), ?it)"
      using 1(2) False clear_lowest_bit [of ?t ?b] t by (simp add: nack_next_def ac_simps)
    have "nack_collect ?it = map (\<lambda>i. ni_packet_id it + of_nat (Suc i)) (filter (bit (unset_bit ?t ?b)) [0..<16])"
      using 1(1) [OF step refl] 1(2) by simp
    then show ?thesis
      by (simp only: nack_collect.simps [of it] step option.case prod.case filter_bits_lowest [OF t] list.map)
  qed
qed

lemma packet_list_eq:
  "packet_list p =
     np_packet_id p # map (\<lambda>i. np_packet_id p + of_nat (Suc i)) (filter (bit (np_lost_packets p)) [0..<16])"
  unfolding packet_list_def nack_collect.simps [of "nack_pair_into_iter p"]
  by (simp add: nack_next_def nack_collect_yielded nack_pair_into_iter_def)

lemma set_packet_list:
  "set (packet_list p) = insert (np_packet_id p)
     {np_packet_id p + of_nat (Suc i) |i. i < 16 \<and> bit (np_lost_packets p) i}"
  by (auto simp: packet_list_eq)

subsection \<open>Packing sequence numbers\<close>

definition saturating_add_u16 :: "u16 \<Rightarrow> u16 \<Rightarrow> u16" where
  "saturating_add_u16 a b = (if unat a + unat b > 65535 then 65535 else a + b)"

text \<open>The loop of \<open>nack_pairs_from_sequence_numbers\<close>, with the pair under construction.\<close>

fun pack_nacks :: "nack_pair \<Rightarrow> u16 list \<Rightarrow> nack_pair list" where
  "pack_nacks nack_pair [] = [nack_pair]"
| "pack_nacks nack_pair (seq # seqs) =
     (if seq = np_packet_id nack_pair then pack_nacks nack_pair seqs
      else if seq \<le> np_packet_id nack_pair \<or> seq > saturating_add_u16 (np_packet_id nack_pair) 16
      then nack_pair # pack_nacks (nack_pair_new seq) seqs
      else pack_nacks
        (nack_pair\<lparr>np_lost_packets := np_lost_packets nack_pair OR
           push_bit (unat (seq - np_packet_id nack_pair - 1)) 1\<rparr>) seqs)"

definition nack_pairs_from_sequence_numbers :: "u16 list \<Rightarrow> nack_pair list" where
  "nack_pairs_from_sequence_numbers seq_nos =
     (case seq_nos of [] \<Rightarrow> [] | seq # seqs \<Rightarrow> pack_nacks (nack_pair_new seq) seqs)"

text \<open>A number that is packed into the current pair is up to 16 above its packet id.\<close>

lemma packed_distance:
  assumes "seq \<noteq> a" "\<not> (seq \<le> a \<or> seq > saturating_add_u16 a 16)"
  obtains i where "i < 16" "unat seq = unat a + Suc i" "seq = a + of_nat (Suc i)" "unat (seq - a - 1) = i"
proof
  define i where "i = unat seq - unat a - 1"
  have gt: "unat a < unat seq" and le: "seq \<le> saturating_add_u16 a 16"
    using assms by (auto simp: word_le_nat_alt word_less_nat_alt)
  have "unat seq \<le> unat a + 16"
    using le unat_add_lem [of a 16] by (auto simp: saturating_add_u16_def word_le_nat_alt split: if_splits)
  with gt show i: "i < 16" "unat seq = unat a + Suc i"
    by (simp_all add: i_def)
  have "unat (a + of_nat (Suc i)) = unat a + Suc i"
    using i(2) unat_bounds(2) [of seq] by (simp add: unat_word_ariths unat_of_nat del: of_nat_Suc)
  then show eq: "seq = a + of_nat (Suc i)"
    using i(2) by (simp add: word_unat_eq_iff)
  then have "seq - a - 1 = of_nat i" by simp
  then show "unat (seq - a - 1) = i"
    using i(1) by simp
qed

lemma set_packet_list_add:
  assumes "i < 16"
  shows "set (packet_list (p\<lparr>np_lost_packets := np_lost_packets p OR push_bit i 1\<rparr>)) =
    insert (np_packet_id p + of_nat (Suc i)) (set (packet_list p))"
  using assms by (auto simp: set_packet_list bit_simps)

lemma set_pack_nacks:
  "(\<Union>q\<in>set (pack_nacks p seqs). set (packet_list q)) = set (packet_list p) \<union> set seqs"
proof (induction p seqs rule: pack_nacks.induct)
  case (2 p seq seqs)
  consider (same) "seq = np_packet_id p"
    | (fresh) "seq \<noteq> np_packet_id p" "seq \<le> np_packet_id p \<or> seq > saturating_add_u16 (np_packet_id p) 16"
    | (near) "seq \<noteq> np_packet_id p" "\<not> (seq \<le> np_packet_id p \<or> seq > saturating_add_u16 (np_packet_id p) 16)"
    by blast
  then show ?case
  proof cases
    case same
    then show ?thesis using 2(1) by (auto simp: set_packet_list)
  next
    case fresh
    have "set (packet_list (nack_pair_new seq)) = {seq}"
      by (auto simp: set_packet_list nack_pair_new_def)
    with fresh show ?thesis using 2(2) by auto
  next
    case near
    then obtain i where i: "i < 16" "seq = np_packet_id p + of_nat (Suc i)" "unat (seq - np_packet_id p - 1) = i"
      by (rule packed_distance)
    let ?p = "p\<lparr>np_lost_packets := np_lost_packets p OR push_bit (unat (seq - np_packet_id p - 1)) 1\<rparr>"
    have "set (packet_list ?p) = insert seq (set (packet_list p))"
      by (simp only: i(3)) (simp only: set_packet_list_add [OF i(1)] i(2))
    moreover have "pack_nacks p (seq # seqs) = pack_nacks ?p seqs"
      using near by (simp only: pack_nacks.simps if_False)
    ultimately show ?thesis using 2(3) [OF near] by (simp only: list.set) auto
  qed
qed simp

text \<open>On an increasing list the pairs list the numbers in order, and start more than 16 apart.\<close>

definition pair_below :: "nack_pair \<Rightarrow> u16 list \<Rightarrow> bool" where
  "pair_below p seqs \<longleftrightarrow> (\<forall>seq\<in>set seqs. np_packet_id p < seq \<and>
     (\<forall>i. bit (np_lost_packets p) i \<longrightarrow> unat (np_packet_id p) + Suc i < unat seq))"

lemma packet_list_extend:
  fixes p :: nack_pair
  assumes "i < 16" "\<And>j. bit (np_lost_packets p) j \<Longrightarrow> j < i"
  shows "packet_list (p\<lparr>np_lost_packets := np_lost_packets p OR push_bit i 1\<rparr>) =
    packet_list p @ [np_packet_id p + of_nat (Suc i)]"
proof -
  let ?b = "np_lost_packets p" let ?c = "?b OR push_bit i 1"
  have split: "[0..<16] = [0..<i] @ i # [Suc i..<16]"
    using assms(1) upt_add_eq_append [of 0 i "16 - i"] by (simp add: upt_conv_Cons)
  have low: "filter (bit ?c) [0..<i] = filter (bit ?b) [0..<i]"
    by (rule filter_cong) (auto simp: bit_simps)
  have i: "bit ?c i" "\<not> bit ?b i"
    using assms by (auto simp: bit_simps)
  have high: "filter (bit ?c) [Suc i..<16] = []" "filter (bit ?b) [Suc i..<16] = []"
    using assms(2) by (force simp: filter_empty_conv bit_simps)+
  have "filter (bit ?c) [0..<16] = filter (bit ?b) [0..<16] @ [i]"
    unfolding split filter_append using low i high by simp
  then show ?thesis by (simp add: packet_list_eq)
qed

lemma pack_nacks_ids: "np_packet_id ` set (pack_nacks p seqs) \<subseteq> insert (np_packet_id p) (set seqs)"
  by (induction p seqs rule: pack_nacks.induct) (auto simp: nack_pair_new_def)

lemma far_apart:
  assumes "seq > saturating_add_u16 a 16"
  shows "unat a + 16 < unat seq"
proof (cases "unat a + 16 > 65535")
  case True
  then show ?thesis
    using assms unat_bounds(2) [of seq] by (simp add: saturating_add_u16_def word_less_nat_alt)
next
  case False
  then have "unat (a + 16) = unat a + 16"
    by (simp add: unat_word_ariths)
  with False show ?thesis
    using assms by (simp add: saturating_add_u16_def word_less_nat_alt)
qed

lemma pack_nacks_increasing:
  "pair_below p seqs \<Longrightarrow> sorted_wrt (<) seqs \<Longrightarrow>
   concat (map packet_list (pack_nacks p seqs)) = packet_list p @ seqs \<and>
   sorted_wrt (\<lambda>a b. unat a + 16 < unat b) (map np_packet_id (pack_nacks p seqs))"
proof (induction p seqs rule: pack_nacks.induct)
  case (2 p seq seqs)
  have above: "np_packet_id p < seq" "\<And>x. x \<in> set seqs \<Longrightarrow> seq < x"
    using 2(4,5) by (simp_all add: pair_below_def)
  show ?case
  proof (cases "seq > saturating_add_u16 (np_packet_id p) 16")
    case True
    have eq: "pack_nacks p (seq # seqs) = p # pack_nacks (nack_pair_new seq) seqs"
      using True above(1) by auto
    have "pair_below (nack_pair_new seq) seqs" "sorted_wrt (<) seqs"
      using above(2) 2(5) by (simp_all add: pair_below_def nack_pair_new_def)
    with 2(2) True above(1) have IH: "concat (map packet_list (pack_nacks (nack_pair_new seq) seqs)) = packet_list (nack_pair_new seq) @ seqs"
        "sorted_wrt (\<lambda>a b. unat a + 16 < unat b) (map np_packet_id (pack_nacks (nack_pair_new seq) seqs))"
      by auto
    have "unat (np_packet_id p) + 16 < unat b" if "b \<in> np_packet_id ` set (pack_nacks (nack_pair_new seq) seqs)" for b
    proof -
      have "b \<in> insert seq (set seqs)"
        using that pack_nacks_ids [of "nack_pair_new seq" seqs] by (auto simp: nack_pair_new_def)
      then have "seq \<le> b" using above(2) by (auto intro: less_imp_le)
      with far_apart [OF True] show ?thesis by (simp add: word_le_nat_alt)
    qed
    moreover have "packet_list (nack_pair_new seq) = [seq]"
      by (simp add: packet_list_eq nack_pair_new_def)
    ultimately show ?thesis using IH unfolding eq by simp
  next
    case False
    then have near: "seq \<noteq> np_packet_id p" "\<not> (seq \<le> np_packet_id p \<or> seq > saturating_add_u16 (np_packet_id p) 16)"
      using above(1) by auto
    then obtain i where i: "i < 16" "unat seq = unat (np_packet_id p) + Suc i" "seq = np_packet_id p + of_nat (Suc i)"
        "unat (seq - np_packet_id p - 1) = i"
      by (rule packed_distance)
    define q where "q = p\<lparr>np_lost_packets := np_lost_packets p OR push_bit i 1\<rparr>"
    have eq: "pack_nacks p (seq # seqs) = pack_nacks q seqs"
      using near by (simp only: pack_nacks.simps if_False i(4) q_def)
    have low: "j < i" if "bit (np_lost_packets p) j" for j
      using 2(4) that i(2) by (auto simp: pair_below_def)
    have list: "packet_list q = packet_list p @ [seq]"
      unfolding q_def i(3) by (rule packet_list_extend [OF i(1) low])
    have "unat (np_packet_id p) + Suc j < unat x" if "x \<in> set seqs" "bit (np_lost_packets q) j" for x j
    proof -
      have "j \<le> i" using that(2) low [of j] by (auto simp: q_def bit_simps)
      with i(2) above(2) [OF that(1)] show ?thesis by (simp add: word_less_nat_alt)
    qed
    then have "pair_below q seqs"
      using above 2(4) by (auto simp: pair_below_def q_def)
    with 2(3) [OF near, unfolded i(4), folded q_def] 2(5) list show ?thesis unfolding eq by simp
  qed
qed simp

lemma nack_pairs_increasing:
  assumes "sorted_wrt (<) seq_nos"
  shows "concat (map packet_list (nack_pairs_from_sequence_numbers seq_nos)) = seq_nos"
    and "sorted_wrt (\<lambda>a b. unat a + 16 < unat b) (map np_packet_id (nack_pairs_from_sequence_numbers seq_nos))"
proof -
  have "concat (map packet_list (nack_pairs_from_sequence_numbers seq_nos)) = seq_nos \<and>
    sorted_wrt (\<lambda>a b. unat a + 16 < unat b) (map np_packet_id (nack_pairs_from_sequence_numbers seq_nos))"
  proof (cases seq_nos)
    case (Cons seq seqs)
    then have "pair_below (nack_pair_new seq) seqs" "sorted_wrt (<) seqs"
      using assms by (auto simp: pair_below_def nack_pair_new_def)
    from pack_nacks_increasing [OF this] Cons show ?thesis
      by (simp add: nack_pairs_from_sequence_numbers_def) (simp add: packet_list_eq nack_pair_new_def)
  qed (simp add: nack_pairs_from_sequence_numbers_def)
  then show "concat (map packet_list (nack_pairs_from_sequence_numbers seq_nos)) = seq_nos"
    "sorted_wrt (\<lambda>a b. unat a + 16 < unat b) (map np_packet_id (nack_pairs_from_sequence_numbers seq_nos))"
    by simp_all
qed

text \<open>A pair that does not run over the end of the sequence numbers covers at most 16 above its id.\<close>

definition unwrapped_pair :: "nack_pair \<Rightarrow> bool" where
  "unwrapped_pair q \<longleftrightarrow> (\<forall>i<16. bit (np_lost_packets q) i \<longrightarrow> unat (np_packet_id q) + Suc i < 65536)"

lemma unwrapped_pair_span:
  assumes "unwrapped_pair q" "x \<in> set (packet_list q)"
  shows "unat (np_packet_id q) \<le> unat x \<and> unat x \<le> unat (np_packet_id q) + 16"
proof -
  have "unat (np_packet_id q + of_nat (Suc i)) = unat (np_packet_id q) + Suc i"
    if "i < 16" "bit (np_lost_packets q) i" for i
    using assms(1) that by (simp add: unwrapped_pair_def unat_word_ariths unat_of_nat del: of_nat_Suc)
  then show ?thesis using assms(2) by (fastforce simp: set_packet_list simp del: of_nat_Suc)
qed


lemma fewest_pairs:
  assumes apart: "sorted_wrt (\<lambda>a b. unat a + 16 < unat b) (starts :: u16 list)"
    and cover: "set starts \<subseteq> (\<Union>q\<in>set qs. set (packet_list q))"
    and unwrapped: "\<And>q. q \<in> set qs \<Longrightarrow> unwrapped_pair q"
  shows "length starts \<le> length qs"
proof -
  have gap: "unat a + 16 < unat b \<or> unat b + 16 < unat a" if ab: "a \<in> set starts" "b \<in> set starts" "a \<noteq> b" for a b
  proof -
    obtain i j where ij: "i < length starts" "j < length starts" "a = starts ! i" "b = starts ! j"
      using ab(1,2) by (metis in_set_conv_nth)
    with ab(3) have "i < j \<or> j < i" by (metis nat_neq_iff)
    with ij apart show ?thesis by (auto simp: sorted_wrt_iff_nth_less)
  qed
  have dist: "distinct starts"
    using apart by (induction starts) auto
  obtain f where f: "\<And>a. a \<in> set starts \<Longrightarrow> f a \<in> set qs \<and> a \<in> set (packet_list (f a))"
    using cover by (auto simp: subset_eq) metis
  have "inj_on f (set starts)"
  proof (rule inj_onI, rule ccontr)
    fix a b assume ab: "a \<in> set starts" "b \<in> set starts" "f a = f b" "a \<noteq> b"
    have "unwrapped_pair (f a)" using f [OF ab(1)] unwrapped by blast
    from unwrapped_pair_span [OF this, of a] unwrapped_pair_span [OF this, of b]
    have "unat (np_packet_id (f a)) \<le> unat a" "unat a \<le> unat (np_packet_id (f a)) + 16"
      "unat (np_packet_id (f a)) \<le> unat b" "unat b \<le> unat (np_packet_id (f a)) + 16"
      using f [OF ab(1)] f [OF ab(2)] ab(3) by auto
    with gap [OF ab(1,2,4)] show False by linarith
  qed
  then have "card (set starts) \<le> card (set qs)"
    using f by (intro card_inj_on_le) auto
  with distinct_card [OF dist] card_length [of qs] show ?thesis by simp
qed

section \<open>Generic NACK\<close>

definition TLN_LENGTH :: nat where [simp]: "TLN_LENGTH = 2"
definition NACK_OFFSET :: nat where [simp]: "NACK_OFFSET = 8"
definition NACK_MIN_OCTET_COUNT :: nat where [simp]: "NACK_MIN_OCTET_COUNT = 12"

record transport_layer_nack =
  tln_sender_ssrc :: u32
  tln_media_ssrc :: u32
  tln_nacks :: "nack_pair list"

definition transport_layer_nack_raw_size :: "transport_layer_nack \<Rightarrow> nat" where
  "transport_layer_nack_raw_size p = RTCP_HEADER_LENGTH + NACK_OFFSET + length (tln_nacks p) * 4"

definition transport_layer_nack_marshal_size :: "transport_layer_nack \<Rightarrow> nat" where
  "transport_layer_nack_marshal_size p = (let l = transport_layer_nack_raw_size p in l + get_padding_size l)"

definition transport_layer_nack_header :: "transport_layer_nack \<Rightarrow> rtcp_header" where
  "transport_layer_nack_header p =
     rtcp_header_for FORMAT_TLN TransportSpecificFeedback (transport_layer_nack_raw_size p)"

definition transport_layer_nack_destination_ssrc :: "transport_layer_nack \<Rightarrow> u32 list" where
  "transport_layer_nack_destination_ssrc p = [tln_media_ssrc p]"

definition put_nack_pair :: "nack_pair \<Rightarrow> u8 list" where
  "put_nack_pair n = put_u16 (np_packet_id n) @ put_u16 (np_lost_packets n)"

definition get_nack_pair :: "u8 list \<Rightarrow> (nack_pair \<times> u8 list) result" where
  "get_nack_pair raw_packet =
     and_then (get_u16 raw_packet) (\<lambda>(packet_id, raw_packet).
     and_then (get_u16 raw_packet) (\<lambda>(lost_packets, raw_packet).
       Ok (\<lparr>np_packet_id = packet_id, np_lost_packets = lost_packets\<rparr>, raw_packet)))"

definition transport_layer_nack_marshal_to :: "transport_layer_nack \<Rightarrow> nat \<Rightarrow> (u8 list \<times> nat) result" where
  "transport_layer_nack_marshal_to p cap =
     (if length (tln_nacks p) + TLN_LENGTH > 255 then Err TooManyReports
      else if cap < transport_layer_nack_marshal_size p then Err BufferTooShort
      else rtcp_put (transport_layer_nack_header p)
        (put_u32 (tln_sender_ssrc p) @ put_u32 (tln_media_ssrc p) @ concat (map put_nack_pair (tln_nacks p)))
        (transport_layer_nack_raw_size p) (transport_layer_nack_marshal_size p) cap)"

text \<open>The range \<open>0..(h.length as i32 - NACK_OFFSET as i32 / 4)\<close> is empty when the bound is negative.\<close>

definition transport_layer_nack_unmarshal :: "u8 list \<Rightarrow> (transport_layer_nack \<times> u8 list) result" where
  "transport_layer_nack_unmarshal raw_packet =
     (let raw_packet_len = length raw_packet in
      if raw_packet_len < RTCP_HEADER_LENGTH + NACK_MIN_OCTET_COUNT then Err PacketTooShort
      else and_then (rtcp_header_unmarshal raw_packet) (\<lambda>(h, raw_packet).
        if raw_packet_len < RTCP_HEADER_LENGTH + 4 * unat (rtcp_length h) then Err PacketTooShort
        else if rtcp_packet_type h \<noteq> TransportSpecificFeedback \<or> rtcp_count h \<noteq> FORMAT_TLN then Err WrongType
        else and_then (get_u32 raw_packet) (\<lambda>(sender_ssrc, raw_packet).
          and_then (get_u32 raw_packet) (\<lambda>(media_ssrc, raw_packet).
          and_then (get_many get_nack_pair (unat (rtcp_length h) - NACK_OFFSET div 4) raw_packet)
            (\<lambda>(nacks, raw_packet).
          and_then (advance (length raw_packet) raw_packet) (\<lambda>raw_packet.
            Ok (\<lparr>tln_sender_ssrc = sender_ssrc, tln_media_ssrc = media_ssrc, tln_nacks = nacks\<rparr>, raw_packet)))))))"

definition transport_layer_nack_wf :: "transport_layer_nack \<Rightarrow> bool" where
  "transport_layer_nack_wf p \<longleftrightarrow> tln_nacks p \<noteq> [] \<and> length (tln_nacks p) \<le> 253"

interpretation nack_pair_codec: element_codec put_nack_pair get_nack_pair "\<lambda>_. True" 4
  by unfold_locales (simp_all add: put_nack_pair_def get_nack_pair_def reads)

lemma get_many_put_nacks [simp]:
  "get_many get_nack_pair (length ns) (concat (map put_nack_pair ns) @ r) = Ok (ns, r)"
  by (rule nack_pair_codec.get_many_concat) simp

interpretation transport_layer_nack_codec: rtcp_codec transport_layer_nack_marshal_size
  transport_layer_nack_marshal_to transport_layer_nack_unmarshal transport_layer_nack_wf transport_layer_nack_header
proof (rule rtcp_codecI [where raw_size = transport_layer_nack_raw_size and count = "\<lambda>_. FORMAT_TLN"
      and ptype = "\<lambda>_. TransportSpecificFeedback"
      and body = "\<lambda>p. put_u32 (tln_sender_ssrc p) @ put_u32 (tln_media_ssrc p) @ concat (map put_nack_pair (tln_nacks p))"],
    goal_cases)
  case (8 p)
  have raw: "transport_layer_nack_raw_size p = 12 + 4 * length (tln_nacks p)"
    by (simp add: transport_layer_nack_raw_size_def)
  have "4 * unat (rtcp_length (transport_layer_nack_header p)) = 8 + 4 * length (tln_nacks p)"
    using 8 rtcp_length_for [of "transport_layer_nack_raw_size p"]
    by (simp add: transport_layer_nack_header_def raw transport_layer_nack_wf_def)
  then have len: "unat (rtcp_length (transport_layer_nack_header p)) = 2 + length (tln_nacks p)" by simp
  have body: "rtcp_body (put_u32 a @ put_u32 b @ concat (map put_nack_pair ns)) =
      put_u32 a @ put_u32 b @ concat (map put_nack_pair ns)" for a b ns
    by (rule rtcp_body_aligned) (simp add: nack_pair_codec.concat_length)
  have "0 < length (tln_nacks p)" "rtcp_header_wf (transport_layer_nack_header p)"
    "rtcp_packet_type (transport_layer_nack_header p) = TransportSpecificFeedback"
    "rtcp_count (transport_layer_nack_header p) = 1"
    using 8 by (simp_all add: transport_layer_nack_wf_def transport_layer_nack_header_def)
  then show ?case
    using len get_many_put_nacks [of "tln_nacks p" "[]"]
    by (simp add: transport_layer_nack_unmarshal_def body Let_def nack_pair_codec.concat_length
        del: get_many_put_nacks)
qed (auto simp: transport_layer_nack_wf_def transport_layer_nack_marshal_size_def Let_def
    transport_layer_nack_raw_size_def transport_layer_nack_header_def transport_layer_nack_marshal_to_def
    nack_pair_codec.concat_length)

interpretation transport_layer_nack_decoder: robust_decoder transport_layer_nack_unmarshal
proof (rule robust_decoderI)
  fix bs
  have "\<exists>ns. get_many get_nack_pair n (drop 12 bs) = Ok (ns, drop (n * 4) (drop 12 bs))"
    if "12 + n * 4 \<le> length bs" for n
    using nack_pair_codec.get_many_total [of n "drop 12 bs"] that by fastforce
  then have read: "safe bs (and_then (get_many get_nack_pair n (drop 12 bs)) (\<lambda>(nacks, raw_packet).
      Ok (\<lparr>tln_sender_ssrc = a, tln_media_ssrc = b, tln_nacks = nacks\<rparr>, [])))"
    if "12 + n * 4 \<le> length bs" for n a b
    using that by fastforce
  show "safe bs (transport_layer_nack_unmarshal bs)"
    unfolding transport_layer_nack_unmarshal_def Let_def
    by (cases "16 \<le> length bs") (auto simp: reads intro!: safe_rtcp_header read)
qed

section \<open>Rapid resynchronisation request and picture loss indication\<close>

record rapid_resynchronization_request =
  rrr_sender_ssrc :: u32
  rrr_media_ssrc :: u32

definition RRR_HEADER_LENGTH :: nat where [simp]: "RRR_HEADER_LENGTH = SSRC_LENGTH * 2"

definition rrr_raw_size :: "rapid_resynchronization_request \<Rightarrow> nat" where
  "rrr_raw_size p = RTCP_HEADER_LENGTH + RRR_HEADER_LENGTH"

definition rrr_marshal_size :: "rapid_resynchronization_request \<Rightarrow> nat" where
  "rrr_marshal_size p = (let l = rrr_raw_size p in l + get_padding_size l)"

definition rrr_header :: "rapid_resynchronization_request \<Rightarrow> rtcp_header" where
  "rrr_header p = rtcp_header_for FORMAT_RRR TransportSpecificFeedback (rrr_raw_size p)"

definition rrr_destination_ssrc :: "rapid_resynchronization_request \<Rightarrow> u32 list" where
  "rrr_destination_ssrc p = [rrr_media_ssrc p]"

definition rrr_marshal_to :: "rapid_resynchronization_request \<Rightarrow> nat \<Rightarrow> (u8 list \<times> nat) result" where
  "rrr_marshal_to p cap =
     (if cap < rrr_marshal_size p then Err BufferTooShort
      else rtcp_put (rrr_header p) (put_u32 (rrr_sender_ssrc p) @ put_u32 (rrr_media_ssrc p))
        (rrr_raw_size p) (rrr_marshal_size p) cap)"

definition rrr_unmarshal :: "u8 list \<Rightarrow> (rapid_resynchronization_request \<times> u8 list) result" where
  "rrr_unmarshal raw_packet =
     (let raw_packet_len = length raw_packet in
      if raw_packet_len < RTCP_HEADER_LENGTH + SSRC_LENGTH * 2 then Err PacketTooShort
      else and_then (rtcp_header_unmarshal raw_packet) (\<lambda>(h, raw_packet).
        if rtcp_packet_type h \<noteq> TransportSpecificFeedback \<or> rtcp_count h \<noteq> FORMAT_RRR then Err WrongType
        else and_then (get_u32 raw_packet) (\<lambda>(sender_ssrc, raw_packet).
          and_then (get_u32 raw_packet) (\<lambda>(media_ssrc, raw_packet).
          and_then (advance (length raw_packet) raw_packet) (\<lambda>raw_packet.
            Ok (\<lparr>rrr_sender_ssrc = sender_ssrc, rrr_media_ssrc = media_ssrc\<rparr>, raw_packet))))))"

interpretation rrr_codec: rtcp_codec rrr_marshal_size rrr_marshal_to rrr_unmarshal "\<lambda>_. True" rrr_header
  by (rule rtcp_codecI [where raw_size = rrr_raw_size and count = "\<lambda>_. FORMAT_RRR"
        and ptype = "\<lambda>_. TransportSpecificFeedback"
        and body = "\<lambda>p. put_u32 (rrr_sender_ssrc p) @ put_u32 (rrr_media_ssrc p)"])
    (auto simp: rrr_marshal_size_def rrr_raw_size_def rrr_header_def rrr_marshal_to_def rrr_unmarshal_def Let_def)

interpretation rrr_decoder: robust_decoder rrr_unmarshal
proof (rule robust_decoderI)
  fix bs
  show "safe bs (rrr_unmarshal bs)"
    unfolding rrr_unmarshal_def Let_def
    by (cases "12 \<le> length bs") (auto simp: reads intro!: safe_rtcp_header)
qed

record picture_loss_indication =
  pli_sender_ssrc :: u32
  pli_media_ssrc :: u32

definition pli_raw_size :: "picture_loss_indication \<Rightarrow> nat" where
  "pli_raw_size p = RTCP_HEADER_LENGTH + SSRC_LENGTH * 2"

definition pli_marshal_size :: "picture_loss_indication \<Rightarrow> nat" where
  "pli_marshal_size p = (let l = pli_raw_size p in l + get_padding_size l)"

definition pli_header :: "picture_loss_indication \<Rightarrow> rtcp_header" where
  "pli_header p = rtcp_header_for FORMAT_PLI PayloadSpecificFeedback (pli_raw_size p)"

definition pli_destination_ssrc :: "picture_loss_indication \<Rightarrow> u32 list" where
  "pli_destination_ssrc p = [pli_media_ssrc p]"

definition pli_marshal_to :: "picture_loss_indication \<Rightarrow> nat \<Rightarrow> (u8 list \<times> nat) result" where
  "pli_marshal_to p cap =
     (if cap < pli_marshal_size p then Err BufferTooShort
      else rtcp_put (pli_header p) (put_u32 (pli_sender_ssrc p) @ put_u32 (pli_media_ssrc p))
        (pli_raw_size p) (pli_marshal_size p) cap)"

definition pli_unmarshal :: "u8 list \<Rightarrow> (picture_loss_indication \<times> u8 list) result" where
  "pli_unmarshal raw_packet =
     (let raw_packet_len = length raw_packet in
      if raw_packet_len < RTCP_HEADER_LENGTH + SSRC_LENGTH * 2 then Err PacketTooShort
      else and_then (rtcp_header_unmarshal raw_packet) (\<lambda>(h, raw_packet).
        if rtcp_packet_type h \<noteq> PayloadSpecificFeedback \<or> rtcp_count h \<noteq> FORMAT_PLI then Err WrongType
        else and_then (get_u32 raw_packet) (\<lambda>(sender_ssrc, raw_packet).
          and_then (get_u32 raw_packet) (\<lambda>(media_ssrc, raw_packet).
          and_then (advance (length raw_packet) raw_packet) (\<lambda>raw_packet.
            Ok (\<lparr>pli_sender_ssrc = sender_ssrc, pli_media_ssrc = media_ssrc\<rparr>, raw_packet))))))"

interpretation pli_codec: rtcp_codec pli_marshal_size pli_marshal_to pli_unmarshal "\<lambda>_. True" pli_header
  by (rule rtcp_codecI [where raw_size = pli_raw_size and count = "\<lambda>_. FORMAT_PLI"
        and ptype = "\<lambda>_. PayloadSpecificFeedback"
        and body = "\<lambda>p. put_u32 (pli_sender_ssrc p) @ put_u32 (pli_media_ssrc p)"])
    (auto simp: pli_marshal_size_def pli_raw_size_def pli_header_def pli_marshal_to_def pli_unmarshal_def Let_def)

interpretation pli_decoder: robust_decoder pli_unmarshal
proof (rule robust_decoderI)
  fix bs
  show "safe bs (pli_unmarshal bs)"
    unfolding pli_unmarshal_def Let_def
    by (cases "12 \<le> length bs") (auto simp: reads intro!: safe_rtcp_header)
qed

section \<open>Slice loss indication\<close>

definition SLI_LENGTH :: nat where [simp]: "SLI_LENGTH = 2"
definition SLI_OFFSET :: nat where [simp]: "SLI_OFFSET = 8"

record sli_entry =
  sli_first :: u16
  sli_number :: u16
  sli_picture :: u8

record slice_loss_indication =
  sli_sender_ssrc :: u32
  sli_media_ssrc :: u32
  sli_entries :: "sli_entry list"

definition sli_raw_size :: "slice_loss_indication \<Rightarrow> nat" where
  "sli_raw_size p = RTCP_HEADER_LENGTH + SLI_OFFSET + length (sli_entries p) * 4"

definition sli_marshal_size :: "slice_loss_indication \<Rightarrow> nat" where
  "sli_marshal_size p = (let l = sli_raw_size p in l + get_padding_size l)"

definition sli_header :: "slice_loss_indication \<Rightarrow> rtcp_header" where
  "sli_header p = rtcp_header_for FORMAT_SLI TransportSpecificFeedback (sli_raw_size p)"

definition sli_destination_ssrc :: "slice_loss_indication \<Rightarrow> u32 list" where
  "sli_destination_ssrc p = [sli_media_ssrc p]"

definition sli_word :: "sli_entry \<Rightarrow> u32" where
  "sli_word s =
     push_bit 19 (ucast (sli_first s) AND 0x1FFF) OR push_bit 6 (ucast (sli_number s) AND 0x1FFF) OR
     (ucast (sli_picture s) AND 0x3F)"

definition put_sli_entry :: "sli_entry \<Rightarrow> u8 list" where
  "put_sli_entry s = put_u32 (sli_word s)"

definition sli_marshal_to :: "slice_loss_indication \<Rightarrow> nat \<Rightarrow> (u8 list \<times> nat) result" where
  "sli_marshal_to p cap =
     (if (of_nat (length (sli_entries p) + SLI_LENGTH) :: u8) > 255 then Err TooManyReports
      else if cap < sli_marshal_size p then Err BufferTooShort
      else rtcp_put (sli_header p)
        (put_u32 (sli_sender_ssrc p) @ put_u32 (sli_media_ssrc p) @ concat (map put_sli_entry (sli_entries p)))
        (sli_raw_size p) (sli_marshal_size p) cap)"

definition get_sli_entry :: "u8 list \<Rightarrow> (sli_entry \<times> u8 list) result" where
  "get_sli_entry raw_packet = and_then (get_u32 raw_packet) (\<lambda>(sli, raw_packet).
     Ok (\<lparr>sli_first = ucast (drop_bit 19 sli AND 0x1FFF), sli_number = ucast (drop_bit 6 sli AND 0x1FFF),
          sli_picture = ucast (sli AND 0x3F)\<rparr>, raw_packet))"

function unmarshal_sli_entries :: "nat \<Rightarrow> nat \<Rightarrow> u8 list \<Rightarrow> (sli_entry list \<times> u8 list) result" where
  "unmarshal_sli_entries i end raw_packet =
     (if i < end then
        and_then (get_sli_entry raw_packet) (\<lambda>(e, raw_packet).
        and_then (unmarshal_sli_entries (i + 4) end raw_packet) (\<lambda>(es, raw_packet). Ok (e # es, raw_packet)))
      else Ok ([], raw_packet))"
  by auto
termination by (relation "measure (\<lambda>(i, end, _). end - i)") auto

declare unmarshal_sli_entries.simps [simp del]

definition sli_unmarshal :: "u8 list \<Rightarrow> (slice_loss_indication \<times> u8 list) result" where
  "sli_unmarshal raw_packet =
     (let raw_packet_len = length raw_packet in
      if raw_packet_len < RTCP_HEADER_LENGTH + SLI_OFFSET then Err PacketTooShort
      else and_then (rtcp_header_unmarshal raw_packet) (\<lambda>(h, raw_packet).
        if raw_packet_len < RTCP_HEADER_LENGTH + 4 * unat (rtcp_length h) then Err PacketTooShort
        else if rtcp_packet_type h \<noteq> TransportSpecificFeedback \<or> rtcp_count h \<noteq> FORMAT_SLI then Err WrongType
        else and_then (get_u32 raw_packet) (\<lambda>(sender_ssrc, raw_packet).
          and_then (get_u32 raw_packet) (\<lambda>(media_ssrc, raw_packet).
          and_then (unmarshal_sli_entries (RTCP_HEADER_LENGTH + SLI_OFFSET)
              (RTCP_HEADER_LENGTH + unat (rtcp_length h) * 4) raw_packet) (\<lambda>(entries, raw_packet).
          and_then (advance (length raw_packet) raw_packet) (\<lambda>raw_packet.
            Ok (\<lparr>sli_sender_ssrc = sender_ssrc, sli_media_ssrc = media_ssrc, sli_entries = entries\<rparr>, raw_packet)))))))"

text \<open>The loop counts the entries by their offset.\<close>

lemma unmarshal_sli_entries_eq: "unmarshal_sli_entries i (i + 4 * n) bs = get_many get_sli_entry n bs"
proof (induction n arbitrary: i bs)
  case (Suc n)
  have "i + 4 * Suc n = (i + 4) + 4 * n" by simp
  then show ?case
    using Suc.IH [of "i + 4"] by (simp add: unmarshal_sli_entries.simps [of i] add.assoc)
qed (simp add: unmarshal_sli_entries.simps)

definition sli_entry_wf :: "sli_entry \<Rightarrow> bool" where
  "sli_entry_wf s \<longleftrightarrow> sli_first s < 2 ^ 13 \<and> sli_number s < 2 ^ 13 \<and> sli_picture s < 2 ^ 6"

lemma sli_fields:
  assumes "sli_entry_wf s"
  shows "ucast (drop_bit 19 (sli_word s) AND 0x1FFF) = sli_first s"
    "ucast (drop_bit 6 (sli_word s) AND 0x1FFF) = sli_number s"
    "ucast (sli_word s AND 0x3F) = sli_picture s"
proof -
  have b: "bit (sli_first s) n \<Longrightarrow> n < 13" "bit (sli_number s) n \<Longrightarrow> n < 13" "bit (sli_picture s) n \<Longrightarrow> n < 6" for n
    using assms(1) bit_less_exp by (auto simp only: sli_entry_wf_def)
  show "ucast (drop_bit 19 (sli_word s) AND 0x1FFF) = sli_first s"
    unfolding sli_word_def field_masks by (rule bit_word_eqI) (auto simp: bit_simps dest: b)
  show "ucast (drop_bit 6 (sli_word s) AND 0x1FFF) = sli_number s"
    unfolding sli_word_def field_masks by (rule bit_word_eqI) (auto simp: bit_simps dest: b)
  show "ucast (sli_word s AND 0x3F) = sli_picture s"
    unfolding sli_word_def field_masks by (rule bit_word_eqI) (auto simp: bit_simps dest: b)
qed

interpretation sli_entry_codec: element_codec put_sli_entry get_sli_entry sli_entry_wf 4
  by unfold_locales (simp_all add: put_sli_entry_def get_sli_entry_def sli_fields reads)

definition sli_wf :: "slice_loss_indication \<Rightarrow> bool" where
  "sli_wf p \<longleftrightarrow> (\<forall>e\<in>set (sli_entries p). sli_entry_wf e) \<and> length (sli_entries p) \<le> 65000"

definition sli_body :: "slice_loss_indication \<Rightarrow> u8 list" where
  "sli_body p =
     put_u32 (sli_sender_ssrc p) @ put_u32 (sli_media_ssrc p) @ concat (map put_sli_entry (sli_entries p))"

lemma u8_not_above_max: "\<not> 255 < (x :: u8)"
  using unat_bounds(1) [of x] by (simp add: word_less_nat_alt)

lemma length_sli_body [simp]: "length (sli_body p) = 8 + 4 * length (sli_entries p)"
  by (simp add: sli_body_def sli_entry_codec.concat_length)

lemma sli_body_parses:
  assumes "sli_wf p"
  shows "sli_unmarshal (rtcp_header_bytes (sli_header p) @ rtcp_body (sli_body p)) = Ok (p, [])"
proof -
  let ?n = "length (sli_entries p)"
  have raw: "sli_raw_size p = 12 + 4 * ?n" by (simp add: sli_raw_size_def)
  have "4 * unat (rtcp_length (sli_header p)) = 8 + 4 * ?n"
    using assms rtcp_length_for [of "sli_raw_size p"] by (simp add: sli_header_def raw sli_wf_def)
  then have len: "unat (rtcp_length (sli_header p)) = 2 + ?n" by simp
  have "get_many get_sli_entry ?n (concat (map put_sli_entry (sli_entries p)) @ []) = Ok (sli_entries p, [])"
    using assms by (intro sli_entry_codec.get_many_concat) (simp add: sli_wf_def)
  then have entries: "unmarshal_sli_entries 12 (12 + 4 * ?n) (concat (map put_sli_entry (sli_entries p))) = Ok (sli_entries p, [])"
    by (simp only: unmarshal_sli_entries_eq append_Nil2)
  have head: "rtcp_header_wf (sli_header p)" "rtcp_packet_type (sli_header p) = TransportSpecificFeedback"
    "rtcp_count (sli_header p) = 2"
    by (simp_all add: sli_header_def)
  show ?thesis
    using head len entries sli_entry_codec.concat_length [of "sli_entries p"]
    by (simp add: sli_unmarshal_def Let_def) (simp add: sli_body_def mult.commute)
qed

interpretation sli_codec: rtcp_codec sli_marshal_size sli_marshal_to sli_unmarshal sli_wf sli_header
proof (rule rtcp_codecI [where raw_size = sli_raw_size and count = "\<lambda>_. FORMAT_SLI"
      and ptype = "\<lambda>_. TransportSpecificFeedback" and body = sli_body], goal_cases)
  case (6 p cap)
  then show ?case by (simp add: sli_marshal_to_def u8_not_above_max sli_body_def)
next
  case (8 p)
  then show ?case by (rule sli_body_parses)
qed (auto simp: sli_marshal_size_def sli_raw_size_def sli_header_def sli_marshal_to_def
    sli_wf_def u8_not_above_max Let_def)

interpretation sli_decoder: robust_decoder sli_unmarshal
proof (rule robust_decoderI)
  fix bs
  have entries: "safe bs (and_then (unmarshal_sli_entries 12 (4 + n * 4) (drop 12 bs)) (\<lambda>(es, raw_packet).
      Ok (\<lparr>sli_sender_ssrc = a, sli_media_ssrc = b, sli_entries = es\<rparr>, [])))"
    if n: "4 + 4 * n \<le> length bs" for n a b
  proof (cases "2 \<le> n")
    case True
    then have "4 + n * 4 = 12 + 4 * (n - 2)" by simp
    moreover have "(n - 2) * 4 \<le> length (drop 12 bs)" using n True by simp
    then obtain es where "get_many get_sli_entry (n - 2) (drop 12 bs) = Ok (es, drop ((n - 2) * 4) (drop 12 bs))"
      using sli_entry_codec.get_many_total by blast
    ultimately show ?thesis by (simp only: unmarshal_sli_entries_eq) simp
  qed (simp add: unmarshal_sli_entries.simps)
  show "safe bs (sli_unmarshal bs)"
    unfolding sli_unmarshal_def Let_def
    by (cases "12 \<le> length bs") (auto simp: reads intro!: safe_rtcp_header entries)
qed

section \<open>Full intra request\<close>

definition FIR_OFFSET :: nat where [simp]: "FIR_OFFSET = 8"

record fir_entry =
  fe_ssrc :: u32
  fe_sequence_number :: u8

record full_intra_request =
  fir_sender_ssrc :: u32
  fir_media_ssrc :: u32
  fir_entries :: "fir_entry list"

definition fir_raw_size :: "full_intra_request \<Rightarrow> nat" where
  "fir_raw_size p = RTCP_HEADER_LENGTH + FIR_OFFSET + length (fir_entries p) * 8"

definition fir_marshal_size :: "full_intra_request \<Rightarrow> nat" where
  "fir_marshal_size p = (let l = fir_raw_size p in l + get_padding_size l)"

definition fir_header :: "full_intra_request \<Rightarrow> rtcp_header" where
  "fir_header p = rtcp_header_for FORMAT_FIR PayloadSpecificFeedback (fir_raw_size p)"

definition fir_destination_ssrc :: "full_intra_request \<Rightarrow> u32 list" where
  "fir_destination_ssrc p = map fe_ssrc (fir_entries p)"

definition put_fir_entry :: "fir_entry \<Rightarrow> u8 list" where
  "put_fir_entry e = put_u32 (fe_ssrc e) @ put_u8 (fe_sequence_number e) @ put_u8 0 @ put_u16 0"

definition fir_marshal_to :: "full_intra_request \<Rightarrow> nat \<Rightarrow> (u8 list \<times> nat) result" where
  "fir_marshal_to p cap =
     (if cap < fir_marshal_size p then Err BufferTooShort
      else rtcp_put (fir_header p)
        (put_u32 (fir_sender_ssrc p) @ put_u32 (fir_media_ssrc p) @ concat (map put_fir_entry (fir_entries p)))
        (fir_raw_size p) (fir_marshal_size p) cap)"

definition get_fir_entry :: "u8 list \<Rightarrow> (fir_entry \<times> u8 list) result" where
  "get_fir_entry raw_packet =
     and_then (get_u32 raw_packet) (\<lambda>(ssrc, raw_packet).
     and_then (get_u8 raw_packet) (\<lambda>(sequence_number, raw_packet).
     and_then (get_u8 raw_packet) (\<lambda>(_, raw_packet).
     and_then (get_u16 raw_packet) (\<lambda>(_, raw_packet).
       Ok (\<lparr>fe_ssrc = ssrc, fe_sequence_number = sequence_number\<rparr>, raw_packet)))))"

function unmarshal_fir_entries :: "nat \<Rightarrow> nat \<Rightarrow> u8 list \<Rightarrow> (fir_entry list \<times> u8 list) result" where
  "unmarshal_fir_entries i end raw_packet =
     (if i < end then
        if length raw_packet < 8 then Err PacketTooShort
        else and_then (get_fir_entry raw_packet) (\<lambda>(e, raw_packet).
          and_then (unmarshal_fir_entries (i + 8) end raw_packet) (\<lambda>(es, raw_packet). Ok (e # es, raw_packet)))
      else Ok ([], raw_packet))"
  by auto
termination by (relation "measure (\<lambda>(i, end, _). end - i)") auto

declare unmarshal_fir_entries.simps [simp del]

text \<open>The bound \<open>(h.length * 4) as usize\<close> is computed on 16 bits.\<close>

definition fir_unmarshal :: "u8 list \<Rightarrow> (full_intra_request \<times> u8 list) result" where
  "fir_unmarshal raw_packet =
     (let raw_packet_len = length raw_packet in
      if raw_packet_len < FIR_MIN_OCTET_COUNT then Err PacketTooShort
      else and_then (rtcp_header_unmarshal raw_packet) (\<lambda>(h, raw_packet).
        if RTCP_HEADER_LENGTH + 4 * unat (rtcp_length h) < FIR_MIN_OCTET_COUNT then Err InvalidHeader
        else if raw_packet_len < RTCP_HEADER_LENGTH + 4 * unat (rtcp_length h) then Err PacketTooShort
        else if rtcp_packet_type h \<noteq> PayloadSpecificFeedback \<or> rtcp_count h \<noteq> FORMAT_FIR then Err WrongType
        else and_then (get_u32 raw_packet) (\<lambda>(sender_ssrc, raw_packet).
          and_then (get_u32 raw_packet) (\<lambda>(media_ssrc, raw_packet).
          and_then (unmarshal_fir_entries (RTCP_HEADER_LENGTH + FIR_OFFSET)
              (RTCP_HEADER_LENGTH + unat (rtcp_length h * 4)) raw_packet) (\<lambda>(entries, raw_packet).
          and_then (advance (length raw_packet) raw_packet) (\<lambda>raw_packet.
            Ok (\<lparr>fir_sender_ssrc = sender_ssrc, fir_media_ssrc = media_ssrc, fir_entries = entries\<rparr>, raw_packet)))))))"

definition fir_wf :: "full_intra_request \<Rightarrow> bool" where
  "fir_wf p \<longleftrightarrow> fir_entries p \<noteq> [] \<and> length (fir_entries p) \<le> 8190"

definition fir_body :: "full_intra_request \<Rightarrow> u8 list" where
  "fir_body p =
     put_u32 (fir_sender_ssrc p) @ put_u32 (fir_media_ssrc p) @ concat (map put_fir_entry (fir_entries p))"

interpretation fir_entry_codec: element_codec put_fir_entry get_fir_entry "\<lambda>_. True" 8
  by unfold_locales (simp_all add: put_fir_entry_def get_fir_entry_def reads)

lemma unmarshal_fir_entries_eq:
  "n * 8 \<le> length bs \<Longrightarrow> unmarshal_fir_entries i (i + 8 * n) bs = get_many get_fir_entry n bs"
proof (induction n arbitrary: i bs)
  case (Suc n)
  then obtain e where e: "get_fir_entry bs = Ok (e, drop 8 bs)"
    using fir_entry_codec.dec_total [of bs] by auto
  have "i + 8 * Suc n = (i + 8) + 8 * n" by simp
  moreover have "unmarshal_fir_entries (i + 8) (i + 8 + 8 * n) (drop 8 bs) = get_many get_fir_entry n (drop 8 bs)"
    using Suc.prems by (intro Suc.IH) simp
  ultimately show ?case
    using Suc.prems e by (simp add: unmarshal_fir_entries.simps [of i] add.assoc)
qed (simp add: unmarshal_fir_entries.simps)

lemma length_fir_body [simp]: "length (fir_body p) = 8 + 8 * length (fir_entries p)"
  by (simp add: fir_body_def fir_entry_codec.concat_length)

lemma fir_header_length:
  assumes "length (fir_entries p) \<le> 32000"
  shows "unat (rtcp_length (fir_header p)) = 2 + 2 * length (fir_entries p)"
proof -
  have raw: "fir_raw_size p = 4 * (3 + 2 * length (fir_entries p))" by (simp add: fir_raw_size_def)
  have "4 * unat (rtcp_length (fir_header p)) = 8 + 8 * length (fir_entries p)"
    using assms rtcp_length_for [of "fir_raw_size p"] by (simp add: fir_header_def raw)
  then show ?thesis by simp
qed

lemma fir_body_parses:
  assumes "fir_wf p"
  shows "fir_unmarshal (rtcp_header_bytes (fir_header p) @ rtcp_body (fir_body p)) = Ok (p, [])"
proof -
  let ?n = "length (fir_entries p)" let ?es = "concat (map put_fir_entry (fir_entries p))"
  have n: "0 < ?n" "?n \<le> 8190" using assms by (simp_all add: fir_wf_def)
  have len: "unat (rtcp_length (fir_header p)) = 2 + 2 * ?n"
    using n by (intro fir_header_length) simp
  then have len4: "unat (rtcp_length (fir_header p) * 4) = 8 + 8 * ?n"
    using n by (simp add: unat_word_ariths)
  have "get_many get_fir_entry ?n (?es @ []) = Ok (fir_entries p, [])"
    by (intro fir_entry_codec.get_many_concat) simp
  then have entries: "unmarshal_fir_entries 12 (12 + 8 * ?n) ?es = Ok (fir_entries p, [])"
    using unmarshal_fir_entries_eq [of ?n ?es 12] by (simp add: fir_entry_codec.concat_length)
  have head: "rtcp_header_wf (fir_header p)" "rtcp_packet_type (fir_header p) = PayloadSpecificFeedback"
    "rtcp_count (fir_header p) = 4"
    by (simp_all add: fir_header_def)
  have aligned: "rtcp_body (fir_body p) = fir_body p"
    by (rule rtcp_body_aligned) (simp add: mod_add_eq [symmetric])
  show ?thesis
    using head len len4 n entries
    by (simp add: fir_unmarshal_def Let_def aligned) (simp add: fir_body_def)
qed

interpretation fir_codec: rtcp_codec fir_marshal_size fir_marshal_to fir_unmarshal fir_wf fir_header
proof (rule rtcp_codecI [where raw_size = fir_raw_size and count = "\<lambda>_. FORMAT_FIR"
      and ptype = "\<lambda>_. PayloadSpecificFeedback" and body = fir_body], goal_cases)
  case (6 p cap)
  then show ?case by (simp add: fir_marshal_to_def fir_body_def)
next
  case (8 p)
  then show ?case by (rule fir_body_parses)
qed (auto simp: fir_marshal_size_def fir_raw_size_def fir_header_def fir_marshal_to_def fir_wf_def Let_def)

lemma safe_unmarshal_fir_entries: "safe bs (unmarshal_fir_entries i end bs)"
proof (induction i "end" bs rule: unmarshal_fir_entries.induct)
  case (1 i "end" bs)
  show ?case
  proof (cases "i < end \<and> 8 \<le> length bs")
    case True
    then obtain e where e: "get_fir_entry bs = Ok (e, drop 8 bs)"
      using fir_entry_codec.dec_total [of bs] by auto
    then have "safe (drop 8 bs) (unmarshal_fir_entries (i + 8) end (drop 8 bs))"
      using 1 True by simp
    then have "safe bs (and_then (unmarshal_fir_entries (i + 8) end (drop 8 bs)) (\<lambda>(es, r). Ok (e # es, r)))"
      by (intro safe_drop [of 8 bs, OF safe_and_then]) auto
    with True e show ?thesis by (simp add: unmarshal_fir_entries.simps [of i])
  qed (auto simp: unmarshal_fir_entries.simps [of i])
qed

interpretation fir_decoder: robust_decoder fir_unmarshal
proof (rule robust_decoderI)
  fix bs
  have entries: "safe bs (and_then (unmarshal_fir_entries i n (drop 12 bs)) (\<lambda>(es, raw_packet).
      Ok (\<lparr>fir_sender_ssrc = a, fir_media_ssrc = b, fir_entries = es\<rparr>, [])))" for i n a b
    by (rule safe_drop [of 12], rule safe_and_then [OF safe_unmarshal_fir_entries]) simp
  show "safe bs (fir_unmarshal bs)"
    unfolding fir_unmarshal_def Let_def
    by (cases "20 \<le> length bs") (auto simp: reads intro!: safe_rtcp_header entries)
qed

section \<open>Properties\<close>

lemma nack_pairs_denote:
  "(\<Union>q\<in>set (nack_pairs_from_sequence_numbers seq_nos). set (packet_list q)) = set seq_nos"
proof -
  have new: "set (packet_list (nack_pair_new seq)) = {seq}" for seq
    by (auto simp: set_packet_list nack_pair_new_def)
  show ?thesis by (cases seq_nos) (simp_all add: nack_pairs_from_sequence_numbers_def set_pack_nacks new)
qed

text \<open>
  C21: The pairs built from any list of lost sequence numbers denote exactly the numbers of the list.
  On a list in increasing order they enumerate it in order, and no smaller collection of pairs that
  stay inside the range of sequence numbers denotes the same set.
\<close>

theorem nack_pairs_exact:
  "(\<Union>q\<in>set (nack_pairs_from_sequence_numbers seq_nos). set (packet_list q)) = set seq_nos \<and>
   (sorted_wrt (<) seq_nos \<longrightarrow>
     concat (map packet_list (nack_pairs_from_sequence_numbers seq_nos)) = seq_nos \<and>
     (\<forall>qs. (\<forall>q\<in>set qs. unwrapped_pair q) \<and> (\<Union>q\<in>set qs. set (packet_list q)) = set seq_nos \<longrightarrow>
        length (nack_pairs_from_sequence_numbers seq_nos) \<le> length qs))"
proof (intro conjI impI)
  show denote: "(\<Union>q\<in>set (nack_pairs_from_sequence_numbers seq_nos). set (packet_list q)) = set seq_nos"
    by (rule nack_pairs_denote)
  assume inc: "sorted_wrt (<) seq_nos"
  show "concat (map packet_list (nack_pairs_from_sequence_numbers seq_nos)) = seq_nos"
    by (rule nack_pairs_increasing(1) [OF inc])
  have "set (map np_packet_id (nack_pairs_from_sequence_numbers seq_nos)) \<subseteq> set seq_nos"
    using denote by (auto simp: set_packet_list)
  with fewest_pairs [OF nack_pairs_increasing(2) [OF inc]]
  show "\<forall>qs. (\<forall>q\<in>set qs. unwrapped_pair q) \<and> (\<Union>q\<in>set qs. set (packet_list q)) = set seq_nos \<longrightarrow>
      length (nack_pairs_from_sequence_numbers seq_nos) \<le> length qs"
    by auto
qed

theorem nack_pairs_exact_witness:
  "sorted_wrt (<) [3, 5, 19, 20 :: u16] \<and>
   concat (map packet_list (nack_pairs_from_sequence_numbers [3, 5, 19, 20])) = [3, 5, 19, 20]"
proof
  show "sorted_wrt (<) [3, 5, 19, 20 :: u16]" by simp
  then show "concat (map packet_list (nack_pairs_from_sequence_numbers [3, 5, 19, 20])) = [3, 5, 19, 20]"
    using nack_pairs_exact [of "[3, 5, 19, 20]"] by blast
qed

text \<open>
  Across the end of the sequence numbers the packing is not the smallest: the losses 65535 and 0
  take two pairs, although one pair denotes both.
\<close>

theorem nack_pairs_wrap_not_smallest:
  "nack_pairs_from_sequence_numbers [65535, 0] = [nack_pair_new 65535, nack_pair_new 0] \<and>
   packet_list \<lparr>np_packet_id = 65535, np_lost_packets = 1\<rparr> = [65535, 0]"
  by (simp add: nack_pairs_from_sequence_numbers_def nack_pair_new_def packet_list_eq upt_rec)

text \<open>
  A full intra request with 8191 to 32000 entries is encoded without an error, but its decoder
  computes the end of the entries modulo 65536: with 8191 entries it returns none of them.
\<close>

theorem fir_length_wraps:
  assumes "length (fir_entries p) = 8191"
  shows "\<exists>bs. marshal (fir_marshal_size p) (fir_marshal_to p) = Ok bs \<and>
    fir_unmarshal bs = Ok (p\<lparr>fir_entries := []\<rparr>, [])"
proof -
  have raw: "fir_raw_size p = 4 + length (fir_body p)" "fir_marshal_size p = fir_raw_size p + get_padding_size (fir_raw_size p)"
    by (simp_all add: fir_raw_size_def fir_marshal_size_def Let_def)
  have aligned: "rtcp_body (fir_body p) = fir_body p"
    by (rule rtcp_body_aligned) (simp add: mod_add_eq [symmetric])
  have put: "fir_marshal_to p (fir_marshal_size p) =
      Ok (rtcp_header_bytes (fir_header p) @ fir_body p, fir_marshal_size p)"
    using rtcp_put_eq [of FORMAT_FIR "fir_raw_size p" "fir_body p" "fir_marshal_size p" PayloadSpecificFeedback] raw
    by (simp add: fir_marshal_to_def fir_header_def aligned fir_body_def [symmetric])
  have "length (rtcp_header_bytes (fir_header p) @ fir_body p) = fir_marshal_size p"
    using assms by (simp add: raw get_padding_size_def)
  with put have "marshal (fir_marshal_size p) (fir_marshal_to p) = Ok (rtcp_header_bytes (fir_header p) @ fir_body p)"
    by (simp add: marshal_def)
  moreover have len: "unat (rtcp_length (fir_header p)) = 16384"
    using fir_header_length [of p] assms by simp
  then have "unat (rtcp_length (fir_header p) * 4) = 0"
    by (simp add: unat_word_ariths)
  moreover have "rtcp_header_wf (fir_header p)" "rtcp_packet_type (fir_header p) = PayloadSpecificFeedback"
    "rtcp_count (fir_header p) = 4"
    by (simp_all add: fir_header_def)
  ultimately have "fir_unmarshal (rtcp_header_bytes (fir_header p) @ fir_body p) = Ok (p\<lparr>fir_entries := []\<rparr>, [])"
    using len assms
    by (simp add: fir_unmarshal_def Let_def unmarshal_fir_entries.simps [of 12]) (simp add: fir_body_def)
  with \<open>marshal _ _ = _\<close> show ?thesis by blast
qed

theorem fir_length_wraps_witness:
  "length (fir_entries \<lparr>fir_sender_ssrc = 1, fir_media_ssrc = 2,
      fir_entries = replicate 8191 \<lparr>fe_ssrc = 7, fe_sequence_number = 0\<rparr>\<rparr>) = 8191 \<and>
   (\<exists>bs. fir_unmarshal bs = Ok (\<lparr>fir_sender_ssrc = 1, fir_media_ssrc = 2, fir_entries = []\<rparr>, []))"
  using fir_length_wraps [of "\<lparr>fir_sender_ssrc = 1, fir_media_ssrc = 2,
      fir_entries = replicate 8191 \<lparr>fe_ssrc = 7, fe_sequence_number = 0\<rparr>\<rparr>"] by auto

end
