(* ===== verification/Rtcp_Transport_Cc.thy ===== *)
theory Rtcp_Transport_Cc
  imports Rtcp_Header
begin

text \<open>
  Transport-wide congestion control feedback
  (\<open>rtc-rtcp/src/transport_feedbacks/transport_layer_cc/mod.rs\<close>) and the bit field helpers of
  \<open>rtc-rtcp/src/util.rs\<close> it packs its chunks with. The decoder runs two loops: one over the status
  chunks until the announced number of packets is described, which collects the kind of each receive
  delta, and one over the deltas. The first loop recurses on the distance of its position to the end
  of the packet, because a run of length zero makes no progress on the number of packets.
\<close>

unbundle bit_operations_syntax

section \<open>Bit field helpers\<close>

definition set_nbits_of_uint16 :: "u16 \<Rightarrow> nat \<Rightarrow> nat \<Rightarrow> u16 \<Rightarrow> u16 result" where
  "set_nbits_of_uint16 src sz start_index val =
     (if start_index + sz > 16 then Err InvalidSizeOrStartIndex
      else
        let val = val AND (push_bit sz 1 - 1) in
        Ok (src OR push_bit (16 - sz - start_index) val))"

definition append_nbits_to_uint32 :: "u32 \<Rightarrow> nat \<Rightarrow> u32 \<Rightarrow> u32" where
  "append_nbits_to_uint32 src n val = push_bit n src OR (val AND drop_bit (32 - n) 0xFFFFFFFF)"

definition get_nbits_from_byte :: "u8 \<Rightarrow> nat \<Rightarrow> nat \<Rightarrow> u16" where
  "get_nbits_from_byte b begin n =
     (let end_shift = 8 - (begin + n); m = drop_bit begin 0xFF AND push_bit end_shift 0xFF in
      drop_bit end_shift (ucast (b AND m)))"

definition get_24bits_from_bytes :: "u8 \<Rightarrow> u8 \<Rightarrow> u8 \<Rightarrow> u32" where
  "get_24bits_from_bytes b0 b1 b2 = push_bit 16 (ucast b0) + push_bit 8 (ucast b1) + ucast b2"

lemma bit_set_nbits:
  assumes "start_index + sz \<le> 16"
  shows "\<exists>w. set_nbits_of_uint16 src sz start_index val = Ok w \<and>
    (\<forall>n. bit w n \<longleftrightarrow> bit src n \<or> 16 - sz - start_index \<le> n \<and> n < 16 - start_index \<and>
       bit val (n - (16 - sz - start_index)))"
proof -
  have m: "push_bit sz 1 - 1 = (mask sz :: u16)"
    by (simp add: mask_eq_exp_minus_1)
  show ?thesis
    using assms unfolding set_nbits_of_uint16_def m Let_def by (auto simp: bit_simps)
qed

lemma bit_get_nbits:
  assumes "begin + n \<le> 8"
  shows "bit (get_nbits_from_byte b begin n) i \<longleftrightarrow> i < n \<and> bit b (8 - (begin + n) + i)"
proof -
  have m: "(0xFF :: u8) = mask 8" by (simp add: mask_eq_exp_minus_1)
  show ?thesis
    using assms unfolding get_nbits_from_byte_def m Let_def
    by (auto simp: bit_simps dest: bit_imp_le_length)
qed

lemma get_nbits_one: "begin < 8 \<Longrightarrow> get_nbits_from_byte b begin 1 = of_bool (bit b (7 - begin))"
  by (rule bit_word_eqI) (auto simp: bit_get_nbits bit_simps)

section \<open>Symbols and chunks\<close>

datatype status_chunk_type_tcc = RunLengthChunkType | StatusVectorChunkType

datatype symbol_type_tcc =
  PacketNotReceived | PacketReceivedSmallDelta | PacketReceivedLargeDelta | PacketReceivedWithoutDelta

datatype symbol_size_type_tcc = OneBit | TwoBit

definition symbol_size_from :: "u16 \<Rightarrow> symbol_size_type_tcc" where
  "symbol_size_from val = (if val = 0 then OneBit else TwoBit)"

definition status_chunk_type_from :: "u16 \<Rightarrow> status_chunk_type_tcc" where
  "status_chunk_type_from val = (if val = 0 then RunLengthChunkType else StatusVectorChunkType)"

definition symbol_type_from :: "u16 \<Rightarrow> symbol_type_tcc" where
  "symbol_type_from val =
     (if val = 0 then PacketNotReceived else if val = 1 then PacketReceivedSmallDelta
      else if val = 2 then PacketReceivedLargeDelta else PacketReceivedWithoutDelta)"

fun symbol_type_as_u16 :: "symbol_type_tcc \<Rightarrow> u16" where
  "symbol_type_as_u16 PacketNotReceived = 0"
| "symbol_type_as_u16 PacketReceivedSmallDelta = 1"
| "symbol_type_as_u16 PacketReceivedLargeDelta = 2"
| "symbol_type_as_u16 PacketReceivedWithoutDelta = 3"

fun symbol_size_as_u16 :: "symbol_size_type_tcc \<Rightarrow> u16" where
  "symbol_size_as_u16 OneBit = 0"
| "symbol_size_as_u16 TwoBit = 1"

fun num_of_bits_of_symbol_size :: "symbol_size_type_tcc \<Rightarrow> nat" where
  "num_of_bits_of_symbol_size OneBit = 1"
| "num_of_bits_of_symbol_size TwoBit = 2"

definition PACKET_STATUS_CHUNK_LENGTH :: nat where [simp]: "PACKET_STATUS_CHUNK_LENGTH = 2"

record run_length_chunk =
  rl_type_tcc :: status_chunk_type_tcc
  rl_packet_status_symbol :: symbol_type_tcc
  rl_run_length :: u16

record status_vector_chunk =
  sv_type_tcc :: status_chunk_type_tcc
  sv_symbol_size :: symbol_size_type_tcc
  sv_symbol_list :: "symbol_type_tcc list"

datatype packet_status_chunk =
  RunLengthChunk run_length_chunk | StatusVectorChunk status_vector_chunk

definition run_length_chunk_marshal_to :: "run_length_chunk \<Rightarrow> nat \<Rightarrow> (u8 list \<times> nat) result" where
  "run_length_chunk_marshal_to c cap =
     and_then (set_nbits_of_uint16 0 1 0 0) (\<lambda>dst.
     and_then (set_nbits_of_uint16 dst 2 1 (symbol_type_as_u16 (rl_packet_status_symbol c))) (\<lambda>dst.
     and_then (set_nbits_of_uint16 dst 13 3 (rl_run_length c)) (\<lambda>dst.
       put_all cap (put_u16 dst) PACKET_STATUS_CHUNK_LENGTH)))"

definition run_length_chunk_unmarshal :: "u8 list \<Rightarrow> (run_length_chunk \<times> u8 list) result" where
  "run_length_chunk_unmarshal raw_packet =
     (if length raw_packet < PACKET_STATUS_CHUNK_LENGTH then Err PacketStatusChunkLength
      else and_then (get_u8 raw_packet) (\<lambda>(b0, raw_packet).
        and_then (get_u8 raw_packet) (\<lambda>(b1, raw_packet).
          Ok (\<lparr>rl_type_tcc = RunLengthChunkType,
               rl_packet_status_symbol = symbol_type_from (get_nbits_from_byte b0 1 2),
               rl_run_length = push_bit 8 (get_nbits_from_byte b0 3 5) + ucast b1\<rparr>, raw_packet))))"

text \<open>The loop that packs the symbols of a vector, from the index \<open>i\<close> on.\<close>

fun put_symbols :: "nat \<Rightarrow> nat \<Rightarrow> symbol_type_tcc list \<Rightarrow> u16 \<Rightarrow> u16 result" where
  "put_symbols num_of_bits i [] dst = Ok dst"
| "put_symbols num_of_bits i (s # ss) dst =
     and_then (set_nbits_of_uint16 dst num_of_bits (num_of_bits * i + 2) (symbol_type_as_u16 s))
       (put_symbols num_of_bits (i + 1) ss)"

definition status_vector_chunk_marshal_to :: "status_vector_chunk \<Rightarrow> nat \<Rightarrow> (u8 list \<times> nat) result" where
  "status_vector_chunk_marshal_to c cap =
     and_then (set_nbits_of_uint16 0 1 0 1) (\<lambda>dst.
     and_then (set_nbits_of_uint16 dst 1 1 (symbol_size_as_u16 (sv_symbol_size c))) (\<lambda>dst.
     and_then (put_symbols (num_of_bits_of_symbol_size (sv_symbol_size c)) 0 (sv_symbol_list c) dst) (\<lambda>dst.
       put_all cap (put_u16 dst) PACKET_STATUS_CHUNK_LENGTH)))"

definition status_vector_chunk_unmarshal :: "u8 list \<Rightarrow> (status_vector_chunk \<times> u8 list) result" where
  "status_vector_chunk_unmarshal raw_packet =
     (if length raw_packet < PACKET_STATUS_CHUNK_LENGTH then Err PacketBeforeCname
      else and_then (get_u8 raw_packet) (\<lambda>(b0, raw_packet).
        and_then (get_u8 raw_packet) (\<lambda>(b1, raw_packet).
          let symbol_size = symbol_size_from (get_nbits_from_byte b0 1 1);
              symbol_list =
                (case symbol_size of
                   OneBit \<Rightarrow> map (\<lambda>i. symbol_type_from (get_nbits_from_byte b0 (2 + i) 1)) [0..<6] @
                     map (\<lambda>i. symbol_type_from (get_nbits_from_byte b1 i 1)) [0..<8]
                 | TwoBit \<Rightarrow> map (\<lambda>i. symbol_type_from (get_nbits_from_byte b0 (2 + i * 2) 2)) [0..<3] @
                     map (\<lambda>i. symbol_type_from (get_nbits_from_byte b1 (i * 2) 2)) [0..<4])
          in Ok (\<lparr>sv_type_tcc = StatusVectorChunkType, sv_symbol_size = symbol_size,
                  sv_symbol_list = symbol_list\<rparr>, raw_packet))))"

definition packet_status_chunk_marshal_size :: "packet_status_chunk \<Rightarrow> nat" where
  "packet_status_chunk_marshal_size c = PACKET_STATUS_CHUNK_LENGTH"

fun packet_status_chunk_marshal_to :: "packet_status_chunk \<Rightarrow> nat \<Rightarrow> (u8 list \<times> nat) result" where
  "packet_status_chunk_marshal_to (RunLengthChunk c) cap = run_length_chunk_marshal_to c cap"
| "packet_status_chunk_marshal_to (StatusVectorChunk c) cap = status_vector_chunk_marshal_to c cap"

subsection \<open>Chunks survive\<close>

definition symbol_of_bits :: "bool \<Rightarrow> bool \<Rightarrow> symbol_type_tcc" where
  "symbol_of_bits hi lo = (if hi then if lo then PacketReceivedWithoutDelta else PacketReceivedLargeDelta
     else if lo then PacketReceivedSmallDelta else PacketNotReceived)"

lemma bit_symbol:
  "bit (symbol_type_as_u16 s) n \<longleftrightarrow>
     n = 0 \<and> (s = PacketReceivedSmallDelta \<or> s = PacketReceivedWithoutDelta) \<or>
     n = 1 \<and> (s = PacketReceivedLargeDelta \<or> s = PacketReceivedWithoutDelta)"
proof -
  have "bit (2 :: u16) n \<longleftrightarrow> n = 1" using bit_exp_iff [of 1 n, where ?'a = u16]
    by (auto simp del: bit_numeral_word_iff)
  moreover have "bit (3 :: u16) n \<longleftrightarrow> n < 2"
  proof -
    have "(3 :: u16) = mask 2" by (simp add: mask_eq_exp_minus_1)
    then show ?thesis by (simp only: bit_mask_iff) auto
  qed
  ultimately show ?thesis
    by (cases s) (auto simp del: bit_numeral_word_iff simp: bit_simps)
qed

lemma symbol_of_bits_symbol: "symbol_of_bits (bit (symbol_type_as_u16 s) 1) (bit (symbol_type_as_u16 s) 0) = s"
  by (cases s) (simp_all add: bit_symbol symbol_of_bits_def)

lemma symbol_type_from_bits: "(\<And>n. bit v n \<Longrightarrow> n < 2) \<Longrightarrow> symbol_type_from v = symbol_of_bits (bit v 1) (bit v 0)"
proof -
  assume v: "\<And>n. bit v n \<Longrightarrow> n < 2"
  have "v = symbol_type_as_u16 (symbol_of_bits (bit v 1) (bit v 0))"
  proof (rule bit_word_eqI)
    fix n
    show "bit v n = bit (symbol_type_as_u16 (symbol_of_bits (bit v 1) (bit v 0))) n"
      using v [of n] by (cases "n = 0"; cases "n = 1") (auto simp: bit_symbol symbol_of_bits_def)
  qed
  moreover have "symbol_type_from (symbol_type_as_u16 s) = s" for s
    by (cases s) (simp_all add: symbol_type_from_def)
  ultimately show ?thesis by metis
qed

lemma symbol_type_from_one:
  "begin < 8 \<Longrightarrow> symbol_type_from (get_nbits_from_byte b begin 1) = symbol_of_bits False (bit b (7 - begin))"
  by (subst symbol_type_from_bits) (auto simp: bit_get_nbits)

lemma symbol_type_from_two:
  "begin < 7 \<Longrightarrow> symbol_type_from (get_nbits_from_byte b begin 2) = symbol_of_bits (bit b (7 - begin)) (bit b (6 - begin))"
proof -
  assume b: "begin < 7"
  then have "8 - (begin + 2) + 1 = 7 - begin" "8 - (begin + 2) + 0 = 6 - begin" by simp_all
  with b show ?thesis by (subst symbol_type_from_bits) (auto simp: bit_get_nbits)
qed

text \<open>The bits of a packed word, and the bytes it is read from.\<close>

lemma put_symbols_bits:
  "k * (i + length ss) \<le> 14 \<Longrightarrow> 0 < k \<Longrightarrow> \<exists>w. put_symbols k i ss dst = Ok w \<and>
     (\<forall>n. bit w n \<longleftrightarrow> bit dst n \<or> (\<exists>j<length ss. 14 - k * (i + j) - k \<le> n \<and> n < 14 - k * (i + j) \<and>
        bit (symbol_type_as_u16 (ss ! j)) (n - (14 - k * (i + j) - k))))"
proof (induction ss arbitrary: i dst)
  case (Cons s ss)
  have "k * i + 2 + k \<le> 16" using Cons.prems(1) by (simp add: algebra_simps)
  then obtain d where d: "set_nbits_of_uint16 dst k (k * i + 2) (symbol_type_as_u16 s) = Ok d"
    "\<And>n. bit d n \<longleftrightarrow> bit dst n \<or> 14 - k * i - k \<le> n \<and> n < 14 - k * i \<and>
       bit (symbol_type_as_u16 s) (n - (14 - k * i - k))"
    using bit_set_nbits [of "k * i + 2" k dst "symbol_type_as_u16 s"] by (auto simp: algebra_simps)
  obtain w where w: "put_symbols k (i + 1) ss d = Ok w"
    "\<And>n. bit w n \<longleftrightarrow> bit d n \<or> (\<exists>j<length ss. 14 - k * (i + 1 + j) - k \<le> n \<and> n < 14 - k * (i + 1 + j) \<and>
        bit (symbol_type_as_u16 (ss ! j)) (n - (14 - k * (i + 1 + j) - k)))"
    using Cons.IH [of "i + 1" d] Cons.prems by auto
  have "bit w n \<longleftrightarrow> bit dst n \<or> (\<exists>j<length (s # ss). 14 - k * (i + j) - k \<le> n \<and> n < 14 - k * (i + j) \<and>
        bit (symbol_type_as_u16 ((s # ss) ! j)) (n - (14 - k * (i + j) - k)))" for n
    unfolding w(2) d(2) length_Cons Ex_less_Suc2 by auto
  with d(1) w(1) show ?case by auto
qed auto

definition chunk_wf :: "packet_status_chunk \<Rightarrow> bool" where
  "chunk_wf c =
     (case c of
        RunLengthChunk r \<Rightarrow> rl_type_tcc r = RunLengthChunkType \<and> rl_run_length r < 2 ^ 13
      | StatusVectorChunk v \<Rightarrow> sv_type_tcc v = StatusVectorChunkType \<and>
          (case sv_symbol_size v of
             OneBit \<Rightarrow> length (sv_symbol_list v) = 14 \<and>
               (\<forall>s\<in>set (sv_symbol_list v). s = PacketNotReceived \<or> s = PacketReceivedSmallDelta)
           | TwoBit \<Rightarrow> length (sv_symbol_list v) = 7))"

lemma bit_word_bytes:
  "n < 8 \<Longrightarrow> bit (ucast (drop_bit 8 (w :: u16)) :: u8) n = bit w (8 + n)"
  "n < 8 \<Longrightarrow> bit (ucast (w :: u16) :: u8) n = bit w n"
  by (simp_all add: bit_simps)

lemma run_length_chunk_bits:
  "\<exists>w. (\<forall>cap\<ge>2. run_length_chunk_marshal_to c cap = Ok (put_u16 w, 2)) \<and>
     (\<forall>n. bit w n \<longleftrightarrow> n < 13 \<and> bit (rl_run_length c) n \<or>
        13 \<le> n \<and> n < 15 \<and> bit (symbol_type_as_u16 (rl_packet_status_symbol c)) (n - 13))"
proof -
  let ?s = "symbol_type_as_u16 (rl_packet_status_symbol c)"
  have zero: "set_nbits_of_uint16 0 1 0 0 = Ok 0"
    by (simp add: set_nbits_of_uint16_def)
  obtain d where d: "set_nbits_of_uint16 0 2 1 ?s = Ok d"
    "\<And>n. bit d n \<longleftrightarrow> 13 \<le> n \<and> n < 15 \<and> bit ?s (n - 13)"
    using bit_set_nbits [of 1 2 0 ?s] by auto
  obtain w where w: "set_nbits_of_uint16 d 13 3 (rl_run_length c) = Ok w"
    "\<And>n. bit w n \<longleftrightarrow> bit d n \<or> n < 13 \<and> bit (rl_run_length c) n"
    using bit_set_nbits [of 3 13 d "rl_run_length c"] by auto
  show ?thesis
    using zero d w by (auto simp: run_length_chunk_marshal_to_def intro!: exI [of _ w])
qed

lemma run_length_chunk_parses:
  assumes w: "\<And>n. bit w n \<longleftrightarrow> n < 13 \<and> bit (rl_run_length c) n \<or>
        13 \<le> n \<and> n < 15 \<and> bit (symbol_type_as_u16 (rl_packet_status_symbol c)) (n - 13)"
    and "rl_type_tcc c = RunLengthChunkType" "rl_run_length c < 2 ^ 13"
  shows "run_length_chunk_unmarshal (put_u16 w) = Ok (c, [])"
    and "status_chunk_type_from (get_nbits_from_byte (ucast (drop_bit 8 w)) 0 1) = RunLengthChunkType"
proof -
  let ?b0 = "ucast (drop_bit 8 w) :: u8" let ?b1 = "ucast w :: u8"
  have len: "n < 13" if "bit (rl_run_length c) n" for n
    using assms(3) that by (rule bit_less_exp)
  have "symbol_type_from (get_nbits_from_byte ?b0 1 2) = symbol_of_bits (bit w 14) (bit w 13)"
    by (subst symbol_type_from_two) (simp_all add: bit_simps)
  also have "\<dots> = rl_packet_status_symbol c"
    using symbol_of_bits_symbol [of "rl_packet_status_symbol c"] by (simp add: w)
  finally have sym: "symbol_type_from (get_nbits_from_byte ?b0 1 2) = rl_packet_status_symbol c" .
  have "push_bit 8 (get_nbits_from_byte ?b0 3 5) + ucast ?b1 = push_bit 8 (get_nbits_from_byte ?b0 3 5) OR (ucast ?b1 :: u16)"
    by (rule disjunctive_add_eq_or) (rule bit_word_eqI, auto simp: bit_simps)
  also have "\<dots> = rl_run_length c"
  proof (rule bit_word_eqI)
    fix n assume "n < LENGTH(16)"
    then consider "n < 8" | "8 \<le> n" "n < 13" | "13 \<le> n" "n < 16" by fastforce
    then show "bit (push_bit 8 (get_nbits_from_byte ?b0 3 5) OR ucast ?b1) n = bit (rl_run_length c) n"
      using len [of n] w [of n]
      by cases (auto simp: bit_simps bit_get_nbits)
  qed
  finally show "run_length_chunk_unmarshal (put_u16 w) = Ok (c, [])"
    using sym assms(2) by (simp add: run_length_chunk_unmarshal_def put_u16_def)
  have "get_nbits_from_byte ?b0 0 1 = 0"
    by (rule bit_word_eqI) (simp add: bit_get_nbits bit_simps w)
  then show "status_chunk_type_from (get_nbits_from_byte ?b0 0 1) = RunLengthChunkType"
    by (simp add: status_chunk_type_from_def)
qed

definition symbol_bits :: "nat \<Rightarrow> symbol_type_tcc list \<Rightarrow> nat \<Rightarrow> bool" where
  "symbol_bits k ss n \<longleftrightarrow> (\<exists>j<length ss. 14 - k * j - k \<le> n \<and> n < 14 - k * j \<and>
     bit (symbol_type_as_u16 (ss ! j)) (n - (14 - k * j - k)))"

lemma status_vector_chunk_bits:
  assumes "num_of_bits_of_symbol_size (sv_symbol_size c) * length (sv_symbol_list c) \<le> 14"
  shows "\<exists>w. (\<forall>cap\<ge>2. status_vector_chunk_marshal_to c cap = Ok (put_u16 w, 2)) \<and>
     (\<forall>n. bit w n \<longleftrightarrow> n = 15 \<or> n = 14 \<and> sv_symbol_size c = TwoBit \<or>
        symbol_bits (num_of_bits_of_symbol_size (sv_symbol_size c)) (sv_symbol_list c) n)"
proof -
  let ?k = "num_of_bits_of_symbol_size (sv_symbol_size c)"
  obtain a where a: "set_nbits_of_uint16 0 1 0 1 = Ok a" "\<And>n. bit a n \<longleftrightarrow> n = 15"
    using bit_set_nbits [of 0 1 0 1] by (fastforce simp: bit_simps)
  obtain d where d: "set_nbits_of_uint16 a 1 1 (symbol_size_as_u16 (sv_symbol_size c)) = Ok d"
    "\<And>n. bit d n \<longleftrightarrow> bit a n \<or> n = 14 \<and> sv_symbol_size c = TwoBit"
    using bit_set_nbits [of 1 1 a "symbol_size_as_u16 (sv_symbol_size c)"]
    by (cases "sv_symbol_size c") (fastforce simp: bit_simps)+
  have "0 < ?k" by (cases "sv_symbol_size c") simp_all
  then obtain w where w: "put_symbols ?k 0 (sv_symbol_list c) d = Ok w"
    "\<And>n. bit w n \<longleftrightarrow> bit d n \<or> symbol_bits ?k (sv_symbol_list c) n"
    using put_symbols_bits [of ?k 0 "sv_symbol_list c" d] assms by (auto simp: symbol_bits_def)
  show ?thesis
    using a d w by (auto simp: status_vector_chunk_marshal_to_def intro!: exI [of _ w])
qed

lemma symbol_bits_one: "length ss \<le> 14 \<Longrightarrow> j < length ss \<Longrightarrow> symbol_bits 1 ss (13 - j) \<longleftrightarrow> bit (symbol_type_as_u16 (ss ! j)) 0"
proof -
  assume len: "length ss \<le> 14" "j < length ss"
  have "14 - 1 * i - 1 \<le> 13 - j \<and> 13 - j < 14 - 1 * i \<longleftrightarrow> i = j" if "i < length ss" for i
    using that len by auto
  moreover have "13 - j - (14 - 1 * j - 1) = 0" by simp
  ultimately show ?thesis
    unfolding symbol_bits_def using len(2) by metis
qed

lemma symbol_bits_two:
  assumes "length ss \<le> 7" "j < length ss"
  shows "symbol_bits 2 ss (13 - 2 * j) \<longleftrightarrow> bit (symbol_type_as_u16 (ss ! j)) 1"
    and "symbol_bits 2 ss (12 - 2 * j) \<longleftrightarrow> bit (symbol_type_as_u16 (ss ! j)) 0"
proof -
  have hi: "14 - 2 * i - 2 \<le> 13 - 2 * j \<and> 13 - 2 * j < 14 - 2 * i \<longleftrightarrow> i = j"
    and lo: "14 - 2 * i - 2 \<le> 12 - 2 * j \<and> 12 - 2 * j < 14 - 2 * i \<longleftrightarrow> i = j" if "i < length ss" for i
    using that assms by auto
  have at: "13 - 2 * j - (14 - 2 * j - 2) = 1" "12 - 2 * j - (14 - 2 * j - 2) = 0"
    using assms by auto
  show "symbol_bits 2 ss (13 - 2 * j) \<longleftrightarrow> bit (symbol_type_as_u16 (ss ! j)) 1"
    unfolding symbol_bits_def using hi assms(2) at(1) by metis
  show "symbol_bits 2 ss (12 - 2 * j) \<longleftrightarrow> bit (symbol_type_as_u16 (ss ! j)) 0"
    unfolding symbol_bits_def using lo assms(2) at(2) by metis
qed

lemma one_bit_symbols:
  fixes w :: u16
  shows "map (\<lambda>i. symbol_type_from (get_nbits_from_byte (ucast (drop_bit 8 w)) (2 + i) 1)) [0..<6] @
     map (\<lambda>i. symbol_type_from (get_nbits_from_byte (ucast w) i 1)) [0..<8] =
   map (\<lambda>j. symbol_of_bits False (bit w (13 - j))) [0..<14]"
  by (simp add: upt_rec symbol_type_from_one bit_simps del: One_nat_def)

lemma two_bit_symbols:
  fixes w :: u16
  shows "map (\<lambda>i. symbol_type_from (get_nbits_from_byte (ucast (drop_bit 8 w)) (2 + i * 2) 2)) [0..<3] @
     map (\<lambda>i. symbol_type_from (get_nbits_from_byte (ucast w) (i * 2) 2)) [0..<4] =
   map (\<lambda>j. symbol_of_bits (bit w (13 - 2 * j)) (bit w (12 - 2 * j))) [0..<7]"
  by (simp add: upt_rec symbol_type_from_two bit_simps)

lemma status_vector_chunk_parses:
  assumes w: "\<And>n. bit w n \<longleftrightarrow> n = 15 \<or> n = 14 \<and> sv_symbol_size c = TwoBit \<or>
        symbol_bits (num_of_bits_of_symbol_size (sv_symbol_size c)) (sv_symbol_list c) n"
    and wf: "chunk_wf (StatusVectorChunk c)"
  shows "status_vector_chunk_unmarshal (put_u16 w) = Ok (c, [])"
    and "status_chunk_type_from (get_nbits_from_byte (ucast (drop_bit 8 w)) 0 1) = StatusVectorChunkType"
proof -
  let ?b0 = "ucast (drop_bit 8 w) :: u8"
  let ?k = "num_of_bits_of_symbol_size (sv_symbol_size c)"
  have high: "\<not> symbol_bits ?k (sv_symbol_list c) 14"
    by (auto simp: symbol_bits_def)
  have "get_nbits_from_byte ?b0 0 1 = 1"
    by (rule bit_word_eqI) (auto simp: bit_get_nbits bit_simps w)
  then show "status_chunk_type_from (get_nbits_from_byte ?b0 0 1) = StatusVectorChunkType"
    by (simp add: status_chunk_type_from_def)
  have "get_nbits_from_byte ?b0 1 1 = of_bool (sv_symbol_size c = TwoBit)"
    by (rule bit_word_eqI) (auto simp: bit_get_nbits bit_simps w high)
  then have sz: "symbol_size_from (get_nbits_from_byte ?b0 1 1) = sv_symbol_size c"
    by (cases "sv_symbol_size c") (simp_all add: symbol_size_from_def)
  have one: "map (\<lambda>j. symbol_of_bits False (bit w (13 - j))) [0..<14] = sv_symbol_list c" if "sv_symbol_size c = OneBit"
  proof (rule nth_equalityI)
    have len: "length (sv_symbol_list c) = 14"
      and syms: "\<And>s. s \<in> set (sv_symbol_list c) \<Longrightarrow> s = PacketNotReceived \<or> s = PacketReceivedSmallDelta"
      using wf that by (auto simp: chunk_wf_def)
    show "length (map (\<lambda>j. symbol_of_bits False (bit w (13 - j))) [0..<14]) = length (sv_symbol_list c)"
      by (simp add: len)
    fix j assume "j < length (map (\<lambda>j. symbol_of_bits False (bit w (13 - j))) [0..<14])"
    then have j: "j < 14" by simp
    then have "bit w (13 - j) \<longleftrightarrow> bit (symbol_type_as_u16 (sv_symbol_list c ! j)) 0"
      using w [of "13 - j"] that len symbol_bits_one [of "sv_symbol_list c" j] by auto
    moreover have "sv_symbol_list c ! j \<in> set (sv_symbol_list c)" using j len by simp
    ultimately show "map (\<lambda>j. symbol_of_bits False (bit w (13 - j))) [0..<14] ! j = sv_symbol_list c ! j"
      using syms [of "sv_symbol_list c ! j"] j by (auto simp: symbol_of_bits_def bit_symbol)
  qed
  have two: "map (\<lambda>j. symbol_of_bits (bit w (13 - 2 * j)) (bit w (12 - 2 * j))) [0..<7] = sv_symbol_list c"
    if "sv_symbol_size c = TwoBit"
  proof (rule nth_equalityI)
    have len: "length (sv_symbol_list c) = 7"
      using wf that by (auto simp: chunk_wf_def)
    show "length (map (\<lambda>j. symbol_of_bits (bit w (13 - 2 * j)) (bit w (12 - 2 * j))) [0..<7]) = length (sv_symbol_list c)"
      by (simp add: len)
    fix j assume "j < length (map (\<lambda>j. symbol_of_bits (bit w (13 - 2 * j)) (bit w (12 - 2 * j))) [0..<7])"
    then have j: "j < 7" by simp
    then have "bit w (13 - 2 * j) \<longleftrightarrow> bit (symbol_type_as_u16 (sv_symbol_list c ! j)) 1"
      "bit w (12 - 2 * j) \<longleftrightarrow> bit (symbol_type_as_u16 (sv_symbol_list c ! j)) 0"
      using w [of "13 - 2 * j"] w [of "12 - 2 * j"] that len symbol_bits_two [of "sv_symbol_list c" j] by auto
    then show "map (\<lambda>j. symbol_of_bits (bit w (13 - 2 * j)) (bit w (12 - 2 * j))) [0..<7] ! j = sv_symbol_list c ! j"
      using symbol_of_bits_symbol [of "sv_symbol_list c ! j"] j by simp
  qed
  have "sv_type_tcc c = StatusVectorChunkType" using wf by (simp add: chunk_wf_def)
  then show "status_vector_chunk_unmarshal (put_u16 w) = Ok (c, [])"
    using sz one two
    by (cases "sv_symbol_size c")
      (simp_all add: status_vector_chunk_unmarshal_def put_u16_def one_bit_symbols two_bit_symbols Let_def
        del: One_nat_def add_2_eq_Suc)
qed

section \<open>Receive deltas\<close>

text \<open>A delta is an \<open>i64\<close> in microseconds; Rust's division rounds towards zero.\<close>

definition i64_div :: "int \<Rightarrow> int \<Rightarrow> int" where
  "i64_div a b = sgn a * sgn b * (\<bar>a\<bar> div \<bar>b\<bar>)"

definition TYPE_TCC_DELTA_SCALE_FACTOR :: int where [simp]: "TYPE_TCC_DELTA_SCALE_FACTOR = 250"

record recv_delta =
  rd_type_tcc_packet :: symbol_type_tcc
  rd_delta :: int

definition recv_delta_marshal_size :: "recv_delta \<Rightarrow> nat" where
  "recv_delta_marshal_size d =
     (let delta = i64_div (rd_delta d) TYPE_TCC_DELTA_SCALE_FACTOR in
      if rd_type_tcc_packet d = PacketReceivedSmallDelta \<and> delta \<ge> 0 \<and> delta \<le> 255 then 1
      else if rd_type_tcc_packet d = PacketReceivedLargeDelta \<and> delta \<ge> - 32768 \<and> delta \<le> 32767 then 2
      else 0)"

definition recv_delta_marshal_to :: "recv_delta \<Rightarrow> nat \<Rightarrow> (u8 list \<times> nat) result" where
  "recv_delta_marshal_to d cap =
     (let delta = i64_div (rd_delta d) TYPE_TCC_DELTA_SCALE_FACTOR in
      if rd_type_tcc_packet d = PacketReceivedSmallDelta \<and> delta \<ge> 0 \<and> delta \<le> 255 \<and> cap \<ge> 1
      then put_all cap (put_u8 (word_of_int delta)) 1
      else if rd_type_tcc_packet d = PacketReceivedLargeDelta \<and> delta \<ge> - 32768 \<and> delta \<le> 32767 \<and> cap \<ge> 2
      then put_all cap (put_u16 (word_of_int delta)) 2
      else Err DeltaExceedLimit)"

definition recv_delta_unmarshal :: "u8 list \<Rightarrow> (recv_delta \<times> u8 list) result" where
  "recv_delta_unmarshal raw_packet =
     (let chunk_len = length raw_packet in
      if chunk_len \<noteq> 1 \<and> chunk_len \<noteq> 2 then Err DeltaExceedLimit
      else if chunk_len = 1 then and_then (get_u8 raw_packet) (\<lambda>(b, raw_packet).
        Ok (\<lparr>rd_type_tcc_packet = PacketReceivedSmallDelta,
             rd_delta = TYPE_TCC_DELTA_SCALE_FACTOR * uint b\<rparr>, raw_packet))
      else and_then (get_u16 raw_packet) (\<lambda>(b, raw_packet).
        Ok (\<lparr>rd_type_tcc_packet = PacketReceivedLargeDelta,
             rd_delta = TYPE_TCC_DELTA_SCALE_FACTOR * sint b\<rparr>, raw_packet)))"

definition recv_delta_wf :: "recv_delta \<Rightarrow> bool" where
  "recv_delta_wf d \<longleftrightarrow> rd_delta d mod 250 = 0 \<and>
     (rd_type_tcc_packet d = PacketReceivedSmallDelta \<and> 0 \<le> rd_delta d \<and> rd_delta d \<le> 250 * 255 \<or>
      rd_type_tcc_packet d = PacketReceivedLargeDelta \<and> - (250 * 32768) \<le> rd_delta d \<and> rd_delta d \<le> 250 * 32767)"

definition recv_delta_len :: "recv_delta \<Rightarrow> nat" where
  "recv_delta_len d = (if rd_type_tcc_packet d = PacketReceivedSmallDelta then 1 else 2)"

definition recv_delta_bytes :: "recv_delta \<Rightarrow> u8 list" where
  "recv_delta_bytes d =
     (if rd_type_tcc_packet d = PacketReceivedSmallDelta then put_u8 (word_of_int (rd_delta d div 250))
      else put_u16 (word_of_int (rd_delta d div 250)))"

lemma length_recv_delta_bytes [simp]: "length (recv_delta_bytes d) = recv_delta_len d"
  by (simp add: recv_delta_bytes_def recv_delta_len_def)

lemma i64_div_exact:
  assumes "a mod 250 = 0"
  shows "i64_div a 250 = a div 250"
proof -
  obtain q where "a = 250 * q" using assms by auto
  then show ?thesis by (auto simp: i64_div_def abs_mult sgn_if)
qed

lemma recv_delta_range:
  assumes "recv_delta_wf d"
  shows "rd_type_tcc_packet d = PacketReceivedSmallDelta \<and> 0 \<le> rd_delta d div 250 \<and> rd_delta d div 250 \<le> 255 \<or>
    rd_type_tcc_packet d = PacketReceivedLargeDelta \<and> - 32768 \<le> rd_delta d div 250 \<and> rd_delta d div 250 \<le> 32767"
proof -
  obtain q where "rd_delta d = 250 * q" using assms by (auto simp: recv_delta_wf_def)
  with assms show ?thesis by (auto simp: recv_delta_wf_def)
qed

lemma recv_delta_marshal_to_eq:
  "recv_delta_wf d \<Longrightarrow> recv_delta_len d \<le> cap \<Longrightarrow> recv_delta_marshal_to d cap = Ok (recv_delta_bytes d, recv_delta_len d)"
  using recv_delta_range [of d] i64_div_exact [of "rd_delta d"]
  by (auto simp: recv_delta_marshal_to_def recv_delta_len_def recv_delta_bytes_def recv_delta_wf_def Let_def)

lemma recv_delta_unmarshal_bytes:
  assumes "recv_delta_wf d"
  shows "recv_delta_unmarshal (recv_delta_bytes d) = Ok (d, [])"
proof -
  have d: "250 * (rd_delta d div 250) = rd_delta d"
    using assms by (auto simp: recv_delta_wf_def)
  have "uint (word_of_int q :: u8) = q" if "0 \<le> q" "q \<le> 255" for q
    using that by (simp add: unsigned_of_int take_bit_eq_mod)
  moreover have "sint (word_of_int q :: u16) = q" if "- 32768 \<le> q" "q \<le> 32767" for q
    using that signed_take_bit_int_eq_self [of 15 q] by (simp add: signed_of_int)
  ultimately show ?thesis
    using recv_delta_range [OF assms] d
    by (auto simp: recv_delta_unmarshal_def recv_delta_bytes_def recv_delta_len_def)
qed

section \<open>The packet\<close>

definition PACKET_CHUNK_OFFSET :: nat where [simp]: "PACKET_CHUNK_OFFSET = 16"

record transport_layer_cc =
  tcc_sender_ssrc :: u32
  tcc_media_ssrc :: u32
  tcc_base_sequence_number :: u16
  tcc_packet_status_count :: u16
  tcc_reference_time :: u32
  tcc_fb_pkt_count :: u8
  tcc_packet_chunks :: "packet_status_chunk list"
  tcc_recv_deltas :: "recv_delta list"

definition tcc_raw_size :: "transport_layer_cc \<Rightarrow> nat" where
  "tcc_raw_size p =
     RTCP_HEADER_LENGTH + PACKET_CHUNK_OFFSET + length (tcc_packet_chunks p) * 2 +
     (\<Sum>d\<leftarrow>tcc_recv_deltas p. if rd_type_tcc_packet d = PacketReceivedSmallDelta then 1 else 2)"

definition tcc_marshal_size :: "transport_layer_cc \<Rightarrow> nat" where
  "tcc_marshal_size p = (let l = tcc_raw_size p in l + get_padding_size l)"

definition tcc_header :: "transport_layer_cc \<Rightarrow> rtcp_header" where
  "tcc_header p = rtcp_header_for FORMAT_TCC TransportSpecificFeedback (tcc_raw_size p)"

definition tcc_destination_ssrc :: "transport_layer_cc \<Rightarrow> u32 list" where
  "tcc_destination_ssrc p = [tcc_media_ssrc p]"

definition tcc_marshal_to :: "transport_layer_cc \<Rightarrow> nat \<Rightarrow> (u8 list \<times> nat) result" where
  "tcc_marshal_to p cap =
     (if cap < tcc_marshal_size p then Err BufferTooShort
      else
        let reference_time_and_fb_pkt_count =
              append_nbits_to_uint32 (append_nbits_to_uint32 0 24 (tcc_reference_time p)) 8 (ucast (tcc_fb_pkt_count p));
            info = put_u32 (tcc_sender_ssrc p) @ put_u32 (tcc_media_ssrc p) @
              put_u16 (tcc_base_sequence_number p) @ put_u16 (tcc_packet_status_count p) @
              put_u32 reference_time_and_fb_pkt_count in
        and_then (marshal_all packet_status_chunk_marshal_to (tcc_packet_chunks p)
            (cap - RTCP_HEADER_LENGTH - length info)) (\<lambda>(chunks, n).
        and_then (marshal_all recv_delta_marshal_to (tcc_recv_deltas p)
            (cap - RTCP_HEADER_LENGTH - length info - n)) (\<lambda>(deltas, _).
          rtcp_put (tcc_header p) (info @ chunks @ deltas) (tcc_raw_size p) (tcc_marshal_size p) cap)))"

definition tcc_has_delta :: "symbol_type_tcc \<Rightarrow> bool" where
  "tcc_has_delta s \<longleftrightarrow> s = PacketReceivedSmallDelta \<or> s = PacketReceivedLargeDelta"

text \<open>
  The loop over the chunks. It returns the chunks, the kinds of the deltas to read and the position
  behind the chunks; the number of processed packets saturates like the source's \<open>u16\<close>.
\<close>

function unmarshal_tcc_chunks ::
  "nat \<Rightarrow> nat \<Rightarrow> nat \<Rightarrow> nat \<Rightarrow> u8 list \<Rightarrow> (packet_status_chunk list \<times> symbol_type_tcc list \<times> nat \<times> u8 list) result" where
  "unmarshal_tcc_chunks packet_status_count processed_packet_num packet_status_pos total_length raw_packet =
     (if processed_packet_num < packet_status_count then
        if packet_status_pos + PACKET_STATUS_CHUNK_LENGTH \<ge> total_length then Err PacketTooShort
        else and_then (copy_to_bytes PACKET_STATUS_CHUNK_LENGTH raw_packet) (\<lambda>(chunk_reader, raw_packet).
          and_then
            (case status_chunk_type_from (get_nbits_from_byte (chunk_reader ! 0) 0 1) of
               RunLengthChunkType \<Rightarrow>
                 and_then (run_length_chunk_unmarshal chunk_reader) (\<lambda>(packet_status, _).
                   let packet_number_to_process =
                         min (packet_status_count - processed_packet_num) (unat (rl_run_length packet_status)) in
                   Ok (RunLengthChunk packet_status,
                       (if tcc_has_delta (rl_packet_status_symbol packet_status)
                        then replicate packet_number_to_process (rl_packet_status_symbol packet_status) else []),
                       packet_number_to_process))
             | StatusVectorChunkType \<Rightarrow>
                 and_then (status_vector_chunk_unmarshal chunk_reader) (\<lambda>(packet_status, _).
                   Ok (StatusVectorChunk packet_status,
                       (case sv_symbol_size packet_status of
                          OneBit \<Rightarrow> filter (\<lambda>sym. sym = PacketReceivedSmallDelta) (sv_symbol_list packet_status)
                        | TwoBit \<Rightarrow> filter tcc_has_delta (sv_symbol_list packet_status)),
                       length (sv_symbol_list packet_status))))
            (\<lambda>(chunk, kinds, n).
              and_then (unmarshal_tcc_chunks packet_status_count (min 65535 (processed_packet_num + n))
                  (packet_status_pos + PACKET_STATUS_CHUNK_LENGTH) total_length raw_packet)
                (\<lambda>(chunks, kinds', pos, raw_packet). Ok (chunk # chunks, kinds @ kinds', pos, raw_packet))))
      else Ok ([], [], packet_status_pos, raw_packet))"
  by pat_completeness auto
termination
  by (relation "measure (\<lambda>(_, _, packet_status_pos, total_length, _). total_length - packet_status_pos)") auto

declare unmarshal_tcc_chunks.simps [simp del]

text \<open>Reading one delta through \<open>raw_packet.take(n)\<close>.\<close>

definition take_delta :: "nat \<Rightarrow> u8 list \<Rightarrow> (recv_delta \<times> u8 list) result" where
  "take_delta n raw_packet =
     and_then (recv_delta_unmarshal (take n raw_packet)) (\<lambda>(d, r). Ok (d, r @ drop n raw_packet))"

fun unmarshal_tcc_deltas :: "nat \<Rightarrow> nat \<Rightarrow> symbol_type_tcc list \<Rightarrow> u8 list \<Rightarrow> (recv_delta list \<times> u8 list) result" where
  "unmarshal_tcc_deltas recv_deltas_pos total_length [] raw_packet = Ok ([], raw_packet)"
| "unmarshal_tcc_deltas recv_deltas_pos total_length (kind # kinds) raw_packet =
     (if recv_deltas_pos \<ge> total_length then Err PacketTooShort
      else if kind = PacketReceivedSmallDelta then
        and_then (take_delta 1 raw_packet) (\<lambda>(d, raw_packet).
        and_then (unmarshal_tcc_deltas (recv_deltas_pos + 1) total_length kinds raw_packet)
          (\<lambda>(ds, raw_packet). Ok (d # ds, raw_packet)))
      else if kind = PacketReceivedLargeDelta then
        and_then (take_delta 2 raw_packet) (\<lambda>(d, raw_packet).
        and_then (unmarshal_tcc_deltas (recv_deltas_pos + 2) total_length kinds raw_packet)
          (\<lambda>(ds, raw_packet). Ok (d # ds, raw_packet)))
      else and_then (unmarshal_tcc_deltas recv_deltas_pos total_length kinds raw_packet)
          (\<lambda>(ds, raw_packet). Ok (\<lparr>rd_type_tcc_packet = kind, rd_delta = 0\<rparr> # ds, raw_packet)))"

definition tcc_unmarshal :: "u8 list \<Rightarrow> (transport_layer_cc \<times> u8 list) result" where
  "tcc_unmarshal raw_packet =
     (let raw_packet_len = length raw_packet in
      if raw_packet_len < RTCP_HEADER_LENGTH + SSRC_LENGTH then Err PacketTooShort
      else and_then (rtcp_header_unmarshal raw_packet) (\<lambda>(h, raw_packet).
        let total_length = 4 * unat (rtcp_length h + 1) in
        if total_length < RTCP_HEADER_LENGTH + PACKET_CHUNK_OFFSET then Err PacketTooShort
        else if raw_packet_len < total_length then Err PacketTooShort
        else if rtcp_packet_type h \<noteq> TransportSpecificFeedback \<or> rtcp_count h \<noteq> FORMAT_TCC then Err WrongType
        else and_then (get_u32 raw_packet) (\<lambda>(sender_ssrc, raw_packet).
          and_then (get_u32 raw_packet) (\<lambda>(media_ssrc, raw_packet).
          and_then (get_u16 raw_packet) (\<lambda>(base_sequence_number, raw_packet).
          and_then (get_u16 raw_packet) (\<lambda>(packet_status_count, raw_packet).
          and_then (get_u8 raw_packet) (\<lambda>(b0, raw_packet).
          and_then (get_u8 raw_packet) (\<lambda>(b1, raw_packet).
          and_then (get_u8 raw_packet) (\<lambda>(b2, raw_packet).
          and_then (get_u8 raw_packet) (\<lambda>(fb_pkt_count, raw_packet).
          and_then (unmarshal_tcc_chunks (unat packet_status_count) 0 (RTCP_HEADER_LENGTH + PACKET_CHUNK_OFFSET)
              total_length raw_packet) (\<lambda>(packet_chunks, kinds, pos, raw_packet).
          and_then (unmarshal_tcc_deltas pos total_length kinds raw_packet) (\<lambda>(recv_deltas, raw_packet).
          and_then (advance (length raw_packet) raw_packet) (\<lambda>raw_packet.
            Ok (\<lparr>tcc_sender_ssrc = sender_ssrc, tcc_media_ssrc = media_ssrc,
                 tcc_base_sequence_number = base_sequence_number, tcc_packet_status_count = packet_status_count,
                 tcc_reference_time = get_24bits_from_bytes b0 b1 b2, tcc_fb_pkt_count = fb_pkt_count,
                 tcc_packet_chunks = packet_chunks, tcc_recv_deltas = recv_deltas\<rparr>, raw_packet))))))))))))))"

section \<open>Round trip\<close>

definition chunk_packets :: "packet_status_chunk \<Rightarrow> nat" where
  "chunk_packets c =
     (case c of RunLengthChunk r \<Rightarrow> unat (rl_run_length r) | StatusVectorChunk v \<Rightarrow> length (sv_symbol_list v))"

definition chunk_kinds :: "nat \<Rightarrow> packet_status_chunk \<Rightarrow> symbol_type_tcc list" where
  "chunk_kinds rem c =
     (case c of
        RunLengthChunk r \<Rightarrow>
          if tcc_has_delta (rl_packet_status_symbol r)
          then replicate (min rem (unat (rl_run_length r))) (rl_packet_status_symbol r) else []
      | StatusVectorChunk v \<Rightarrow> filter tcc_has_delta (sv_symbol_list v))"

text \<open>
  The chunks describe \<open>rem\<close> packets: none is left over, and every chunk is needed. The kinds of the
  deltas follow from the chunks.
\<close>

fun chunks_cover :: "nat \<Rightarrow> packet_status_chunk list \<Rightarrow> bool" where
  "chunks_cover rem [] = (rem = 0)"
| "chunks_cover rem (c # cs) = (0 < rem \<and> chunks_cover (rem - chunk_packets c) cs)"

fun chunks_kinds :: "nat \<Rightarrow> packet_status_chunk list \<Rightarrow> symbol_type_tcc list" where
  "chunks_kinds rem [] = []"
| "chunks_kinds rem (c # cs) = chunk_kinds rem c @ chunks_kinds (rem - chunk_packets c) cs"

definition chunk_bytes :: "packet_status_chunk \<Rightarrow> u8 list" where
  "chunk_bytes c = (case packet_status_chunk_marshal_to c 2 of Inl _ \<Rightarrow> [] | Inr (bs, _) \<Rightarrow> bs)"

lemma chunk_bytes_word:
  assumes "chunk_wf c"
  shows "\<exists>w. chunk_bytes c = put_u16 w \<and> (\<forall>cap\<ge>2. packet_status_chunk_marshal_to c cap = Ok (put_u16 w, 2)) \<and>
    (case c of
       RunLengthChunk r \<Rightarrow> run_length_chunk_unmarshal (put_u16 w) = Ok (r, []) \<and>
         status_chunk_type_from (get_nbits_from_byte (ucast (drop_bit 8 w)) 0 1) = RunLengthChunkType
     | StatusVectorChunk v \<Rightarrow> status_vector_chunk_unmarshal (put_u16 w) = Ok (v, []) \<and>
         status_chunk_type_from (get_nbits_from_byte (ucast (drop_bit 8 w)) 0 1) = StatusVectorChunkType)"
proof (cases c)
  case (RunLengthChunk r)
  obtain w where w: "\<forall>cap\<ge>2. run_length_chunk_marshal_to r cap = Ok (put_u16 w, 2)"
    "\<And>n. bit w n \<longleftrightarrow> n < 13 \<and> bit (rl_run_length r) n \<or>
        13 \<le> n \<and> n < 15 \<and> bit (symbol_type_as_u16 (rl_packet_status_symbol r)) (n - 13)"
    using run_length_chunk_bits [of r] by blast
  moreover from assms have "rl_type_tcc r = RunLengthChunkType" "rl_run_length r < 2 ^ 13"
    by (simp_all add: chunk_wf_def RunLengthChunk)
  note run_length_chunk_parses [of w r, OF w(2) this]
  ultimately show ?thesis
    using RunLengthChunk by (intro exI [of _ w]) (simp add: chunk_bytes_def)
next
  case (StatusVectorChunk v)
  from assms have "num_of_bits_of_symbol_size (sv_symbol_size v) * length (sv_symbol_list v) \<le> 14"
    by (cases "sv_symbol_size v") (simp_all add: chunk_wf_def StatusVectorChunk)
  then obtain w where w: "\<forall>cap\<ge>2. status_vector_chunk_marshal_to v cap = Ok (put_u16 w, 2)"
    "\<And>n. bit w n \<longleftrightarrow> n = 15 \<or> n = 14 \<and> sv_symbol_size v = TwoBit \<or>
        symbol_bits (num_of_bits_of_symbol_size (sv_symbol_size v)) (sv_symbol_list v) n"
    using status_vector_chunk_bits [of v] by blast
  from assms have "chunk_wf (StatusVectorChunk v)" by (simp add: StatusVectorChunk)
  note status_vector_chunk_parses [of w v, OF w(2) this]
  with w(1) show ?thesis
    using StatusVectorChunk by (intro exI [of _ w]) (simp add: chunk_bytes_def)
qed

lemma length_chunk_bytes [simp]: "chunk_wf c \<Longrightarrow> length (chunk_bytes c) = 2"
  using chunk_bytes_word [of c] by auto

lemma chunk_marshal_to_eq:
  "chunk_wf c \<Longrightarrow> 2 \<le> cap \<Longrightarrow> packet_status_chunk_marshal_to c cap = Ok (chunk_bytes c, 2)"
  using chunk_bytes_word [of c] by auto

text \<open>One round of the loop on the bytes of a chunk.\<close>

lemma unmarshal_tcc_chunks_step:
  assumes "chunk_wf c" "processed < count" "count \<le> 65535" "pos + 2 < limit"
  shows "unmarshal_tcc_chunks count processed pos limit (chunk_bytes c @ r) =
    and_then (unmarshal_tcc_chunks count
        (min 65535 (processed + (case c of RunLengthChunk r \<Rightarrow> min (count - processed) (unat (rl_run_length r))
           | StatusVectorChunk v \<Rightarrow> length (sv_symbol_list v)))) (pos + 2) limit r)
      (\<lambda>(chunks, kinds', pos, raw_packet). Ok (c # chunks, chunk_kinds (count - processed) c @ kinds', pos, raw_packet))"
proof -
  obtain w where w: "chunk_bytes c = put_u16 w"
    "case c of
       RunLengthChunk r \<Rightarrow> run_length_chunk_unmarshal (put_u16 w) = Ok (r, []) \<and>
         status_chunk_type_from (get_nbits_from_byte (ucast (drop_bit 8 w)) 0 1) = RunLengthChunkType
     | StatusVectorChunk v \<Rightarrow> status_vector_chunk_unmarshal (put_u16 w) = Ok (v, []) \<and>
         status_chunk_type_from (get_nbits_from_byte (ucast (drop_bit 8 w)) 0 1) = StatusVectorChunkType"
    using chunk_bytes_word [OF assms(1)] by blast
  have copy: "copy_to_bytes 2 (put_u16 w @ r) = Ok (put_u16 w, r)" by simp
  have first: "put_u16 w ! 0 = ucast (drop_bit 8 w)" by (simp add: put_u16_def)
  show ?thesis
  proof (cases c)
    case (RunLengthChunk rl)
    with w assms show ?thesis
      by (simp add: unmarshal_tcc_chunks.simps [of count processed pos limit "put_u16 w @ r"] copy first chunk_kinds_def Let_def)
  next
    case (StatusVectorChunk v)
    have "filter (\<lambda>sym. sym = PacketReceivedSmallDelta) (sv_symbol_list v) = filter tcc_has_delta (sv_symbol_list v)"
      if "sv_symbol_size v = OneBit"
      using assms(1) that unfolding StatusVectorChunk
      by (intro filter_cong) (auto simp: chunk_wf_def tcc_has_delta_def)
    then have kinds: "(case sv_symbol_size v of
          OneBit \<Rightarrow> filter (\<lambda>sym. sym = PacketReceivedSmallDelta) (sv_symbol_list v)
        | TwoBit \<Rightarrow> filter tcc_has_delta (sv_symbol_list v)) = filter tcc_has_delta (sv_symbol_list v)"
      by (cases "sv_symbol_size v") simp_all
    with StatusVectorChunk w assms show ?thesis
      by (simp add: unmarshal_tcc_chunks.simps [of count processed pos limit "put_u16 w @ r"] copy first chunk_kinds_def)
  qed
qed

lemma unmarshal_tcc_chunks_bytes:
  "(\<And>c. c \<in> set cs \<Longrightarrow> chunk_wf c) \<Longrightarrow> chunks_cover (count - processed) cs \<Longrightarrow> count \<le> 65535 \<Longrightarrow>
   pos + 2 * length cs < limit \<Longrightarrow>
   unmarshal_tcc_chunks count processed pos limit (concat (map chunk_bytes cs) @ r) =
     Ok (cs, chunks_kinds (count - processed) cs, pos + 2 * length cs, r)"
proof (induction cs arbitrary: processed pos)
  case Nil
  then show ?case by (simp add: unmarshal_tcc_chunks.simps [of count])
next
  case (Cons c cs)
  define p where "p = min 65535 (processed + (case c of RunLengthChunk r \<Rightarrow> min (count - processed) (unat (rl_run_length r))
           | StatusVectorChunk v \<Rightarrow> length (sv_symbol_list v)))"
  have lt: "processed < count" using Cons.prems(2) by simp
  have rem: "count - p = count - processed - chunk_packets c"
    using lt Cons.prems(3) by (cases c) (auto simp: p_def chunk_packets_def)
  have step: "unmarshal_tcc_chunks count processed pos limit (chunk_bytes c @ concat (map chunk_bytes cs) @ r) =
      and_then (unmarshal_tcc_chunks count p (pos + 2) limit (concat (map chunk_bytes cs) @ r))
      (\<lambda>(chunks, kinds', pos, raw_packet). Ok (c # chunks, chunk_kinds (count - processed) c @ kinds', pos, raw_packet))"
    unfolding p_def using Cons.prems lt by (intro unmarshal_tcc_chunks_step) simp_all
  have "unmarshal_tcc_chunks count p (pos + 2) limit (concat (map chunk_bytes cs) @ r) =
      Ok (cs, chunks_kinds (count - p) cs, pos + 2 + 2 * length cs, r)"
    using Cons.prems rem by (intro Cons.IH) simp_all
  with step rem show ?case by simp
qed

lemma take_delta_bytes:
  "recv_delta_wf d \<Longrightarrow> n = recv_delta_len d \<Longrightarrow> take_delta n (recv_delta_bytes d @ r) = Ok (d, r)"
  by (simp add: take_delta_def recv_delta_unmarshal_bytes)

lemma unmarshal_tcc_deltas_bytes:
  "(\<And>d. d \<in> set ds \<Longrightarrow> recv_delta_wf d) \<Longrightarrow> pos + (\<Sum>d\<leftarrow>ds. recv_delta_len d) \<le> limit \<Longrightarrow>
   unmarshal_tcc_deltas pos limit (map rd_type_tcc_packet ds) (concat (map recv_delta_bytes ds) @ r) = Ok (ds, r)"
proof (induction ds arbitrary: pos)
  case (Cons d ds)
  have len: "0 < recv_delta_len d" by (simp add: recv_delta_len_def)
  have "unmarshal_tcc_deltas (pos + recv_delta_len d) limit (map rd_type_tcc_packet ds) (concat (map recv_delta_bytes ds) @ r) =
      Ok (ds, r)"
    using Cons.prems by (intro Cons.IH) simp_all
  moreover have "take_delta (recv_delta_len d) (recv_delta_bytes d @ concat (map recv_delta_bytes ds) @ r) =
      Ok (d, concat (map recv_delta_bytes ds) @ r)"
    using Cons.prems by (intro take_delta_bytes) simp_all
  moreover have "rd_type_tcc_packet d = PacketReceivedSmallDelta \<or> rd_type_tcc_packet d = PacketReceivedLargeDelta"
    using Cons.prems(1) [of d] by (auto simp: recv_delta_wf_def)
  moreover have "pos < limit" using Cons.prems(2) len by simp
  ultimately show ?case by (auto simp: recv_delta_len_def)
qed simp

definition tcc_encodable :: "transport_layer_cc \<Rightarrow> bool" where
  "tcc_encodable p \<longleftrightarrow> (\<forall>c\<in>set (tcc_packet_chunks p). chunk_wf c) \<and> (\<forall>d\<in>set (tcc_recv_deltas p). recv_delta_wf d) \<and>
     tcc_reference_time p < 2 ^ 24 \<and> tcc_raw_size p \<le> 262136"

definition tcc_wf :: "transport_layer_cc \<Rightarrow> bool" where
  "tcc_wf p \<longleftrightarrow> tcc_encodable p \<and>
     chunks_cover (unat (tcc_packet_status_count p)) (tcc_packet_chunks p) \<and>
     map rd_type_tcc_packet (tcc_recv_deltas p) =
       chunks_kinds (unat (tcc_packet_status_count p)) (tcc_packet_chunks p) \<and>
     20 + 2 * length (tcc_packet_chunks p) < tcc_marshal_size p"

definition tcc_reference_word :: "transport_layer_cc \<Rightarrow> u32" where
  "tcc_reference_word p =
     append_nbits_to_uint32 (append_nbits_to_uint32 0 24 (tcc_reference_time p)) 8 (ucast (tcc_fb_pkt_count p))"

definition tcc_body :: "transport_layer_cc \<Rightarrow> u8 list" where
  "tcc_body p =
     put_u32 (tcc_sender_ssrc p) @ put_u32 (tcc_media_ssrc p) @ put_u16 (tcc_base_sequence_number p) @
     put_u16 (tcc_packet_status_count p) @ put_u32 (tcc_reference_word p) @
     concat (map chunk_bytes (tcc_packet_chunks p)) @ concat (map recv_delta_bytes (tcc_recv_deltas p))"

lemma tcc_reference_bytes:
  assumes "tcc_reference_time p < 2 ^ 24"
  defines "w \<equiv> tcc_reference_word p"
  shows "get_24bits_from_bytes (ucast (drop_bit 24 w)) (ucast (drop_bit 16 w)) (ucast (drop_bit 8 w)) = tcc_reference_time p"
    and "ucast w = tcc_fb_pkt_count p"
proof -
  have ref: "n < 24" if "bit (tcc_reference_time p) n" for n
    using assms(1) that by (rule bit_less_exp)
  have ones: "(0xFFFFFFFF :: u32) = mask 32" by (simp add: mask_eq_exp_minus_1)
  have w: "bit w n \<longleftrightarrow> n < 32 \<and> (if n < 8 then bit (tcc_fb_pkt_count p) n else bit (tcc_reference_time p) (n - 8))" for n
    unfolding w_def tcc_reference_word_def append_nbits_to_uint32_def ones
    by (auto simp: bit_simps dest: bit_imp_le_length)
  show "ucast w = tcc_fb_pkt_count p"
    by (rule bit_word_eqI) (simp add: bit_simps w)
  have "get_24bits_from_bytes (ucast (drop_bit 24 w)) (ucast (drop_bit 16 w)) (ucast (drop_bit 8 w)) =
      (push_bit 16 (ucast (ucast (drop_bit 24 w) :: u8)) OR push_bit 8 (ucast (ucast (drop_bit 16 w) :: u8))) +
        ucast (ucast (drop_bit 8 w) :: u8)"
    unfolding get_24bits_from_bytes_def
    by (subst disjunctive_add_eq_or) (rule bit_word_eqI, auto simp: bit_simps)
  also have "\<dots> = (push_bit 16 (ucast (ucast (drop_bit 24 w) :: u8)) OR push_bit 8 (ucast (ucast (drop_bit 16 w) :: u8))) OR
        ucast (ucast (drop_bit 8 w) :: u8)"
    by (subst disjunctive_add_eq_or) (rule bit_word_eqI, auto simp: bit_simps)
  also have "\<dots> = tcc_reference_time p"
  proof (rule bit_word_eqI)
    fix n assume "n < LENGTH(32)"
    then consider "n < 8" | "8 \<le> n" "n < 16" | "16 \<le> n" "n < 24" | "24 \<le> n" "n < 32" by fastforce
    then show "bit ((push_bit 16 (ucast (ucast (drop_bit 24 w) :: u8)) OR push_bit 8 (ucast (ucast (drop_bit 16 w) :: u8))) OR
        (ucast (ucast (drop_bit 8 w) :: u8) :: u32)) n = bit (tcc_reference_time p) n"
      using ref [of n] by cases (auto simp: bit_simps w)
  qed
  finally show "get_24bits_from_bytes (ucast (drop_bit 24 w)) (ucast (drop_bit 16 w)) (ucast (drop_bit 8 w)) =
    tcc_reference_time p" .
qed

lemma length_chunks_bytes:
  "(\<And>c. c \<in> set cs \<Longrightarrow> chunk_wf c) \<Longrightarrow> length (concat (map chunk_bytes cs)) = 2 * length cs"
  by (induction cs) simp_all

lemma length_deltas_bytes: "length (concat (map recv_delta_bytes ds)) = (\<Sum>d\<leftarrow>ds. recv_delta_len d)"
  by (induction ds) simp_all

lemma tcc_raw_size_eq:
  "tcc_raw_size p = 20 + 2 * length (tcc_packet_chunks p) + (\<Sum>d\<leftarrow>tcc_recv_deltas p. recv_delta_len d)"
  by (simp add: tcc_raw_size_def recv_delta_len_def)

lemma length_tcc_body: "tcc_encodable p \<Longrightarrow> 4 + length (tcc_body p) = tcc_raw_size p"
  by (simp add: tcc_body_def tcc_raw_size_eq tcc_encodable_def length_chunks_bytes length_deltas_bytes del: length_concat)

lemma tcc_marshal_size_eq: "tcc_marshal_size p = tcc_raw_size p + get_padding_size (tcc_raw_size p)"
  by (simp add: tcc_marshal_size_def Let_def)

lemma tcc_total_length:
  assumes "tcc_encodable p"
  shows "4 * unat (rtcp_length (tcc_header p) + 1) = tcc_marshal_size p"
proof -
  have raw: "20 \<le> tcc_raw_size p" "tcc_raw_size p \<le> 262136"
    using assms by (simp_all add: tcc_raw_size_eq tcc_encodable_def)
  have "4 * unat (rtcp_length (tcc_header p)) = tcc_marshal_size p - 4"
    using rtcp_length_for [of "tcc_raw_size p"] raw padded_size_bound [of "tcc_raw_size p"]
    by (simp add: tcc_header_def tcc_marshal_size_eq)
  moreover have "get_padding_size (tcc_raw_size p) \<le> 4" by (simp add: get_padding_size_def)
  then have "tcc_marshal_size p < 262144" using raw by (simp add: tcc_marshal_size_eq)
  moreover have "tcc_marshal_size p mod 4 = 0" by (simp add: tcc_marshal_size_eq)
  ultimately show ?thesis
    using raw by (simp add: unat_word_ariths tcc_marshal_size_eq)
qed

text \<open>What the decoder does with the bytes of an encoded packet: the two loops.\<close>

lemma tcc_unmarshal_encoded:
  assumes enc: "tcc_encodable p"
  defines "pad \<equiv> drop (length (tcc_body p)) (rtcp_body (tcc_body p))"
  shows "tcc_unmarshal (rtcp_header_bytes (tcc_header p) @ rtcp_body (tcc_body p)) =
    and_then (unmarshal_tcc_chunks (unat (tcc_packet_status_count p)) 0 20 (tcc_marshal_size p)
        (concat (map chunk_bytes (tcc_packet_chunks p)) @ concat (map recv_delta_bytes (tcc_recv_deltas p)) @ pad))
      (\<lambda>(packet_chunks, kinds, pos, raw_packet).
        and_then (unmarshal_tcc_deltas pos (tcc_marshal_size p) kinds raw_packet) (\<lambda>(recv_deltas, raw_packet).
          Ok (p\<lparr>tcc_packet_chunks := packet_chunks, tcc_recv_deltas := recv_deltas\<rparr>, [])))"
proof -
  define b where "b = rtcp_body (tcc_body p)"
  have b: "b = put_u32 (tcc_sender_ssrc p) @ put_u32 (tcc_media_ssrc p) @ put_u16 (tcc_base_sequence_number p) @
      put_u16 (tcc_packet_status_count p) @ put_u32 (tcc_reference_word p) @
      concat (map chunk_bytes (tcc_packet_chunks p)) @ concat (map recv_delta_bytes (tcc_recv_deltas p)) @ pad"
    by (simp add: b_def pad_def rtcp_body_def) (simp add: tcc_body_def)
  have size: "20 \<le> tcc_marshal_size p" by (simp add: tcc_marshal_size_eq tcc_raw_size_eq)
  have "length b + 4 = tcc_marshal_size p"
    by (simp add: b_def tcc_marshal_size_eq flip: length_tcc_body [OF enc])
  then have reads: "length (rtcp_header_bytes (tcc_header p) @ b) = tcc_marshal_size p"
    "rtcp_header_unmarshal (rtcp_header_bytes (tcc_header p) @ b) = Ok (tcc_header p, b)"
    by (simp_all add: tcc_header_def)
  have head: "rtcp_packet_type (tcc_header p) = TransportSpecificFeedback" "rtcp_count (tcc_header p) = 15"
    by (simp_all add: tcc_header_def)
  have "tcc_reference_time p < 2 ^ 24" using enc by (simp add: tcc_encodable_def)
  note ref = tcc_reference_bytes [OF this]
  have bytes: "put_u32 (tcc_reference_word p) = [ucast (drop_bit 24 (tcc_reference_word p)),
      ucast (drop_bit 16 (tcc_reference_word p)), ucast (drop_bit 8 (tcc_reference_word p)), tcc_fb_pkt_count p]"
    by (simp add: put_u32_def ref(2))
  have upd: "\<lparr>tcc_sender_ssrc = tcc_sender_ssrc p, tcc_media_ssrc = tcc_media_ssrc p,
      tcc_base_sequence_number = tcc_base_sequence_number p, tcc_packet_status_count = tcc_packet_status_count p,
      tcc_reference_time = tcc_reference_time p, tcc_fb_pkt_count = tcc_fb_pkt_count p,
      tcc_packet_chunks = cs, tcc_recv_deltas = ds\<rparr> = p\<lparr>tcc_packet_chunks := cs, tcc_recv_deltas := ds\<rparr>" for cs ds
    by simp
  note words = tcc_total_length [OF enc]
  then have "\<not> unat (rtcp_length (tcc_header p) + 1) < 5" using size by linarith
  then show ?thesis
    unfolding tcc_unmarshal_def b_def [symmetric] reads Let_def
    using size by (simp add: head words) (simp add: b bytes ref(1) upd)
qed

lemma tcc_body_parses:
  assumes wf: "tcc_wf p"
  shows "tcc_unmarshal (rtcp_header_bytes (tcc_header p) @ rtcp_body (tcc_body p)) = Ok (p, [])"
proof -
  let ?cs = "tcc_packet_chunks p" let ?ds = "tcc_recv_deltas p" let ?n = "unat (tcc_packet_status_count p)"
  have parts: "tcc_encodable p" "\<And>c. c \<in> set ?cs \<Longrightarrow> chunk_wf c" "\<And>d. d \<in> set ?ds \<Longrightarrow> recv_delta_wf d" "chunks_cover ?n ?cs"
    "map rd_type_tcc_packet ?ds = chunks_kinds ?n ?cs" "20 + 2 * length ?cs < tcc_marshal_size p"
    using wf by (simp_all add: tcc_wf_def tcc_encodable_def)
  have chunks: "unmarshal_tcc_chunks ?n 0 20 (tcc_marshal_size p) (concat (map chunk_bytes ?cs) @ r) =
      Ok (?cs, chunks_kinds ?n ?cs, 20 + 2 * length ?cs, r)" for r
    using unmarshal_tcc_chunks_bytes [of ?cs ?n 0 20 "tcc_marshal_size p" r] parts(2,4,6)
      unat_bounds(2) [of "tcc_packet_status_count p"] by simp
  have deltas: "unmarshal_tcc_deltas (20 + 2 * length ?cs) (tcc_marshal_size p) (chunks_kinds ?n ?cs)
      (concat (map recv_delta_bytes ?ds) @ r) = Ok (?ds, r)" for r
    using unmarshal_tcc_deltas_bytes [of ?ds "20 + 2 * length ?cs" "tcc_marshal_size p" r] parts(3,5)
    by (simp add: tcc_marshal_size_eq tcc_raw_size_eq)
  show ?thesis
    unfolding tcc_unmarshal_encoded [OF parts(1)] by (simp add: chunks deltas)
qed

lemma tcc_marshal_to_eq:
  assumes enc: "tcc_encodable p" and cap: "tcc_marshal_size p \<le> cap"
  shows "tcc_marshal_to p cap = rtcp_put (tcc_header p) (tcc_body p) (tcc_raw_size p) (tcc_marshal_size p) cap"
proof -
  have parts: "\<And>c. c \<in> set (tcc_packet_chunks p) \<Longrightarrow> chunk_wf c" "\<And>d. d \<in> set (tcc_recv_deltas p) \<Longrightarrow> recv_delta_wf d"
    using enc by (simp_all add: tcc_encodable_def)
  have fits: "20 + 2 * length (tcc_packet_chunks p) + (\<Sum>d\<leftarrow>tcc_recv_deltas p. recv_delta_len d) \<le> cap"
    using cap by (simp add: tcc_marshal_size_def tcc_raw_size_eq Let_def)
  have "marshal_all packet_status_chunk_marshal_to (tcc_packet_chunks p) (cap - 20) =
      Ok (concat (map chunk_bytes (tcc_packet_chunks p)), 2 * length (tcc_packet_chunks p))"
    using marshal_all_bytes [of "tcc_packet_chunks p" chunk_bytes packet_status_chunk_marshal_to "cap - 20"]
      length_chunks_bytes [of "tcc_packet_chunks p"] parts(1) fits by (simp add: chunk_marshal_to_eq)
  moreover have "marshal_all recv_delta_marshal_to (tcc_recv_deltas p) (cap - 20 - 2 * length (tcc_packet_chunks p)) =
      Ok (concat (map recv_delta_bytes (tcc_recv_deltas p)), \<Sum>d\<leftarrow>tcc_recv_deltas p. recv_delta_len d)"
    using marshal_all_bytes [of "tcc_recv_deltas p" recv_delta_bytes recv_delta_marshal_to
        "cap - 20 - 2 * length (tcc_packet_chunks p)"] length_deltas_bytes [of "tcc_recv_deltas p"] parts(2) fits
    by (simp add: recv_delta_marshal_to_eq)
  ultimately show ?thesis
    using cap by (simp add: tcc_marshal_to_def tcc_body_def tcc_reference_word_def Let_def)
qed

interpretation tcc_codec: rtcp_codec tcc_marshal_size tcc_marshal_to tcc_unmarshal tcc_wf tcc_header
proof (rule rtcp_codecI [where raw_size = tcc_raw_size and count = "\<lambda>_. FORMAT_TCC"
      and ptype = "\<lambda>_. TransportSpecificFeedback" and body = tcc_body], goal_cases)
  case (3 p)
  then show ?case using length_tcc_body [of p] by (simp add: tcc_wf_def)
next
  case (6 p cap)
  then show ?case by (simp add: tcc_wf_def tcc_marshal_to_eq)
next
  case (8 p)
  then show ?case by (rule tcc_body_parses)
qed (auto simp: tcc_marshal_size_def tcc_header_def tcc_marshal_to_def tcc_wf_def tcc_encodable_def Let_def)

text \<open>The last chunk is refused when it ends where the packet ends.\<close>

lemma unmarshal_tcc_chunks_at_end:
  "(\<And>c. c \<in> set cs \<Longrightarrow> chunk_wf c) \<Longrightarrow> chunks_cover (count - processed) cs \<Longrightarrow> count \<le> 65535 \<Longrightarrow>
   cs \<noteq> [] \<Longrightarrow> pos + 2 * length cs = limit \<Longrightarrow>
   unmarshal_tcc_chunks count processed pos limit (concat (map chunk_bytes cs) @ r) = Err PacketTooShort"
proof (induction cs arbitrary: processed pos)
  case (Cons c cs)
  have lt: "processed < count" using Cons.prems(2) by simp
  show ?case
  proof (cases "cs = []")
    case True
    with Cons.prems lt show ?thesis
      by (simp add: unmarshal_tcc_chunks.simps [of count processed pos])
  next
    case False
    define p where "p = min 65535 (processed + (case c of RunLengthChunk r \<Rightarrow> min (count - processed) (unat (rl_run_length r))
             | StatusVectorChunk v \<Rightarrow> length (sv_symbol_list v)))"
    have rem: "count - p = count - processed - chunk_packets c"
      using lt Cons.prems(3) by (cases c) (auto simp: p_def chunk_packets_def)
    have "pos + 2 < limit" using Cons.prems(5) False by (cases cs) simp_all
    then have step: "unmarshal_tcc_chunks count processed pos limit (chunk_bytes c @ concat (map chunk_bytes cs) @ r) =
        and_then (unmarshal_tcc_chunks count p (pos + 2) limit (concat (map chunk_bytes cs) @ r))
        (\<lambda>(chunks, kinds', pos, raw_packet). Ok (c # chunks, chunk_kinds (count - processed) c @ kinds', pos, raw_packet))"
      unfolding p_def using Cons.prems lt by (intro unmarshal_tcc_chunks_step) simp_all
    have "unmarshal_tcc_chunks count p (pos + 2) limit (concat (map chunk_bytes cs) @ r) = Err PacketTooShort"
      using Cons.prems rem False by (intro Cons.IH) simp_all
    with step show ?thesis by simp
  qed
qed simp

section \<open>Untrusted bytes\<close>

lemma chunk_unmarshal_total:
  assumes "length bs = 2"
  shows "\<exists>r. run_length_chunk_unmarshal bs = Ok (r, [])" "\<exists>v. status_vector_chunk_unmarshal bs = Ok (v, [])"
  using assms by (simp_all add: run_length_chunk_unmarshal_def status_vector_chunk_unmarshal_def reads Let_def)

lemma unmarshal_tcc_chunks_robust:
  "limit \<le> pos + length bs \<Longrightarrow>
   unmarshal_tcc_chunks count processed pos limit bs \<noteq> Err Panic \<and>
   (\<forall>cs ks pos' r. unmarshal_tcc_chunks count processed pos limit bs = Ok (cs, ks, pos', r) \<longrightarrow> suffix r bs)"
proof (induction "limit - pos" arbitrary: processed pos bs rule: less_induct)
  case less
  show ?case
  proof (cases "processed < count \<and> pos + 2 < limit")
    case True
    then have len: "2 \<le> length bs" "length (take 2 bs) = 2" "limit \<le> pos + 2 + length (drop 2 bs)"
      using less.prems by simp_all
    obtain r v where rv: "run_length_chunk_unmarshal (take 2 bs) = Ok (r, [])"
      "status_vector_chunk_unmarshal (take 2 bs) = Ok (v, [])"
      using chunk_unmarshal_total [OF len(2)] by blast
    have IH: "unmarshal_tcc_chunks count p (pos + 2) limit (drop 2 bs) \<noteq> Err Panic"
      "unmarshal_tcc_chunks count p (pos + 2) limit (drop 2 bs) = Ok (cs, ks, pos', rest) \<Longrightarrow> suffix rest bs" for p cs ks pos' rest
    proof -
      have "limit - (pos + 2) < limit - pos" using True by linarith
      from less.hyps [OF this len(3), of p]
      show "unmarshal_tcc_chunks count p (pos + 2) limit (drop 2 bs) \<noteq> Err Panic"
        "unmarshal_tcc_chunks count p (pos + 2) limit (drop 2 bs) = Ok (cs, ks, pos', rest) \<Longrightarrow> suffix rest bs"
        using suffix_order.trans [OF _ suffix_drop] by blast+
    qed
    have more: "and_then (unmarshal_tcc_chunks count p (pos + 2) limit (drop 2 bs))
        (\<lambda>(chunks, kinds', pos, raw_packet). Ok (c # chunks, kinds @ kinds', pos, raw_packet)) \<noteq> Err Panic \<and>
      (\<forall>cs ks pos' r. and_then (unmarshal_tcc_chunks count p (pos + 2) limit (drop 2 bs))
        (\<lambda>(chunks, kinds', pos, raw_packet). Ok (c # chunks, kinds @ kinds', pos, raw_packet)) = Ok (cs, ks, pos', r) \<longrightarrow>
        suffix r bs)" for p c kinds
      using IH [of p] by (cases "unmarshal_tcc_chunks count p (pos + 2) limit (drop 2 bs)") auto
    obtain c kinds n where "unmarshal_tcc_chunks count processed pos limit bs =
        and_then (unmarshal_tcc_chunks count (min 65535 (processed + n)) (pos + 2) limit (drop 2 bs))
          (\<lambda>(chunks, kinds', pos, raw_packet). Ok (c # chunks, kinds @ kinds', pos, raw_packet))"
      using True rv copy_to_bytes_at [OF len(1)]
      by (cases "status_chunk_type_from (get_nbits_from_byte (take 2 bs ! 0) 0 1)")
        (simp_all add: unmarshal_tcc_chunks.simps [of count processed pos limit bs] Let_def)
    with more show ?thesis by simp
  qed (auto simp: unmarshal_tcc_chunks.simps [of count processed pos limit bs])
qed

lemma safe_take_delta: "safe bs (take_delta n bs)"
proof -
  have "recv_delta_unmarshal xs \<noteq> Err Panic" "recv_delta_unmarshal xs = Ok (d, r) \<Longrightarrow> r = []" for xs d r
    by (auto simp: recv_delta_unmarshal_def reads Let_def split: if_splits)
  then show ?thesis
    by (cases "recv_delta_unmarshal (take n bs)") (force simp: take_delta_def safe_def suffix_drop)+
qed

lemma safe_unmarshal_tcc_deltas: "safe bs (unmarshal_tcc_deltas pos limit kinds bs)"
proof (induction kinds arbitrary: pos bs)
  case (Cons kind kinds)
  have step: "safe bs (and_then (unmarshal_tcc_deltas p limit kinds r) (\<lambda>(ds, raw_packet). Ok (d # ds, raw_packet)))"
    if "suffix r bs" for p r d
    using safe_trans [OF Cons.IH [of r p] that] by (intro safe_and_then) simp_all
  have "safe bs (and_then (take_delta n bs) (\<lambda>(d, raw_packet).
      and_then (unmarshal_tcc_deltas p limit kinds raw_packet) (\<lambda>(ds, raw_packet). Ok (d # ds, raw_packet))))" for n p
    by (rule safe_and_then [OF safe_take_delta]) (rule step)
  with step show ?case by simp
qed simp

interpretation tcc_decoder: robust_decoder tcc_unmarshal
proof (rule robust_decoderI)
  fix bs
  have loops: "safe bs (and_then (unmarshal_tcc_chunks n 0 20 limit (drop 20 bs)) (\<lambda>(packet_chunks, kinds, pos, raw_packet).
      and_then (unmarshal_tcc_deltas pos limit kinds raw_packet) (\<lambda>(recv_deltas, raw_packet).
        Ok (f packet_chunks recv_deltas :: transport_layer_cc, []))))"
    if lim: "20 \<le> length bs" "limit \<le> length bs" for n limit f
  proof (cases "unmarshal_tcc_chunks n 0 20 limit (drop 20 bs)")
    case (Inl e)
    then show ?thesis using unmarshal_tcc_chunks_robust [of limit 20 "drop 20 bs" n 0] lim by simp
  next
    case (Inr q)
    obtain cs ks pos r where q: "q = (cs, ks, pos, r)" by (cases q)
    have "safe r (and_then (unmarshal_tcc_deltas pos limit ks r) (\<lambda>(recv_deltas, raw_packet).
        Ok (f cs recv_deltas :: transport_layer_cc, [])))"
      by (rule safe_and_then [OF safe_unmarshal_tcc_deltas]) simp
    moreover have "suffix r bs"
      using unmarshal_tcc_chunks_robust [of limit 20 "drop 20 bs" n 0] lim Inr q suffix_order.trans [OF _ suffix_drop]
      by auto
    ultimately show ?thesis using Inr q safe_trans by simp
  qed
  show "safe bs (tcc_unmarshal bs)"
    unfolding tcc_unmarshal_def Let_def
    by (cases "8 \<le> length bs") (auto simp: reads intro!: safe_rtcp_header loops)
qed

section \<open>Properties\<close>

text \<open>
  Feedback without receive deltas, in an even number of chunks, is encoded but refused by its own
  decoder: the check before a chunk asks for a byte behind it. Feedback that only reports losses has
  this form.
\<close>

theorem tcc_losses_rejected:
  assumes "tcc_encodable p" "chunks_cover (unat (tcc_packet_status_count p)) (tcc_packet_chunks p)"
    and "tcc_recv_deltas p = []" "tcc_packet_chunks p \<noteq> []" "even (length (tcc_packet_chunks p))"
  shows "\<exists>bs. marshal (tcc_marshal_size p) (tcc_marshal_to p) = Ok bs \<and> tcc_unmarshal bs = Err PacketTooShort"
proof -
  let ?cs = "tcc_packet_chunks p"
  have "(20 + 2 * length ?cs) mod 4 = 0" using assms(5) by (auto elim!: evenE)
  then have size: "tcc_marshal_size p = 20 + 2 * length ?cs"
    by (simp add: tcc_marshal_size_eq tcc_raw_size_eq assms(3))
  have "tcc_marshal_to p (tcc_marshal_size p) =
      Ok (rtcp_header_bytes (tcc_header p) @ rtcp_body (tcc_body p), tcc_marshal_size p)"
    using tcc_marshal_to_eq [OF assms(1) order_refl] length_tcc_body [OF assms(1)]
      rtcp_put_eq [of FORMAT_TCC "tcc_raw_size p" "tcc_body p" "tcc_marshal_size p" TransportSpecificFeedback]
    by (simp add: tcc_header_def tcc_marshal_size_eq)
  moreover have "length (rtcp_header_bytes (tcc_header p) @ rtcp_body (tcc_body p)) = tcc_marshal_size p"
    by (simp add: tcc_marshal_size_eq flip: length_tcc_body [OF assms(1)])
  ultimately have "marshal (tcc_marshal_size p) (tcc_marshal_to p) =
      Ok (rtcp_header_bytes (tcc_header p) @ rtcp_body (tcc_body p))"
    by (simp add: marshal_def)
  moreover have "tcc_unmarshal (rtcp_header_bytes (tcc_header p) @ rtcp_body (tcc_body p)) = Err PacketTooShort"
    unfolding tcc_unmarshal_encoded [OF assms(1)]
    using unmarshal_tcc_chunks_at_end [of ?cs "unat (tcc_packet_status_count p)" 0 20] assms size
      unat_bounds(2) [of "tcc_packet_status_count p"]
    by (simp add: tcc_encodable_def)
  ultimately show ?thesis by blast
qed

definition example_losses :: transport_layer_cc where
  "example_losses =
     (let v = StatusVectorChunk \<lparr>sv_type_tcc = StatusVectorChunkType, sv_symbol_size = OneBit,
        sv_symbol_list = replicate 14 PacketNotReceived\<rparr> in
      \<lparr>tcc_sender_ssrc = 1, tcc_media_ssrc = 2, tcc_base_sequence_number = 100, tcc_packet_status_count = 28,
       tcc_reference_time = 7, tcc_fb_pkt_count = 0, tcc_packet_chunks = [v, v], tcc_recv_deltas = []\<rparr>)"

theorem tcc_losses_rejected_witness:
  "\<exists>bs. marshal (tcc_marshal_size example_losses) (tcc_marshal_to example_losses) = Ok bs \<and>
     tcc_unmarshal bs = Err PacketTooShort"
  by (rule tcc_losses_rejected)
    (simp_all add: example_losses_def tcc_encodable_def chunk_wf_def tcc_raw_size_def chunk_packets_def
      Let_def)

end
