(* ===== verification/Rtcp_Ccfb.thy ===== *)
theory Rtcp_Ccfb
  imports Rtcp_Transport_Cc
begin

text \<open>
  The congestion control feedback report of RFC 8888
  (\<open>rtc-rtcp/src/transport_feedbacks/cc_feedback_report/mod.rs\<close>). The decoder of a report block has
  a bulk path, for a buffer whose current chunk holds all metric words, and a word by word path.
  How a buffer is split into chunks is a matter of the \<open>bytes\<close> crate: the length of the current
  chunk is the parameter \<open>chunk_len\<close>, and \<open>ccfb_paths_agree\<close> shows that the result does not depend
  on it.
\<close>

unbundle bit_operations_syntax

section \<open>Metric blocks\<close>

definition REPORT_BLOCK_OFFSET :: nat where [simp]: "REPORT_BLOCK_OFFSET = RTCP_HEADER_LENGTH + SSRC_LENGTH"
definition REPORT_TIMESTAMP_LENGTH :: nat where [simp]: "REPORT_TIMESTAMP_LENGTH = 4"
definition REPORT_BLOCK_HEADER_LENGTH :: nat where [simp]: "REPORT_BLOCK_HEADER_LENGTH = 8"
definition METRIC_BLOCK_LENGTH :: nat where [simp]: "METRIC_BLOCK_LENGTH = 2"
definition MAX_METRIC_BLOCKS :: nat where [simp]: "MAX_METRIC_BLOCKS = 16384"

datatype ecn = NotEct | Ect1 | Ect0 | Ce

fun ecn_as_u16 :: "ecn \<Rightarrow> u16" where
  "ecn_as_u16 NotEct = 0"
| "ecn_as_u16 Ect1 = 1"
| "ecn_as_u16 Ect0 = 2"
| "ecn_as_u16 Ce = 3"

definition ecn_from_bits :: "u8 \<Rightarrow> ecn" where
  "ecn_from_bits value =
     (let v = value AND 0x03 in if v = 0 then NotEct else if v = 1 then Ect1 else if v = 2 then Ect0 else Ce)"

record cc_feedback_metric_block =
  mb_received :: bool
  mb_ecn :: ecn
  mb_arrival_time_offset :: u16

definition metric_block_default :: cc_feedback_metric_block where
  "metric_block_default = \<lparr>mb_received = False, mb_ecn = NotEct, mb_arrival_time_offset = 0\<rparr>"

definition metric_marshal_word :: "cc_feedback_metric_block \<Rightarrow> u16 result" where
  "metric_marshal_word b =
     (let received = (if mb_received b then 1 else 0) in
      and_then (set_nbits_of_uint16 0 1 0 received) (\<lambda>word.
      and_then (set_nbits_of_uint16 word 2 1 (ecn_as_u16 (mb_ecn b))) (\<lambda>word.
        set_nbits_of_uint16 word 13 3 (mb_arrival_time_offset b))))"

definition metric_unmarshal_word :: "u16 \<Rightarrow> cc_feedback_metric_block" where
  "metric_unmarshal_word word =
     (let received = (word AND 0x8000 \<noteq> 0) in
      if \<not> received then metric_block_default
      else \<lparr>mb_received = received, mb_ecn = ecn_from_bits (ucast (drop_bit 13 word)),
            mb_arrival_time_offset = word AND 0x1FFF\<rparr>)"

definition metric_wf :: "cc_feedback_metric_block \<Rightarrow> bool" where
  "metric_wf b \<longleftrightarrow> (if mb_received b then mb_arrival_time_offset b < 2 ^ 13 else b = metric_block_default)"

lemma bit_ecn:
  "bit (ecn_as_u16 e) n \<longleftrightarrow> n = 0 \<and> (e = Ect1 \<or> e = Ce) \<or> n = 1 \<and> (e = Ect0 \<or> e = Ce)"
proof -
  have "bit (2 :: u16) n \<longleftrightarrow> n = 1" using bit_exp_iff [of 1 n, where ?'a = u16]
    by (auto simp del: bit_numeral_word_iff)
  moreover have "bit (3 :: u16) n \<longleftrightarrow> n < 2"
  proof -
    have "(3 :: u16) = mask 2" by (simp add: mask_eq_exp_minus_1)
    then show ?thesis by (simp only: bit_mask_iff) auto
  qed
  ultimately show ?thesis
    by (cases e) (auto simp del: bit_numeral_word_iff simp: bit_simps)
qed

lemma ecn_from_bits_of: 
  assumes "\<And>n. n < 2 \<Longrightarrow> bit v n \<longleftrightarrow> bit (ecn_as_u16 e) n"
  shows "ecn_from_bits v = e"
proof -
  have "v AND 3 = ucast (ecn_as_u16 e)"
    unfolding field_masks by (rule bit_word_eqI) (use assms in \<open>auto simp: bit_simps bit_ecn\<close>)
  then show ?thesis by (cases e) (simp_all add: ecn_from_bits_def)
qed

lemma metric_word_round_trip:
  assumes "metric_wf b"
  shows "\<exists>w. metric_marshal_word b = Ok w \<and> metric_unmarshal_word w = b"
proof -
  obtain a where a: "set_nbits_of_uint16 0 1 0 (if mb_received b then 1 else 0) = Ok a"
    "\<And>n. bit a n \<longleftrightarrow> n = 15 \<and> mb_received b"
    using bit_set_nbits [of 0 1 0 "if mb_received b then 1 else 0"] by (fastforce simp: bit_simps)
  obtain d where d: "set_nbits_of_uint16 a 2 1 (ecn_as_u16 (mb_ecn b)) = Ok d"
    "\<And>n. bit d n \<longleftrightarrow> bit a n \<or> 13 \<le> n \<and> n < 15 \<and> bit (ecn_as_u16 (mb_ecn b)) (n - 13)"
    using bit_set_nbits [of 1 2 a "ecn_as_u16 (mb_ecn b)"] by auto
  obtain w where w: "set_nbits_of_uint16 d 13 3 (mb_arrival_time_offset b) = Ok w"
    "\<And>n. bit w n \<longleftrightarrow> bit d n \<or> n < 13 \<and> bit (mb_arrival_time_offset b) n"
    using bit_set_nbits [of 3 13 d "mb_arrival_time_offset b"] by auto
  have bits: "bit w n \<longleftrightarrow> n = 15 \<and> mb_received b \<or> 13 \<le> n \<and> n < 15 \<and> bit (ecn_as_u16 (mb_ecn b)) (n - 13) \<or>
      n < 13 \<and> bit (mb_arrival_time_offset b) n" for n
    by (auto simp: a(2) d(2) w(2))
  have top: "w AND 0x8000 \<noteq> 0 \<longleftrightarrow> mb_received b"
  proof -
    have "w AND 2 ^ 15 = 0 \<longleftrightarrow> \<not> bit w 15" by (rule and_exp_eq_0_iff_not_bit)
    then show ?thesis by (simp add: bits)
  qed
  have "metric_unmarshal_word w = b"
  proof (cases "mb_received b")
    case True
    then have off: "n < 13" if "bit (mb_arrival_time_offset b) n" for n
      using assms that bit_less_exp by (auto simp only: metric_wf_def if_True)
    have m: "(0x1FFF :: u16) = mask 13" by (simp add: mask_eq_exp_minus_1)
    have "w AND 0x1FFF = mb_arrival_time_offset b"
      unfolding m by (rule bit_word_eqI) (auto simp: bit_simps bits dest: off)
    moreover have "ecn_from_bits (ucast (drop_bit 13 w)) = mb_ecn b"
      by (rule ecn_from_bits_of) (auto simp: bit_simps bits)
    ultimately show ?thesis using True top by (simp add: metric_unmarshal_word_def)
  next
    case False
    then show ?thesis using top assms by (simp add: metric_unmarshal_word_def metric_wf_def)
  qed
  with a(1) d(1) w(1) show ?thesis by (simp add: metric_marshal_word_def)
qed

section \<open>Report blocks\<close>

record cc_feedback_report_block =
  rb_media_ssrc :: u32
  rb_begin_sequence :: u16
  rb_metric_blocks :: "cc_feedback_metric_block list"

definition padded_metric_block_count :: "cc_feedback_report_block \<Rightarrow> nat" where
  "padded_metric_block_count b =
     (let count = length (rb_metric_blocks b) in if count mod 2 = 0 then count else count + 1)"

definition report_block_raw_size :: "cc_feedback_report_block \<Rightarrow> nat" where
  "report_block_raw_size b = REPORT_BLOCK_HEADER_LENGTH + METRIC_BLOCK_LENGTH * padded_metric_block_count b"

text \<open>A loop that writes its elements and stops at the first error.\<close>

fun put_list :: "('a \<Rightarrow> u8 list result) \<Rightarrow> 'a list \<Rightarrow> u8 list result" where
  "put_list f [] = Ok []"
| "put_list f (x # xs) = and_then (f x) (\<lambda>bs. and_then (put_list f xs) (\<lambda>rest. Ok (bs @ rest)))"

lemma put_list_bytes:
  "(\<And>x. x \<in> set xs \<Longrightarrow> f x = Ok (g x)) \<Longrightarrow> put_list f xs = Ok (concat (map g xs))"
  by (induction xs) simp_all

definition put_metric_block :: "cc_feedback_metric_block \<Rightarrow> u8 list result" where
  "put_metric_block b = and_then (metric_marshal_word b) (\<lambda>w. Ok (put_u16 w))"

definition report_block_marshal_to :: "cc_feedback_report_block \<Rightarrow> u8 list result" where
  "report_block_marshal_to b =
     (if length (rb_metric_blocks b) > MAX_METRIC_BLOCKS then Err TooManyReports
      else and_then (put_list put_metric_block (rb_metric_blocks b)) (\<lambda>words.
        Ok (put_u32 (rb_media_ssrc b) @ put_u16 (rb_begin_sequence b) @
            put_u16 (of_nat (length (rb_metric_blocks b))) @ words @
            concat (replicate (padded_metric_block_count b - length (rb_metric_blocks b)) (put_u16 0)))))"

fun decode_metric_words :: "u8 list \<Rightarrow> cc_feedback_metric_block list" where
  "decode_metric_words (a # b # words) = metric_unmarshal_word (u16_from_be_bytes a b) # decode_metric_words words"
| "decode_metric_words _ = []"

definition get_metric_block :: "u8 list \<Rightarrow> (cc_feedback_metric_block \<times> u8 list) result" where
  "get_metric_block raw_packet = and_then (get_u16 raw_packet) (\<lambda>(w, raw_packet). Ok (metric_unmarshal_word w, raw_packet))"

definition report_block_unmarshal_from ::
  "(u8 list \<Rightarrow> nat) \<Rightarrow> u8 list \<Rightarrow> nat \<Rightarrow> ((cc_feedback_report_block \<times> nat) \<times> u8 list) result" where
  "report_block_unmarshal_from chunk_len raw_packet budget =
     (if budget < REPORT_BLOCK_HEADER_LENGTH \<or> length raw_packet < REPORT_BLOCK_HEADER_LENGTH then Err PacketTooShort
      else and_then (get_u32 raw_packet) (\<lambda>(media_ssrc, raw_packet).
        and_then (get_u16 raw_packet) (\<lambda>(begin_sequence, raw_packet).
        and_then (get_u16 raw_packet) (\<lambda>(num_reports, raw_packet).
          let num_reports = unat num_reports;
              padded = (if num_reports mod 2 = 0 then num_reports else num_reports + 1);
              consumed = REPORT_BLOCK_HEADER_LENGTH + METRIC_BLOCK_LENGTH * padded in
          if budget < consumed \<or> length raw_packet < METRIC_BLOCK_LENGTH * padded then Err PacketTooShort
          else
            let words_len = METRIC_BLOCK_LENGTH * num_reports in
            and_then
              (if chunk_len raw_packet \<ge> words_len then
                 and_then (advance (METRIC_BLOCK_LENGTH * padded) raw_packet) (\<lambda>r.
                   Ok (decode_metric_words (take words_len raw_packet), r))
               else
                 and_then (get_many get_metric_block num_reports raw_packet) (\<lambda>(metric_blocks, r).
                   if padded \<noteq> num_reports
                   then and_then (advance METRIC_BLOCK_LENGTH r) (\<lambda>r. Ok (metric_blocks, r))
                   else Ok (metric_blocks, r)))
              (\<lambda>(metric_blocks, raw_packet).
                Ok ((\<lparr>rb_media_ssrc = media_ssrc, rb_begin_sequence = begin_sequence,
                      rb_metric_blocks = metric_blocks\<rparr>, consumed), raw_packet))))))"

text \<open>Both paths decode the same blocks and leave the same bytes.\<close>

lemma decode_metric_words_eq:
  "2 * n \<le> length bs \<Longrightarrow> get_many get_metric_block n bs = Ok (decode_metric_words (take (2 * n) bs), drop (2 * n) bs)"
proof (induction n arbitrary: bs)
  case (Suc n)
  then obtain a b r where bs: "bs = a # b # r" by (cases bs; cases "tl bs") auto
  with Suc show ?case by (simp add: get_metric_block_def u16_from_be_bytes_def)
qed simp

lemma report_block_unmarshal_from_eq:
  "report_block_unmarshal_from chunk_len bs budget =
     (if budget < 8 \<or> length bs < 8 then Err PacketTooShort
      else
        let n = unat (u16_at (drop 6 bs)); padded = (if n mod 2 = 0 then n else n + 1) in
        if budget < 8 + 2 * padded \<or> length bs < 8 + 2 * padded then Err PacketTooShort
        else Ok ((\<lparr>rb_media_ssrc = u32_at bs, rb_begin_sequence = u16_at (drop 4 bs),
                   rb_metric_blocks = decode_metric_words (take (2 * n) (drop 8 bs))\<rparr>, 8 + 2 * padded),
                 drop (8 + 2 * padded) bs))"
proof (cases "budget < 8 \<or> length bs < 8")
  case False
  define n where "n = unat (u16_at (drop 6 bs))"
  define p where "p = (if n mod 2 = 0 then n else n + 1)"
  have len: "8 \<le> length bs" "8 \<le> budget" using False by auto
  have "n \<le> p" by (simp add: p_def)
  have read: "get_u32 bs = Ok (u32_at bs, drop 4 bs)" "get_u16 (drop 4 bs) = Ok (u16_at (drop 4 bs), drop 6 bs)"
    "get_u16 (drop 6 bs) = Ok (u16_at (drop 6 bs), drop 8 bs)"
    using len by (simp_all add: reads)
  show ?thesis
  proof (cases "budget < 8 + 2 * p \<or> length bs < 8 + 2 * p")
    case fits: False
    with \<open>n \<le> p\<close> len have "2 * n \<le> length (drop 8 bs)" by auto
    note words = decode_metric_words_eq [OF this]
    show ?thesis
    proof (cases "n mod 2 = 0")
      case True
      then have "p = n" by (simp add: p_def)
      with True len fits words show ?thesis
        by (simp add: report_block_unmarshal_from_def read Let_def advance_def add.commute flip: n_def, auto)
    next
      case False
      then have "p = n + 1" by (simp add: p_def)
      with False len fits words show ?thesis
        by (simp add: report_block_unmarshal_from_def read Let_def advance_def add.commute flip: n_def, auto)
    qed
  next
    case True
    show ?thesis
    proof (cases "n mod 2 = 0")
      case even: True
      then have "p = n" by (simp add: p_def)
      with True even len show ?thesis
        by (simp add: report_block_unmarshal_from_def read Let_def flip: n_def, auto)
    next
      case False
      then have "p = n + 1" by (simp add: p_def)
      with True False len show ?thesis
        by (simp add: report_block_unmarshal_from_def read Let_def flip: n_def, auto)
    qed
  qed
qed (simp add: report_block_unmarshal_from_def)

section \<open>The report\<close>

record cc_feedback_report =
  ccfb_sender_ssrc :: u32
  ccfb_report_blocks :: "cc_feedback_report_block list"
  ccfb_report_timestamp :: u32

definition ccfb_raw_size :: "cc_feedback_report \<Rightarrow> nat" where
  "ccfb_raw_size p =
     REPORT_BLOCK_OFFSET + sum_list (map report_block_raw_size (ccfb_report_blocks p)) + REPORT_TIMESTAMP_LENGTH"

definition ccfb_marshal_size :: "cc_feedback_report \<Rightarrow> nat" where
  "ccfb_marshal_size p = (let l = ccfb_raw_size p in l + get_padding_size l)"

definition ccfb_header :: "cc_feedback_report \<Rightarrow> rtcp_header" where
  "ccfb_header p =
     \<lparr>rtcp_padding = get_padding_size (ccfb_raw_size p) \<noteq> 0, rtcp_count = FORMAT_CCFB,
      rtcp_packet_type = TransportSpecificFeedback, rtcp_length = of_nat (ccfb_marshal_size p div 4 - 1)\<rparr>"

definition ccfb_destination_ssrc :: "cc_feedback_report \<Rightarrow> u32 list" where
  "ccfb_destination_ssrc p = map rb_media_ssrc (ccfb_report_blocks p)"

definition ccfb_marshal_to :: "cc_feedback_report \<Rightarrow> nat \<Rightarrow> (u8 list \<times> nat) result" where
  "ccfb_marshal_to p cap =
     (if cap < ccfb_marshal_size p then Err BufferTooShort
      else and_then (put_list report_block_marshal_to (ccfb_report_blocks p)) (\<lambda>blocks.
        rtcp_put (ccfb_header p) (put_u32 (ccfb_sender_ssrc p) @ blocks @ put_u32 (ccfb_report_timestamp p))
          (ccfb_raw_size p) (ccfb_marshal_size p) cap))"

function unmarshal_ccfb_blocks ::
  "(u8 list \<Rightarrow> nat) \<Rightarrow> nat \<Rightarrow> u8 list \<Rightarrow> (cc_feedback_report_block list \<times> u8 list) result" where
  "unmarshal_ccfb_blocks chunk_len remaining_blocks_len raw_packet =
     (if remaining_blocks_len > 0 then
        (case report_block_unmarshal_from chunk_len raw_packet remaining_blocks_len of
           Inl e \<Rightarrow> Inl e
         | Inr ((block, consumed), raw_packet) \<Rightarrow>
             and_then (unmarshal_ccfb_blocks chunk_len (remaining_blocks_len - consumed) raw_packet)
               (\<lambda>(report_blocks, raw_packet). Ok (block # report_blocks, raw_packet)))
      else Ok ([], raw_packet))"
  by pat_completeness auto
termination
  by (relation "measure (\<lambda>(_, n, _). n)") (auto simp: report_block_unmarshal_from_eq Let_def split: if_splits)

declare unmarshal_ccfb_blocks.simps [simp del]

definition ccfb_unmarshal :: "(u8 list \<Rightarrow> nat) \<Rightarrow> u8 list \<Rightarrow> (cc_feedback_report \<times> u8 list) result" where
  "ccfb_unmarshal chunk_len raw_packet =
     (let raw_packet_len = length raw_packet in
      if raw_packet_len < REPORT_BLOCK_OFFSET + REPORT_TIMESTAMP_LENGTH then Err PacketTooShort
      else and_then (rtcp_header_unmarshal raw_packet) (\<lambda>(h, raw_packet).
        if rtcp_packet_type h \<noteq> TransportSpecificFeedback \<or> rtcp_count h \<noteq> FORMAT_CCFB then Err WrongType
        else
          let packet_len = 4 * (unat (rtcp_length h) + 1) in
          if raw_packet_len < packet_len \<or> packet_len < REPORT_BLOCK_OFFSET + REPORT_TIMESTAMP_LENGTH
          then Err PacketTooShort
          else and_then (get_u32 raw_packet) (\<lambda>(sender_ssrc, raw_packet).
            and_then (unmarshal_ccfb_blocks chunk_len (packet_len - REPORT_BLOCK_OFFSET - REPORT_TIMESTAMP_LENGTH)
                raw_packet) (\<lambda>(report_blocks, raw_packet).
            and_then (get_u32 raw_packet) (\<lambda>(report_timestamp, raw_packet).
              Ok (\<lparr>ccfb_sender_ssrc = sender_ssrc, ccfb_report_blocks = report_blocks,
                   ccfb_report_timestamp = report_timestamp\<rparr>, raw_packet))))))"

text \<open>Neither loop depends on how the buffer is split into chunks.\<close>

lemma unmarshal_ccfb_blocks_chunks:
  "unmarshal_ccfb_blocks c n bs = unmarshal_ccfb_blocks d n bs"
proof (induction c n bs rule: unmarshal_ccfb_blocks.induct)
  case (1 c n bs)
  have block: "report_block_unmarshal_from c bs n = report_block_unmarshal_from d bs n"
    by (simp only: report_block_unmarshal_from_eq)
  show ?case
    unfolding unmarshal_ccfb_blocks.simps [of c n bs] unmarshal_ccfb_blocks.simps [of d n bs] block
    using 1 unfolding block
    by (cases "report_block_unmarshal_from d bs n") (auto split: prod.splits)
qed

text \<open>C22: a congestion control feedback report is decoded the same way, error or not, whether the buffer
  is contiguous (bulk path) or fragmented (word by word), for every way of splitting it into chunks.\<close>

theorem ccfb_paths_agree: "ccfb_unmarshal chunk_len bs = ccfb_unmarshal length bs"
  unfolding ccfb_unmarshal_def unmarshal_ccfb_blocks_chunks [of chunk_len _ _ length] ..

section \<open>Round trip\<close>

definition report_block_wf :: "cc_feedback_report_block \<Rightarrow> bool" where
  "report_block_wf b \<longleftrightarrow> length (rb_metric_blocks b) \<le> MAX_METRIC_BLOCKS \<and> list_all metric_wf (rb_metric_blocks b)"

definition ccfb_wf :: "cc_feedback_report \<Rightarrow> bool" where
  "ccfb_wf p \<longleftrightarrow> list_all report_block_wf (ccfb_report_blocks p) \<and> ccfb_raw_size p \<le> 262140"

definition metric_word :: "cc_feedback_metric_block \<Rightarrow> u16" where
  "metric_word b = (case metric_marshal_word b of Inl _ \<Rightarrow> 0 | Inr w \<Rightarrow> w)"

lemma metric_word_eq:
  "metric_wf b \<Longrightarrow> metric_marshal_word b = Ok (metric_word b)"
  "metric_wf b \<Longrightarrow> metric_unmarshal_word (metric_word b) = b"
  using metric_word_round_trip [of b] by (auto simp: metric_word_def)

definition report_block_bytes :: "cc_feedback_report_block \<Rightarrow> u8 list" where
  "report_block_bytes b =
     put_u32 (rb_media_ssrc b) @ put_u16 (rb_begin_sequence b) @ put_u16 (of_nat (length (rb_metric_blocks b))) @
     concat (map (put_u16 \<circ> metric_word) (rb_metric_blocks b)) @
     concat (replicate (padded_metric_block_count b - length (rb_metric_blocks b)) (put_u16 0))"

lemma report_block_marshal_to_eq:
  assumes "report_block_wf b"
  shows "report_block_marshal_to b = Ok (report_block_bytes b)"
proof -
  have "put_list put_metric_block (rb_metric_blocks b) = Ok (concat (map (put_u16 \<circ> metric_word) (rb_metric_blocks b)))"
    using assms by (intro put_list_bytes)
      (auto simp: put_metric_block_def metric_word_eq report_block_wf_def list_all_iff)
  then show ?thesis
    using assms by (simp add: report_block_marshal_to_def report_block_bytes_def report_block_wf_def)
qed

lemma length_metric_words [simp]: "length (concat (map (put_u16 \<circ> f) xs)) = 2 * length xs"
  by (induction xs) simp_all

lemma length_zero_words [simp]: "length (concat (replicate n (put_u16 0))) = 2 * n"
  by (induction n) simp_all

lemma length_report_block_bytes [simp]: "length (report_block_bytes b) = report_block_raw_size b"
  by (simp add: report_block_bytes_def report_block_raw_size_def padded_metric_block_count_def Let_def)

lemma report_block_raw_size_aligned: "report_block_raw_size b mod 4 = 0"
proof -
  have "padded_metric_block_count b mod 2 = 0"
    by (auto simp: padded_metric_block_count_def Let_def mod2_eq_if)
  then obtain k where "padded_metric_block_count b = 2 * k" by (metis mod_0_imp_dvd dvd_def)
  then show ?thesis by (simp add: report_block_raw_size_def)
qed

lemma decode_metric_words_put:
  assumes "list_all metric_wf xs"
  shows "decode_metric_words (concat (map (put_u16 \<circ> metric_word) xs)) = xs"
proof -
  have "get_many get_metric_block (length xs) (concat (map (put_u16 \<circ> metric_word) xs) @ []) = Ok (xs, [])"
    using assms by (intro get_many_bytes) (auto simp: get_metric_block_def metric_word_eq list_all_iff)
  then show ?thesis
    using decode_metric_words_eq [of "length xs" "concat (map (put_u16 \<circ> metric_word) xs)"] by simp
qed

lemma report_block_parses:
  assumes "report_block_wf b" "report_block_raw_size b \<le> budget"
  shows "report_block_unmarshal_from chunk_len (report_block_bytes b @ r) budget =
    Ok ((b, report_block_raw_size b), r)"
proof -
  let ?n = "length (rb_metric_blocks b)"
  let ?bs = "report_block_bytes b @ r"
  from assms(1) have n: "?n \<le> 16384" "list_all metric_wf (rb_metric_blocks b)" by (simp_all add: report_block_wf_def)
  have unat: "unat (of_nat ?n :: u16) = ?n" using n by (intro unat_of_nat_small) simp
  have p: "(if ?n mod 2 = 0 then ?n else ?n + 1) = padded_metric_block_count b"
    by (simp add: padded_metric_block_count_def Let_def)
  have at: "u32_at ?bs = rb_media_ssrc b" "u16_at (drop 4 ?bs) = rb_begin_sequence b"
    "u16_at (drop 6 ?bs) = of_nat ?n"
    "take (2 * ?n) (drop 8 ?bs) = concat (map (put_u16 \<circ> metric_word) (rb_metric_blocks b))"
    by (simp_all add: report_block_bytes_def)
  from assms(2) show ?thesis
    unfolding report_block_unmarshal_from_eq at unat Let_def p
    by (simp add: report_block_raw_size_def decode_metric_words_put [OF n(2)])
qed

lemma unmarshal_ccfb_blocks_bytes:
  "list_all report_block_wf bs \<Longrightarrow> n = sum_list (map report_block_raw_size bs) \<Longrightarrow>
    unmarshal_ccfb_blocks chunk_len n (concat (map report_block_bytes bs) @ r) = Ok (bs, r)"
proof (induction bs arbitrary: n)
  case (Cons b bs)
  have "0 < report_block_raw_size b" by (simp add: report_block_raw_size_def)
  with Cons show ?case
    by (subst unmarshal_ccfb_blocks.simps) (simp add: report_block_parses)
qed (simp add: unmarshal_ccfb_blocks.simps)

definition ccfb_body :: "cc_feedback_report \<Rightarrow> u8 list" where
  "ccfb_body p =
     put_u32 (ccfb_sender_ssrc p) @ concat (map report_block_bytes (ccfb_report_blocks p)) @
     put_u32 (ccfb_report_timestamp p)"

lemma length_report_blocks_bytes [simp]:
  "length (concat (map report_block_bytes bs)) = sum_list (map report_block_raw_size bs)"
  by (induction bs) simp_all

lemma ccfb_raw_size_aligned: "ccfb_raw_size p mod 4 = 0"
proof -
  have "sum_list (map report_block_raw_size (ccfb_report_blocks p)) mod 4 = 0"
    by (rule sum_list_aligned) (rule report_block_raw_size_aligned)
  then show ?thesis by (simp add: ccfb_raw_size_def mod_add_eq [symmetric])
qed

lemma length_ccfb_body: "ccfb_raw_size p = 4 + length (ccfb_body p)"
  by (simp add: ccfb_raw_size_def ccfb_body_def)

lemma ccfb_body_parses:
  assumes "ccfb_wf p"
  shows "ccfb_unmarshal chunk_len (rtcp_header_bytes (ccfb_header p) @ rtcp_body (ccfb_body p)) = Ok (p, [])"
proof -
  let ?s = "sum_list (map report_block_raw_size (ccfb_report_blocks p))"
  have h: "ccfb_header p = rtcp_header_for FORMAT_CCFB TransportSpecificFeedback (ccfb_raw_size p)"
    by (simp add: ccfb_header_def rtcp_header_for_def ccfb_marshal_size_def Let_def)
  have len: "4 * unat (rtcp_length (ccfb_header p)) = 8 + ?s"
    unfolding h using assms rtcp_length_for [of "ccfb_raw_size p" FORMAT_CCFB TransportSpecificFeedback] ccfb_raw_size_aligned [of p]
    by (simp add: ccfb_wf_def ccfb_raw_size_def)
  have aligned: "rtcp_body (ccfb_body p) = ccfb_body p"
    using ccfb_raw_size_aligned [of p] by (intro rtcp_body_aligned) (simp add: length_ccfb_body)
  have "unmarshal_ccfb_blocks chunk_len ?s (concat (map report_block_bytes (ccfb_report_blocks p)) @ put_u32 (ccfb_report_timestamp p)) =
      Ok (ccfb_report_blocks p, put_u32 (ccfb_report_timestamp p))"
    using assms by (intro unmarshal_ccfb_blocks_bytes) (simp_all add: ccfb_wf_def)
  moreover have "rtcp_header_wf (ccfb_header p)" by (simp add: h)
  moreover have "rtcp_packet_type (ccfb_header p) = TransportSpecificFeedback" "rtcp_count (ccfb_header p) = FORMAT_CCFB"
    by (simp_all add: h)
  ultimately show ?thesis
    unfolding aligned by (simp add: ccfb_unmarshal_def ccfb_body_def len Let_def)
qed

text \<open>The report meets the contract of a packet type, whatever the buffer's chunks are.\<close>

lemma ccfb_rtcp_codec: "rtcp_codec ccfb_marshal_size ccfb_marshal_to (ccfb_unmarshal chunk_len) ccfb_wf ccfb_header"
proof (rule rtcp_codecI [where raw_size = ccfb_raw_size and count = "\<lambda>_. FORMAT_CCFB"
      and ptype = "\<lambda>_. TransportSpecificFeedback" and body = ccfb_body], goal_cases)
  case (3 p)
  show ?case by (rule length_ccfb_body)
next
  case (6 p cap)
  then have "put_list report_block_marshal_to (ccfb_report_blocks p) = Ok (concat (map report_block_bytes (ccfb_report_blocks p)))"
    by (intro put_list_bytes report_block_marshal_to_eq) (simp add: ccfb_wf_def list_all_iff)
  with 6 show ?case by (simp add: ccfb_marshal_to_def ccfb_body_def)
next
  case (8 p)
  then show ?case by (rule ccfb_body_parses)
qed (auto simp: ccfb_marshal_size_def ccfb_header_def rtcp_header_for_def ccfb_marshal_to_def ccfb_wf_def Let_def)

interpretation ccfb_codec: rtcp_codec ccfb_marshal_size ccfb_marshal_to "ccfb_unmarshal chunk_len" ccfb_wf ccfb_header
  for chunk_len
  by (rule ccfb_rtcp_codec)

text \<open>The block loop stops within its budget and leaves exactly the bytes behind it.\<close>

lemma unmarshal_ccfb_blocks_budget:
  "n \<le> length bs \<Longrightarrow> unmarshal_ccfb_blocks chunk_len n bs = Err PacketTooShort \<or>
    (\<exists>xs. unmarshal_ccfb_blocks chunk_len n bs = Ok (xs, drop n bs))"
proof (induction chunk_len n bs rule: unmarshal_ccfb_blocks.induct)
  case (1 chunk_len n bs)
  show ?case
  proof (cases "0 < n \<and> report_block_unmarshal_from chunk_len bs n \<noteq> Err PacketTooShort")
    case True
    then obtain b k where b: "report_block_unmarshal_from chunk_len bs n = Ok ((b, k), drop k bs)" "k \<le> n"
      unfolding report_block_unmarshal_from_eq Let_def by (auto split: if_splits)
    have "unmarshal_ccfb_blocks chunk_len (n - k) (drop k bs) = Err PacketTooShort \<or>
        (\<exists>xs. unmarshal_ccfb_blocks chunk_len (n - k) (drop k bs) = Ok (xs, drop (n - k) (drop k bs)))"
      using 1 True b by auto
    then show ?thesis
      unfolding unmarshal_ccfb_blocks.simps [of chunk_len n bs] b(1) using b(2) True by auto
  qed (auto simp: unmarshal_ccfb_blocks.simps [of chunk_len n bs])
qed

interpretation ccfb_decoder: robust_decoder "ccfb_unmarshal chunk_len" for chunk_len
proof (rule robust_decoderI)
  fix bs
  have blocks: "safe bs (and_then (unmarshal_ccfb_blocks chunk_len (4 * l - 8) (drop 8 bs)) (\<lambda>(report_blocks, raw_packet).
      and_then (get_u32 raw_packet) (\<lambda>(report_timestamp, raw_packet).
        Ok (f report_blocks report_timestamp, raw_packet))))" if "\<not> length bs < 4 + 4 * l" "\<not> l < 2" for l f
  proof -
    have "4 * l - 8 \<le> length (drop 8 bs)" "4 * l - 8 + 12 \<le> length bs" using that by simp_all
    with unmarshal_ccfb_blocks_budget [OF this(1), of chunk_len] show ?thesis
      by (auto simp: reads intro!: safe_drop [of _ bs])
  qed
  show "safe bs (ccfb_unmarshal chunk_len bs)"
    unfolding ccfb_unmarshal_def Let_def
    by (cases "12 \<le> length bs") (auto simp: reads intro!: safe_rtcp_header blocks)
qed

end
