(* ===== verification/Rtcp_Remb.thy ===== *)
theory Rtcp_Remb
  imports Rtcp_Header "HOL-Library.Monad_Syntax"
begin

text \<open>
  The receiver estimated maximum bitrate
  (\<open>rtc-rtcp/src/payload_feedbacks/receiver_estimated_maximum_bitrate/mod.rs\<close>). The bitrate is an
  \<open>f32\<close>, represented by its IEEE 754 bit pattern; the operations of \<open>f32\<close> that the source uses are
  defined on it. The two loops, which scale the bitrate down and normalise the mantissa, are
  \<open>partial_function\<close>s, and the lemmas show that they return. A bitrate of at least one
  keeps its leading 18 bits, a bitrate below one is decoded as \<open>2\<^sup>2\<^sup>3\<close>.
\<close>

unbundle bit_operations_syntax

section \<open>Single precision numbers\<close>

type_synonym f32 = u32

definition f32_exponent :: "f32 \<Rightarrow> nat" where
  "f32_exponent x = unat x div 2 ^ 23 mod 2 ^ 8"

definition f32_fraction :: "f32 \<Rightarrow> nat" where
  "f32_fraction x = unat x mod 2 ^ 23"

definition f32_negative :: "f32 \<Rightarrow> bool" where
  "f32_negative x \<longleftrightarrow> 2 ^ 31 \<le> unat x"

definition f32_is_nan :: "f32 \<Rightarrow> bool" where
  "f32_is_nan x \<longleftrightarrow> f32_exponent x = 255 \<and> f32_fraction x \<noteq> 0"

text \<open>Numbers that are not NaN are ordered by sign and magnitude; both zeros have the key 0.\<close>

definition f32_key :: "f32 \<Rightarrow> int" where
  "f32_key x = (let m = int (unat x mod 2 ^ 31) in if f32_negative x then - m else m)"

definition f32_ge :: "f32 \<Rightarrow> f32 \<Rightarrow> bool" where
  "f32_ge x y \<longleftrightarrow> \<not> f32_is_nan x \<and> \<not> f32_is_nan y \<and> f32_key y \<le> f32_key x"

definition f32_lt :: "f32 \<Rightarrow> f32 \<Rightarrow> bool" where
  "f32_lt x y \<longleftrightarrow> \<not> f32_is_nan x \<and> \<not> f32_is_nan y \<and> f32_key x < f32_key y"

text \<open>\<open>x / 2.0\<close>: subnormal results are rounded half to even.\<close>

definition f32_half :: "f32 \<Rightarrow> f32" where
  "f32_half x =
     (if f32_exponent x = 255 then x
      else if 1 < f32_exponent x then x - 2 ^ 23
      else
        let m = unat x mod 2 ^ 31; q = m div 2 in
        (if f32_negative x then 2 ^ 31 else 0) + of_nat (if odd m \<and> odd q then q + 1 else q))"

text \<open>\<open>x.floor() as u32\<close>: the cast saturates, and NaN becomes 0.\<close>

definition f32_floor_as_u32 :: "f32 \<Rightarrow> u32" where
  "f32_floor_as_u32 x =
     (if f32_is_nan x \<or> f32_negative x \<or> f32_exponent x < 127 then 0
      else if f32_exponent x \<le> 150 then of_nat ((2 ^ 23 + f32_fraction x) div 2 ^ (150 - f32_exponent x))
      else if f32_exponent x < 159 then of_nat ((2 ^ 23 + f32_fraction x) * 2 ^ (f32_exponent x - 150))
      else 0xFFFFFFFF)"

lemma f32_split:
  assumes "\<not> f32_negative x"
  shows "unat x = f32_exponent x * 2 ^ 23 + f32_fraction x"
proof -
  have "unat x div 2 ^ 23 < 2 ^ 8" using assms by (simp add: f32_negative_def less_mult_imp_div_less)
  then show ?thesis by (simp add: f32_exponent_def f32_fraction_def)
qed

lemma f32_fields:
  assumes "unat x = e * 2 ^ 23 + f" "f < 2 ^ 23" "e < 256"
  shows "f32_exponent x = e" "f32_fraction x = f" "\<not> f32_negative x"
proof -
  have "unat x div 2 ^ 23 = e" "unat x mod 2 ^ 23 = f" using assms(1,2) by simp_all
  with assms(3) show "f32_exponent x = e" "f32_fraction x = f" by (simp_all add: f32_exponent_def f32_fraction_def)
  have "e * 2 ^ 23 + f < 2 ^ 31" using assms(2,3) by simp
  with assms(1) show "\<not> f32_negative x" by (simp add: f32_negative_def)
qed

lemma f32_fraction_less: "f32_fraction x < 2 ^ 23"
  by (simp add: f32_fraction_def)

section \<open>The packet\<close>

record remb =
  remb_sender_ssrc :: u32
  remb_bitrate :: f32
  remb_ssrcs :: "u32 list"

definition REMB_OFFSET :: nat where [simp]: "REMB_OFFSET = 16"
definition SSRC_ENTRY_OFFSET :: nat where [simp]: "SSRC_ENTRY_OFFSET = 20"
definition UNIQUE_IDENTIFIER :: "u8 list" where "UNIQUE_IDENTIFIER = [0x52, 0x45, 0x4D, 0x42]"

text \<open>\<open>2.417_842_4e24\<close>, the number \<open>0x3FFFFp+63\<close>, and \<open>(1 << 18) as f32\<close>.\<close>

definition BITRATE_MAX :: f32 where "BITRATE_MAX = 0x67FFFFC0"
definition BITRATE_MANTISSA_LIMIT :: f32 where "BITRATE_MANTISSA_LIMIT = 0x48800000"
definition MANTISSA_MAX :: u32 where "MANTISSA_MAX = 0x7FFFFF"

definition remb_raw_size :: "remb \<Rightarrow> nat" where
  "remb_raw_size p = RTCP_HEADER_LENGTH + REMB_OFFSET + length (remb_ssrcs p) * 4"

definition remb_marshal_size :: "remb \<Rightarrow> nat" where
  "remb_marshal_size p = (let l = remb_raw_size p in l + get_padding_size l)"

definition remb_header :: "remb \<Rightarrow> rtcp_header" where
  "remb_header p =
     \<lparr>rtcp_padding = get_padding_size (remb_raw_size p) \<noteq> 0, rtcp_count = FORMAT_REMB,
      rtcp_packet_type = PayloadSpecificFeedback, rtcp_length = of_nat (remb_marshal_size p div 4 - 1)\<rparr>"

definition remb_destination_ssrc :: "remb \<Rightarrow> u32 list" where
  "remb_destination_ssrc p = remb_ssrcs p"

text \<open>\<open>while bitrate >= (1 << 18) as f32 { bitrate /= 2.0; exp += 1; }\<close>\<close>

partial_function (option) remb_scale :: "nat \<Rightarrow> f32 \<Rightarrow> (nat \<times> f32) option" where
  "remb_scale expo bitrate =
     (if f32_ge bitrate BITRATE_MANTISSA_LIMIT then remb_scale (expo + 1) (f32_half bitrate)
      else Some (expo, bitrate))"

text \<open>\<open>if bitrate >= BITRATE_MAX { bitrate = BITRATE_MAX }\<close>\<close>

definition remb_clamp :: "f32 \<Rightarrow> f32" where
  "remb_clamp x = (if f32_ge x BITRATE_MAX then BITRATE_MAX else x)"

text \<open>The bytes of the exponent and the mantissa. The loop returns for every bitrate (\<open>remb_scale_returns\<close>).\<close>

definition remb_put_bitrate :: "f32 \<Rightarrow> u8 list result" where
  "remb_put_bitrate bitrate =
     (let bitrate = remb_clamp bitrate in
      if f32_lt bitrate 0 then Err InvalidBitrate
      else case remb_scale 0 bitrate of
        None \<Rightarrow> Err Panic
      | Some (expo, bitrate) \<Rightarrow>
          if expo \<ge> 64 then Err InvalidBitrate
          else
            let mantissa = f32_floor_as_u32 bitrate in
            Ok (put_u8 (push_bit 2 (of_nat expo) OR ucast (drop_bit 16 mantissa)) @
                put_u8 (ucast (drop_bit 8 mantissa)) @ put_u8 (ucast mantissa)))"

definition remb_marshal_to :: "remb \<Rightarrow> nat \<Rightarrow> (u8 list \<times> nat) result" where
  "remb_marshal_to p cap =
     (if cap < remb_marshal_size p then Err BufferTooShort
      else and_then (remb_put_bitrate (remb_bitrate p)) (\<lambda>bitrate.
        rtcp_put (remb_header p)
          (put_u32 (remb_sender_ssrc p) @ put_u32 0 @ UNIQUE_IDENTIFIER @
           put_u8 (of_nat (length (remb_ssrcs p))) @ bitrate @ concat (map put_u32 (remb_ssrcs p)))
          (remb_raw_size p) (remb_marshal_size p) cap))"

text \<open>\<open>while (mantissa & (MANTISSA_MAX + 1)) == 0 { exp -= 1; mantissa *= 2; }\<close>\<close>

partial_function (option) remb_normalize :: "u64 \<Rightarrow> u32 \<Rightarrow> (u64 \<times> u32) option" where
  "remb_normalize expo mantissa =
     (if mantissa AND (MANTISSA_MAX + 1) = 0 then remb_normalize (expo - 1) (mantissa * 2)
      else Some (expo, mantissa))"

definition remb_get_bitrate :: "u8 \<Rightarrow> u8 \<Rightarrow> u8 \<Rightarrow> f32 option" where
  "remb_get_bitrate b17 b18 b19 =
     (let expo = drop_bit 2 (ucast b17 :: u64) + 127 + 23;
          mantissa = push_bit 16 (ucast (b17 AND 3) :: u32) OR push_bit 8 (ucast b18) OR ucast b19 in
      map_option (\<lambda>(expo, mantissa). push_bit 23 (ucast expo) OR mantissa AND MANTISSA_MAX)
        (if mantissa \<noteq> 0 then remb_normalize expo mantissa else Some (expo, mantissa)))"

definition remb_unmarshal :: "u8 list \<Rightarrow> (remb \<times> u8 list) result" where
  "remb_unmarshal raw_packet =
     (let raw_packet_len = length raw_packet in
      if raw_packet_len < SSRC_ENTRY_OFFSET then Err PacketTooShort
      else and_then (rtcp_header_unmarshal raw_packet) (\<lambda>(header, raw_packet).
        if rtcp_packet_type header \<noteq> PayloadSpecificFeedback \<or> rtcp_count header \<noteq> FORMAT_REMB then Err WrongType
        else and_then (get_u32 raw_packet) (\<lambda>(sender_ssrc, raw_packet).
          and_then (get_u32 raw_packet) (\<lambda>(media_ssrc, raw_packet).
          if media_ssrc \<noteq> 0 then Err SsrcMustBeZero
          else and_then (get_u8 raw_packet) (\<lambda>(i0, raw_packet).
            and_then (get_u8 raw_packet) (\<lambda>(i1, raw_packet).
            and_then (get_u8 raw_packet) (\<lambda>(i2, raw_packet).
            and_then (get_u8 raw_packet) (\<lambda>(i3, raw_packet).
            if [i0, i1, i2, i3] \<noteq> UNIQUE_IDENTIFIER then Err MissingRembIdentifier
            else and_then (get_u8 raw_packet) (\<lambda>(ssrcs_len, raw_packet).
              if raw_packet_len < SSRC_ENTRY_OFFSET + unat ssrcs_len * 4 then Err PacketTooShort
              else and_then (get_u8 raw_packet) (\<lambda>(b17, raw_packet).
                and_then (get_u8 raw_packet) (\<lambda>(b18, raw_packet).
                and_then (get_u8 raw_packet) (\<lambda>(b19, raw_packet).
                case remb_get_bitrate b17 b18 b19 of
                  None \<Rightarrow> Err Panic
                | Some bitrate \<Rightarrow>
                    and_then (get_many get_u32 (unat ssrcs_len) raw_packet) (\<lambda>(ssrcs, raw_packet).
                    and_then (advance (length raw_packet) raw_packet) (\<lambda>raw_packet.
                      Ok (\<lparr>remb_sender_ssrc = sender_ssrc, remb_bitrate = bitrate, remb_ssrcs = ssrcs\<rparr>,
                          raw_packet)))))))))))))))"

section \<open>The loops return\<close>

lemma f32_ge_bits:
  assumes "unat x < 0x7F800001" "unat y < 0x7F800001"
  shows "f32_ge x y \<longleftrightarrow> y \<le> x" "f32_lt x y \<longleftrightarrow> x < y"
proof -
  have key: "f32_key z = int (unat z)" "\<not> f32_is_nan z" if "unat z < 0x7F800001" for z
  proof -
    have pos: "\<not> f32_negative z" using that by (simp add: f32_negative_def)
    then show "f32_key z = int (unat z)" using that by (simp add: f32_key_def)
    have "f32_exponent z * 2 ^ 23 + f32_fraction z < 0x7F800001" using f32_split [OF pos] that by simp
    then show "\<not> f32_is_nan z" by (auto simp: f32_is_nan_def)
  qed
  show "f32_ge x y \<longleftrightarrow> y \<le> x" "f32_lt x y \<longleftrightarrow> x < y"
    using key [OF assms(1)] key [OF assms(2)]
    by (simp_all add: f32_ge_def f32_lt_def word_le_def word_less_def)
qed

lemma remb_scale_steps:
  assumes "unat x = (144 + k) * 2 ^ 23 + f" "f < 2 ^ 23" "k < 111"
  shows "remb_scale expo x = Some (expo + k, x - of_nat (k * 2 ^ 23))"
  using assms
proof (induction k arbitrary: expo x)
  case 0
  then have "\<not> f32_ge x BITRATE_MANTISSA_LIMIT"
    by (subst f32_ge_bits) (simp_all add: BITRATE_MANTISSA_LIMIT_def word_le_nat_alt)
  then show ?case by (simp add: remb_scale.simps)
next
  case (Suc k)
  have ge: "f32_ge x BITRATE_MANTISSA_LIMIT"
    using Suc.prems by (subst f32_ge_bits) (simp_all add: BITRATE_MANTISSA_LIMIT_def word_le_nat_alt)
  have "f32_exponent x = 144 + Suc k" using f32_fields(1) [OF Suc.prems(1,2)] Suc.prems(3) by simp
  then have half: "f32_half x = x - 2 ^ 23" using Suc.prems(3) by (simp add: f32_half_def)
  have "(2 ^ 23 :: u32) \<le> x" using Suc.prems(1) by (simp add: word_le_nat_alt)
  then have "unat (x - 2 ^ 23) = (144 + k) * 2 ^ 23 + f" using Suc.prems(1) by (simp add: unat_sub)
  from Suc.IH [OF this Suc.prems(2)] Suc.prems(3)
  have "remb_scale (expo + 1) (x - 2 ^ 23) = Some (expo + 1 + k, x - 2 ^ 23 - of_nat (k * 2 ^ 23))" by simp
  then show ?case
    unfolding remb_scale.simps [of expo x] half using ge by (simp add: algebra_simps)
qed

lemma mantissa_leading_bit: "m AND (MANTISSA_MAX + 1) = 0 \<longleftrightarrow> \<not> bit m 23"
  using and_exp_eq_0_iff_not_bit [of m 23] by (simp add: MANTISSA_MAX_def)

lemma remb_normalize_steps:
  assumes "2 ^ 23 \<le> n * 2 ^ j" "n * 2 ^ j < 2 ^ 24"
  shows "remb_normalize expo (of_nat n) = Some (expo - of_nat j, of_nat (n * 2 ^ j))"
  using assms
proof (induction j arbitrary: expo n)
  case (0 expo n)
  then have "n div 2 ^ 23 = 1" by (simp add: div_nat_eqI)
  then have "bit n 23" by (simp add: bit_iff_odd)
  then have "bit (of_nat n :: u32) 23" by (simp add: bit_of_nat_iff)
  then show ?case by (simp add: remb_normalize.simps mantissa_leading_bit)
next
  case (Suc j expo n)
  have "n * 2 \<le> n * 2 ^ Suc j" by simp
  from le_less_trans [OF this Suc.prems(2)] have "n * 2 < 2 ^ 24" .
  then have "n div 2 ^ 23 = 0" by simp
  then have "\<not> bit n 23" by (simp add: bit_iff_odd)
  then have "\<not> bit (of_nat n :: u32) 23" by (simp add: bit_of_nat_iff)
  moreover have "remb_normalize (expo - 1) (of_nat (n * 2)) = Some (expo - 1 - of_nat j, of_nat (n * 2 * 2 ^ j))"
    using Suc.prems by (intro Suc.IH) (simp_all add: mult.assoc)
  ultimately show ?case
    unfolding remb_normalize.simps [of expo "of_nat n"] mantissa_leading_bit by (simp add: algebra_simps)
qed

text \<open>The exponent and the mantissa survive their three bytes.\<close>

lemma remb_bytes:
  fixes m :: u32
  assumes "k < 64" "m < 2 ^ 18"
  defines "b17 \<equiv> push_bit 2 (of_nat k) OR ucast (drop_bit 16 m) :: u8"
  shows "drop_bit 2 (ucast b17 :: u64) = of_nat k"
    and "push_bit 16 (ucast (b17 AND 3) :: u32) OR push_bit 8 (ucast (ucast (drop_bit 8 m) :: u8)) OR ucast (ucast m :: u8) = m"
proof -
  have m: "n < 18" if "bit m n" for n using bit_less_exp [OF assms(2) that] .
  have k: "n < 6" if "bit k n" for n
  proof -
    have "k < 2 ^ 6" using assms(1) by simp
    then have "take_bit 6 k = k" by (rule take_bit_nat_eq_self)
    with that show ?thesis by (metis bit_take_bit_iff)
  qed
  show "drop_bit 2 (ucast b17 :: u64) = of_nat k"
    unfolding b17_def by (rule bit_word_eqI) (auto simp: bit_simps dest: m k)
  show "push_bit 16 (ucast (b17 AND 3) :: u32) OR push_bit 8 (ucast (ucast (drop_bit 8 m) :: u8)) OR ucast (ucast m :: u8) = m"
    unfolding b17_def field_masks by (rule bit_word_eqI) (auto simp: bit_simps dest: m k)
qed

section \<open>Bitrates survive to 18 significant bits\<close>

text \<open>The bits of the fraction that the 18-bit mantissa has no room for, and the number without them.\<close>

definition remb_lost_bits :: "f32 \<Rightarrow> nat" where
  "remb_lost_bits x = 150 - min (f32_exponent x) 144"

definition remb_truncate :: "f32 \<Rightarrow> f32" where
  "remb_truncate x = of_nat (unat x div 2 ^ remb_lost_bits x * 2 ^ remb_lost_bits x)"

lemma f32_finite:
  assumes "f32_ge x 0x3F800000"
  shows "unat x < 0x7F800001" "0x3F800000 \<le> unat x"
proof -
  have nan: "\<not> f32_is_nan x" and key: "0x3F800000 \<le> f32_key x"
    using assms by (simp_all add: f32_ge_def f32_key_def f32_negative_def)
  from key have pos: "\<not> f32_negative x" by (auto simp: f32_key_def Let_def)
  then have "unat x < 2 ^ 31" by (simp add: f32_negative_def)
  then show "0x3F800000 \<le> unat x" using key pos by (simp add: f32_key_def del: of_nat_unat)
  have "f32_exponent x < 256" by (simp add: f32_exponent_def)
  with nan f32_split [OF pos] f32_fraction_less [of x] show "unat x < 0x7F800001"
    by (auto simp: f32_is_nan_def)
qed

text \<open>From one on, a clamped bitrate has an exponent that fits the six bits.\<close>

lemma remb_clamp_fields:
  assumes "f32_ge x 0x3F800000"
  obtains e f where "unat (remb_clamp x) = e * 2 ^ 23 + f" "f < 2 ^ 23" "127 \<le> e" "e \<le> 207"
proof -
  let ?c = "remb_clamp x"
  have max: "unat BITRATE_MAX < 0x7F800001" by (simp add: BITRATE_MAX_def)
  have le: "unat ?c \<le> 0x67FFFFC0" "0x3F800000 \<le> unat ?c"
    using f32_finite [OF assms] f32_ge_bits [OF f32_finite(1) [OF assms] max]
    by (auto simp: remb_clamp_def BITRATE_MAX_def word_le_nat_alt)
  define e f where "e = unat ?c div 2 ^ 23" and "f = unat ?c mod 2 ^ 23"
  have eq: "unat ?c = e * 2 ^ 23 + f" "f < 2 ^ 23" by (simp_all add: e_def f_def)
  moreover have "127 \<le> e" "e \<le> 207" using le eq by auto
  ultimately show thesis by (rule that)
qed

lemma remb_scale_returns:
  assumes "\<not> f32_lt x 0"
  shows "\<exists>k y. remb_scale 0 (remb_clamp x) = Some (k, y) \<and> k < 64"
proof (cases "f32_ge x 0x3F800000")
  case True
  then obtain e f where x: "unat (remb_clamp x) = e * 2 ^ 23 + f" "f < 2 ^ 23" "e \<le> 207"
    by (rule remb_clamp_fields)
  show ?thesis
  proof (cases "144 \<le> e")
    case True
    with remb_scale_steps [of "remb_clamp x" "e - 144" f 0] x show ?thesis by simp
  next
    case False
    then have "\<not> f32_ge (remb_clamp x) BITRATE_MANTISSA_LIMIT"
      using x by (subst f32_ge_bits) (simp_all add: BITRATE_MANTISSA_LIMIT_def word_le_nat_alt)
    then show ?thesis by (simp add: remb_scale.simps)
  qed
next
  case False
  then have "\<not> f32_ge x BITRATE_MAX" "\<not> f32_ge x BITRATE_MANTISSA_LIMIT"
    by (auto simp: f32_ge_def BITRATE_MAX_def BITRATE_MANTISSA_LIMIT_def f32_is_nan_def f32_exponent_def
        f32_fraction_def f32_key_def f32_negative_def)
  then show ?thesis by (simp add: remb_clamp_def remb_scale.simps)
qed

lemma remb_put_bitrate_cases:
  "remb_put_bitrate x = (if f32_lt x 0 then Err InvalidBitrate else remb_put_bitrate x) \<and>
   (\<not> f32_lt x 0 \<longrightarrow> (\<exists>a b c. remb_put_bitrate x = Ok [a, b, c]))"
proof (cases "f32_lt x 0")
  case True
  then have "\<not> f32_ge x BITRATE_MAX"
    by (simp add: f32_lt_def f32_ge_def BITRATE_MAX_def f32_key_def f32_negative_def)
  with True show ?thesis by (simp add: remb_put_bitrate_def remb_clamp_def)
next
  case False
  then obtain k y where "remb_scale 0 (remb_clamp x) = Some (k, y)" "k < 64" using remb_scale_returns by blast
  moreover have "\<not> f32_lt (remb_clamp x) 0"
    using False by (simp add: remb_clamp_def BITRATE_MAX_def f32_lt_def f32_key_def f32_negative_def)
  ultimately show ?thesis
    using False by (simp add: remb_put_bitrate_def Let_def put_u8_def)
qed

lemma remb_put_bitrate_eq:
  assumes "unat (remb_clamp x) = e * 2 ^ 23 + f" "f < 2 ^ 23" "127 \<le> e" "e \<le> 207"
  defines "m \<equiv> of_nat ((2 ^ 23 + f) div 2 ^ (150 - min e 144)) :: u32"
  shows "remb_put_bitrate x =
    Ok (put_u8 (push_bit 2 (of_nat (e - 144)) OR ucast (drop_bit 16 m)) @ put_u8 (ucast (drop_bit 8 m)) @ put_u8 (ucast m))"
proof -
  let ?c = "remb_clamp x"
  have "\<not> f32_lt ?c 0" using assms(1-4) by (subst f32_ge_bits) (simp_all add: word_less_nat_alt)
  moreover obtain y where y: "remb_scale 0 ?c = Some (e - 144, y)" "unat y = min e 144 * 2 ^ 23 + f"
  proof (cases "144 \<le> e")
    case True
    have k: "remb_scale 0 ?c = Some (e - 144, ?c - of_nat ((e - 144) * 2 ^ 23))"
      using remb_scale_steps [of ?c "e - 144" f 0] assms(1-4) True by simp
    have "unat (of_nat ((e - 144) * 2 ^ 23) :: u32) = (e - 144) * 2 ^ 23"
      using assms(4) by (simp add: unat_of_nat take_bit_nat_eq_self del: of_nat_mult)
    then have "unat (?c - of_nat ((e - 144) * 2 ^ 23)) = 144 * 2 ^ 23 + f"
      using True assms(1,2) by (subst unat_sub) (simp_all add: word_le_nat_alt diff_mult_distrib)
    with k True that show thesis by simp
  next
    case False
    then have "\<not> f32_ge ?c BITRATE_MANTISSA_LIMIT"
      using assms(1-4) by (subst f32_ge_bits) (simp_all add: BITRATE_MANTISSA_LIMIT_def word_le_nat_alt)
    with False assms(1) that show thesis by (simp add: remb_scale.simps)
  qed
  moreover have "f32_floor_as_u32 y = m"
  proof -
    define h where "h = min e 144"
    have h: "h < 256" "127 \<le> h" "h \<le> 144" using assms(3) by (simp_all add: h_def)
    with f32_fields [OF y(2) [folded h_def] assms(2) h(1)] show ?thesis
      unfolding f32_floor_as_u32_def f32_is_nan_def m_def h_def [symmetric] by simp
  qed
  ultimately show ?thesis
    using assms(4) by (simp add: remb_put_bitrate_def Let_def)
qed

lemma push_bit_or_nat: "g < 2 ^ n \<Longrightarrow> push_bit n a OR g = a * 2 ^ n + (g :: nat)"
proof -
  assume "g < 2 ^ n"
  then have "take_bit n g = g" by (rule take_bit_nat_eq_self)
  then have "push_bit n a AND g = 0"
    by (intro bit_eqI) (metis bit_and_iff bit_push_bit_iff bit_take_bit_iff bit_0_eq bot_apply bot_bool_def linorder_not_le)
  then show ?thesis using disjunctive_add_eq_or [of "push_bit n a" g] by (simp add: push_bit_eq_mult)
qed

text \<open>The number that a normalised mantissa and an exponent give.\<close>

lemma f32_from_parts:
  assumes "g < 2 ^ 23"
  shows "push_bit 23 (ucast (of_nat e :: u64) :: u32) OR of_nat (2 ^ 23 + g) AND MANTISSA_MAX = of_nat (e * 2 ^ 23 + g)"
proof -
  have "MANTISSA_MAX = mask 23" by (simp add: MANTISSA_MAX_def mask_eq_exp_minus_1)
  then have "of_nat (2 ^ 23 + g) AND MANTISSA_MAX = take_bit 23 (of_nat (2 ^ 23 + g))" by (simp only: take_bit_eq_mask)
  also have "\<dots> = of_nat (take_bit 23 (2 ^ 23 + g))" by (simp only: take_bit_of_nat)
  also have "take_bit 23 (2 ^ 23 + g) = g" using assms by (simp add: take_bit_eq_mod)
  finally have m: "of_nat (2 ^ 23 + g) AND MANTISSA_MAX = of_nat g" .
  have "push_bit 23 (ucast (of_nat e :: u64) :: u32) = of_nat (push_bit 23 e)"
    by (rule bit_word_eqI) (auto simp: bit_simps)
  with m show ?thesis
    using push_bit_or_nat [OF assms, of e] by (simp only: of_nat_or_eq [symmetric])
qed

lemma remb_get_bitrate_eq:
  assumes "f < 2 ^ 23" "127 \<le> e" "e \<le> 207"
  defines "j \<equiv> 150 - min e 144"
  defines "m \<equiv> of_nat ((2 ^ 23 + f) div 2 ^ j) :: u32"
  shows "remb_get_bitrate (push_bit 2 (of_nat (e - 144)) OR ucast (drop_bit 16 m)) (ucast (drop_bit 8 m)) (ucast m) =
    Some (of_nat ((e * 2 ^ 23 + f) div 2 ^ j * 2 ^ j))"
proof -
  define n where "n = (2 ^ 23 + f) div 2 ^ j"
  define g where "g = f div 2 ^ j * 2 ^ j"
  have j: "6 \<le> j" "j \<le> 23" "e - 144 + 150 = e + j" using assms(2,3) by (auto simp: j_def)
  have split: "(a * 2 ^ 23 + f) div 2 ^ j * 2 ^ j = a * 2 ^ 23 + g" for a
  proof -
    have p: "(2 :: nat) ^ 23 = 2 ^ (23 - j) * 2 ^ j" using j(2) by (simp flip: power_add)
    have "(a * 2 ^ 23 + f) div 2 ^ j = a * 2 ^ (23 - j) + f div 2 ^ j"
      unfolding p by (simp only: mult.assoc [symmetric]) simp
    then show ?thesis unfolding p g_def by (simp only: add_mult_distrib mult.assoc)
  qed
  have g: "g < 2 ^ 23" unfolding g_def by (rule le_less_trans [OF div_times_less_eq_dividend assms(1)])
  have nj: "n * 2 ^ j = 2 ^ 23 + g" using split [of 1] by (simp add: n_def)
  have "2 ^ 6 * n \<le> 2 ^ j * n" using j(1) by (intro mult_le_mono1 power_increasing) simp_all
  then have n: "n < 2 ^ 18" "0 < n" using nj g by (auto simp: mult.commute intro: Nat.gr0I)
  then have m: "m < 2 ^ 18" "m \<noteq> 0" "m = of_nat n"
    unfolding m_def n_def [symmetric]
    by (simp_all add: word_less_nat_alt unat_of_nat take_bit_nat_eq_self, auto simp: word_of_nat_eq_0_iff dest: dvd_imp_le)
  note bytes = remb_bytes [of "e - 144" m]
  have "remb_normalize (of_nat (e + j)) (of_nat n) = Some (of_nat e, of_nat (2 ^ 23 + g))"
    using remb_normalize_steps [of n j "of_nat (e + j)"] nj g by simp
  moreover have "of_nat (e - 144) + 127 + 23 = (of_nat (e + j) :: u64)"
    using arg_cong [OF j(3), of "of_nat :: nat \<Rightarrow> u64"] by (simp add: add.commute)
  ultimately show ?thesis
    using f32_from_parts [OF g, of e] bytes m assms(3) split [of e]
    by (simp add: remb_get_bitrate_def Let_def)
qed

lemma remb_bitrate_survives:
  assumes "f32_ge x 0x3F800000"
  shows "\<exists>a b c. remb_put_bitrate x = Ok [a, b, c] \<and> remb_get_bitrate a b c = Some (remb_truncate (remb_clamp x))"
proof -
  obtain e f where x: "unat (remb_clamp x) = e * 2 ^ 23 + f" "f < 2 ^ 23" "127 \<le> e" "e \<le> 207"
    using remb_clamp_fields [OF assms] by blast
  then have "remb_lost_bits (remb_clamp x) = 150 - min e 144"
    using f32_fields(1) [OF x(1,2)] by (simp add: remb_lost_bits_def)
  with remb_put_bitrate_eq [OF x] remb_get_bitrate_eq [OF x(2-4)] x(1) show ?thesis
    by (auto simp: remb_truncate_def put_u8_def)
qed

lemma remb_normalize_returns:
  assumes "m \<noteq> 0" "m < 2 ^ 18"
  shows "\<exists>e n. remb_normalize expo m = Some (e, n)"
proof -
  have pos: "0 < unat m" "unat m < 2 ^ 18" using assms by (simp_all add: word_less_nat_alt unat_gt_0)
  obtain l where l: "2 ^ l \<le> unat m" "unat m < 2 ^ Suc l" using ex_power_ivl1 [of 2 "unat m"] pos(1) by auto
  then have "(2 :: nat) ^ l < 2 ^ 18" using pos(2) by linarith
  then have "l \<le> 23" by (simp only: power_strict_increasing_iff)
  then have p: "(2 :: nat) ^ l * 2 ^ (23 - l) = 2 ^ 23" by (simp flip: power_add)
  have "2 ^ l * 2 ^ (23 - l) \<le> unat m * 2 ^ (23 - l)" "unat m * 2 ^ (23 - l) < 2 ^ Suc l * 2 ^ (23 - l)"
    using l by simp_all
  moreover have "(2 :: nat) ^ Suc l * 2 ^ (23 - l) = 2 ^ 24" using p by simp
  ultimately have "2 ^ 23 \<le> unat m * 2 ^ (23 - l)" "unat m * 2 ^ (23 - l) < 2 ^ 24" unfolding p by linarith+
  from remb_normalize_steps [OF this, of expo] show ?thesis by auto
qed

lemma remb_get_bitrate_returns: "\<exists>x. remb_get_bitrate a b c = Some x"
proof -
  let ?m = "push_bit 16 (ucast (a AND 3) :: u32) OR push_bit 8 (ucast b) OR ucast c"
  have "?m = take_bit 18 ?m" unfolding field_masks by (rule bit_word_eqI) (auto simp: bit_simps dest: bit_imp_le_length)
  moreover have "unat (take_bit 18 ?m) < 2 ^ 18" unfolding unsigned_take_bit_eq by (rule take_bit_nat_less_exp)
  ultimately have "?m < 2 ^ 18" by (simp add: word_less_nat_alt)
  with remb_normalize_returns [of ?m] show ?thesis
    by (cases "?m = 0") (auto simp: remb_get_bitrate_def Let_def)
qed

section \<open>Round trip\<close>

definition remb_body :: "u8 list \<Rightarrow> remb \<Rightarrow> u8 list" where
  "remb_body bitrate p =
     put_u32 (remb_sender_ssrc p) @ put_u32 0 @ UNIQUE_IDENTIFIER @
     put_u8 (of_nat (length (remb_ssrcs p))) @ bitrate @ concat (map put_u32 (remb_ssrcs p))"

lemma length_put_u32s [simp]: "length (concat (map put_u32 xs)) = 4 * length xs"
  by (rule u32_codec.concat_length)

lemma length_remb_body: "length bitrate = 3 \<Longrightarrow> 4 + length (remb_body bitrate p) = remb_raw_size p"
  by (simp add: remb_body_def remb_raw_size_def UNIQUE_IDENTIFIER_def)

lemma remb_raw_size_aligned [simp]: "remb_raw_size p mod 4 = 0"
  by (simp add: remb_raw_size_def)

lemma remb_header_eq: "remb_header p = rtcp_header_for FORMAT_REMB PayloadSpecificFeedback (remb_raw_size p)"
  by (simp add: remb_header_def rtcp_header_for_def remb_marshal_size_def Let_def)

lemma remb_body_parses:
  assumes "length (remb_ssrcs p) \<le> 255" "remb_get_bitrate a b c = Some x"
  shows "remb_unmarshal (rtcp_header_bytes (remb_header p) @ remb_body [a, b, c] p) = Ok (p\<lparr>remb_bitrate := x\<rparr>, [])"
proof -
  have n: "unat (of_nat (length (remb_ssrcs p)) :: u8) = length (remb_ssrcs p)"
    using assms(1) by (simp add: unat_of_nat take_bit_nat_eq_self)
  have "get_many get_u32 (length (remb_ssrcs p)) (concat (map put_u32 (remb_ssrcs p)) @ []) = Ok (remb_ssrcs p, [])"
    by (rule get_many_bytes) simp
  then show ?thesis
    using assms(2) by (simp add: remb_unmarshal_def remb_header_eq remb_body_def UNIQUE_IDENTIFIER_def n put_u8_def)
qed

lemma remb_marshal_to_eq:
  assumes "remb_put_bitrate (remb_bitrate p) = Ok [a, b, c]" "remb_marshal_size p \<le> cap"
  shows "remb_marshal_to p cap = rtcp_put (remb_header p) (remb_body [a, b, c] p) (remb_raw_size p) (remb_marshal_size p) cap"
  using assms by (simp add: remb_marshal_to_def remb_body_def)

lemma remb_marshal_to_bytes:
  assumes "remb_put_bitrate (remb_bitrate p) = Ok [a, b, c]" "remb_marshal_size p \<le> cap"
  shows "remb_marshal_to p cap = Ok (rtcp_header_bytes (remb_header p) @ remb_body [a, b, c] p, remb_marshal_size p)"
proof -
  have len: "remb_raw_size p = 4 + length (remb_body [a, b, c] p)" by (simp add: length_remb_body)
  then have "rtcp_body (remb_body [a, b, c] p) = remb_body [a, b, c] p"
    using remb_raw_size_aligned [of p] by (intro rtcp_body_aligned) simp
  then show ?thesis
    unfolding remb_marshal_to_eq [OF assms]
    using rtcp_put_eq [OF _ len, of FORMAT_REMB cap PayloadSpecificFeedback] assms(2)
    by (simp add: remb_header_eq remb_marshal_size_def)
qed

definition remb_wf :: "remb \<Rightarrow> bool" where
  "remb_wf p \<longleftrightarrow> length (remb_ssrcs p) \<le> 255 \<and> f32_ge (remb_bitrate p) 0x3F800000 \<and>
     remb_truncate (remb_clamp (remb_bitrate p)) = remb_bitrate p"

definition remb_bitrate_bytes :: "remb \<Rightarrow> u8 list" where
  "remb_bitrate_bytes p = (case remb_put_bitrate (remb_bitrate p) of Inl _ \<Rightarrow> [0, 0, 0] | Inr bs \<Rightarrow> bs)"

lemma remb_wf_bytes:
  assumes "remb_wf p"
  obtains a b c where "remb_put_bitrate (remb_bitrate p) = Ok [a, b, c]" "remb_bitrate_bytes p = [a, b, c]"
    "remb_get_bitrate a b c = Some (remb_bitrate p)"
  using assms remb_bitrate_survives [of "remb_bitrate p"] by (auto simp: remb_wf_def remb_bitrate_bytes_def)

interpretation remb_codec: rtcp_codec remb_marshal_size remb_marshal_to remb_unmarshal remb_wf remb_header
proof (rule rtcp_codecI [where raw_size = remb_raw_size and count = "\<lambda>_. FORMAT_REMB"
      and ptype = "\<lambda>_. PayloadSpecificFeedback" and body = "\<lambda>p. remb_body (remb_bitrate_bytes p) p"], goal_cases)
  case (3 p)
  then show ?case by (elim remb_wf_bytes) (simp add: length_remb_body)
next
  case (6 p cap)
  then show ?case by (elim remb_wf_bytes) (simp add: remb_marshal_to_eq)
next
  case (8 p)
  then obtain a b c where abc: "remb_bitrate_bytes p = [a, b, c]" "remb_get_bitrate a b c = Some (remb_bitrate p)"
    by (elim remb_wf_bytes)
  have "(4 + length (remb_body [a, b, c] p)) mod 4 = 0" by (simp add: length_remb_body)
  then have "rtcp_body (remb_body [a, b, c] p) = remb_body [a, b, c] p" by (intro rtcp_body_aligned) simp
  with 8 abc remb_body_parses [of p a b c "remb_bitrate p"] show ?case by (simp add: remb_wf_def)
qed (auto simp: remb_header_eq remb_marshal_size_def remb_marshal_to_def remb_wf_def remb_raw_size_def Let_def)

interpretation remb_decoder: robust_decoder remb_unmarshal
proof (rule robust_decoderI)
  fix bs
  have tail: "safe bs (case remb_get_bitrate a b c of None \<Rightarrow> Err Panic | Some x \<Rightarrow>
      and_then (get_many get_u32 n (drop 20 bs)) (\<lambda>(ssrcs, raw_packet).
      and_then (advance (length raw_packet) raw_packet) (\<lambda>raw_packet. Ok (f x ssrcs, raw_packet))))"
    if fits: "20 + n * 4 \<le> length bs" for a b c n f
  proof -
    obtain x where x: "remb_get_bitrate a b c = Some x" using remb_get_bitrate_returns by blast
    have "n * 4 \<le> length (drop 20 bs)" using fits by simp
    from u32_codec.get_many_total [OF this] obtain xs where
      "get_many get_u32 n (drop 20 bs) = Ok (xs, drop (n * 4) (drop 20 bs))" by blast
    with x show ?thesis by (simp add: advance_def)
  qed
  show "safe bs (remb_unmarshal bs)"
    unfolding remb_unmarshal_def Let_def
    by (cases "20 \<le> length bs") (auto simp: reads intro!: safe_rtcp_header tail)
qed

text \<open>Below one, the mantissa is zero.\<close>

lemma remb_small_bitrate:
  assumes "\<not> f32_ge x 0x3F800000" "\<not> f32_lt x 0"
  shows "remb_put_bitrate x = Ok [0, 0, 0]"
proof -
  have const: "\<not> f32_is_nan 0x3F800000" "f32_key 0x3F800000 = 0x3F800000" "\<not> f32_is_nan 0" "f32_key 0 = 0"
    by (simp_all add: f32_is_nan_def f32_exponent_def f32_fraction_def f32_key_def f32_negative_def)
  have small: "\<not> f32_ge x BITRATE_MAX" "\<not> f32_ge x BITRATE_MANTISSA_LIMIT"
    using assms(1) const
    by (auto simp: f32_ge_def BITRATE_MAX_def BITRATE_MANTISSA_LIMIT_def f32_is_nan_def f32_exponent_def
        f32_fraction_def f32_key_def f32_negative_def)
  have "f32_exponent x < 127" if "\<not> f32_is_nan x" "\<not> f32_negative x"
  proof -
    have "f32_key x < 0x3F800000" using assms(1) that const by (simp add: f32_ge_def)
    then have "unat x mod 2 ^ 31 < 0x3F800000" using that(2) by (simp add: f32_key_def)
    moreover have "unat x < 2 ^ 31" using that(2) by (simp add: f32_negative_def)
    ultimately show ?thesis using f32_split [OF that(2)] by simp
  qed
  then have "f32_floor_as_u32 x = 0" 
    by (cases "f32_is_nan x"; cases "f32_negative x") (simp_all add: f32_floor_as_u32_def)
  with small assms(2) show ?thesis
    by (simp add: remb_put_bitrate_def remb_clamp_def remb_scale.simps put_u8_def)
qed

text \<open>a bitrate below one bit per second (an estimate of zero, for example) is encoded with the mantissa
  zero, and the decoder, which does not normalise that mantissa, reads \<open>2\<^sup>2\<^sup>3\<close> bits per second.\<close>

theorem remb_zero_decodes_as_eight_million:
  assumes "\<not> f32_ge (remb_bitrate p) 0x3F800000" "\<not> f32_lt (remb_bitrate p) 0"
    "length (remb_ssrcs p) \<le> 255" "remb_marshal_size p \<le> cap"
  shows "\<exists>bs. remb_marshal_to p cap = Ok (bs, remb_marshal_size p) \<and>
    remb_unmarshal bs = Ok (p\<lparr>remb_bitrate := 0x4B000000\<rparr>, [])"
proof -
  have "remb_get_bitrate 0 0 0 = Some 0x4B000000"
    by (simp add: remb_get_bitrate_def push_bit_eq_mult)
  with remb_small_bitrate [OF assms(1,2)] show ?thesis
    using remb_marshal_to_bytes [of p 0 0 0 cap] remb_body_parses [of p 0 0 0] assms(3,4) by simp
qed

theorem remb_zero_decodes_as_eight_million_witness:
  "\<exists>bs. remb_marshal_to \<lparr>remb_sender_ssrc = 1, remb_bitrate = 0, remb_ssrcs = [7]\<rparr> 24 = Ok (bs, 24) \<and>
    remb_unmarshal bs = Ok (\<lparr>remb_sender_ssrc = 1, remb_bitrate = 0x4B000000, remb_ssrcs = [7]\<rparr>, [])"
  using remb_zero_decodes_as_eight_million [of "\<lparr>remb_sender_ssrc = 1, remb_bitrate = 0, remb_ssrcs = [7]\<rparr>" 24]
  by (simp add: remb_marshal_size_def remb_raw_size_def f32_ge_def f32_lt_def f32_is_nan_def f32_exponent_def f32_fraction_def
      f32_key_def f32_negative_def)


text \<open>C37: the loops of the codec end. Halving a clamped bitrate until it fits the mantissa takes fewer than 64 turns for
  every bit pattern, infinities and NaNs included, that the encoder does not refuse as negative, and three bytes are
  written; shifting the mantissa back into its place ends for every three bytes from the wire.\<close>

theorem remb_loops_return:
  "(f32_lt x 0 \<and> remb_put_bitrate x = Err InvalidBitrate \<or>
    (\<exists>k y a b c. remb_scale 0 (remb_clamp x) = Some (k, y) \<and> k < 64 \<and> remb_put_bitrate x = Ok [a, b, c])) \<and>
   (\<exists>bitrate. remb_get_bitrate b17 b18 b19 = Some bitrate)"
  using remb_scale_returns [of x] remb_put_bitrate_cases [of x] remb_get_bitrate_returns by metis

end
