(* ===== verification/Rtcp_Xr.thy ===== *)
theory Rtcp_Xr
  imports Rtcp_Header
begin

text \<open>
  Extended reports, RFC 3611 (\<open>rtc-rtcp/src/extended_report/\<close>): the block header and the packet of
  \<open>mod.rs\<close>, and the report blocks of \<open>rle.rs\<close>, \<open>prt.rs\<close>, \<open>rrt.rs\<close>, \<open>dlrr.rs\<close>, \<open>ssr.rs\<close>, \<open>vm.rs\<close> and
  \<open>unknown.rs\<close>. A list of \<open>Box<dyn Packet>\<close> is a list of the sum \<open>xr_report\<close>. The locale \<open>xr_block\<close> is what
  the packet relies on of a block: it is written in whole words behind a header that announces it, its
  decoder reads it back and leaves the bytes behind it, and no bytes make that decoder panic.
\<close>

unbundle bit_operations_syntax

section \<open>Block headers\<close>

definition XR_HEADER_LENGTH :: nat where [simp]: "XR_HEADER_LENGTH = 4"

datatype block_type =
  UnknownBlock | LossRLE | DuplicateRLE | PacketReceiptTimes | ReceiverReferenceTime | DLRR | StatisticsSummary | VoIPMetrics

fun block_type_as_u8 :: "block_type \<Rightarrow> u8" where
  "block_type_as_u8 UnknownBlock = 0"
| "block_type_as_u8 LossRLE = 1"
| "block_type_as_u8 DuplicateRLE = 2"
| "block_type_as_u8 PacketReceiptTimes = 3"
| "block_type_as_u8 ReceiverReferenceTime = 4"
| "block_type_as_u8 DLRR = 5"
| "block_type_as_u8 StatisticsSummary = 6"
| "block_type_as_u8 VoIPMetrics = 7"

definition block_type_from :: "u8 \<Rightarrow> block_type" where
  "block_type_from v =
     (if v = 1 then LossRLE else if v = 2 then DuplicateRLE else if v = 3 then PacketReceiptTimes
      else if v = 4 then ReceiverReferenceTime else if v = 5 then DLRR else if v = 6 then StatisticsSummary
      else if v = 7 then VoIPMetrics else UnknownBlock)"

lemma block_type_from_as_u8 [simp]: "block_type_from (block_type_as_u8 b) = b"
  by (cases b) (simp_all add: block_type_from_def)

record xr_header =
  xrh_block_type :: block_type
  xrh_type_specific :: u8
  xrh_block_length :: u16

definition xr_header_marshal_size :: "xr_header \<Rightarrow> nat" where
  "xr_header_marshal_size h = XR_HEADER_LENGTH"

definition xr_header_bytes :: "xr_header \<Rightarrow> u8 list" where
  "xr_header_bytes h =
     put_u8 (block_type_as_u8 (xrh_block_type h)) @ put_u8 (xrh_type_specific h) @ put_u16 (xrh_block_length h)"

definition xr_header_marshal_to :: "xr_header \<Rightarrow> nat \<Rightarrow> (u8 list \<times> nat) result" where
  "xr_header_marshal_to h cap =
     (if cap < XR_HEADER_LENGTH then Err BufferTooShort else put_all cap (xr_header_bytes h) XR_HEADER_LENGTH)"

definition xr_header_unmarshal :: "u8 list \<Rightarrow> (xr_header \<times> u8 list) result" where
  "xr_header_unmarshal raw_packet =
     (if length raw_packet < XR_HEADER_LENGTH then Err PacketTooShort
      else and_then (get_u8 raw_packet) (\<lambda>(block_type, raw_packet).
        and_then (get_u8 raw_packet) (\<lambda>(type_specific, raw_packet).
        and_then (get_u16 raw_packet) (\<lambda>(block_length, raw_packet).
          Ok (\<lparr>xrh_block_type = block_type_from block_type, xrh_type_specific = type_specific,
               xrh_block_length = block_length\<rparr>, raw_packet)))))"

lemma length_xr_header_bytes [simp]: "length (xr_header_bytes h) = 4"
  by (simp add: xr_header_bytes_def)

lemma xr_header_round_trip [simp]: "xr_header_unmarshal (xr_header_bytes h @ r) = Ok (h, r)"
  by (cases h) (simp add: xr_header_unmarshal_def xr_header_bytes_def)

text \<open>
  The part the encoders of the blocks share (\<open>h.marshal_to(buf)?\<close> and the body) and the part their
  decoders share: the header, \<open>block_length.checked_mul(4)\<close> and the length guard, whose
  block-specific part is the argument \<open>ok\<close>.
\<close>

definition xr_put :: "xr_header \<Rightarrow> u8 list \<Rightarrow> nat \<Rightarrow> nat \<Rightarrow> (u8 list \<times> nat) result" where
  "xr_put h body marshal_size cap =
     (if cap < marshal_size then Err BufferTooShort
      else and_then (xr_header_marshal_to h cap) (\<lambda>(bs, n). put_all cap (advance_buf n bs @ body) marshal_size))"

definition xr_open :: "(nat \<Rightarrow> bool) \<Rightarrow> u8 list \<Rightarrow> ((xr_header \<times> nat) \<times> u8 list) result" where
  "xr_open ok raw_packet =
     (if length raw_packet < XR_HEADER_LENGTH then Err PacketTooShort
      else and_then (xr_header_unmarshal raw_packet) (\<lambda>(h, raw_packet).
        let block_length = unat (xrh_block_length h) * 4 in
        if 65535 < block_length then Err InvalidBlockSize
        else if \<not> ok block_length \<or> length raw_packet < block_length then Err PacketTooShort
        else Ok ((h, block_length), raw_packet)))"

definition xr_block_header :: "block_type \<Rightarrow> u8 \<Rightarrow> nat \<Rightarrow> xr_header" where
  "xr_block_header b t raw_size =
     \<lparr>xrh_block_type = b, xrh_type_specific = t, xrh_block_length = of_nat (raw_size div 4 - 1)\<rparr>"

lemma xr_put_eq: "n = 4 + length body \<Longrightarrow> n \<le> cap \<Longrightarrow> xr_put h body n cap = Ok (xr_header_bytes h @ body, n)"
  by (simp add: xr_put_def xr_header_marshal_to_def)

lemma xr_open_bytes:
  assumes "length body mod 4 = 0" "length body \<le> 65535" "ok (length body)"
  shows "xr_open ok (xr_header_bytes (xr_block_header b t (4 + length body)) @ body @ r) =
    Ok ((xr_block_header b t (4 + length body), length body), body @ r)"
proof -
  have "unat (of_nat (length body div 4) :: u16) * 4 = length body"
    using assms(1,2) mult_div_mod_eq [of 4 "length body"] by (simp add: unat_of_nat take_bit_nat_eq_self)
  moreover have n: "(4 + length body) div 4 - 1 = length body div 4" by simp
  ultimately show ?thesis using assms unfolding xr_block_header_def n by (simp add: xr_open_def Let_def)
qed

lemma xr_open_cases:
  obtains e where "xr_open ok bs = Err e" "e \<noteq> Panic"
  | h n where "xr_open ok bs = Ok ((h, n), drop 4 bs)" "ok n" "4 + n \<le> length bs"
proof (cases "length bs < 4")
  case True
  then show thesis using that(1) [of PacketTooShort] by (simp add: xr_open_def)
next
  case False
  then obtain h where h: "xr_header_unmarshal bs = Ok (h, drop 4 bs)"
    by (simp add: xr_header_unmarshal_def reads)
  have "xr_open ok bs = (let n = unat (xrh_block_length h) * 4 in
      if 65535 < n then Err InvalidBlockSize else if \<not> ok n \<or> length bs - 4 < n then Err PacketTooShort
      else Ok ((h, n), drop 4 bs))"
    using False h by (simp add: xr_open_def Let_def)
  with False that show thesis by (auto simp: Let_def split: if_splits)
qed

lemma suffix_drops: "m \<le> n \<Longrightarrow> suffix (drop n bs) (drop m bs)"
  using suffix_drop [of "n - m" "drop m bs"] by simp

lemma safe_xr_open:
  assumes "\<And>h n. ok n \<Longrightarrow> n \<le> length bs - 4 \<Longrightarrow> safe (drop 4 bs) (f h n (drop 4 bs))"
  shows "safe (drop 4 bs) (and_then (xr_open ok bs) (\<lambda>((h, n), r). f h n r))"
  by (rule xr_open_cases [of ok bs]) (use assms in auto)

section \<open>The contract of a report block\<close>

locale xr_block =
  fixes marshal_size :: "'a \<Rightarrow> nat"
    and marshal_to :: "'a \<Rightarrow> nat \<Rightarrow> (u8 list \<times> nat) result"
    and unmarshal :: "u8 list \<Rightarrow> ('a \<times> u8 list) result"
    and wf :: "'a \<Rightarrow> bool"
    and bytes :: "'a \<Rightarrow> u8 list"
    and kind :: "'a \<Rightarrow> block_type"
  assumes encoded: "wf x \<Longrightarrow> marshal_size x \<le> cap \<Longrightarrow> marshal_to x cap = Ok (bytes x, marshal_size x)"
    and refused: "cap < marshal_size x \<Longrightarrow> marshal_to x cap = Err BufferTooShort"
    and sized: "wf x \<Longrightarrow> length (bytes x) = marshal_size x"
    and words: "wf x \<Longrightarrow> marshal_size x mod 4 = 0"
    and announced: "wf x \<Longrightarrow> \<exists>r. bytes x = block_type_as_u8 (kind x) # r"
    and decoded: "wf x \<Longrightarrow> unmarshal (bytes x @ r) = Ok (x, r)"
    and robust: "safe (drop 4 bs) (unmarshal bs)"
begin

lemma decoder: "robust_decoder unmarshal"
  using robust safe_drop by (intro robust_decoderI) blast

lemma progress: "unmarshal bs = Ok (x, r) \<Longrightarrow> bs \<noteq> [] \<Longrightarrow> length r < length bs"
  using robust [of bs] suffix_length_le [of r "drop 4 bs"] by (cases bs) auto

end

lemma xr_blockI:
  fixes valid :: "'a \<Rightarrow> bool"
  assumes "\<And>x. header x = xr_block_header (kind x) (ts x) (marshal_size x)"
    and "\<And>x. valid x \<Longrightarrow> marshal_size x = 4 + length (body x)"
    and "\<And>x. valid x \<Longrightarrow> length (body x) mod 4 = 0"
    and "\<And>x cap. marshal_to x cap = xr_put (header x) (body x) (marshal_size x) cap"
    and "\<And>x r. valid x \<Longrightarrow> unmarshal (xr_header_bytes (header x) @ body x @ r) = Ok (x, r)"
    and "\<And>bs. safe (drop 4 bs) (unmarshal bs)"
  shows "xr_block marshal_size marshal_to unmarshal valid (\<lambda>x. xr_header_bytes (header x) @ body x) kind"
proof (unfold_locales, goal_cases)
  case (1 x cap)
  then show ?case using assms(2) [of x] assms(4) [of x cap] by (simp add: xr_put_eq)
next
  case (2 cap x)
  then show ?case using assms(4) [of x cap] by (simp add: xr_put_def)
next
  case (4 x)
  then have "(4 + length (body x)) mod 4 = 0" using assms(3) [of x] by simp
  then show ?case using assms(2) [OF 4] by simp
next
  case (5 x)
  then show ?case by (simp add: assms(1) xr_header_bytes_def xr_block_header_def put_u8_def)
qed (use assms in simp_all)

section \<open>Loss and duplicate run lengths\<close>

datatype chunk_type = RunLength | BitVector | TerminatingNull

type_synonym xr_chunk = u16

definition chunk_type_of :: "xr_chunk \<Rightarrow> chunk_type" where
  "chunk_type_of c = (if c = 0 then TerminatingNull else if drop_bit 15 c = 0 then RunLength else BitVector)"

definition chunk_run_type :: "xr_chunk \<Rightarrow> u8 result" where
  "chunk_run_type c =
     (if chunk_type_of c \<noteq> RunLength then Err WrongChunkType else Ok (ucast (drop_bit 14 c) AND 0x01))"

definition chunk_value :: "xr_chunk \<Rightarrow> u16" where
  "chunk_value c =
     (case chunk_type_of c of RunLength \<Rightarrow> c AND 0x3FFF | BitVector \<Rightarrow> c AND 0x7FFF | TerminatingNull \<Rightarrow> 0)"

definition RLE_REPORT_BLOCK_MIN_LENGTH :: nat where [simp]: "RLE_REPORT_BLOCK_MIN_LENGTH = 8"

record rle_block =
  rle_is_loss_rle :: bool
  rle_t :: u8
  rle_ssrc :: u32
  rle_begin_seq :: u16
  rle_end_seq :: u16
  rle_chunks :: "xr_chunk list"

definition rle_raw_size :: "rle_block \<Rightarrow> nat" where
  "rle_raw_size b = XR_HEADER_LENGTH + RLE_REPORT_BLOCK_MIN_LENGTH + length (rle_chunks b) * 2"

definition rle_kind :: "rle_block \<Rightarrow> block_type" where
  "rle_kind b = (if rle_is_loss_rle b then LossRLE else DuplicateRLE)"

definition rle_xr_header :: "rle_block \<Rightarrow> xr_header" where
  "rle_xr_header b = xr_block_header (rle_kind b) (rle_t b AND 0x0F) (rle_raw_size b)"

definition rle_body :: "rle_block \<Rightarrow> u8 list" where
  "rle_body b =
     put_u32 (rle_ssrc b) @ put_u16 (rle_begin_seq b) @ put_u16 (rle_end_seq b) @ concat (map put_u16 (rle_chunks b))"

definition rle_marshal_to :: "rle_block \<Rightarrow> nat \<Rightarrow> (u8 list \<times> nat) result" where
  "rle_marshal_to b cap = xr_put (rle_xr_header b) (rle_body b) (rle_raw_size b) cap"

definition rle_unmarshal :: "u8 list \<Rightarrow> (rle_block \<times> u8 list) result" where
  "rle_unmarshal raw_packet =
     and_then (xr_open (\<lambda>n. RLE_REPORT_BLOCK_MIN_LENGTH \<le> n \<and> (n - RLE_REPORT_BLOCK_MIN_LENGTH) mod 2 = 0) raw_packet)
       (\<lambda>((h, block_length), raw_packet).
         and_then (get_u32 raw_packet) (\<lambda>(ssrc, raw_packet).
         and_then (get_u16 raw_packet) (\<lambda>(begin_seq, raw_packet).
         and_then (get_u16 raw_packet) (\<lambda>(end_seq, raw_packet).
         and_then (get_many get_u16 ((block_length - RLE_REPORT_BLOCK_MIN_LENGTH) div 2) raw_packet)
           (\<lambda>(chunks, raw_packet).
           Ok (\<lparr>rle_is_loss_rle = (xrh_block_type h = LossRLE), rle_t = xrh_type_specific h AND 0x0F, rle_ssrc = ssrc,
                rle_begin_seq = begin_seq, rle_end_seq = end_seq, rle_chunks = chunks\<rparr>, raw_packet))))))"

definition rle_wf :: "rle_block \<Rightarrow> bool" where
  "rle_wf b \<longleftrightarrow> rle_t b AND 0x0F = rle_t b \<and> even (length (rle_chunks b)) \<and> length (rle_chunks b) \<le> 32763"

lemma length_rle_body: "length (rle_body b) = 8 + 2 * length (rle_chunks b)"
  by (simp add: rle_body_def u16_codec.concat_length)

lemma get_many_at:
  "4 * n \<le> length bs \<Longrightarrow> \<exists>xs. get_many get_u32 n bs = Ok (xs, drop (4 * n) bs)"
  "2 * n \<le> length bs \<Longrightarrow> \<exists>xs. get_many get_u16 n bs = Ok (xs, drop (2 * n) bs)"
  using u32_codec.get_many_total [of n bs] u16_codec.get_many_total [of n bs] by (auto simp: mult.commute)

lemma rle_parses:
  assumes "rle_wf b"
  shows "rle_unmarshal (xr_header_bytes (rle_xr_header b) @ rle_body b @ r) = Ok (b, r)"
proof -
  have size: "rle_raw_size b = 4 + length (rle_body b)" by (simp add: rle_raw_size_def length_rle_body)
  have "length (rle_body b) mod 4 = 0" using assms by (auto simp: length_rle_body rle_wf_def)
  moreover have "length (rle_body b) \<le> 65535" using assms by (auto simp: length_rle_body rle_wf_def)
  ultimately have "rle_unmarshal (xr_header_bytes (rle_xr_header b) @ rle_body b @ r) =
      and_then (get_many get_u16 (length (rle_chunks b)) (concat (map put_u16 (rle_chunks b)) @ r)) (\<lambda>(chunks, raw_packet).
        Ok (b\<lparr>rle_chunks := chunks\<rparr>, raw_packet))"
    unfolding rle_unmarshal_def rle_xr_header_def size using assms
    by (subst xr_open_bytes) (simp_all add: length_rle_body rle_wf_def, cases b,
      simp add: rle_body_def xr_block_header_def rle_kind_def and.assoc)
  then show ?thesis by (simp add: u16_codec.get_many_concat)
qed

interpretation rle_xr: xr_block rle_raw_size rle_marshal_to rle_unmarshal rle_wf
  "\<lambda>b. xr_header_bytes (rle_xr_header b) @ rle_body b" rle_kind
proof (rule xr_blockI [where ts = "\<lambda>b. rle_t b AND 0x0F"], goal_cases)
  case (5 b r)
  then show ?case by (rule rle_parses)
next
  case (6 bs)
  show ?case
    unfolding rle_unmarshal_def
  proof (rule safe_xr_open, goal_cases)
    case (1 h n)
    then have "2 * ((n - 8) div 2) \<le> length (drop 12 bs)" by simp
    from get_many_at(2) [OF this] 1 show ?case by (auto simp: reads suffix_drops)
  qed
qed (auto simp: rle_xr_header_def rle_raw_size_def length_rle_body rle_marshal_to_def rle_wf_def)

section \<open>Packet receipt times\<close>

definition PRT_REPORT_BLOCK_MIN_LENGTH :: nat where [simp]: "PRT_REPORT_BLOCK_MIN_LENGTH = 8"

record prt_block =
  prt_t :: u8
  prt_ssrc :: u32
  prt_begin_seq :: u16
  prt_end_seq :: u16
  prt_receipt_time :: "u32 list"

definition prt_raw_size :: "prt_block \<Rightarrow> nat" where
  "prt_raw_size b = XR_HEADER_LENGTH + PRT_REPORT_BLOCK_MIN_LENGTH + length (prt_receipt_time b) * 4"

definition prt_xr_header :: "prt_block \<Rightarrow> xr_header" where
  "prt_xr_header b = xr_block_header PacketReceiptTimes (prt_t b AND 0x0F) (prt_raw_size b)"

definition prt_body :: "prt_block \<Rightarrow> u8 list" where
  "prt_body b =
     put_u32 (prt_ssrc b) @ put_u16 (prt_begin_seq b) @ put_u16 (prt_end_seq b) @ concat (map put_u32 (prt_receipt_time b))"

definition prt_marshal_to :: "prt_block \<Rightarrow> nat \<Rightarrow> (u8 list \<times> nat) result" where
  "prt_marshal_to b cap = xr_put (prt_xr_header b) (prt_body b) (prt_raw_size b) cap"

definition prt_unmarshal :: "u8 list \<Rightarrow> (prt_block \<times> u8 list) result" where
  "prt_unmarshal raw_packet =
     and_then (xr_open (\<lambda>n. PRT_REPORT_BLOCK_MIN_LENGTH \<le> n \<and> (n - PRT_REPORT_BLOCK_MIN_LENGTH) mod 4 = 0) raw_packet)
       (\<lambda>((h, block_length), raw_packet).
         and_then (get_u32 raw_packet) (\<lambda>(ssrc, raw_packet).
         and_then (get_u16 raw_packet) (\<lambda>(begin_seq, raw_packet).
         and_then (get_u16 raw_packet) (\<lambda>(end_seq, raw_packet).
         and_then (get_many get_u32 ((block_length - PRT_REPORT_BLOCK_MIN_LENGTH) div 4) raw_packet)
           (\<lambda>(receipt_time, raw_packet).
           Ok (\<lparr>prt_t = xrh_type_specific h AND 0x0F, prt_ssrc = ssrc, prt_begin_seq = begin_seq,
                prt_end_seq = end_seq, prt_receipt_time = receipt_time\<rparr>, raw_packet))))))"

definition prt_wf :: "prt_block \<Rightarrow> bool" where
  "prt_wf b \<longleftrightarrow> prt_t b AND 0x0F = prt_t b \<and> length (prt_receipt_time b) \<le> 16381"

lemma length_prt_body: "length (prt_body b) = 8 + 4 * length (prt_receipt_time b)"
  by (simp add: prt_body_def u32_codec.concat_length)

lemma prt_parses:
  assumes "prt_wf b"
  shows "prt_unmarshal (xr_header_bytes (prt_xr_header b) @ prt_body b @ r) = Ok (b, r)"
proof -
  have size: "prt_raw_size b = 4 + length (prt_body b)" by (simp add: prt_raw_size_def length_prt_body)
  have "prt_unmarshal (xr_header_bytes (prt_xr_header b) @ prt_body b @ r) =
      and_then (get_many get_u32 (length (prt_receipt_time b)) (concat (map put_u32 (prt_receipt_time b)) @ r))
        (\<lambda>(receipt_time, raw_packet). Ok (b\<lparr>prt_receipt_time := receipt_time\<rparr>, raw_packet))"
    unfolding prt_unmarshal_def prt_xr_header_def size using assms
    by (subst xr_open_bytes) (simp_all add: length_prt_body prt_wf_def, cases b,
      simp add: prt_body_def xr_block_header_def and.assoc)
  then show ?thesis by (simp add: u32_codec.get_many_concat)
qed

interpretation prt_xr: xr_block prt_raw_size prt_marshal_to prt_unmarshal prt_wf
  "\<lambda>b. xr_header_bytes (prt_xr_header b) @ prt_body b" "\<lambda>_. PacketReceiptTimes"
proof (rule xr_blockI [where ts = "\<lambda>b. prt_t b AND 0x0F"], goal_cases)
  case (5 b r)
  then show ?case by (rule prt_parses)
next
  case (6 bs)
  show ?case
    unfolding prt_unmarshal_def
  proof (rule safe_xr_open, goal_cases)
    case (1 h n)
    then have "4 * ((n - 8) div 4) \<le> length (drop 12 bs)" by simp
    from get_many_at(1) [OF this] 1 show ?case by (auto simp: reads suffix_drops)
  qed
qed (auto simp: prt_xr_header_def prt_raw_size_def length_prt_body prt_marshal_to_def prt_wf_def)

section \<open>Receiver reference time\<close>

definition RRT_REPORT_BLOCK_LENGTH :: nat where [simp]: "RRT_REPORT_BLOCK_LENGTH = 8"

record rrt_block =
  rrt_ntp_timestamp :: u64

definition rrt_raw_size :: "rrt_block \<Rightarrow> nat" where
  "rrt_raw_size b = XR_HEADER_LENGTH + RRT_REPORT_BLOCK_LENGTH"

definition rrt_xr_header :: "rrt_block \<Rightarrow> xr_header" where
  "rrt_xr_header b = xr_block_header ReceiverReferenceTime 0 (rrt_raw_size b)"

definition rrt_marshal_to :: "rrt_block \<Rightarrow> nat \<Rightarrow> (u8 list \<times> nat) result" where
  "rrt_marshal_to b cap = xr_put (rrt_xr_header b) (put_u64 (rrt_ntp_timestamp b)) (rrt_raw_size b) cap"

definition rrt_unmarshal :: "u8 list \<Rightarrow> (rrt_block \<times> u8 list) result" where
  "rrt_unmarshal raw_packet =
     and_then (xr_open (\<lambda>n. n = RRT_REPORT_BLOCK_LENGTH) raw_packet) (\<lambda>((h, block_length), raw_packet).
       and_then (get_u64 raw_packet) (\<lambda>(ntp_timestamp, raw_packet).
         Ok (\<lparr>rrt_ntp_timestamp = ntp_timestamp\<rparr>, raw_packet)))"

interpretation rrt_xr: xr_block rrt_raw_size rrt_marshal_to rrt_unmarshal "\<lambda>_. True"
  "\<lambda>b. xr_header_bytes (rrt_xr_header b) @ put_u64 (rrt_ntp_timestamp b)" "\<lambda>_. ReceiverReferenceTime"
proof (rule xr_blockI [where ts = "\<lambda>_. 0"], goal_cases)
  case (5 b r)
  have "rrt_raw_size b = 4 + length (put_u64 (rrt_ntp_timestamp b))" by (simp add: rrt_raw_size_def)
  then show ?case unfolding rrt_unmarshal_def rrt_xr_header_def by (simp only:, subst xr_open_bytes) simp_all
next
  case (6 bs)
  show ?case unfolding rrt_unmarshal_def by (rule safe_xr_open) (simp add: reads suffix_drops)
qed (simp_all add: rrt_xr_header_def rrt_raw_size_def rrt_marshal_to_def)

section \<open>Delay since the last receiver report\<close>

definition DLRR_REPORT_LENGTH :: nat where [simp]: "DLRR_REPORT_LENGTH = 12"

record dlrr_report =
  dlrr_ssrc :: u32
  dlrr_last_rr :: u32
  dlrr_dlrr :: u32

record dlrr_block =
  dlrr_reports :: "dlrr_report list"

definition dlrr_raw_size :: "dlrr_block \<Rightarrow> nat" where
  "dlrr_raw_size b = XR_HEADER_LENGTH + length (dlrr_reports b) * 4 * 3"

definition dlrr_xr_header :: "dlrr_block \<Rightarrow> xr_header" where
  "dlrr_xr_header b = xr_block_header DLRR 0 (dlrr_raw_size b)"

definition put_dlrr_report :: "dlrr_report \<Rightarrow> u8 list" where
  "put_dlrr_report d = put_u32 (dlrr_ssrc d) @ put_u32 (dlrr_last_rr d) @ put_u32 (dlrr_dlrr d)"

definition get_dlrr_report :: "u8 list \<Rightarrow> (dlrr_report \<times> u8 list) result" where
  "get_dlrr_report raw_packet =
     and_then (get_u32 raw_packet) (\<lambda>(ssrc, raw_packet).
     and_then (get_u32 raw_packet) (\<lambda>(last_rr, raw_packet).
     and_then (get_u32 raw_packet) (\<lambda>(dlrr, raw_packet).
       Ok (\<lparr>dlrr_ssrc = ssrc, dlrr_last_rr = last_rr, dlrr_dlrr = dlrr\<rparr>, raw_packet))))"

definition dlrr_marshal_to :: "dlrr_block \<Rightarrow> nat \<Rightarrow> (u8 list \<times> nat) result" where
  "dlrr_marshal_to b cap = xr_put (dlrr_xr_header b) (concat (map put_dlrr_report (dlrr_reports b))) (dlrr_raw_size b) cap"

text \<open>The loop \<open>while offset < block_length\<close>, in steps of one report.\<close>

function unmarshal_dlrr_reports :: "nat \<Rightarrow> nat \<Rightarrow> u8 list \<Rightarrow> (dlrr_report list \<times> u8 list) result" where
  "unmarshal_dlrr_reports offset block_length raw_packet =
     (if offset < block_length then
        and_then (get_dlrr_report raw_packet) (\<lambda>(d, raw_packet).
        and_then (unmarshal_dlrr_reports (offset + DLRR_REPORT_LENGTH) block_length raw_packet)
          (\<lambda>(ds, raw_packet). Ok (d # ds, raw_packet)))
      else Ok ([], raw_packet))"
  by pat_completeness auto
termination by (relation "measure (\<lambda>(offset, n, _). n - offset)") auto

declare unmarshal_dlrr_reports.simps [simp del]

definition dlrr_unmarshal :: "u8 list \<Rightarrow> (dlrr_block \<times> u8 list) result" where
  "dlrr_unmarshal raw_packet =
     and_then (xr_open (\<lambda>n. n mod DLRR_REPORT_LENGTH = 0) raw_packet) (\<lambda>((h, block_length), raw_packet).
       and_then (unmarshal_dlrr_reports 0 block_length raw_packet) (\<lambda>(reports, raw_packet).
         Ok (\<lparr>dlrr_reports = reports\<rparr>, raw_packet)))"

definition dlrr_wf :: "dlrr_block \<Rightarrow> bool" where
  "dlrr_wf b \<longleftrightarrow> length (dlrr_reports b) \<le> 5461"

interpretation dlrr_report_codec: element_codec put_dlrr_report get_dlrr_report "\<lambda>_. True" 12
  by unfold_locales (simp_all add: put_dlrr_report_def get_dlrr_report_def reads)

lemma unmarshal_dlrr_reports_eq:
  "unmarshal_dlrr_reports offset (offset + n * 12) bs = get_many get_dlrr_report n bs"
proof (induction n arbitrary: offset bs)
  case (Suc n)
  have "unmarshal_dlrr_reports (offset + 12) (offset + Suc n * 12) r = get_many get_dlrr_report n r" for r
    using Suc.IH [of "offset + 12" r] by (simp add: add.assoc)
  then show ?case by (subst unmarshal_dlrr_reports.simps) simp
qed (simp add: unmarshal_dlrr_reports.simps)

interpretation dlrr_xr: xr_block dlrr_raw_size dlrr_marshal_to dlrr_unmarshal dlrr_wf
  "\<lambda>b. xr_header_bytes (dlrr_xr_header b) @ concat (map put_dlrr_report (dlrr_reports b))" "\<lambda>_. DLRR"
proof (rule xr_blockI [where ts = "\<lambda>_. 0"], goal_cases)
  case (5 b r)
  let ?body = "concat (map put_dlrr_report (dlrr_reports b))"
  have size: "dlrr_raw_size b = 4 + length ?body" by (simp add: dlrr_raw_size_def dlrr_report_codec.concat_length)
  have "unmarshal_dlrr_reports 0 (12 * length (dlrr_reports b)) (?body @ r) = Ok (dlrr_reports b, r)"
    using unmarshal_dlrr_reports_eq [of 0 "length (dlrr_reports b)" "?body @ r"]
    by (simp add: mult.commute dlrr_report_codec.get_many_concat)
  then show ?case
    unfolding dlrr_unmarshal_def dlrr_xr_header_def size using 5
    by (subst xr_open_bytes) (simp_all add: dlrr_report_codec.concat_length dlrr_wf_def)
next
  case (6 bs)
  show ?case
    unfolding dlrr_unmarshal_def
  proof (rule safe_xr_open, goal_cases)
    case (1 h n)
    then obtain k where k: "n = k * 12" by auto
    then have "k * 12 \<le> length (drop 4 bs)" using 1 by simp
    from dlrr_report_codec.get_many_total [OF this] k unmarshal_dlrr_reports_eq [of 0 k "drop 4 bs"]
    show ?case by (auto simp: suffix_drops)
  qed
qed (simp_all add: dlrr_xr_header_def dlrr_raw_size_def dlrr_marshal_to_def dlrr_report_codec.concat_length)

section \<open>Statistics summary\<close>

definition SSR_REPORT_BLOCK_LENGTH :: nat where [simp]: "SSR_REPORT_BLOCK_LENGTH = 4 + 2 * 2 + 4 * 6 + 4"

datatype ttl_or_hop_limit_type = Missing | IPv4 | IPv6

fun ttl_type_as_u8 :: "ttl_or_hop_limit_type \<Rightarrow> u8" where
  "ttl_type_as_u8 Missing = 0"
| "ttl_type_as_u8 IPv4 = 1"
| "ttl_type_as_u8 IPv6 = 2"

definition ttl_type_from :: "u8 \<Rightarrow> ttl_or_hop_limit_type" where
  "ttl_type_from v = (if v = 1 then IPv4 else if v = 2 then IPv6 else Missing)"

record ssr_block =
  ssr_loss_reports :: bool
  ssr_duplicate_reports :: bool
  ssr_jitter_reports :: bool
  ssr_ttl_or_hop_limit :: ttl_or_hop_limit_type
  ssr_ssrc :: u32
  ssr_begin_seq :: u16
  ssr_end_seq :: u16
  ssr_lost_packets :: u32
  ssr_dup_packets :: u32
  ssr_min_jitter :: u32
  ssr_max_jitter :: u32
  ssr_mean_jitter :: u32
  ssr_dev_jitter :: u32
  ssr_min_ttl_or_hl :: u8
  ssr_max_ttl_or_hl :: u8
  ssr_mean_ttl_or_hl :: u8
  ssr_dev_ttl_or_hl :: u8

definition ssr_raw_size :: "ssr_block \<Rightarrow> nat" where
  "ssr_raw_size b = XR_HEADER_LENGTH + SSR_REPORT_BLOCK_LENGTH"

definition ssr_type_specific :: "ssr_block \<Rightarrow> u8" where
  "ssr_type_specific b =
     (if ssr_loss_reports b then 0x80 else 0) OR (if ssr_duplicate_reports b then 0x40 else 0) OR
     (if ssr_jitter_reports b then 0x20 else 0) OR push_bit 3 (ttl_type_as_u8 (ssr_ttl_or_hop_limit b) AND 0x03)"

definition ssr_xr_header :: "ssr_block \<Rightarrow> xr_header" where
  "ssr_xr_header b = xr_block_header StatisticsSummary (ssr_type_specific b) (ssr_raw_size b)"

definition ssr_body :: "ssr_block \<Rightarrow> u8 list" where
  "ssr_body b =
     put_u32 (ssr_ssrc b) @ put_u16 (ssr_begin_seq b) @ put_u16 (ssr_end_seq b) @ put_u32 (ssr_lost_packets b) @
     put_u32 (ssr_dup_packets b) @ put_u32 (ssr_min_jitter b) @ put_u32 (ssr_max_jitter b) @
     put_u32 (ssr_mean_jitter b) @ put_u32 (ssr_dev_jitter b) @ put_u8 (ssr_min_ttl_or_hl b) @
     put_u8 (ssr_max_ttl_or_hl b) @ put_u8 (ssr_mean_ttl_or_hl b) @ put_u8 (ssr_dev_ttl_or_hl b)"

definition ssr_marshal_to :: "ssr_block \<Rightarrow> nat \<Rightarrow> (u8 list \<times> nat) result" where
  "ssr_marshal_to b cap = xr_put (ssr_xr_header b) (ssr_body b) (ssr_raw_size b) cap"

definition ssr_unmarshal :: "u8 list \<Rightarrow> (ssr_block \<times> u8 list) result" where
  "ssr_unmarshal raw_packet =
     and_then (xr_open (\<lambda>n. n = SSR_REPORT_BLOCK_LENGTH) raw_packet) (\<lambda>((h, block_length), raw_packet).
       and_then (get_u32 raw_packet) (\<lambda>(ssrc, raw_packet).
       and_then (get_u16 raw_packet) (\<lambda>(begin_seq, raw_packet).
       and_then (get_u16 raw_packet) (\<lambda>(end_seq, raw_packet).
       and_then (get_u32 raw_packet) (\<lambda>(lost_packets, raw_packet).
       and_then (get_u32 raw_packet) (\<lambda>(dup_packets, raw_packet).
       and_then (get_u32 raw_packet) (\<lambda>(min_jitter, raw_packet).
       and_then (get_u32 raw_packet) (\<lambda>(max_jitter, raw_packet).
       and_then (get_u32 raw_packet) (\<lambda>(mean_jitter, raw_packet).
       and_then (get_u32 raw_packet) (\<lambda>(dev_jitter, raw_packet).
       and_then (get_u8 raw_packet) (\<lambda>(min_ttl_or_hl, raw_packet).
       and_then (get_u8 raw_packet) (\<lambda>(max_ttl_or_hl, raw_packet).
       and_then (get_u8 raw_packet) (\<lambda>(mean_ttl_or_hl, raw_packet).
       and_then (get_u8 raw_packet) (\<lambda>(dev_ttl_or_hl, raw_packet).
         Ok (\<lparr>ssr_loss_reports = xrh_type_specific h AND 0x80 \<noteq> 0,
              ssr_duplicate_reports = xrh_type_specific h AND 0x40 \<noteq> 0,
              ssr_jitter_reports = xrh_type_specific h AND 0x20 \<noteq> 0,
              ssr_ttl_or_hop_limit = ttl_type_from (drop_bit 3 (xrh_type_specific h AND 0x18)),
              ssr_ssrc = ssrc, ssr_begin_seq = begin_seq, ssr_end_seq = end_seq, ssr_lost_packets = lost_packets,
              ssr_dup_packets = dup_packets, ssr_min_jitter = min_jitter, ssr_max_jitter = max_jitter,
              ssr_mean_jitter = mean_jitter, ssr_dev_jitter = dev_jitter, ssr_min_ttl_or_hl = min_ttl_or_hl,
              ssr_max_ttl_or_hl = max_ttl_or_hl, ssr_mean_ttl_or_hl = mean_ttl_or_hl,
              ssr_dev_ttl_or_hl = dev_ttl_or_hl\<rparr>, raw_packet)))))))))))))))"

lemma ssr_type_specific_fields:
  "ssr_type_specific b AND 0x80 \<noteq> 0 \<longleftrightarrow> ssr_loss_reports b"
  "ssr_type_specific b AND 0x40 \<noteq> 0 \<longleftrightarrow> ssr_duplicate_reports b"
  "ssr_type_specific b AND 0x20 \<noteq> 0 \<longleftrightarrow> ssr_jitter_reports b"
  "ttl_type_from (drop_bit 3 (ssr_type_specific b AND 0x18)) = ssr_ttl_or_hop_limit b"
  by (cases "ssr_ttl_or_hop_limit b"; simp add: ssr_type_specific_def ttl_type_from_def)+

lemma length_ssr_body: "length (ssr_body b) = 36"
  by (simp add: ssr_body_def)

lemma ssr_parses: "ssr_unmarshal (xr_header_bytes (ssr_xr_header b) @ ssr_body b @ r) = Ok (b, r)"
proof -
  have size: "ssr_raw_size b = 4 + length (ssr_body b)" by (simp add: ssr_raw_size_def length_ssr_body)
  have flags: "xrh_type_specific (xr_block_header StatisticsSummary (ssr_type_specific b) n) = ssr_type_specific b" for n
    by (simp add: xr_block_header_def)
  show ?thesis
    unfolding ssr_unmarshal_def ssr_xr_header_def size
    by (subst xr_open_bytes) (simp_all add: length_ssr_body flags ssr_type_specific_fields
      ssr_type_specific_fields(4) [simplified], simp add: ssr_body_def)
qed

interpretation ssr_xr: xr_block ssr_raw_size ssr_marshal_to ssr_unmarshal "\<lambda>_. True"
  "\<lambda>b. xr_header_bytes (ssr_xr_header b) @ ssr_body b" "\<lambda>_. StatisticsSummary"
proof (rule xr_blockI [where ts = ssr_type_specific], goal_cases)
  case (5 b r)
  show ?case by (rule ssr_parses)
next
  case (6 bs)
  show ?case unfolding ssr_unmarshal_def by (rule safe_xr_open) (simp add: reads suffix_drops)
qed (simp_all add: ssr_xr_header_def ssr_raw_size_def ssr_marshal_to_def length_ssr_body)

section \<open>VoIP metrics\<close>

definition VM_REPORT_BLOCK_LENGTH :: nat where [simp]: "VM_REPORT_BLOCK_LENGTH = 4 + 4 + 2 * 4 + 10 + 2 * 3"

record vm_block =
  vm_ssrc :: u32
  vm_loss_rate :: u8
  vm_discard_rate :: u8
  vm_burst_density :: u8
  vm_gap_density :: u8
  vm_burst_duration :: u16
  vm_gap_duration :: u16
  vm_round_trip_delay :: u16
  vm_end_system_delay :: u16
  vm_signal_level :: u8
  vm_noise_level :: u8
  vm_rerl :: u8
  vm_gmin :: u8
  vm_rfactor :: u8
  vm_ext_rfactor :: u8
  vm_mos_lq :: u8
  vm_mos_cq :: u8
  vm_rx_config :: u8
  vm_reserved :: u8
  vm_jb_nominal :: u16
  vm_jb_maximum :: u16
  vm_jb_abs_max :: u16

definition vm_raw_size :: "vm_block \<Rightarrow> nat" where
  "vm_raw_size b = XR_HEADER_LENGTH + VM_REPORT_BLOCK_LENGTH"

definition vm_xr_header :: "vm_block \<Rightarrow> xr_header" where
  "vm_xr_header b = xr_block_header VoIPMetrics 0 (vm_raw_size b)"

definition vm_body :: "vm_block \<Rightarrow> u8 list" where
  "vm_body b =
     put_u32 (vm_ssrc b) @ put_u8 (vm_loss_rate b) @ put_u8 (vm_discard_rate b) @ put_u8 (vm_burst_density b) @
     put_u8 (vm_gap_density b) @ put_u16 (vm_burst_duration b) @ put_u16 (vm_gap_duration b) @
     put_u16 (vm_round_trip_delay b) @ put_u16 (vm_end_system_delay b) @ put_u8 (vm_signal_level b) @
     put_u8 (vm_noise_level b) @ put_u8 (vm_rerl b) @ put_u8 (vm_gmin b) @ put_u8 (vm_rfactor b) @
     put_u8 (vm_ext_rfactor b) @ put_u8 (vm_mos_lq b) @ put_u8 (vm_mos_cq b) @ put_u8 (vm_rx_config b) @
     put_u8 (vm_reserved b) @ put_u16 (vm_jb_nominal b) @ put_u16 (vm_jb_maximum b) @ put_u16 (vm_jb_abs_max b)"

definition vm_marshal_to :: "vm_block \<Rightarrow> nat \<Rightarrow> (u8 list \<times> nat) result" where
  "vm_marshal_to b cap = xr_put (vm_xr_header b) (vm_body b) (vm_raw_size b) cap"

definition vm_unmarshal :: "u8 list \<Rightarrow> (vm_block \<times> u8 list) result" where
  "vm_unmarshal raw_packet =
     and_then (xr_open (\<lambda>n. n = VM_REPORT_BLOCK_LENGTH) raw_packet) (\<lambda>((h, block_length), raw_packet).
       and_then (get_u32 raw_packet) (\<lambda>(ssrc, raw_packet).
       and_then (get_u8 raw_packet) (\<lambda>(loss_rate, raw_packet).
       and_then (get_u8 raw_packet) (\<lambda>(discard_rate, raw_packet).
       and_then (get_u8 raw_packet) (\<lambda>(burst_density, raw_packet).
       and_then (get_u8 raw_packet) (\<lambda>(gap_density, raw_packet).
       and_then (get_u16 raw_packet) (\<lambda>(burst_duration, raw_packet).
       and_then (get_u16 raw_packet) (\<lambda>(gap_duration, raw_packet).
       and_then (get_u16 raw_packet) (\<lambda>(round_trip_delay, raw_packet).
       and_then (get_u16 raw_packet) (\<lambda>(end_system_delay, raw_packet).
       and_then (get_u8 raw_packet) (\<lambda>(signal_level, raw_packet).
       and_then (get_u8 raw_packet) (\<lambda>(noise_level, raw_packet).
       and_then (get_u8 raw_packet) (\<lambda>(rerl, raw_packet).
       and_then (get_u8 raw_packet) (\<lambda>(gmin, raw_packet).
       and_then (get_u8 raw_packet) (\<lambda>(rfactor, raw_packet).
       and_then (get_u8 raw_packet) (\<lambda>(ext_rfactor, raw_packet).
       and_then (get_u8 raw_packet) (\<lambda>(mos_lq, raw_packet).
       and_then (get_u8 raw_packet) (\<lambda>(mos_cq, raw_packet).
       and_then (get_u8 raw_packet) (\<lambda>(rx_config, raw_packet).
       and_then (get_u8 raw_packet) (\<lambda>(reserved, raw_packet).
       and_then (get_u16 raw_packet) (\<lambda>(jb_nominal, raw_packet).
       and_then (get_u16 raw_packet) (\<lambda>(jb_maximum, raw_packet).
       and_then (get_u16 raw_packet) (\<lambda>(jb_abs_max, raw_packet).
         Ok (\<lparr>vm_ssrc = ssrc, vm_loss_rate = loss_rate, vm_discard_rate = discard_rate,
              vm_burst_density = burst_density, vm_gap_density = gap_density, vm_burst_duration = burst_duration,
              vm_gap_duration = gap_duration, vm_round_trip_delay = round_trip_delay,
              vm_end_system_delay = end_system_delay, vm_signal_level = signal_level, vm_noise_level = noise_level,
              vm_rerl = rerl, vm_gmin = gmin, vm_rfactor = rfactor, vm_ext_rfactor = ext_rfactor,
              vm_mos_lq = mos_lq, vm_mos_cq = mos_cq, vm_rx_config = rx_config, vm_reserved = reserved,
              vm_jb_nominal = jb_nominal, vm_jb_maximum = jb_maximum, vm_jb_abs_max = jb_abs_max\<rparr>,
             raw_packet))))))))))))))))))))))))"

lemma length_vm_body: "length (vm_body b) = 32"
  by (simp add: vm_body_def)

lemma vm_parses: "vm_unmarshal (xr_header_bytes (vm_xr_header b) @ vm_body b @ r) = Ok (b, r)"
proof -
  have size: "vm_raw_size b = 4 + length (vm_body b)" by (simp add: vm_raw_size_def length_vm_body)
  show ?thesis
    unfolding vm_unmarshal_def vm_xr_header_def size
    by (subst xr_open_bytes) (simp_all add: length_vm_body, simp add: vm_body_def)
qed

interpretation vm_xr: xr_block vm_raw_size vm_marshal_to vm_unmarshal "\<lambda>_. True"
  "\<lambda>b. xr_header_bytes (vm_xr_header b) @ vm_body b" "\<lambda>_. VoIPMetrics"
proof (rule xr_blockI [where ts = "\<lambda>_. 0"], goal_cases)
  case (5 b r)
  show ?case by (rule vm_parses)
next
  case (6 bs)
  show ?case unfolding vm_unmarshal_def by (rule safe_xr_open) (simp add: reads suffix_drops)
qed (simp_all add: vm_xr_header_def vm_raw_size_def vm_marshal_to_def length_vm_body)

section \<open>Unknown blocks\<close>

record unknown_block =
  unknown_bytes :: "u8 list"

definition unknown_raw_size :: "unknown_block \<Rightarrow> nat" where
  "unknown_raw_size b = XR_HEADER_LENGTH + length (unknown_bytes b)"

definition unknown_xr_header :: "unknown_block \<Rightarrow> xr_header" where
  "unknown_xr_header b = xr_block_header UnknownBlock 0 (unknown_raw_size b)"

definition unknown_marshal_to :: "unknown_block \<Rightarrow> nat \<Rightarrow> (u8 list \<times> nat) result" where
  "unknown_marshal_to b cap = xr_put (unknown_xr_header b) (unknown_bytes b) (unknown_raw_size b) cap"

definition unknown_unmarshal :: "u8 list \<Rightarrow> (unknown_block \<times> u8 list) result" where
  "unknown_unmarshal raw_packet =
     and_then (xr_open (\<lambda>_. True) raw_packet) (\<lambda>((h, block_length), raw_packet).
       and_then (copy_to_bytes block_length raw_packet) (\<lambda>(bytes, raw_packet).
         Ok (\<lparr>unknown_bytes = bytes\<rparr>, raw_packet)))"

definition unknown_wf :: "unknown_block \<Rightarrow> bool" where
  "unknown_wf b \<longleftrightarrow> length (unknown_bytes b) mod 4 = 0 \<and> length (unknown_bytes b) \<le> 65535"

interpretation unknown_xr: xr_block unknown_raw_size unknown_marshal_to unknown_unmarshal unknown_wf
  "\<lambda>b. xr_header_bytes (unknown_xr_header b) @ unknown_bytes b" "\<lambda>_. UnknownBlock"
proof (rule xr_blockI [where ts = "\<lambda>_. 0"], goal_cases)
  case (5 b r)
  then show ?case
    unfolding unknown_unmarshal_def unknown_xr_header_def unknown_raw_size_def XR_HEADER_LENGTH_def
    by (subst xr_open_bytes) (simp_all add: unknown_wf_def)
next
  case (6 bs)
  show ?case unfolding unknown_unmarshal_def by (rule safe_xr_open) (simp add: reads suffix_drops)
qed (simp_all add: unknown_xr_header_def unknown_raw_size_def unknown_marshal_to_def unknown_wf_def)

section \<open>The packet\<close>

datatype xr_report =
    RLEReport rle_block
  | PacketReceiptTimesReport prt_block
  | ReceiverReferenceTimeReport rrt_block
  | DLRRReport dlrr_block
  | StatisticsSummaryReport ssr_block
  | VoIPMetricsReport vm_block
  | UnknownReport unknown_block

fun xr_report_marshal_size :: "xr_report \<Rightarrow> nat" where
  "xr_report_marshal_size (RLEReport b) = rle_raw_size b"
| "xr_report_marshal_size (PacketReceiptTimesReport b) = prt_raw_size b"
| "xr_report_marshal_size (ReceiverReferenceTimeReport b) = rrt_raw_size b"
| "xr_report_marshal_size (DLRRReport b) = dlrr_raw_size b"
| "xr_report_marshal_size (StatisticsSummaryReport b) = ssr_raw_size b"
| "xr_report_marshal_size (VoIPMetricsReport b) = vm_raw_size b"
| "xr_report_marshal_size (UnknownReport b) = unknown_raw_size b"

fun xr_report_marshal_to :: "xr_report \<Rightarrow> nat \<Rightarrow> (u8 list \<times> nat) result" where
  "xr_report_marshal_to (RLEReport b) = rle_marshal_to b"
| "xr_report_marshal_to (PacketReceiptTimesReport b) = prt_marshal_to b"
| "xr_report_marshal_to (ReceiverReferenceTimeReport b) = rrt_marshal_to b"
| "xr_report_marshal_to (DLRRReport b) = dlrr_marshal_to b"
| "xr_report_marshal_to (StatisticsSummaryReport b) = ssr_marshal_to b"
| "xr_report_marshal_to (VoIPMetricsReport b) = vm_marshal_to b"
| "xr_report_marshal_to (UnknownReport b) = unknown_marshal_to b"

fun xr_report_destination_ssrc :: "xr_report \<Rightarrow> u32 list" where
  "xr_report_destination_ssrc (RLEReport b) = [rle_ssrc b]"
| "xr_report_destination_ssrc (PacketReceiptTimesReport b) = [prt_ssrc b]"
| "xr_report_destination_ssrc (ReceiverReferenceTimeReport b) = []"
| "xr_report_destination_ssrc (DLRRReport b) = map dlrr_ssrc (dlrr_reports b)"
| "xr_report_destination_ssrc (StatisticsSummaryReport b) = [ssr_ssrc b]"
| "xr_report_destination_ssrc (VoIPMetricsReport b) = [vm_ssrc b]"
| "xr_report_destination_ssrc (UnknownReport b) = []"

definition map_report :: "('a \<Rightarrow> xr_report) \<Rightarrow> ('a \<times> u8 list) result \<Rightarrow> (xr_report \<times> u8 list) result" where
  "map_report c r = and_then r (\<lambda>(b, raw_packet). Ok (c b, raw_packet))"

text \<open>The \<open>match\<close> on the type of the block, the first byte \<open>raw_packet.chunk()[0]\<close>.\<close>

fun xr_dispatch :: "block_type \<Rightarrow> u8 list \<Rightarrow> (xr_report \<times> u8 list) result" where
  "xr_dispatch LossRLE raw_packet = map_report RLEReport (rle_unmarshal raw_packet)"
| "xr_dispatch DuplicateRLE raw_packet = map_report RLEReport (rle_unmarshal raw_packet)"
| "xr_dispatch PacketReceiptTimes raw_packet = map_report PacketReceiptTimesReport (prt_unmarshal raw_packet)"
| "xr_dispatch ReceiverReferenceTime raw_packet = map_report ReceiverReferenceTimeReport (rrt_unmarshal raw_packet)"
| "xr_dispatch DLRR raw_packet = map_report DLRRReport (dlrr_unmarshal raw_packet)"
| "xr_dispatch StatisticsSummary raw_packet = map_report StatisticsSummaryReport (ssr_unmarshal raw_packet)"
| "xr_dispatch VoIPMetrics raw_packet = map_report VoIPMetricsReport (vm_unmarshal raw_packet)"
| "xr_dispatch UnknownBlock raw_packet = map_report UnknownReport (unknown_unmarshal raw_packet)"

definition xr_report_unmarshal :: "u8 list \<Rightarrow> (xr_report \<times> u8 list) result" where
  "xr_report_unmarshal raw_packet =
     (case raw_packet of [] \<Rightarrow> Err Panic | t # _ \<Rightarrow> xr_dispatch (block_type_from t) raw_packet)"

fun xr_report_wf :: "xr_report \<Rightarrow> bool" where
  "xr_report_wf (RLEReport b) = rle_wf b"
| "xr_report_wf (PacketReceiptTimesReport b) = prt_wf b"
| "xr_report_wf (DLRRReport b) = dlrr_wf b"
| "xr_report_wf (UnknownReport b) = unknown_wf b"
| "xr_report_wf _ = True"

fun xr_report_bytes :: "xr_report \<Rightarrow> u8 list" where
  "xr_report_bytes (RLEReport b) = xr_header_bytes (rle_xr_header b) @ rle_body b"
| "xr_report_bytes (PacketReceiptTimesReport b) = xr_header_bytes (prt_xr_header b) @ prt_body b"
| "xr_report_bytes (ReceiverReferenceTimeReport b) = xr_header_bytes (rrt_xr_header b) @ put_u64 (rrt_ntp_timestamp b)"
| "xr_report_bytes (DLRRReport b) = xr_header_bytes (dlrr_xr_header b) @ concat (map put_dlrr_report (dlrr_reports b))"
| "xr_report_bytes (StatisticsSummaryReport b) = xr_header_bytes (ssr_xr_header b) @ ssr_body b"
| "xr_report_bytes (VoIPMetricsReport b) = xr_header_bytes (vm_xr_header b) @ vm_body b"
| "xr_report_bytes (UnknownReport b) = xr_header_bytes (unknown_xr_header b) @ unknown_bytes b"

fun xr_report_kind :: "xr_report \<Rightarrow> block_type" where
  "xr_report_kind (RLEReport b) = rle_kind b"
| "xr_report_kind (PacketReceiptTimesReport b) = PacketReceiptTimes"
| "xr_report_kind (ReceiverReferenceTimeReport b) = ReceiverReferenceTime"
| "xr_report_kind (DLRRReport b) = DLRR"
| "xr_report_kind (StatisticsSummaryReport b) = StatisticsSummary"
| "xr_report_kind (VoIPMetricsReport b) = VoIPMetrics"
| "xr_report_kind (UnknownReport b) = UnknownBlock"

lemma safe_map_report: "safe bs r \<Longrightarrow> safe bs (map_report c r)"
  by (cases r) (auto simp: map_report_def safe_def)

lemma xr_report_decoded:
  assumes "xr_report_wf x"
  shows "xr_report_unmarshal (xr_report_bytes x @ r) = Ok (x, r)"
proof -
  obtain bs where bytes: "xr_report_bytes x = block_type_as_u8 (xr_report_kind x) # bs"
    using assms rle_xr.announced prt_xr.announced rrt_xr.announced dlrr_xr.announced ssr_xr.announced
      vm_xr.announced unknown_xr.announced by (cases x) fastforce+
  have "xr_report_unmarshal (xr_report_bytes x @ r) = xr_dispatch (xr_report_kind x) (xr_report_bytes x @ r)"
    unfolding bytes by (simp add: xr_report_unmarshal_def)
  with assms rle_xr.decoded prt_xr.decoded rrt_xr.decoded dlrr_xr.decoded ssr_xr.decoded vm_xr.decoded unknown_xr.decoded
  show ?thesis by (cases x) (simp_all add: map_report_def rle_kind_def)
qed

lemma xr_dispatch_robust: "safe (drop 4 bs) (xr_dispatch t bs)"
  by (cases t) (auto intro!: safe_map_report rle_xr.robust prt_xr.robust rrt_xr.robust dlrr_xr.robust ssr_xr.robust
      vm_xr.robust unknown_xr.robust)

lemma xr_report_robust: "bs \<noteq> [] \<Longrightarrow> safe (drop 4 bs) (xr_report_unmarshal bs)"
  using xr_dispatch_robust [of bs "block_type_from (hd bs)"] by (cases bs) (simp_all add: xr_report_unmarshal_def)

lemma xr_report_encoded:
  assumes "xr_report_wf x"
  shows "xr_report_marshal_size x \<le> cap \<Longrightarrow> xr_report_marshal_to x cap = Ok (xr_report_bytes x, xr_report_marshal_size x)"
    and "length (xr_report_bytes x) = xr_report_marshal_size x"
    and "xr_report_marshal_size x mod 4 = 0"
  using assms
  by (cases x; simp add: rle_xr.encoded prt_xr.encoded rrt_xr.encoded dlrr_xr.encoded ssr_xr.encoded vm_xr.encoded unknown_xr.encoded
      rle_xr.words prt_xr.words rrt_xr.words dlrr_xr.words ssr_xr.words vm_xr.words unknown_xr.words
      rle_xr.sized [simplified] prt_xr.sized [simplified] rrt_xr.sized [simplified] dlrr_xr.sized [simplified]
      ssr_xr.sized [simplified] vm_xr.sized [simplified] unknown_xr.sized [simplified])+

record extended_report =
  xr_sender_ssrc :: u32
  xr_reports :: "xr_report list"

definition xr_raw_size :: "extended_report \<Rightarrow> nat" where
  "xr_raw_size p = RTCP_HEADER_LENGTH + SSRC_LENGTH + sum_list (map xr_report_marshal_size (xr_reports p))"

definition xr_marshal_size :: "extended_report \<Rightarrow> nat" where
  "xr_marshal_size p = (let l = xr_raw_size p in l + get_padding_size l)"

definition xr_packet_header :: "extended_report \<Rightarrow> rtcp_header" where
  "xr_packet_header p =
     \<lparr>rtcp_padding = get_padding_size (xr_raw_size p) \<noteq> 0, rtcp_count = 0, rtcp_packet_type = ExtendedReport,
      rtcp_length = of_nat (xr_marshal_size p div 4 - 1)\<rparr>"

definition xr_destination_ssrc :: "extended_report \<Rightarrow> u32 list" where
  "xr_destination_ssrc p = concat (map xr_report_destination_ssrc (xr_reports p))"

definition xr_marshal_to :: "extended_report \<Rightarrow> nat \<Rightarrow> (u8 list \<times> nat) result" where
  "xr_marshal_to p cap =
     (if cap < xr_marshal_size p then Err BufferTooShort
      else and_then (marshal_all xr_report_marshal_to (xr_reports p) (cap - RTCP_HEADER_LENGTH - SSRC_LENGTH))
        (\<lambda>(reports, _).
          rtcp_put (xr_packet_header p) (put_u32 (xr_sender_ssrc p) @ reports) (xr_raw_size p) (xr_marshal_size p) cap))"

function unmarshal_xr_reports :: "nat \<Rightarrow> nat \<Rightarrow> u8 list \<Rightarrow> (xr_report list \<times> u8 list) result" where
  "unmarshal_xr_reports offset raw_packet_len raw_packet =
     (if length raw_packet > 0 then
        if offset + XR_HEADER_LENGTH > raw_packet_len then Err PacketTooShort
        else (case xr_report_unmarshal raw_packet of
           Inl e \<Rightarrow> Inl e
         | Inr (report, raw_packet) \<Rightarrow>
             and_then (unmarshal_xr_reports (offset + xr_report_marshal_size report) raw_packet_len raw_packet)
               (\<lambda>(reports, raw_packet). Ok (report # reports, raw_packet)))
      else Ok ([], raw_packet))"
  by pat_completeness auto
termination
proof (relation "measure (\<lambda>(_, _, bs). length bs)", goal_cases)
  case (2 offset n bs x report r)
  then have "suffix r (drop 4 bs)" using xr_report_robust [of bs] by (auto simp: safe_def)
  with 2 show ?case using suffix_length_le [of r "drop 4 bs"] by (cases bs) auto
qed simp

declare unmarshal_xr_reports.simps [simp del]

definition xr_unmarshal :: "u8 list \<Rightarrow> (extended_report \<times> u8 list) result" where
  "xr_unmarshal raw_packet =
     (let raw_packet_len = length raw_packet in
      if raw_packet_len < RTCP_HEADER_LENGTH + SSRC_LENGTH then Err PacketTooShort
      else and_then (rtcp_header_unmarshal raw_packet) (\<lambda>(header, raw_packet).
        if rtcp_packet_type header \<noteq> ExtendedReport then Err WrongType
        else and_then (get_u32 raw_packet) (\<lambda>(sender_ssrc, raw_packet).
          and_then (unmarshal_xr_reports (RTCP_HEADER_LENGTH + SSRC_LENGTH) raw_packet_len raw_packet)
            (\<lambda>(reports, raw_packet). Ok (\<lparr>xr_sender_ssrc = sender_ssrc, xr_reports = reports\<rparr>, raw_packet)))))"

definition xr_wf :: "extended_report \<Rightarrow> bool" where
  "xr_wf p \<longleftrightarrow> list_all xr_report_wf (xr_reports p) \<and> xr_raw_size p \<le> 262140"

section \<open>Round trip\<close>

lemma unmarshal_xr_reports_bytes:
  "list_all xr_report_wf xs \<Longrightarrow> n = offset + sum_list (map xr_report_marshal_size xs) \<Longrightarrow>
    unmarshal_xr_reports offset n (concat (map xr_report_bytes xs)) = Ok (xs, [])"
proof (induction xs arbitrary: offset)
  case (Cons x xs)
  have len: "length (xr_report_bytes x) = xr_report_marshal_size x" and "4 \<le> xr_report_marshal_size x"
    using Cons.prems(1) xr_report_encoded(2) [of x]
    by (auto, cases x, simp_all add: rle_raw_size_def prt_raw_size_def rrt_raw_size_def dlrr_raw_size_def
        ssr_raw_size_def vm_raw_size_def unknown_raw_size_def)
  with Cons show ?case
    by (subst unmarshal_xr_reports.simps) (auto simp: xr_report_decoded)
qed (simp add: unmarshal_xr_reports.simps)

definition xr_body :: "extended_report \<Rightarrow> u8 list" where
  "xr_body p = put_u32 (xr_sender_ssrc p) @ concat (map xr_report_bytes (xr_reports p))"

lemma length_xr_reports:
  "list_all xr_report_wf xs \<Longrightarrow> length (concat (map xr_report_bytes xs)) = sum_list (map xr_report_marshal_size xs)"
  by (induction xs) (simp_all add: xr_report_encoded(2))

lemma xr_body_aligned:
  assumes "list_all xr_report_wf (xr_reports p)"
  shows "xr_raw_size p = 4 + length (xr_body p)" "rtcp_body (xr_body p) = xr_body p"
proof -
  show size: "xr_raw_size p = 4 + length (xr_body p)"
    using length_xr_reports [OF assms] by (simp add: xr_raw_size_def xr_body_def)
  have "sum_list (map xr_report_marshal_size (xr_reports p)) mod 4 = 0"
    using assms by (intro sum_list_aligned xr_report_encoded(3)) (simp add: list_all_iff)
  then show "rtcp_body (xr_body p) = xr_body p"
    using length_xr_reports [OF assms] by (intro rtcp_body_aligned) (simp add: xr_body_def mod_add_eq [symmetric])
qed

interpretation xr_codec: rtcp_codec xr_marshal_size xr_marshal_to xr_unmarshal xr_wf xr_packet_header
proof (rule rtcp_codecI [where raw_size = xr_raw_size and count = "\<lambda>_. 0" and ptype = "\<lambda>_. ExtendedReport"
      and body = xr_body], goal_cases)
  case (3 p)
  then show ?case using xr_body_aligned by (simp add: xr_wf_def)
next
  case (6 p cap)
  have wf: "list_all xr_report_wf (xr_reports p)" using 6 by (simp add: xr_wf_def)
  have "length (concat (map xr_report_bytes (xr_reports p))) \<le> cap - 8"
    using 6(2) length_xr_reports [OF wf] by (simp add: xr_marshal_size_def xr_raw_size_def Let_def)
  then have "marshal_all xr_report_marshal_to (xr_reports p) (cap - 8) =
      Ok (concat (map xr_report_bytes (xr_reports p)), length (concat (map xr_report_bytes (xr_reports p))))"
    using wf xr_report_encoded by (intro marshal_all_bytes) (auto simp: list_all_iff)
  with 6(2) show ?case by (simp add: xr_marshal_to_def xr_body_def)
next
  case (8 p)
  then have wf: "list_all xr_report_wf (xr_reports p)" by (simp add: xr_wf_def)
  have "unmarshal_xr_reports 8 (4 + length (xr_body p)) (concat (map xr_report_bytes (xr_reports p))) = Ok (xr_reports p, [])"
    using wf length_xr_reports [OF wf] by (intro unmarshal_xr_reports_bytes) (simp_all add: xr_body_def)
  moreover have "rtcp_header_wf (xr_packet_header p)" "rtcp_packet_type (xr_packet_header p) = ExtendedReport"
    by (simp_all add: xr_packet_header_def rtcp_header_wf_def)
  ultimately show ?case
    unfolding xr_body_aligned(2) [OF wf] by (simp add: xr_unmarshal_def xr_body_def)
qed (auto simp: xr_marshal_size_def xr_packet_header_def rtcp_header_for_def xr_marshal_to_def xr_wf_def Let_def)

lemma safe_unmarshal_xr_reports: "safe bs (unmarshal_xr_reports offset n bs)"
proof (induction offset n bs rule: unmarshal_xr_reports.induct)
  case (1 offset n bs)
  show ?case
  proof (cases "bs \<noteq> [] \<and> offset + 4 \<le> n")
    case True
    show ?thesis
    proof (cases "xr_report_unmarshal bs")
      case (Inl e)
      with True xr_report_robust [of bs] show ?thesis
        by (simp add: unmarshal_xr_reports.simps [of offset n bs] safe_def)
    next
      case (Inr xr)
      obtain x r where xr: "xr = (x, r)" by (cases xr)
      have "suffix r (drop 4 bs)" using True xr_report_robust [of bs] Inr xr by (auto simp: safe_def)
      then have suf: "suffix r bs" using suffix_drop suffix_order.trans by blast
      have "safe r (unmarshal_xr_reports (offset + xr_report_marshal_size x) n r)"
        using 1 True Inr xr by auto
      then have "safe r (and_then (unmarshal_xr_reports (offset + xr_report_marshal_size x) n r)
          (\<lambda>(reports, raw_packet). Ok (x # reports, raw_packet)))"
        by (rule safe_and_then) simp
      with suf have "safe bs (and_then (unmarshal_xr_reports (offset + xr_report_marshal_size x) n r)
          (\<lambda>(reports, raw_packet). Ok (x # reports, raw_packet)))"
        by (blast intro: safe_trans)
      then show ?thesis
        unfolding unmarshal_xr_reports.simps [of offset n bs] Inr xr using True by simp
    qed
  qed (auto simp: unmarshal_xr_reports.simps [of offset n bs])
qed

interpretation xr_decoder: robust_decoder xr_unmarshal
proof (rule robust_decoderI)
  fix bs
  have "safe bs (and_then (unmarshal_xr_reports 8 n (drop 8 bs)) (\<lambda>(reports, raw_packet). Ok (f reports, raw_packet)))" for n f
    by (rule safe_drop [of 8], rule safe_and_then [OF safe_unmarshal_xr_reports]) simp
  then show "safe bs (xr_unmarshal bs)"
    unfolding xr_unmarshal_def Let_def
    by (cases "8 \<le> length bs") (auto simp: reads intro!: safe_rtcp_header)
qed

text \<open>
  A run-length block announces its length in words, so that of an odd number of chunks the last one
  is not counted: the report is encoded, and refused by its own decoder.
\<close>

definition odd_rle_report :: extended_report where
  "odd_rle_report =
     \<lparr>xr_sender_ssrc = 1, xr_reports = [RLEReport \<lparr>rle_is_loss_rle = True, rle_t = 0, rle_ssrc = 2,
        rle_begin_seq = 3, rle_end_seq = 9, rle_chunks = [0x4006]\<rparr>]\<rparr>"

lemma odd_rle_report_rejected:
  "\<exists>bs. xr_marshal_to odd_rle_report 24 = Ok (bs, 24) \<and> xr_unmarshal bs = Err PacketTooShort"
proof -
  let ?b = "\<lparr>rle_is_loss_rle = True, rle_t = 0, rle_ssrc = 2, rle_begin_seq = 3, rle_end_seq = 9, rle_chunks = [0x4006]\<rparr>"
  have size: "xr_raw_size odd_rle_report = 22" "xr_marshal_size odd_rle_report = 24" "rle_raw_size ?b = 14"
    by (simp_all add: odd_rle_report_def xr_raw_size_def xr_marshal_size_def rle_raw_size_def get_padding_size_def)
  have "rle_marshal_to ?b 16 = Ok (xr_header_bytes (rle_xr_header ?b) @ rle_body ?b, 14)"
    unfolding rle_marshal_to_def size by (rule xr_put_eq) (simp_all add: length_rle_body)
  then have enc: "marshal_all xr_report_marshal_to (xr_reports odd_rle_report) 16 =
      Ok (xr_header_bytes (rle_xr_header ?b) @ rle_body ?b, 14)"
    by (simp add: odd_rle_report_def length_rle_body)
  let ?h = "xr_packet_header odd_rle_report"
  let ?body = "put_u32 1 @ xr_header_bytes (rle_xr_header ?b) @ rle_body ?b"
  have ssrc: "xr_sender_ssrc odd_rle_report = 1" by (simp add: odd_rle_report_def)
  have h: "?h = rtcp_header_for 0 ExtendedReport 22"
    by (simp add: xr_packet_header_def rtcp_header_for_def size get_padding_size_def)
  have put: "xr_marshal_to odd_rle_report 24 = Ok (rtcp_header_bytes ?h @ rtcp_body ?body, 24)"
    using rtcp_put_eq [of 0 22 ?body 24 ExtendedReport] enc
    by (simp add: xr_marshal_to_def size ssrc h length_rle_body get_padding_size_def)
  have body: "rtcp_body ?body = put_u32 1 @ put_u8 1 @ put_u8 0 @ put_u16 2 @ put_u32 2 @ put_u16 3 @ put_u16 9 @
      [0x40, 6, 0, 2]"
    by (simp add: rtcp_body_def rle_body_def length_rle_body get_padding_size_def rtcp_put_padding_def
        xr_header_bytes_def rle_xr_header_def xr_block_header_def rle_kind_def size put_u16_def [of "0x4006"] upt_rec)
  have "xr_unmarshal (rtcp_header_bytes ?h @ rtcp_body ?body) = Err PacketTooShort"
    unfolding body h
    by (simp add: xr_unmarshal_def unmarshal_xr_reports.simps xr_report_unmarshal_def map_report_def put_u8_def
        block_type_from_def rle_unmarshal_def xr_open_def xr_header_unmarshal_def rle_raw_size_def unknown_unmarshal_def)
  with put show ?thesis by blast
qed

end
