(* ===== verification/Rtcp_Packet.thy ===== *)
theory Rtcp_Packet
  imports Rtcp_Reports Rtcp_Sdes Rtcp_Feedback Rtcp_Transport_Cc Rtcp_Ccfb Rtcp_Remb Rtcp_Xr
begin

text \<open>
  The dispatcher of \<open>rtc-rtcp/src/packet.rs\<close>, which splits a datagram into packets and picks the decoder
  of each, the packets nobody decodes (\<open>raw_packet.rs\<close>) and compound packets
  (\<open>compound_packet/mod.rs\<close>). The trait object \<open>Box<dyn Packet>\<close> is the sum \<open>rtcp_packet\<close> of the types the
  dispatcher returns. Every packet type meets the contract \<open>rtcp_codec\<close>, and what the dispatcher does
  with it is proved once, in that locale; the main results are the round trip of a whole datagram and
  that no datagram makes the dispatcher panic.
\<close>

unbundle bit_operations_syntax

section \<open>Raw packets\<close>

type_synonym raw_packet = "u8 list"

definition rtcp_header_default :: rtcp_header where
  "rtcp_header_default = \<lparr>rtcp_padding = False, rtcp_count = 0, rtcp_packet_type = Unsupported, rtcp_length = 0\<rparr>"

definition raw_packet_header :: "raw_packet \<Rightarrow> rtcp_header" where
  "raw_packet_header p = (case rtcp_header_unmarshal p of Inl _ \<Rightarrow> rtcp_header_default | Inr (h, _) \<Rightarrow> h)"

definition raw_packet_raw_size :: "raw_packet \<Rightarrow> nat" where
  "raw_packet_raw_size p = length p"

definition raw_packet_marshal_size :: "raw_packet \<Rightarrow> nat" where
  "raw_packet_marshal_size p = (let l = raw_packet_raw_size p in l + get_padding_size l)"

definition raw_packet_marshal_to :: "raw_packet \<Rightarrow> nat \<Rightarrow> (u8 list \<times> nat) result" where
  "raw_packet_marshal_to p cap =
     and_then (rtcp_header_unmarshal p) (\<lambda>(h, _).
       put_all cap (p @ (if rtcp_padding h then rtcp_put_padding (raw_packet_raw_size p) else [])) (raw_packet_marshal_size p))"

definition raw_packet_unmarshal :: "u8 list \<Rightarrow> (raw_packet \<times> u8 list) result" where
  "raw_packet_unmarshal raw_packet =
     (if length raw_packet < RTCP_HEADER_LENGTH then Err PacketTooShort
      else and_then (rtcp_header_unmarshal raw_packet) (\<lambda>(h, raw_packet).
        and_then (marshal (rtcp_header_marshal_size h) (rtcp_header_marshal_to h)) (\<lambda>raw_hdr.
        and_then (copy_to_bytes (length raw_packet) raw_packet) (\<lambda>(raw_body, raw_packet).
          Ok (raw_hdr @ raw_body, raw_packet)))))"

section \<open>Packets\<close>

datatype rtcp_packet =
    SenderReportPacket sender_report
  | ReceiverReportPacket receiver_report
  | SourceDescriptionPacket source_description
  | GoodbyePacket goodbye
  | TransportLayerNackPacket transport_layer_nack
  | RapidResynchronizationRequestPacket rapid_resynchronization_request
  | TransportLayerCcPacket transport_layer_cc
  | CcFeedbackReportPacket cc_feedback_report
  | PictureLossIndicationPacket picture_loss_indication
  | SliceLossIndicationPacket slice_loss_indication
  | ReceiverEstimatedMaximumBitratePacket remb
  | FullIntraRequestPacket full_intra_request
  | ExtendedReportPacket extended_report
  | RawPacket raw_packet

fun packet_marshal_size :: "rtcp_packet \<Rightarrow> nat" where
  "packet_marshal_size (SenderReportPacket p) = sender_report_marshal_size p"
| "packet_marshal_size (ReceiverReportPacket p) = receiver_report_marshal_size p"
| "packet_marshal_size (SourceDescriptionPacket p) = source_description_marshal_size p"
| "packet_marshal_size (GoodbyePacket p) = goodbye_marshal_size p"
| "packet_marshal_size (TransportLayerNackPacket p) = transport_layer_nack_marshal_size p"
| "packet_marshal_size (RapidResynchronizationRequestPacket p) = rrr_marshal_size p"
| "packet_marshal_size (TransportLayerCcPacket p) = tcc_marshal_size p"
| "packet_marshal_size (CcFeedbackReportPacket p) = ccfb_marshal_size p"
| "packet_marshal_size (PictureLossIndicationPacket p) = pli_marshal_size p"
| "packet_marshal_size (SliceLossIndicationPacket p) = sli_marshal_size p"
| "packet_marshal_size (ReceiverEstimatedMaximumBitratePacket p) = remb_marshal_size p"
| "packet_marshal_size (FullIntraRequestPacket p) = fir_marshal_size p"
| "packet_marshal_size (ExtendedReportPacket p) = xr_marshal_size p"
| "packet_marshal_size (RawPacket p) = raw_packet_marshal_size p"

fun packet_marshal_to :: "rtcp_packet \<Rightarrow> nat \<Rightarrow> (u8 list \<times> nat) result" where
  "packet_marshal_to (SenderReportPacket p) = sender_report_marshal_to p"
| "packet_marshal_to (ReceiverReportPacket p) = receiver_report_marshal_to p"
| "packet_marshal_to (SourceDescriptionPacket p) = source_description_marshal_to p"
| "packet_marshal_to (GoodbyePacket p) = goodbye_marshal_to p"
| "packet_marshal_to (TransportLayerNackPacket p) = transport_layer_nack_marshal_to p"
| "packet_marshal_to (RapidResynchronizationRequestPacket p) = rrr_marshal_to p"
| "packet_marshal_to (TransportLayerCcPacket p) = tcc_marshal_to p"
| "packet_marshal_to (CcFeedbackReportPacket p) = ccfb_marshal_to p"
| "packet_marshal_to (PictureLossIndicationPacket p) = pli_marshal_to p"
| "packet_marshal_to (SliceLossIndicationPacket p) = sli_marshal_to p"
| "packet_marshal_to (ReceiverEstimatedMaximumBitratePacket p) = remb_marshal_to p"
| "packet_marshal_to (FullIntraRequestPacket p) = fir_marshal_to p"
| "packet_marshal_to (ExtendedReportPacket p) = xr_marshal_to p"
| "packet_marshal_to (RawPacket p) = raw_packet_marshal_to p"

fun packet_destination_ssrc :: "rtcp_packet \<Rightarrow> u32 list" where
  "packet_destination_ssrc (SenderReportPacket p) = sender_report_destination_ssrc p"
| "packet_destination_ssrc (ReceiverReportPacket p) = receiver_report_destination_ssrc p"
| "packet_destination_ssrc (SourceDescriptionPacket p) = source_description_destination_ssrc p"
| "packet_destination_ssrc (GoodbyePacket p) = goodbye_destination_ssrc p"
| "packet_destination_ssrc (TransportLayerNackPacket p) = transport_layer_nack_destination_ssrc p"
| "packet_destination_ssrc (RapidResynchronizationRequestPacket p) = rrr_destination_ssrc p"
| "packet_destination_ssrc (TransportLayerCcPacket p) = tcc_destination_ssrc p"
| "packet_destination_ssrc (CcFeedbackReportPacket p) = ccfb_destination_ssrc p"
| "packet_destination_ssrc (PictureLossIndicationPacket p) = pli_destination_ssrc p"
| "packet_destination_ssrc (SliceLossIndicationPacket p) = sli_destination_ssrc p"
| "packet_destination_ssrc (ReceiverEstimatedMaximumBitratePacket p) = remb_destination_ssrc p"
| "packet_destination_ssrc (FullIntraRequestPacket p) = fir_destination_ssrc p"
| "packet_destination_ssrc (ExtendedReportPacket p) = xr_destination_ssrc p"
| "packet_destination_ssrc (RawPacket p) = []"

definition boxed :: "('a \<Rightarrow> rtcp_packet) \<Rightarrow> ('a \<times> u8 list) result \<Rightarrow> (rtcp_packet \<times> u8 list) result" where
  "boxed c r = and_then r (\<lambda>(p, raw_packet). Ok (c p, raw_packet))"

text \<open>The \<open>match\<close> on the packet type and, for the two kinds of feedback, on the format.\<close>

definition dispatch :: "(u8 list \<Rightarrow> nat) \<Rightarrow> rtcp_header \<Rightarrow> u8 list \<Rightarrow> (rtcp_packet \<times> u8 list) result" where
  "dispatch chunk_len h in_packet =
     (case rtcp_packet_type h of
        SenderReport \<Rightarrow> boxed SenderReportPacket (sender_report_unmarshal in_packet)
      | ReceiverReport \<Rightarrow> boxed ReceiverReportPacket (receiver_report_unmarshal in_packet)
      | SourceDescription \<Rightarrow> boxed SourceDescriptionPacket (source_description_unmarshal in_packet)
      | Goodbye \<Rightarrow> boxed GoodbyePacket (goodbye_unmarshal in_packet)
      | TransportSpecificFeedback \<Rightarrow>
          (if rtcp_count h = FORMAT_TLN then boxed TransportLayerNackPacket (transport_layer_nack_unmarshal in_packet)
           else if rtcp_count h = FORMAT_RRR then boxed RapidResynchronizationRequestPacket (rrr_unmarshal in_packet)
           else if rtcp_count h = FORMAT_TCC then boxed TransportLayerCcPacket (tcc_unmarshal in_packet)
           else if rtcp_count h = FORMAT_CCFB then boxed CcFeedbackReportPacket (ccfb_unmarshal chunk_len in_packet)
           else boxed RawPacket (raw_packet_unmarshal in_packet))
      | PayloadSpecificFeedback \<Rightarrow>
          (if rtcp_count h = FORMAT_PLI then boxed PictureLossIndicationPacket (pli_unmarshal in_packet)
           else if rtcp_count h = FORMAT_SLI then boxed SliceLossIndicationPacket (sli_unmarshal in_packet)
           else if rtcp_count h = FORMAT_REMB then boxed ReceiverEstimatedMaximumBitratePacket (remb_unmarshal in_packet)
           else if rtcp_count h = FORMAT_FIR then boxed FullIntraRequestPacket (fir_unmarshal in_packet)
           else boxed RawPacket (raw_packet_unmarshal in_packet))
      | ExtendedReport \<Rightarrow> boxed ExtendedReportPacket (xr_unmarshal in_packet)
      | _ \<Rightarrow> boxed RawPacket (raw_packet_unmarshal in_packet))"

text \<open>
  The decoder reads from \<open>header_buf.chain(raw_data.take(length))\<close>: what it leaves of the body stays in
  \<open>raw_data\<close>.
\<close>

definition unmarshaller :: "(u8 list \<Rightarrow> nat) \<Rightarrow> u8 list \<Rightarrow> (rtcp_packet \<times> u8 list) result" where
  "unmarshaller chunk_len raw_data =
     and_then (rtcp_header_unmarshal raw_data) (\<lambda>(h, raw_data).
       let len = unat (rtcp_length h) * 4 in
       if len > length raw_data then Err PacketTooShort
       else and_then (rtcp_header_marshal_to h RTCP_HEADER_LENGTH) (\<lambda>(header_buf, _).
         and_then (dispatch chunk_len h (header_buf @ take len raw_data)) (\<lambda>(p, unread).
           Ok (p, drop (len - length unread) raw_data))))"

lemma unmarshaller_progress: "unmarshaller chunk_len bs = Ok (p, r) \<Longrightarrow> suffix r (drop 4 bs) \<and> 4 \<le> length bs"
  using rtcp_header_unmarshal_cases [of bs]
  by (auto simp: unmarshaller_def Let_def suffix_drops split: if_splits)

function unmarshal_packets :: "(u8 list \<Rightarrow> nat) \<Rightarrow> u8 list \<Rightarrow> rtcp_packet list result" where
  "unmarshal_packets chunk_len raw_data =
     (if raw_data \<noteq> [] then
        (case unmarshaller chunk_len raw_data of
           Inl e \<Rightarrow> Inl e
         | Inr (p, raw_data) \<Rightarrow> and_then (unmarshal_packets chunk_len raw_data) (\<lambda>ps. Ok (p # ps)))
      else Ok [])"
  by pat_completeness auto
termination
proof (relation "measure (\<lambda>(_, bs). length bs)", goal_cases)
  case (2 chunk_len bs x p r)
  then show ?case using unmarshaller_progress [of chunk_len bs p r] suffix_length_le [of r "drop 4 bs"] by auto
qed simp

declare unmarshal_packets.simps [simp del]

definition rtcp_unmarshal :: "(u8 list \<Rightarrow> nat) \<Rightarrow> u8 list \<Rightarrow> rtcp_packet list result" where
  "rtcp_unmarshal chunk_len raw_data =
     and_then (unmarshal_packets chunk_len raw_data) (\<lambda>packets. if packets = [] then Err InvalidHeader else Ok packets)"

definition rtcp_marshal :: "rtcp_packet list \<Rightarrow> u8 list result" where
  "rtcp_marshal packets =
     (let total = sum_list (map packet_marshal_size packets) in
      and_then (marshal_all packet_marshal_to packets total) (\<lambda>(bs, _). Ok (bs @ replicate (total - length bs) 0)))"

section \<open>What the dispatcher does with a well-formed packet\<close>

context rtcp_codec
begin

lemma dispatched:
  assumes "wf x" "marshal_to x cap = Ok (bs, n)"
    and "\<And>raw. dispatch chunk_len (header x) raw = boxed c (unmarshal raw)"
  shows "unmarshaller chunk_len (bs @ r) = Ok (c x, r)"
proof -
  obtain body where body: "rtcp_header_unmarshal (bs @ r) = Ok (header x, body @ r)"
    "length body = 4 * unat (rtcp_length (header x))" "bs = rtcp_header_bytes (header x) @ body"
    using header_first [OF assms(1,2)] by blast
  have "unmarshal (rtcp_header_bytes (header x) @ body) = Ok (x, [])"
    using unmarshal_marshal_to [OF assms(1,2)] body(3) by simp
  with body show ?thesis
    by (simp add: unmarshaller_def assms(3) boxed_def rtcp_header_marshal_to_eq [OF header_wf [OF assms(1)]] mult.commute)
qed

lemma delivered:
  assumes "wf x" "marshal_size x \<le> cap" "\<And>raw. dispatch chunk_len (header x) raw = boxed c (unmarshal raw)"
  shows "\<exists>bs. marshal_to x cap = Ok (bs, marshal_size x) \<and> length bs = marshal_size x \<and>
    (\<forall>r. unmarshaller chunk_len (bs @ r) = Ok (c x, r))"
  using marshal_to_fits [OF assms(1,2)] dispatched [OF assms(1) _ assms(3)] by blast

end

text \<open>The headers for which the dispatcher has no decoder.\<close>

definition raw_kind :: "rtcp_header \<Rightarrow> bool" where
  "raw_kind h \<longleftrightarrow>
     (case rtcp_packet_type h of
        Unsupported \<Rightarrow> True
      | ApplicationDefined \<Rightarrow> True
      | TransportSpecificFeedback \<Rightarrow> rtcp_count h \<notin> {FORMAT_TLN, FORMAT_RRR, FORMAT_TCC, FORMAT_CCFB}
      | PayloadSpecificFeedback \<Rightarrow> rtcp_count h \<notin> {FORMAT_PLI, FORMAT_SLI, FORMAT_REMB, FORMAT_FIR}
      | _ \<Rightarrow> False)"

lemma dispatch_raw: "raw_kind h \<Longrightarrow> dispatch chunk_len h bs = boxed RawPacket (raw_packet_unmarshal bs)"
  by (auto simp: raw_kind_def dispatch_def split: packet_type.splits)

lemma raw_packet_unmarshal_bytes:
  "rtcp_header_wf h \<Longrightarrow> raw_packet_unmarshal (rtcp_header_bytes h @ body) = Ok (rtcp_header_bytes h @ body, [])"
  by (simp add: raw_packet_unmarshal_def marshal_def rtcp_header_marshal_to_eq rtcp_header_marshal_size_def)

definition raw_packet_wf :: "raw_packet \<Rightarrow> bool" where
  "raw_packet_wf p \<longleftrightarrow>
     (case rtcp_header_unmarshal p of
        Inl _ \<Rightarrow> False
      | Inr (h, body) \<Rightarrow> raw_kind h \<and> p = rtcp_header_bytes h @ body \<and> length body = unat (rtcp_length h) * 4)"

lemma unmarshaller_raw:
  assumes "rtcp_header_wf h" "raw_kind h" "length body = unat (rtcp_length h) * 4"
  shows "unmarshaller chunk_len (rtcp_header_bytes h @ body @ r) = Ok (RawPacket (rtcp_header_bytes h @ body), r)"
  using assms
  by (simp add: unmarshaller_def rtcp_header_marshal_to_eq dispatch_raw raw_packet_unmarshal_bytes boxed_def)

lemma raw_packet_delivered:
  assumes "raw_packet_wf p" "raw_packet_marshal_size p \<le> cap"
  shows "\<exists>bs. raw_packet_marshal_to p cap = Ok (bs, raw_packet_marshal_size p) \<and> length bs = raw_packet_marshal_size p \<and>
    (\<forall>r. unmarshaller chunk_len (bs @ r) = Ok (RawPacket p, r))"
proof -
  obtain h body where h: "rtcp_header_unmarshal p = Ok (h, body)" "raw_kind h" "p = rtcp_header_bytes h @ body"
    "length body = unat (rtcp_length h) * 4"
    using assms(1) by (auto simp: raw_packet_wf_def split: sum.splits)
  have "length p mod 4 = 0" by (simp add: h(3,4))
  then have pad: "get_padding_size (length p) = 0" "rtcp_put_padding (length p) = []"
    by (simp_all add: rtcp_put_padding_def)
  have "raw_packet_marshal_to p cap = Ok (p, raw_packet_marshal_size p)"
    using assms(2) by (simp add: raw_packet_marshal_to_def h(1) raw_packet_raw_size_def raw_packet_marshal_size_def pad)
  moreover have "unmarshaller chunk_len (p @ r) = Ok (RawPacket p, r)" for r
    using unmarshaller_raw [OF rtcp_header_unmarshal_wf [OF h(1)] h(2,4), of chunk_len r] by (simp add: h(3))
  ultimately show ?thesis by (simp add: raw_packet_marshal_size_def raw_packet_raw_size_def pad)
qed

text \<open>
  The packets a datagram can carry. A slice loss indication is not among them: the header it is
  written with belongs to the other kind of feedback.
\<close>

fun packet_wf :: "rtcp_packet \<Rightarrow> bool" where
  "packet_wf (SenderReportPacket p) = sender_report_wf p"
| "packet_wf (ReceiverReportPacket p) = receiver_report_wf p"
| "packet_wf (SourceDescriptionPacket p) = source_description_wf p"
| "packet_wf (GoodbyePacket p) = goodbye_wf p"
| "packet_wf (TransportLayerNackPacket p) = transport_layer_nack_wf p"
| "packet_wf (RapidResynchronizationRequestPacket p) = True"
| "packet_wf (TransportLayerCcPacket p) = tcc_wf p"
| "packet_wf (CcFeedbackReportPacket p) = ccfb_wf p"
| "packet_wf (PictureLossIndicationPacket p) = True"
| "packet_wf (SliceLossIndicationPacket p) = False"
| "packet_wf (ReceiverEstimatedMaximumBitratePacket p) = remb_wf p"
| "packet_wf (FullIntraRequestPacket p) = fir_wf p"
| "packet_wf (ExtendedReportPacket p) = xr_wf p"
| "packet_wf (RawPacket p) = raw_packet_wf p"

lemmas header_defs =
  sender_report_header_def receiver_report_header_def source_description_header_def goodbye_header_def
  transport_layer_nack_header_def rrr_header_def tcc_header_def ccfb_header_def pli_header_def sli_header_def
  remb_header_def fir_header_def xr_packet_header_def

lemma packet_delivered:
  assumes "packet_wf p" "packet_marshal_size p \<le> cap"
  shows "\<exists>bs. packet_marshal_to p cap = Ok (bs, packet_marshal_size p) \<and> length bs = packet_marshal_size p \<and>
    (\<forall>r. unmarshaller chunk_len (bs @ r) = Ok (p, r))"
proof (cases p)
  case (SenderReportPacket q)
  with assms show ?thesis by (simp, intro sender_report_codec.delivered) (simp_all add: dispatch_def header_defs)
next
  case (ReceiverReportPacket q)
  with assms show ?thesis by (simp, intro receiver_report_codec.delivered) (simp_all add: dispatch_def header_defs)
next
  case (SourceDescriptionPacket q)
  with assms show ?thesis by (simp, intro source_description_codec.delivered) (simp_all add: dispatch_def header_defs)
next
  case (GoodbyePacket q)
  with assms show ?thesis by (simp, intro goodbye_codec.delivered) (simp_all add: dispatch_def header_defs)
next
  case (TransportLayerNackPacket q)
  with assms show ?thesis by (simp, intro transport_layer_nack_codec.delivered) (simp_all add: dispatch_def header_defs)
next
  case (RapidResynchronizationRequestPacket q)
  with assms show ?thesis by (simp, intro rrr_codec.delivered) (simp_all add: dispatch_def header_defs)
next
  case (TransportLayerCcPacket q)
  with assms show ?thesis by (simp, intro tcc_codec.delivered) (simp_all add: dispatch_def header_defs)
next
  case (CcFeedbackReportPacket q)
  with assms show ?thesis by (simp, intro ccfb_codec.delivered) (simp_all add: dispatch_def header_defs)
next
  case (PictureLossIndicationPacket q)
  with assms show ?thesis by (simp, intro pli_codec.delivered) (simp_all add: dispatch_def header_defs)
next
  case (ReceiverEstimatedMaximumBitratePacket q)
  with assms show ?thesis by (simp, intro remb_codec.delivered) (simp_all add: dispatch_def header_defs)
next
  case (FullIntraRequestPacket q)
  with assms show ?thesis by (simp, intro fir_codec.delivered) (simp_all add: dispatch_def header_defs)
next
  case (ExtendedReportPacket q)
  with assms show ?thesis by (simp, intro xr_codec.delivered) (simp_all add: dispatch_def header_defs)
qed (use assms raw_packet_delivered in simp_all)

lemma packets_delivered:
  assumes "list_all packet_wf ps" "sum_list (map packet_marshal_size ps) \<le> cap"
  shows "\<exists>bs. marshal_all packet_marshal_to ps cap = Ok (bs, sum_list (map packet_marshal_size ps)) \<and>
    length bs = sum_list (map packet_marshal_size ps) \<and> unmarshal_packets chunk_len bs = Ok ps"
  using assms
proof (induction ps arbitrary: cap)
  case Nil
  then show ?case by (simp add: unmarshal_packets.simps)
next
  case (Cons p ps)
  obtain bs where bs: "packet_marshal_to p cap = Ok (bs, packet_marshal_size p)" "length bs = packet_marshal_size p"
    "\<And>r. unmarshaller chunk_len (bs @ r) = Ok (p, r)"
    using packet_delivered [of p cap chunk_len] Cons.prems by auto
  have fits: "sum_list (map packet_marshal_size ps) \<le> cap - packet_marshal_size p" using Cons.prems(2) by simp
  obtain bs' where bs': "marshal_all packet_marshal_to ps (cap - packet_marshal_size p) =
      Ok (bs', sum_list (map packet_marshal_size ps))" "length bs' = sum_list (map packet_marshal_size ps)"
    "unmarshal_packets chunk_len bs' = Ok ps"
    using Cons.IH [OF _ fits] Cons.prems(1) by auto
  have "bs @ bs' \<noteq> []"
    using bs(3) [of bs'] unmarshaller_progress [of chunk_len "bs @ bs'" p bs'] by auto
  then have "unmarshal_packets chunk_len (bs @ bs') = Ok (p # ps)"
    by (subst unmarshal_packets.simps) (simp add: bs(3) bs'(3))
  with bs bs' Cons.prems(2) show ?case by simp
qed

section \<open>No datagram makes the dispatcher panic\<close>

lemma safe_boxed: "safe bs r \<Longrightarrow> safe bs (boxed c r)"
  by (cases r) (auto simp: boxed_def safe_def)

interpretation raw_packet_decoder: robust_decoder raw_packet_unmarshal
proof (rule robust_decoderI)
  fix bs
  show "safe bs (raw_packet_unmarshal bs)"
    using rtcp_header_unmarshal_cases [of bs] rtcp_header_unmarshal_wf [of bs]
    by (auto simp: raw_packet_unmarshal_def marshal_def rtcp_header_marshal_to_eq rtcp_header_marshal_size_def)
qed

lemma safe_dispatch: "safe bs (dispatch chunk_len h bs)"
  by (auto simp: dispatch_def split: packet_type.split
      intro!: safe_boxed sender_report_decoder.dec_safe receiver_report_decoder.dec_safe source_description_decoder.dec_safe
        goodbye_decoder.dec_safe transport_layer_nack_decoder.dec_safe rrr_decoder.dec_safe tcc_decoder.dec_safe
        ccfb_decoder.dec_safe pli_decoder.dec_safe sli_decoder.dec_safe remb_decoder.dec_safe fir_decoder.dec_safe
        xr_decoder.dec_safe raw_packet_decoder.dec_safe)

lemma and_then_eq_Err: "and_then r f = Err e \<longleftrightarrow> r = Err e \<or> (\<exists>x. r = Ok x \<and> f x = Err e)"
  by (cases r) auto

lemma unmarshaller_no_panic: "unmarshaller chunk_len bs \<noteq> Err Panic"
proof -
  have "dispatch chunk_len h bs' \<noteq> Err Panic" for h bs' using safe_dispatch [of bs' chunk_len h] by (simp add: safe_def)
  then show ?thesis
    unfolding unmarshaller_def Let_def
    using rtcp_header_decoder.dec_no_panic [of bs] rtcp_header_unmarshal_wf [of bs]
    by (auto simp: and_then_eq_Err rtcp_header_marshal_to_eq split: if_splits)
qed

lemma unmarshal_packets_no_panic: "unmarshal_packets chunk_len bs \<noteq> Err Panic"
proof (induction chunk_len bs rule: unmarshal_packets.induct)
  case (1 chunk_len bs)
  then show ?case
    using unmarshaller_no_panic [of chunk_len bs]
    by (subst unmarshal_packets.simps) (auto simp: and_then_eq_Err split: sum.splits)
qed

section \<open>Compound packets\<close>

type_synonym compound_packet = "rtcp_packet list"

definition sdes_has_cname :: "source_description \<Rightarrow> bool" where
  "sdes_has_cname e \<longleftrightarrow>
     list_ex (\<lambda>c. list_ex (\<lambda>it. sdes_type it = SdesCname) (sdes_items c)) (sdes_chunks e)"

fun validate_rest :: "rtcp_packet list \<Rightarrow> unit result" where
  "validate_rest [] = Err MissingCname"
| "validate_rest (ReceiverReportPacket _ # ps) = validate_rest ps"
| "validate_rest (SourceDescriptionPacket e # ps) = (if \<not> sdes_has_cname e then Err MissingCname else Ok ())"
| "validate_rest (_ # ps) = Err PacketBeforeCname"

fun compound_validate :: "compound_packet \<Rightarrow> unit result" where
  "compound_validate [] = Err EmptyCompound"
| "compound_validate (SenderReportPacket _ # ps) = validate_rest ps"
| "compound_validate (ReceiverReportPacket _ # ps) = validate_rest ps"
| "compound_validate (_ # ps) = Err BadFirstPacket"

text \<open>The first item of the type CNAME, in the order of the two nested loops.\<close>

definition sdes_cname :: "source_description \<Rightarrow> u8 list option" where
  "sdes_cname e =
     map_option sdes_text (find (\<lambda>it. sdes_type it = SdesCname) (concat (map sdes_items (sdes_chunks e))))"

fun cname_rest :: "rtcp_packet list \<Rightarrow> u8 list result" where
  "cname_rest [] = Err MissingCname"
| "cname_rest (SourceDescriptionPacket e # ps) = (case sdes_cname e of Some t \<Rightarrow> Ok t | None \<Rightarrow> cname_rest ps)"
| "cname_rest (ReceiverReportPacket _ # ps) = cname_rest ps"
| "cname_rest (_ # ps) = Err PacketBeforeCname"

fun compound_cname :: "compound_packet \<Rightarrow> u8 list result" where
  "compound_cname [] = Err EmptyCompound"
| "compound_cname (_ # ps) = cname_rest ps"

definition compound_destination_ssrc :: "compound_packet \<Rightarrow> u32 list" where
  "compound_destination_ssrc c = (case c of [] \<Rightarrow> [] | p # _ \<Rightarrow> packet_destination_ssrc p)"

definition compound_raw_size :: "compound_packet \<Rightarrow> nat" where
  "compound_raw_size c = sum_list (map packet_marshal_size c)"

definition compound_marshal_size :: "compound_packet \<Rightarrow> nat" where
  "compound_marshal_size c = (let l = compound_raw_size c in l + get_padding_size l)"

definition compound_marshal_to :: "compound_packet \<Rightarrow> nat \<Rightarrow> (u8 list \<times> nat) result" where
  "compound_marshal_to c cap =
     and_then (compound_validate c) (\<lambda>_.
     and_then (marshal_all packet_marshal_to c cap) (\<lambda>(bs, _). Ok (bs, compound_marshal_size c)))"

definition compound_unmarshal :: "(u8 list \<Rightarrow> nat) \<Rightarrow> u8 list \<Rightarrow> compound_packet result" where
  "compound_unmarshal chunk_len raw_packet =
     and_then (unmarshal_packets chunk_len raw_packet) (\<lambda>c. and_then (compound_validate c) (\<lambda>_. Ok c))"

section \<open>Properties\<close>

text \<open>C18: any list of well-formed packets of any types, marshalled into one datagram, takes exactly the
  announced number of bytes, and the dispatcher returns the same packets in the same order.\<close>

theorem rtcp_datagram_round_trip:
  assumes "ps \<noteq> []" "list_all packet_wf ps"
  shows "\<exists>bs. rtcp_marshal ps = Ok bs \<and> length bs = sum_list (map packet_marshal_size ps) \<and>
    rtcp_unmarshal chunk_len bs = Ok ps"
  using packets_delivered [OF assms(2) order_refl, of chunk_len] assms(1)
  by (auto simp: rtcp_marshal_def rtcp_unmarshal_def Let_def)

definition example_datagram :: "rtcp_packet list" where
  "example_datagram =
     [PictureLossIndicationPacket \<lparr>pli_sender_ssrc = 1, pli_media_ssrc = 2\<rparr>,
      GoodbyePacket \<lparr>bye_sources = [7], bye_reason = []\<rparr>]"

theorem rtcp_datagram_round_trip_witness:
  "\<exists>bs. rtcp_marshal example_datagram = Ok bs \<and> length bs = 24 \<and> rtcp_unmarshal length bs = Ok example_datagram"
  using rtcp_datagram_round_trip [of example_datagram length]
  by (simp add: example_datagram_def goodbye_wf_def pli_marshal_size_def pli_raw_size_def goodbye_marshal_size_def
      goodbye_raw_size_def get_padding_size_def)

text \<open>C19: the dispatcher returns packets or an error, but does not panic, on every sequence of bytes.\<close>

theorem rtcp_unmarshal_total: "rtcp_unmarshal chunk_len bs \<noteq> Err Panic"
  using unmarshal_packets_no_panic [of chunk_len bs] by (auto simp: rtcp_unmarshal_def and_then_eq_Err)

lemma find_cname: "sdes_has_cname e \<Longrightarrow> \<exists>t. sdes_cname e = Some t"
proof -
  assume "sdes_has_cname e"
  then have "find (\<lambda>it. sdes_type it = SdesCname) (concat (map sdes_items (sdes_chunks e))) \<noteq> None"
    by (auto simp: sdes_has_cname_def find_None_iff list_ex_iff)
  then show ?thesis by (auto simp: sdes_cname_def)
qed

lemma validate_rest_cname: "validate_rest ps = Ok () \<Longrightarrow> \<exists>t. cname_rest ps = Ok t"
  by (induction ps rule: validate_rest.induct) (auto split: if_splits dest!: find_cname)

lemma compound_validate_cname: "compound_validate c = Ok () \<Longrightarrow> \<exists>t. compound_cname c = Ok t"
  by (induction c rule: compound_validate.induct) (auto dest: validate_rest_cname)

text \<open>C20: a compound packet that passes validation has a canonical name, and if its packets are well
  formed it is encoded in the announced size and decoded to the same packets.\<close>

theorem compound_round_trip:
  assumes "compound_validate c = Ok ()" "list_all packet_wf c" "compound_marshal_size c \<le> cap"
  shows "(\<exists>t. compound_cname c = Ok t) \<and>
    (\<exists>bs. compound_marshal_to c cap = Ok (bs, compound_marshal_size c) \<and> compound_unmarshal chunk_len bs = Ok c)"
proof -
  have "sum_list (map packet_marshal_size c) \<le> cap"
    using assms(3) by (simp add: compound_marshal_size_def compound_raw_size_def Let_def)
  from packets_delivered [OF assms(2) this, of chunk_len] compound_validate_cname [OF assms(1)] show ?thesis
    by (auto simp: compound_marshal_to_def compound_unmarshal_def assms(1))
qed

definition example_compound :: compound_packet where
  "example_compound =
     [ReceiverReportPacket \<lparr>recv_ssrc = 1, recv_reports = [], recv_profile_extensions = []\<rparr>,
      SourceDescriptionPacket \<lparr>sdes_chunks = [\<lparr>sdes_source = 1, sdes_items = [\<lparr>sdes_type = SdesCname, sdes_text = [97]\<rparr>]\<rparr>]\<rparr>]"

theorem compound_round_trip_witness:
  "(\<exists>t. compound_cname example_compound = Ok t) \<and>
   (\<exists>bs. compound_marshal_to example_compound 20 = Ok (bs, 20) \<and> compound_unmarshal length bs = Ok example_compound)"
proof -
  have "compound_validate example_compound = Ok ()"
    by (simp add: example_compound_def sdes_has_cname_def)
  moreover have "list_all packet_wf example_compound"
    by (simp add: example_compound_def receiver_report_wf_def reports_wf_def source_description_wf_def sdes_chunk_wf_def sdes_item_wf_def
        source_description_raw_size_def sdes_chunk_marshal_size_def sdes_chunk_raw_size_def sdes_item_marshal_size_def get_padding_size_def)
  moreover have "compound_marshal_size example_compound = 20"
    by (simp add: example_compound_def compound_marshal_size_def compound_raw_size_def receiver_report_marshal_size_def
        receiver_report_raw_size_def source_description_marshal_size_def source_description_raw_size_def
        sdes_chunk_marshal_size_def sdes_chunk_raw_size_def sdes_item_marshal_size_def get_padding_size_def)
  ultimately show ?thesis using compound_round_trip [of example_compound 20 length] by simp
qed

text \<open>A slice loss indication that this library sends is not recognised by its own dispatcher, which
  returns the bytes as a raw packet.\<close>

theorem sli_returned_raw:
  assumes "sli_wf p" "sli_marshal_to p cap = Ok (bs, n)"
  shows "rtcp_unmarshal chunk_len bs = Ok [RawPacket bs]"
proof -
  have kind: "raw_kind (sli_header p)" by (simp add: raw_kind_def sli_header_def)
  have "dispatch chunk_len (sli_header p) raw = boxed RawPacket (raw_packet_unmarshal raw)" for raw
    by (rule dispatch_raw [OF kind])
  obtain body where body: "bs = rtcp_header_bytes (sli_header p) @ body" "length body = 4 * unat (rtcp_length (sli_header p))"
    using sli_codec.framed [OF assms] by blast
  have "unmarshaller chunk_len bs = Ok (RawPacket bs, [])"
    using unmarshaller_raw [OF sli_codec.header_wf [OF assms(1)] kind, of body chunk_len "[]"] body by simp
  moreover have "bs \<noteq> []" using body(1) by (auto simp: rtcp_header_bytes_def put_u8_def)
  ultimately show ?thesis
    by (simp add: rtcp_unmarshal_def unmarshal_packets.simps [of chunk_len bs] unmarshal_packets.simps [of chunk_len "[]"])
qed

theorem sli_returned_raw_witness:
  "\<exists>bs. sli_marshal_to \<lparr>sli_sender_ssrc = 1, sli_media_ssrc = 2, sli_entries = [\<lparr>sli_first = 3, sli_number = 4, sli_picture = 5\<rparr>]\<rparr> 16 =
     Ok (bs, 16) \<and> rtcp_unmarshal length bs = Ok [RawPacket bs]"
proof -
  let ?p = "\<lparr>sli_sender_ssrc = 1, sli_media_ssrc = 2, sli_entries = [\<lparr>sli_first = 3, sli_number = 4, sli_picture = 5\<rparr>]\<rparr>"
  have wf: "sli_wf ?p" by (simp add: sli_wf_def sli_entry_wf_def sli_raw_size_def)
  have "sli_marshal_size ?p = 16" by (simp add: sli_marshal_size_def sli_raw_size_def get_padding_size_def)
  with sli_codec.marshal_to_fits [OF wf, of 16] obtain bs where bs: "sli_marshal_to ?p 16 = Ok (bs, 16)" by auto
  from sli_returned_raw [OF wf bs, of length] bs show ?thesis by blast
qed

text \<open>
  A packet of a type that the library does not know is returned with the type 0: the raw packet is
  put together from the parsed header, which does not keep the type byte.
\<close>

lemma unknown_type_rewritten:
  assumes "rtcp_header_unmarshal (b0 # t # put_u16 len @ body) = Ok (h, body)" "packet_type_from t = Unsupported"
    and "length body = unat len * 4"
  shows "rtcp_unmarshal chunk_len (b0 # t # put_u16 len @ body) = Ok [RawPacket (rtcp_first_byte h # 0 # put_u16 len @ body)]"
proof -
  have h: "rtcp_packet_type h = Unsupported" "rtcp_length h = len"
    using assms(1,2) by (auto simp: rtcp_header_unmarshal_def Let_def split: if_splits)
  have bytes: "rtcp_first_byte h # 0 # put_u16 len = rtcp_header_bytes h"
    by (simp add: rtcp_header_bytes_def h put_u8_def)
  have "unmarshaller chunk_len (b0 # t # put_u16 len @ body) = Ok (RawPacket (rtcp_header_bytes h @ body), [])"
    using assms(1,3) rtcp_header_unmarshal_wf [OF assms(1)]
    by (simp add: unmarshaller_def h rtcp_header_marshal_to_eq dispatch_raw raw_kind_def raw_packet_unmarshal_bytes boxed_def)
  then show ?thesis
    by (simp add: rtcp_unmarshal_def unmarshal_packets.simps [of chunk_len "_ # _"] unmarshal_packets.simps [of chunk_len "[]"] flip: bytes)
qed

end
