(* ===== verification/Nack_Interceptors.thy ===== *)
theory Nack_Interceptors
  imports Nack_Send_Buffer Rtcp_Packet
begin

text \<open>
  The two NACK interceptors (\<open>rtc-interceptor/src/nack/generator.rs\<close>, \<open>responder.rs\<close>): the generator requests
  what its receive logs miss, the responder retransmits from its send buffers. A hash map that is iterated is an
  association list, whose order stands for the unspecified iteration order; the counters, which are only looked up,
  are partial functions. The random sender SSRC is an argument. A payload of \<open>Attribute::Custom\<close> is of any type.
\<close>

unbundle bit_operations_syntax

section \<open>Messages\<close>

datatype ip_addr = V4 u32 | V6 "128 word"

datatype ecn_codepoint = Ect0 | Ect1 | Ce

datatype transport_protocol = UDP | TCP

record transport_context =
  local_addr :: "ip_addr \<times> u16"
  peer_addr :: "ip_addr \<times> u16"
  tc_transport_protocol :: transport_protocol
  tc_ecn :: "ecn_codepoint option"

definition transport_context_default :: transport_context where
  "transport_context_default = \<lparr>local_addr = (V4 0x7F000001, 0), peer_addr = (V4 0x7F000001, 65535),
     tc_transport_protocol = UDP, tc_ecn = None\<rparr>"

datatype packet = Rtp rtp_packet | Rtcp "rtcp_packet list"

datatype 'c attribute = RecoveredByFec | Retransmission | DeliverToApplication | TargetBitrateChanged u64 | Custom 'c

record 'c tagged_packet =
  msg_now :: instant
  msg_transport :: transport_context
  msg_attributes :: "'c attribute list"
  msg_packet :: packet

record rtcp_feedback =
  fb_typ :: string
  fb_parameter :: string

record rtp_header_extension =
  he_uri :: string
  he_id :: u16

record stream_info =
  si_ssrc :: u32
  si_ssrc_rtx :: "u32 option"
  si_ssrc_fec :: "u32 option"
  si_payload_type :: u8
  si_payload_type_rtx :: "u8 option"
  si_payload_type_fec :: "u8 option"
  si_rtp_header_extensions :: "rtp_header_extension list"
  si_mime_type :: string
  si_clock_rate :: u32
  si_channels :: u16
  si_sdp_fmtp_line :: string
  si_rtcp_feedback :: "rtcp_feedback list"

definition stream_supports_nack :: "stream_info \<Rightarrow> bool" where
  "stream_supports_nack info = list_ex (\<lambda>fb. fb_typ fb = ''nack'' \<and> fb_parameter fb = []) (si_rtcp_feedback info)"

text \<open>A hash map with an iteration order: insertion replaces in place or appends.\<close>

fun hm_insert :: "'k \<Rightarrow> 'v \<Rightarrow> ('k \<times> 'v) list \<Rightarrow> ('k \<times> 'v) list" where
  "hm_insert k v [] = [(k, v)]"
| "hm_insert k v ((k', v') # xs) = (if k = k' then (k, v) # xs else (k', v') # hm_insert k v xs)"

definition hm_remove :: "'k \<Rightarrow> ('k \<times> 'v) list \<Rightarrow> ('k \<times> 'v) list" where
  "hm_remove k xs = filter (\<lambda>(k', _). k' \<noteq> k) xs"

section \<open>The generator\<close>

record 'c nack_generator =
  ng_size :: u16
  ng_interval :: nat
  ng_skip_last_n :: u16
  ng_max_nacks_per_packet :: u16
  ng_next_timeout :: "instant option"
  ng_sender_ssrc :: u32
  ng_receive_logs :: "(u32 \<times> receive_log) list"
  ng_nack_counts :: "u32 \<Rightarrow> (u16 \<Rightarrow> u16 option) option"
  ng_write_queue :: "'c tagged_packet list"
  ng_read_queue :: "'c tagged_packet list"

definition nack_generator_new :: "u16 \<Rightarrow> nat \<Rightarrow> u16 \<Rightarrow> u16 \<Rightarrow> u32 \<Rightarrow> 'c nack_generator" where
  "nack_generator_new sz interval skip_last_n max_nacks random_ssrc =
     \<lparr>ng_size = sz, ng_interval = interval, ng_skip_last_n = skip_last_n, ng_max_nacks_per_packet = max_nacks,
      ng_next_timeout = None, ng_sender_ssrc = random_ssrc, ng_receive_logs = [], ng_nack_counts = (\<lambda>_. None),
      ng_write_queue = [], ng_read_queue = []\<rparr>"

text \<open>The filter of the missing numbers by what is left of their allowance.\<close>

fun take_allowance :: "u16 \<Rightarrow> u16 list \<Rightarrow> (u16 \<Rightarrow> u16 option) \<Rightarrow> u16 list \<times> (u16 \<Rightarrow> u16 option)" where
  "take_allowance max_nacks [] counts = ([], counts)"
| "take_allowance max_nacks (seq # seqs) counts =
     (let count = (case counts seq of None \<Rightarrow> 0 | Some count \<Rightarrow> count) in
      if count < max_nacks then
        let (rest, counts) = take_allowance max_nacks seqs (counts(seq \<mapsto> count + 1)) in (seq # rest, counts)
      else take_allowance max_nacks seqs (counts(seq \<mapsto> count)))"

definition generate_nack :: "instant \<Rightarrow> u32 \<times> receive_log \<Rightarrow> 'c nack_generator \<Rightarrow> 'c nack_generator" where
  "generate_nack now = (\<lambda>(ssrc, log) self.
     let missing = missing_seq_numbers log (ng_skip_last_n self) in
     if missing = [] then self\<lparr>ng_nack_counts := (ng_nack_counts self)(ssrc := None)\<rparr>
     else
       let (filtered, self) =
         (if ng_max_nacks_per_packet self > 0 then
            let counts = (case ng_nack_counts self ssrc of None \<Rightarrow> (\<lambda>_. None) | Some counts \<Rightarrow> counts);
                counts = (\<lambda>seq. if is_missing log seq (ng_skip_last_n self) then counts seq else None);
                (filtered, counts) = take_allowance (ng_max_nacks_per_packet self) missing counts in
            (filtered, self\<lparr>ng_nack_counts := (ng_nack_counts self)(ssrc \<mapsto> counts)\<rparr>)
          else (missing, self)) in
       if filtered = [] then self
       else self\<lparr>ng_write_queue := ng_write_queue self @
         [\<lparr>msg_now = now, msg_transport = transport_context_default, msg_attributes = [],
           msg_packet = Rtcp [TransportLayerNackPacket \<lparr>tln_sender_ssrc = ng_sender_ssrc self, tln_media_ssrc = ssrc,
             tln_nacks = nack_pairs_from_sequence_numbers filtered\<rparr>]\<rparr>]\<rparr>)"

definition generate_nacks :: "'c nack_generator \<Rightarrow> instant \<Rightarrow> 'c nack_generator" where
  "generate_nacks self now = fold (generate_nack now) (ng_receive_logs self) self"

definition ng_handle_read :: "'c nack_generator \<Rightarrow> 'c tagged_packet \<Rightarrow> 'c nack_generator" where
  "ng_handle_read self msg =
     (let self = (case msg_packet msg of
            Rtcp _ \<Rightarrow> self
          | Rtp p \<Rightarrow>
              (case map_of (ng_receive_logs self) (rtp_ssrc (pkt_header p)) of
                 None \<Rightarrow> self
               | Some log \<Rightarrow>
                   self\<lparr>ng_receive_logs := hm_insert (rtp_ssrc (pkt_header p))
                       (receive_log_add log (rtp_sequence_number (pkt_header p))) (ng_receive_logs self),
                     ng_next_timeout := (case ng_next_timeout self of
                       None \<Rightarrow> Some (msg_now msg + ng_interval self) | Some t \<Rightarrow> Some t)\<rparr>)) in
      self\<lparr>ng_read_queue := ng_read_queue self @ [msg]\<rparr>)"

definition ng_poll_read :: "'c nack_generator \<Rightarrow> 'c tagged_packet option \<times> 'c nack_generator" where
  "ng_poll_read self = (case ng_read_queue self of [] \<Rightarrow> (None, self) | msg # q \<Rightarrow> (Some msg, self\<lparr>ng_read_queue := q\<rparr>))"

definition ng_handle_write :: "'c nack_generator \<Rightarrow> 'c tagged_packet \<Rightarrow> 'c nack_generator" where
  "ng_handle_write self msg = self\<lparr>ng_write_queue := ng_write_queue self @ [msg]\<rparr>"

definition ng_poll_write :: "'c nack_generator \<Rightarrow> 'c tagged_packet option \<times> 'c nack_generator" where
  "ng_poll_write self = (case ng_write_queue self of [] \<Rightarrow> (None, self) | msg # q \<Rightarrow> (Some msg, self\<lparr>ng_write_queue := q\<rparr>))"

definition ng_handle_timeout :: "'c nack_generator \<Rightarrow> instant \<Rightarrow> 'c nack_generator" where
  "ng_handle_timeout self now =
     (case ng_next_timeout self of
        None \<Rightarrow> self
      | Some next_timeout \<Rightarrow>
          if now \<ge> next_timeout then generate_nacks (self\<lparr>ng_next_timeout := Some (now + ng_interval self)\<rparr>) now else self)"

definition ng_poll_timeout :: "'c nack_generator \<Rightarrow> instant option" where
  "ng_poll_timeout self = ng_next_timeout self"

definition ng_bind_remote_stream :: "'c nack_generator \<Rightarrow> stream_info \<Rightarrow> 'c nack_generator" where
  "ng_bind_remote_stream self info =
     (if stream_supports_nack info then
        case receive_log_new (ng_size self) of
          None \<Rightarrow> self
        | Some log \<Rightarrow> self\<lparr>ng_receive_logs := hm_insert (si_ssrc info) log (ng_receive_logs self)\<rparr>
      else self)"

definition ng_unbind_remote_stream :: "'c nack_generator \<Rightarrow> stream_info \<Rightarrow> 'c nack_generator" where
  "ng_unbind_remote_stream self info =
     self\<lparr>ng_receive_logs := hm_remove (si_ssrc info) (ng_receive_logs self),
       ng_nack_counts := (ng_nack_counts self)(si_ssrc info := None)\<rparr>"

section \<open>The responder\<close>

record local_stream =
  ls_send_buffer :: send_buffer
  ls_ssrc_rtx :: "u32 option"
  ls_payload_type_rtx :: "u8 option"
  ls_rtx_sequence_number :: u16

record 'c nack_responder =
  nr_size :: u16
  nr_limits :: history_limits
  nr_streams :: "(u32 \<times> local_stream) list"
  nr_write_queue :: "'c tagged_packet list"
  nr_read_queue :: "'c tagged_packet list"

definition nack_responder_new :: "u16 \<Rightarrow> history_limits \<Rightarrow> 'c nack_responder" where
  "nack_responder_new sz limits =
     \<lparr>nr_size = sz, nr_limits = limits, nr_streams = [], nr_write_queue = [], nr_read_queue = []\<rparr>"

text \<open>The packet that answers a request for \<open>original_packet\<close>: itself, or its RFC 4588 form.\<close>

definition retransmission :: "local_stream \<Rightarrow> rtp_packet \<Rightarrow> rtp_packet \<times> local_stream" where
  "retransmission stream original_packet =
     (case (ls_ssrc_rtx stream, ls_payload_type_rtx stream) of
        (Some ssrc_rtx, Some pt_rtx) \<Rightarrow>
          (\<lparr>pkt_header = rtp_header_default\<lparr>rtp_version := 2, rtp_ssrc := ssrc_rtx, rtp_payload_type := pt_rtx,
              rtp_sequence_number := ls_rtx_sequence_number stream,
              rtp_timestamp := rtp_timestamp (pkt_header original_packet),
              rtp_marker := rtp_marker (pkt_header original_packet)\<rparr>,
            pkt_payload = put_u16 (rtp_sequence_number (pkt_header original_packet)) @ pkt_payload original_packet\<rparr>,
           stream\<lparr>ls_rtx_sequence_number := ls_rtx_sequence_number stream + 1\<rparr>)
      | _ \<Rightarrow> (original_packet, stream))"

fun retransmit :: "instant \<Rightarrow> u16 list \<Rightarrow> local_stream \<times> 'c tagged_packet list \<Rightarrow> local_stream \<times> 'c tagged_packet list" where
  "retransmit now [] (stream, queue) = (stream, queue)"
| "retransmit now (seq # seqs) (stream, queue) =
     (case send_buffer_get (ls_send_buffer stream) seq now of
        None \<Rightarrow> retransmit now seqs (stream, queue)
      | Some original_packet \<Rightarrow>
          let (packet, stream) = retransmission stream original_packet in
          retransmit now seqs (stream, queue @ [\<lparr>msg_now = now, msg_transport = transport_context_default,
            msg_attributes = [Retransmission], msg_packet = Rtp packet\<rparr>]))"

definition handle_nack :: "'c nack_responder \<Rightarrow> instant \<Rightarrow> transport_layer_nack \<Rightarrow> 'c nack_responder" where
  "handle_nack self now nack =
     (case map_of (nr_streams self) (tln_media_ssrc nack) of
        None \<Rightarrow> self
      | Some stream \<Rightarrow>
          let (stream, queue) = retransmit now (concat (map packet_list (tln_nacks nack))) (stream, nr_write_queue self) in
          self\<lparr>nr_streams := hm_insert (tln_media_ssrc nack) stream (nr_streams self), nr_write_queue := queue\<rparr>)"

definition nr_handle_read :: "'c nack_responder \<Rightarrow> 'c tagged_packet \<Rightarrow> 'c nack_responder" where
  "nr_handle_read self msg =
     (let self = (case msg_packet msg of
            Rtp _ \<Rightarrow> self
          | Rtcp rtcp_packets \<Rightarrow>
              foldl (\<lambda>self p. case p of TransportLayerNackPacket nack \<Rightarrow> handle_nack self (msg_now msg) nack | _ \<Rightarrow> self)
                self rtcp_packets) in
      self\<lparr>nr_read_queue := nr_read_queue self @ [msg]\<rparr>)"

definition nr_poll_read :: "'c nack_responder \<Rightarrow> 'c tagged_packet option \<times> 'c nack_responder" where
  "nr_poll_read self = (case nr_read_queue self of [] \<Rightarrow> (None, self) | msg # q \<Rightarrow> (Some msg, self\<lparr>nr_read_queue := q\<rparr>))"

definition nr_handle_write :: "'c nack_responder \<Rightarrow> 'c tagged_packet \<Rightarrow> 'c nack_responder" where
  "nr_handle_write self msg =
     (let self = (case msg_packet msg of
            Rtcp _ \<Rightarrow> self
          | Rtp p \<Rightarrow>
              (case map_of (nr_streams self) (rtp_ssrc (pkt_header p)) of
                 None \<Rightarrow> self
               | Some stream \<Rightarrow>
                   self\<lparr>nr_streams := hm_insert (rtp_ssrc (pkt_header p))
                     (stream\<lparr>ls_send_buffer := send_buffer_add (ls_send_buffer stream) p (msg_now msg)\<rparr>) (nr_streams self)\<rparr>)) in
      self\<lparr>nr_write_queue := nr_write_queue self @ [msg]\<rparr>)"

definition nr_poll_write :: "'c nack_responder \<Rightarrow> 'c tagged_packet option \<times> 'c nack_responder" where
  "nr_poll_write self = (case nr_write_queue self of [] \<Rightarrow> (None, self) | msg # q \<Rightarrow> (Some msg, self\<lparr>nr_write_queue := q\<rparr>))"

definition nr_handle_timeout :: "'c nack_responder \<Rightarrow> instant \<Rightarrow> 'c nack_responder" where
  "nr_handle_timeout self now =
     self\<lparr>nr_streams := map (\<lambda>(ssrc, stream).
       (ssrc, case expires_at (ls_send_buffer stream) of
          Some t \<Rightarrow> if t \<le> now then stream\<lparr>ls_send_buffer := send_buffer_expire (ls_send_buffer stream) now\<rparr> else stream
        | None \<Rightarrow> stream)) (nr_streams self)\<rparr>"

definition nr_poll_timeout :: "'c nack_responder \<Rightarrow> instant option" where
  "nr_poll_timeout self =
     (case List.map_filter (\<lambda>(_, stream). expires_at (ls_send_buffer stream)) (nr_streams self) of
        [] \<Rightarrow> None | t # ts \<Rightarrow> Some (fold min ts t))"

definition nr_bind_local_stream :: "'c nack_responder \<Rightarrow> stream_info \<Rightarrow> 'c nack_responder" where
  "nr_bind_local_stream self info =
     (if stream_supports_nack info then
        case send_buffer_with_limits (nr_size self) (nr_limits self) of
          None \<Rightarrow> self
        | Some buffer \<Rightarrow> self\<lparr>nr_streams := hm_insert (si_ssrc info)
            \<lparr>ls_send_buffer = buffer, ls_ssrc_rtx = si_ssrc_rtx info, ls_payload_type_rtx = si_payload_type_rtx info,
             ls_rtx_sequence_number = 0\<rparr> (nr_streams self)\<rparr>
      else self)"

definition nr_unbind_local_stream :: "'c nack_responder \<Rightarrow> stream_info \<Rightarrow> 'c nack_responder" where
  "nr_unbind_local_stream self info = self\<lparr>nr_streams := hm_remove (si_ssrc info) (nr_streams self)\<rparr>"

section \<open>Forwarding\<close>

text \<open>The inbound side of an interceptor, as its neighbour sees it: what is handed in comes out, in order.\<close>

fun poll_n :: "('s \<Rightarrow> 'm option \<times> 's) \<Rightarrow> nat \<Rightarrow> 's \<Rightarrow> 'm option list" where
  "poll_n poll 0 s = []"
| "poll_n poll (Suc n) s = fst (poll s) # poll_n poll n (snd (poll s))"

locale forwarder =
  fixes handle :: "'s \<Rightarrow> 'm \<Rightarrow> 's"
    and poll :: "'s \<Rightarrow> 'm option \<times> 's"
    and queue :: "'s \<Rightarrow> 'm list"
  assumes handle_queue: "queue (handle s m) = queue s @ [m]"
    and poll_empty: "queue s = [] \<Longrightarrow> poll s = (None, s)"
    and poll_next: "queue s = m # q \<Longrightarrow> fst (poll s) = Some m \<and> queue (snd (poll s)) = q"
begin

lemma handle_all: "queue (foldl handle s ms) = queue s @ ms"
  by (induction ms arbitrary: s) (simp_all add: handle_queue)

lemma poll_all: "queue s = ms \<Longrightarrow> poll_n poll (Suc (length ms)) s = map Some ms @ [None]"
proof (induction ms arbitrary: s)
  case Nil
  then show ?case by (simp add: poll_empty)
next
  case (Cons m ms)
  then show ?case using poll_next [OF Cons.prems] Cons.IH [of "snd (poll s)"] by simp
qed

lemma forwards: "queue s = [] \<Longrightarrow> poll_n poll (Suc (length ms)) (foldl handle s ms) = map Some ms @ [None]"
  using handle_all [of s ms] by (intro poll_all) simp

end

lemma handle_nack_read_queue: "nr_read_queue (handle_nack self now nack) = nr_read_queue self"
  by (simp add: handle_nack_def Let_def split: option.splits prod.splits)

lemma handle_nacks_read_queue:
  "nr_read_queue (foldl (\<lambda>self p. case p of TransportLayerNackPacket nack \<Rightarrow> handle_nack self now nack | _ \<Rightarrow> self) self ps) =
    nr_read_queue self"
proof (induction ps arbitrary: self)
  case (Cons p ps)
  then show ?case by (cases p) (simp_all add: handle_nack_read_queue)
qed simp

interpretation ng_inbound: forwarder ng_handle_read ng_poll_read ng_read_queue
  by unfold_locales (auto simp: ng_handle_read_def ng_poll_read_def Let_def split: packet.splits option.splits)

interpretation ng_outbound: forwarder ng_handle_write ng_poll_write ng_write_queue
  by unfold_locales (auto simp: ng_handle_write_def ng_poll_write_def)

interpretation nr_inbound: forwarder nr_handle_read nr_poll_read nr_read_queue
  by unfold_locales
    (auto simp: nr_handle_read_def nr_poll_read_def Let_def handle_nacks_read_queue split: packet.splits)

interpretation nr_outbound: forwarder nr_handle_write nr_poll_write nr_write_queue
  by unfold_locales (auto simp: nr_handle_write_def nr_poll_write_def Let_def split: packet.splits option.splits)

section \<open>Hash maps\<close>

lemma map_of_hm_insert [simp]: "map_of (hm_insert k v xs) = (map_of xs)(k \<mapsto> v)"
  by (induction k v xs rule: hm_insert.induct) auto

lemma map_of_hm_remove [simp]: "map_of (hm_remove k xs) = (map_of xs)(k := None)"
  by (induction xs) (auto simp: hm_remove_def)

section \<open>The allowance of a packet\<close>

definition count_of :: "(u16 \<Rightarrow> u16 option) \<Rightarrow> u16 \<Rightarrow> u16" where
  "count_of counts seq = (case counts seq of None \<Rightarrow> 0 | Some count \<Rightarrow> count)"

lemma count_of_update [simp]: "count_of (counts(seq \<mapsto> v)) s = (if s = seq then v else count_of counts s)"
  by (simp add: count_of_def)

lemma take_allowance_Cons:
  "take_allowance n (seq # seqs) counts =
    (if count_of counts seq < n
     then map_prod ((#) seq) id (take_allowance n seqs (counts(seq \<mapsto> count_of counts seq + 1)))
     else take_allowance n seqs (counts(seq \<mapsto> count_of counts seq)))"
  by (simp add: count_of_def Let_def map_prod_def split_def)

text \<open>A round over distinct numbers keeps those whose count is below the limit and counts them up.\<close>

lemma take_allowance_spec:
  "distinct seqs \<Longrightarrow> take_allowance n seqs counts =
    (filter (\<lambda>s. count_of counts s < n) seqs,
     \<lambda>s. if s \<in> set seqs then Some (if count_of counts s < n then count_of counts s + 1 else count_of counts s) else counts s)"
proof (induction seqs arbitrary: counts)
  case (Cons seq seqs)
  show ?case
    using Cons(2) unfolding take_allowance_Cons
    by (subst (1 2) Cons(1)) (auto simp: fun_eq_iff intro!: filter_cong simp del: take_allowance.simps)
qed simp

definition nack_request :: "'c nack_generator \<Rightarrow> instant \<Rightarrow> u32 \<Rightarrow> u16 list \<Rightarrow> 'c tagged_packet" where
  "nack_request self now ssrc seqs =
     \<lparr>msg_now = now, msg_transport = transport_context_default, msg_attributes = [],
      msg_packet = Rtcp [TransportLayerNackPacket \<lparr>tln_sender_ssrc = ng_sender_ssrc self, tln_media_ssrc = ssrc,
        tln_nacks = nack_pairs_from_sequence_numbers seqs\<rparr>]\<rparr>"

lemma generate_nack_unlimited:
  "ng_max_nacks_per_packet self = 0 \<Longrightarrow> missing_seq_numbers log (ng_skip_last_n self) = missing \<Longrightarrow> missing \<noteq> [] \<Longrightarrow>
    generate_nack now (ssrc, log) self = self\<lparr>ng_write_queue := ng_write_queue self @ [nack_request self now ssrc missing]\<rparr>"
  by (simp add: generate_nack_def nack_request_def)

lemma generate_nack_limited:
  assumes "log_ok log" "ng_max_nacks_per_packet self > 0" "missing_seq_numbers log (ng_skip_last_n self) = missing" "missing \<noteq> []"
    and "\<forall>s\<in>set missing. (case ng_nack_counts self ssrc of None \<Rightarrow> 0 | Some counts \<Rightarrow> count_of counts s) = v"
  shows "\<exists>counts. (\<forall>s\<in>set missing. count_of counts s = (if v < ng_max_nacks_per_packet self then v + 1 else v)) \<and>
    generate_nack now (ssrc, log) self = self\<lparr>ng_nack_counts := (ng_nack_counts self)(ssrc \<mapsto> counts),
      ng_write_queue := ng_write_queue self @
        (if v < ng_max_nacks_per_packet self then [nack_request self now ssrc missing] else [])\<rparr>"
proof -
  define held where "held = (case ng_nack_counts self ssrc of None \<Rightarrow> (\<lambda>_. None) | Some counts \<Rightarrow> counts)"
  define kept where "kept = (\<lambda>seq. if is_missing log seq (ng_skip_last_n self) then held seq else None)"
  define n where "n = ng_max_nacks_per_packet self"
  have kept: "count_of kept s = v" if "s \<in> set missing" for s
  proof -
    have "count_of kept s = count_of held s"
      using that assms(3) is_missing_iff [OF assms(1)] by (simp add: kept_def count_of_def)
    also have "\<dots> = v" using assms(5) that by (cases "ng_nack_counts self ssrc") (auto simp: held_def count_of_def)
    finally show ?thesis .
  qed
  have "distinct missing" using missing_distinct [OF assms(1)] assms(3) by blast
  from take_allowance_spec [OF this, of n kept] obtain counts where
    take: "take_allowance n missing kept = (if v < n then missing else [], counts)"
    and counts: "\<forall>s\<in>set missing. count_of counts s = (if v < n then v + 1 else v)"
    using kept by (auto simp: count_of_def filter_empty_conv cong: filter_cong)
  have "generate_nack now (ssrc, log) self = self\<lparr>ng_nack_counts := (ng_nack_counts self)(ssrc \<mapsto> counts),
      ng_write_queue := ng_write_queue self @ (if v < n then [nack_request self now ssrc missing] else [])\<rparr>"
    using assms(2-4) take unfolding generate_nack_def n_def kept_def held_def
    by (simp add: Let_def nack_request_def)
  with counts show ?thesis unfolding n_def by blast
qed


text \<open>How often each missing number of a stream has been asked for.\<close>

definition asked :: "'c nack_generator \<Rightarrow> u32 \<Rightarrow> u16 \<Rightarrow> u16" where
  "asked self ssrc s = (case ng_nack_counts self ssrc of None \<Rightarrow> 0 | Some counts \<Rightarrow> count_of counts s)"

lemma generate_nacks_rounds:
  assumes "log_ok log" "ng_receive_logs g = [(ssrc, log)]" "0 < ng_max_nacks_per_packet g"
    and "missing_seq_numbers log (ng_skip_last_n g) = missing" "missing \<noteq> []"
    and "\<forall>s\<in>set missing. asked g ssrc s = v" "v \<le> ng_max_nacks_per_packet g"
  shows "ng_write_queue (foldl generate_nacks g nows) = ng_write_queue g @
    map (\<lambda>now. nack_request g now ssrc missing) (take (unat (ng_max_nacks_per_packet g) - unat v) nows)"
  using assms
proof (induction nows arbitrary: g v)
  case (Cons now nows)
  let ?n = "ng_max_nacks_per_packet g"
  define v' where "v' = (if v < ?n then v + 1 else v)"
  from generate_nack_limited [OF Cons(2) Cons(4-6), of ssrc v now] Cons(7) obtain counts where
    counts: "\<forall>s\<in>set missing. count_of counts s = v'" and
    round: "generate_nacks g now = g\<lparr>ng_nack_counts := (ng_nack_counts g)(ssrc \<mapsto> counts),
      ng_write_queue := ng_write_queue g @ (if v < ?n then [nack_request g now ssrc missing] else [])\<rparr>"
    unfolding generate_nacks_def Cons(3) asked_def v'_def by auto
  have asked': "\<forall>s\<in>set missing. asked (generate_nacks g now) ssrc s = v'"
    using counts by (simp add: round asked_def)
  have le: "v' \<le> ?n" using Cons(8) by (auto simp: v'_def inc_le)
  have rest: "ng_write_queue (foldl generate_nacks (generate_nacks g now) nows) = ng_write_queue (generate_nacks g now) @
    map (\<lambda>t. nack_request (generate_nacks g now) t ssrc missing)
      (take (unat (ng_max_nacks_per_packet (generate_nacks g now)) - unat v') nows)"
    using Cons.IH [of "generate_nacks g now" v'] Cons.prems asked' le by (simp add: round nack_request_def)
  show ?case
  proof (cases "v < ?n")
    case True
    have "1 + v \<noteq> 0"
    proof
      assume "1 + v = 0"
      then have "v = - 1" by (simp add: eq_neg_iff_add_eq_0 add.commute)
      with True show False by simp
    qed
    from unatSuc [OF this] True have "unat v' = Suc (unat v)" "unat v < unat ?n"
      by (simp_all add: v'_def word_less_nat_alt add.commute)
    then have "unat ?n - unat v = Suc (unat ?n - unat v')" by arith
    then show ?thesis using rest True by (simp add: round nack_request_def)
  next
    case False
    then have "unat ?n - unat v = 0" "v' = v" by (simp_all add: v'_def word_less_nat_alt)
    then show ?thesis using rest False by (simp add: round)
  qed
qed simp

section \<open>Properties\<close>

text \<open>C31: With a limit on the requests per packet, a stream whose gaps stay open is asked for exactly that
  often: of any sequence of rounds the first \<open>max_nacks_per_packet\<close> queue one NACK each, for all the missing
  numbers, and every later round queues nothing.\<close>

theorem retry_limit:
  assumes "log_ok log" "ng_receive_logs g = [(ssrc, log)]" "ng_nack_counts g ssrc = None" "0 < ng_max_nacks_per_packet g"
    and "missing_seq_numbers log (ng_skip_last_n g) = missing" "missing \<noteq> []"
  shows "ng_write_queue (foldl generate_nacks g nows) = ng_write_queue g @
    map (\<lambda>now. nack_request g now ssrc missing) (take (unat (ng_max_nacks_per_packet g)) nows)"
  using generate_nacks_rounds [OF assms(1,2,4,5,6), of 0 nows] assms(3) by (simp add: asked_def)

text \<open>A log that has seen the first and the last of the numbers 1 to 4.\<close>

lemma example_log:
  "\<exists>L. receive_log_new 64 = Some L \<and> log_ok (foldl receive_log_add L [1, 4]) \<and>
    missing_seq_numbers (foldl receive_log_add L [1, 4]) 0 = [2, 3]"
proof -
  obtain L where new: "receive_log_new 64 = Some L" by (simp add: receive_log_new_def)
  have w: "log_window (receive_log_add L 1) = 64" "log_window (foldl receive_log_add L [1, 4]) = 64"
    using receive_log_new_ok(2) [OF new] by (simp_all add: log_window_def)
  have "unwrap 1 4 = 4" by (simp add: unwrap_def UINT16_SIZE_HALF_def)
  then have T: "log_tracks 1 4 {1, 4} (foldl receive_log_add L [1, 4])"
    using log_tracks_step [OF log_tracks_first [OF new, of 1], of 4] w by (simp add: insert_commute)
  have "[2..4 :: int] = [2, 3, 4]" by (simp add: upto.simps)
  then show ?thesis
    using missing_tracks [OF T, of 0] w new T by (simp add: log_tracks_def)
qed

theorem retry_limit_witness:
  "\<exists>L. receive_log_new 64 = Some L \<and>
    (let g = (nack_generator_new 64 100 0 2 1 :: unit nack_generator)\<lparr>ng_receive_logs := [(7, foldl receive_log_add L [1, 4])]\<rparr> in
     ng_write_queue (foldl generate_nacks g [100, 200, 300]) =
       [nack_request g 100 7 [2, 3], nack_request g 200 7 [2, 3]])"
proof -
  obtain L where L: "receive_log_new 64 = Some L" "log_ok (foldl receive_log_add L [1, 4])"
    "missing_seq_numbers (foldl receive_log_add L [1, 4]) 0 = [2, 3]" using example_log by blast
  show ?thesis
    using L retry_limit [OF L(2), of "(nack_generator_new 64 100 0 2 1 :: unit nack_generator)\<lparr>ng_receive_logs := [(7, foldl receive_log_add L [1, 4])]\<rparr>"
      7 "[2, 3]" "[100, 200, 300]"]
    by (simp add: nack_generator_new_def Let_def)
qed
end
