(* ===== verification/Demuxer.thy ===== *)
theory Demuxer
  imports Rtcp_Packet Rtp_Packet
begin

text \<open>
  The first look at a datagram: the demultiplexer of the peer connection
  (\<open>src/peer_connection/handler/demuxer.rs\<close>), which tells DTLS, media and STUN apart by the first byte, and
  the test for RTCP (\<open>rtc-shared/src/util.rs\<close>), which the SRTP handler uses to tell control from media. The
  theorem says that what the encoders of this library write is sorted correctly.
\<close>

unbundle bit_operations_syntax

section \<open>Definitions\<close>

fun match_range :: "u8 \<Rightarrow> u8 \<Rightarrow> u8 list \<Rightarrow> bool" where
  "match_range lower upper [] = False"
| "match_range lower upper (b # _) = (b \<ge> lower \<and> b \<le> upper)"

definition match_dtls :: "u8 list \<Rightarrow> bool" where
  "match_dtls b = match_range 20 63 b"

definition match_srtp :: "u8 list \<Rightarrow> bool" where
  "match_srtp b = match_range 128 191 b"

definition is_rtcp :: "u8 list \<Rightarrow> bool" where
  "is_rtcp buf = (if length buf < 4 then False else 192 \<le> buf ! 1 \<and> buf ! 1 \<le> 223)"

text \<open>The message the demultiplexer queues for a datagram; an empty one is dropped.\<close>

datatype demuxed = DtlsRaw "u8 list" | RtpRaw "u8 list" | StunRaw "u8 list"

definition demux :: "u8 list \<Rightarrow> demuxed option" where
  "demux message =
     (if message = [] then None
      else if match_dtls message then Some (DtlsRaw message)
      else if match_srtp message then Some (RtpRaw message)
      else Some (StunRaw message))"

section \<open>What a decoded header says about the first two bytes\<close>

lemma version_two: "drop_bit 6 b AND 3 = 2 \<longleftrightarrow> 128 \<le> b \<and> b \<le> 191" for b :: u8
proof -
  have "drop_bit 6 b AND 3 = take_bit 2 (drop_bit 6 b)" by (simp add: take_bit_eq_mask mask_eq_exp_minus_1)
  then have "unat (drop_bit 6 b AND 3) = unat b div 64"
    using unat_bounds(1) [of b] by (simp add: unat_div unat_mod take_bit_eq_mod drop_bit_eq_div)
  then have "drop_bit 6 b AND 3 = 2 \<longleftrightarrow> unat b div 64 = 2" unfolding word_unat_eq_iff [of "drop_bit 6 b AND 3"] by simp
  also have "\<dots> \<longleftrightarrow> 128 \<le> unat b \<and> unat b \<le> 191" by linarith
  finally show ?thesis by (simp add: word_le_nat_alt)
qed

lemma rtcp_type_byte:
  "192 \<le> b \<and> b \<le> 223 \<longleftrightarrow> drop_bit 7 b AND 1 > 0 \<and> 64 \<le> b AND 0x7F \<and> b AND 0x7F \<le> 95" for b :: u8
proof -
  have "drop_bit 7 b AND 1 = take_bit 1 (drop_bit 7 b)" "b AND 0x7F = take_bit 7 b"
    by (simp_all add: take_bit_eq_mask mask_eq_exp_minus_1)
  then have "unat (drop_bit 7 b AND 1) = unat b div 128" "unat (b AND 0x7F) = unat b mod 128"
    using unat_bounds(1) [of b] by (simp_all add: unat_div unat_mod take_bit_eq_mod drop_bit_eq_div)
  moreover have "192 \<le> n \<and> n \<le> 223 \<longleftrightarrow> 0 < n div 128 \<and> 64 \<le> n mod 128 \<and> n mod 128 \<le> 95" if "n < 256" for n :: nat
  proof -
    have "n div 128 = (if n < 128 then 0 else 1)" "n mod 128 = (if n < 128 then n else n - 128)"
      using that by (auto simp: div_nat_eqI mod_if)
    then show ?thesis by auto
  qed
  ultimately show ?thesis using unat_bounds(1) [of b] by (simp add: word_le_nat_alt word_less_nat_alt)
qed

lemma rtp_header_first_bytes:
  assumes "rtp_header_unmarshal bs = Ok (h, r)"
  obtains b0 b1 rest where "bs = b0 # b1 # rest" "2 \<le> length rest" "rtp_version h = drop_bit 6 b0 AND 3"
    "rtp_marker h \<longleftrightarrow> drop_bit 7 b1 AND 1 > 0" "rtp_payload_type h = b1 AND 0x7F"
proof -
  have "12 \<le> length bs" using assms by (auto simp: rtp_header_unmarshal_def RTP_HEADER_LENGTH_def Let_def split: if_splits)
  then obtain b0 b1 rest where bs: "bs = b0 # b1 # rest" "2 \<le> length rest"
    by (cases bs; cases "tl bs") auto
  show thesis
    by (rule that [OF bs]) (use assms in \<open>auto simp: bs rtp_header_unmarshal_def Let_def split: if_splits\<close>)
qed

lemma rtcp_header_first_bytes:
  assumes "rtcp_header_unmarshal bs = Ok (h, r)"
  obtains b0 b1 rest where "bs = b0 # b1 # rest" "2 \<le> length rest" "128 \<le> b0" "b0 \<le> 191"
    "rtcp_packet_type h = packet_type_from b1"
proof -
  have "4 \<le> length bs" using rtcp_header_unmarshal_cases [of bs] assms by auto
  then obtain b0 b1 rest where bs: "bs = b0 # b1 # rest" "2 \<le> length rest" by (cases bs; cases "tl bs") auto
  have "drop_bit 6 b0 AND 3 = 2" "rtcp_packet_type h = packet_type_from b1"
    using assms by (auto simp: bs rtcp_header_unmarshal_def Let_def split: if_splits)
  with that [OF bs] show thesis by (simp add: version_two)
qed

lemma packet_type_byte: "packet_type_from b \<noteq> Unsupported \<Longrightarrow> 192 \<le> b \<and> b \<le> 223"
  by (auto simp: packet_type_from_def split: if_splits)

lemma unmarshaller_kind:
  assumes "unmarshaller chunk_len bs = Ok (p, r)" "\<forall>q. p \<noteq> RawPacket q"
  obtains h rest where "rtcp_header_unmarshal bs = Ok (h, rest)" "rtcp_packet_type h \<noteq> Unsupported"
proof -
  from assms(1) obtain h rest header_buf n unread where h: "rtcp_header_unmarshal bs = Ok (h, rest)"
    "dispatch chunk_len h (header_buf @ take n rest) = Ok (p, unread)"
    by (auto simp: unmarshaller_def Let_def split: if_splits)
  have "rtcp_packet_type h \<noteq> Unsupported" using h(2) assms(2) by (auto simp: dispatch_def boxed_def)
  with h(1) that show thesis by blast
qed

lemma demux_rtp:
  assumes "rtp_header_wf (pkt_header p)" "rtp_version (pkt_header p) = 2"
    and "marshal (rtp_packet_marshal_size p) (rtp_packet_marshal_to p) = Ok bs"
  shows "demux bs = Some (RtpRaw bs) \<and>
    (is_rtcp bs \<longleftrightarrow> rtp_marker (pkt_header p) \<and> 64 \<le> rtp_payload_type (pkt_header p) \<and> rtp_payload_type (pkt_header p) \<le> 95)"
proof -
  have "rtp_packet_unmarshal bs = Ok (p, [])"
    using rtp_packet_codec.marshal_ok [of p] assms(1,3) by (auto simp: rtp_packet_wf_def)
  then obtain r where "rtp_header_unmarshal bs = Ok (pkt_header p, r)"
    by (auto simp: rtp_packet_unmarshal_def Let_def split: if_splits)
  then obtain b0 b1 rest where bs: "bs = b0 # b1 # rest" "2 \<le> length rest" "rtp_version (pkt_header p) = drop_bit 6 b0 AND 3"
    "rtp_marker (pkt_header p) \<longleftrightarrow> drop_bit 7 b1 AND 1 > 0" "rtp_payload_type (pkt_header p) = b1 AND 0x7F"
    by (rule rtp_header_first_bytes)
  then have "128 \<le> b0" "b0 \<le> 191" using assms(2) version_two [of b0] by auto
  moreover from this have "\<not> b0 \<le> 63" by (simp add: word_le_nat_alt)
  ultimately show ?thesis
    using bs(2) rtcp_type_byte [of b1] unfolding bs(4,5) by (simp add: bs(1) demux_def match_dtls_def match_srtp_def is_rtcp_def)
qed

lemma rtcp_carried:
  assumes "list_all packet_wf ps" "ps \<noteq> []"
  shows "\<exists>bs. rtcp_marshal ps = Ok bs \<and> rtcp_unmarshal chunk_len bs = Ok ps"
  using packets_delivered [OF assms(1) order_refl, of chunk_len] assms(2)
  by (auto simp: rtcp_marshal_def rtcp_unmarshal_def Let_def)

lemma rtp_carried:
  assumes "rtp_header_wf (pkt_header p)"
  shows "\<exists>bs. marshal (rtp_packet_marshal_size p) (rtp_packet_marshal_to p) = Ok bs \<and> rtp_packet_unmarshal bs = Ok (p, [])"
  using rtp_packet_codec.marshal_ok [of p] assms by (auto simp: rtp_packet_wf_def)

lemma demux_rtcp:
  assumes "list_all packet_wf (q # qs)" "\<forall>raw. q \<noteq> RawPacket raw" "rtcp_marshal (q # qs) = Ok bs"
  shows "demux bs = Some (RtpRaw bs) \<and> is_rtcp bs"
proof -
  have "unmarshal_packets length bs = Ok (q # qs)"
    using packets_delivered [OF assms(1) order_refl, of length] assms(3) by (auto simp: rtcp_marshal_def Let_def)
  then obtain r where "unmarshaller length bs = Ok (q, r)"
    by (subst (asm) unmarshal_packets.simps) (auto split: if_splits sum.splits)
  then obtain h rest where h: "rtcp_header_unmarshal bs = Ok (h, rest)" "rtcp_packet_type h \<noteq> Unsupported"
    using assms(2) by (rule unmarshaller_kind)
  from h(1) obtain b0 b1 rest where bs: "bs = b0 # b1 # rest" "2 \<le> length rest" "128 \<le> b0" "b0 \<le> 191"
    "rtcp_packet_type h = packet_type_from b1" by (rule rtcp_header_first_bytes)
  have "192 \<le> b1 \<and> b1 \<le> 223" using packet_type_byte h(2) bs(5) by simp
  moreover have "\<not> b0 \<le> 63" using bs(3) by (simp add: word_le_nat_alt)
  ultimately show ?thesis
    using bs by (simp add: demux_def match_dtls_def match_srtp_def is_rtcp_def)
qed

section \<open>Properties\<close>

text \<open>C32: the demultiplexer hands every datagram that the RTP encoder writes for a header of version 2, and every one
  that the RTCP encoder writes for packets of which the first is of a known type, to the media path, and
  \<open>is_rtcp\<close> says which of the two wrote it: it is true for every compound that starts with a packet of a known
  type, and false for every RTP packet but those with the marker and a payload type from 64 to 95.\<close>

theorem demux_exact:
  assumes "rtp_header_wf (pkt_header p)" "rtp_version (pkt_header p) = 2"
    and "marshal (rtp_packet_marshal_size p) (rtp_packet_marshal_to p) = Ok media"
    and "list_all packet_wf (q # qs)" "\<forall>raw. q \<noteq> RawPacket raw" "rtcp_marshal (q # qs) = Ok control"
  shows "demux media = Some (RtpRaw media) \<and> demux control = Some (RtpRaw control) \<and> is_rtcp control \<and>
    (is_rtcp media \<longleftrightarrow>
      rtp_marker (pkt_header p) \<and> 64 \<le> rtp_payload_type (pkt_header p) \<and> rtp_payload_type (pkt_header p) \<le> 95)"
  using demux_rtp [OF assms(1-3)] demux_rtcp [OF assms(4-6)] by blast

theorem demux_exact_witness:
  "\<exists>media control. marshal (rtp_packet_marshal_size \<lparr>pkt_header = example_header, pkt_payload = [1, 2, 3]\<rparr>)
      (rtp_packet_marshal_to \<lparr>pkt_header = example_header, pkt_payload = [1, 2, 3]\<rparr>) = Ok media \<and>
    rtcp_marshal example_datagram = Ok control \<and> \<not> is_rtcp media \<and> is_rtcp control"
proof -
  define p where "p = \<lparr>pkt_header = example_header, pkt_payload = [1, 2, 3]\<rparr>"
  have p: "rtp_header_wf (pkt_header p)" "rtp_version (pkt_header p) = 2" "rtp_payload_type (pkt_header p) = 96"
    by (simp_all add: p_def rtp_header_wf_def example_header_def rtp_header_default_def)
  have d: "list_all packet_wf example_datagram" "example_datagram \<noteq> []"
    by (simp_all add: example_datagram_def goodbye_wf_def)
  obtain media where media: "marshal (rtp_packet_marshal_size p) (rtp_packet_marshal_to p) = Ok media"
    using rtp_carried [OF p(1)] by blast
  obtain control where control: "rtcp_marshal example_datagram = Ok control"
    using rtcp_carried [OF d] by blast
  show ?thesis
    using demux_exact [OF p(1,2) media, of "hd example_datagram" "tl example_datagram" control] p(3) d(1) control media
    by (auto simp: example_datagram_def p_def)
qed

end
