(* ===== verification/Nack_Repair.thy ===== *)
theory Nack_Repair
  imports Nack_Interceptors Demuxer
begin

text \<open>
  The two NACK interceptors at work on one stream: what the generator knows after any arrivals, what it asks
  for, what the responder sends again, and what the receiver is left with. The lemmas follow one round of
  feedback from end to end; the theorem that joins them is in the root theory.
\<close>

section \<open>The receiver\<close>

lemma log_tracks_add:
  assumes "log_tracks b e R L" "e - log_window L < x" "x < e + 2 ^ 15"
  shows "log_tracks b (max e x) (insert x R) (receive_log_add L (word_of_int x))"
proof -
  consider "x < e" | "x = e" | "e < x" by linarith
  then show ?thesis
  proof cases
    case 2
    have "log_started L" "log_end L = word_of_int e" "e \<in> R" using assms(1) by (auto simp: log_tracks_def)
    then show ?thesis using 2 assms(1) by (simp add: receive_log_add_def insert_absorb)
  qed (use assms log_tracks_backward [of b e R L x] log_tracks_forward [of b e R L x] in \<open>auto simp: max_def\<close>)
qed

lemma log_window_add [simp]: "log_window (receive_log_add L seq) = log_window L"
  by (simp add: log_window_def)

lemma log_tracks_adds:
  "log_tracks b e R L \<Longrightarrow> lo \<le> e \<Longrightarrow> e \<le> hi \<Longrightarrow> \<forall>x\<in>set xs. lo \<le> x \<and> x \<le> hi \<Longrightarrow> hi - lo < log_window L \<Longrightarrow>
    \<exists>e'. lo \<le> e' \<and> e' \<le> hi \<and> log_tracks b e' (R \<union> set xs) (foldl receive_log_add L (map word_of_int xs))"
proof (induction xs arbitrary: e R L)
  case (Cons x xs)
  have "log_window L \<le> 2 ^ 15" using Cons.prems(1) log_window_bounds(2) by (auto simp: log_tracks_def)
  then have "log_tracks b (max e x) (insert x R) (receive_log_add L (word_of_int x))"
    using Cons.prems by (intro log_tracks_add) auto
  from Cons.IH [OF this] Cons.prems show ?case by (auto simp: max_def)
qed auto

lemma ng_handle_reads:
  assumes "map msg_packet ms = map Rtp ps" "\<forall>p\<in>set ps. rtp_ssrc (pkt_header p) = ssrc" "ng_receive_logs g = [(ssrc, log)]"
  shows "\<exists>t. foldl ng_handle_read g ms = g\<lparr>ng_next_timeout := t, ng_read_queue := ng_read_queue g @ ms,
    ng_receive_logs := [(ssrc, foldl receive_log_add log (map (\<lambda>p. rtp_sequence_number (pkt_header p)) ps))]\<rparr> \<and>
    (ms \<noteq> [] \<longrightarrow> t \<noteq> None)"
  using assms
proof (induction ms arbitrary: ps g log)
  case Nil
  then show ?case by (auto intro!: exI [of _ "ng_next_timeout g"])
next
  case (Cons m ms)
  then obtain p qs where ps: "ps = p # qs" "msg_packet m = Rtp p" "map msg_packet ms = map Rtp qs" by (cases ps) auto
  define t where "t = (case ng_next_timeout g of None \<Rightarrow> Some (msg_now m + ng_interval g) | Some t \<Rightarrow> Some t)"
  define g' where "g' = g\<lparr>ng_next_timeout := t, ng_read_queue := ng_read_queue g @ [m],
    ng_receive_logs := [(ssrc, receive_log_add log (rtp_sequence_number (pkt_header p)))]\<rparr>"
  have g': "ng_handle_read g m = g'" using Cons.prems ps by (simp add: ng_handle_read_def g'_def t_def)
  obtain t' where t': "foldl ng_handle_read g' ms = g'\<lparr>ng_next_timeout := t', ng_read_queue := ng_read_queue g' @ ms,
    ng_receive_logs := [(ssrc, foldl receive_log_add (receive_log_add log (rtp_sequence_number (pkt_header p)))
      (map (\<lambda>p. rtp_sequence_number (pkt_header p)) qs))]\<rparr> \<and> (ms \<noteq> [] \<longrightarrow> t' \<noteq> None)"
    using Cons.IH [OF ps(3), of g'] Cons.prems(2) ps(1) by (auto simp: g'_def)
  have "t \<noteq> None" by (simp add: t_def split: option.splits)
  moreover have "ms = [] \<Longrightarrow> t' = t" using t' by (cases g) (simp add: g'_def)
  ultimately show ?case using t' g' ps(1) by (cases "ms = []") (auto simp: g'_def)
qed


section \<open>The sender\<close>

lemma nr_handle_writes:
  assumes "map msg_packet ms = map Rtp ps" "\<forall>p\<in>set ps. rtp_ssrc (pkt_header p) = ssrc" "map_of (nr_streams r) ssrc = Some stream"
  shows "map_of (nr_streams (foldl nr_handle_write r ms)) ssrc =
    Some (stream\<lparr>ls_send_buffer := send_all (ls_send_buffer stream) (zip ps (map msg_now ms))\<rparr>)"
  using assms
proof (induction ms arbitrary: ps r stream)
  case Nil
  then show ?case by (simp add: send_all_def)
next
  case (Cons m ms)
  then obtain p qs where ps: "ps = p # qs" "msg_packet m = Rtp p" "map msg_packet ms = map Rtp qs" by (cases ps) auto
  define stream' where "stream' = stream\<lparr>ls_send_buffer := send_buffer_add (ls_send_buffer stream) p (msg_now m)\<rparr>"
  have "map_of (nr_streams (nr_handle_write r m)) ssrc = Some stream'"
    using Cons.prems ps by (simp add: nr_handle_write_def stream'_def)
  from Cons.IH [OF ps(3) _ this] Cons.prems(2) ps(1) show ?case by (simp add: stream'_def send_all_def)
qed

text \<open>A packet that is sent again as it was, and the answer to a list of requested numbers.\<close>

definition resend :: "instant \<Rightarrow> rtp_packet \<Rightarrow> 'c tagged_packet" where
  "resend now p = \<lparr>msg_now = now, msg_transport = transport_context_default, msg_attributes = [Retransmission],
    msg_packet = Rtp p\<rparr>"

lemma retransmit_plain:
  "ls_ssrc_rtx stream = None \<Longrightarrow> retransmit now seqs (stream, queue) =
    (stream, queue @ map (resend now) (List.map_filter (\<lambda>seq. send_buffer_get (ls_send_buffer stream) seq now) seqs))"
  by (induction seqs arbitrary: queue)
    (auto simp: retransmission_def resend_def map_filter_simps split: option.splits)

lemma nr_handle_nack:
  assumes "map_of (nr_streams r) ssrc = Some stream" "ls_ssrc_rtx stream = None"
    and "msg_packet m = Rtcp [TransportLayerNackPacket \<lparr>tln_sender_ssrc = s, tln_media_ssrc = ssrc, tln_nacks = nacks\<rparr>]"
  shows "nr_write_queue (nr_handle_read r m) = nr_write_queue r @ map (resend (msg_now m))
    (List.map_filter (\<lambda>seq. send_buffer_get (ls_send_buffer stream) seq (msg_now m)) (concat (map packet_list nacks)))"
  using assms by (simp add: nr_handle_read_def handle_nack_def retransmit_plain)

section \<open>Streams with consecutive numbers\<close>

text \<open>The number on the wire of the packet with index \<open>i\<close>, and its unwrapped number when the packet with index
  \<open>k\<close> is the first that arrives.\<close>

definition wire :: "u16 \<Rightarrow> nat \<Rightarrow> u16" where
  "wire s0 i = s0 + of_nat i"

definition number :: "u16 \<Rightarrow> nat \<Rightarrow> nat \<Rightarrow> int" where
  "number s0 k i = uint (wire s0 k) - int k + int i"

lemma wire_number [simp]: "word_of_int (number s0 k i) = wire s0 i"
  by (simp add: number_def wire_def)

lemma number_simps [simp]: "number s0 k i \<le> number s0 k j \<longleftrightarrow> i \<le> j" "number s0 k i = number s0 k j \<longleftrightarrow> i = j"
  by (simp_all add: number_def)

lemma number_first: "uint (wire s0 k) = number s0 k k"
  by (simp add: number_def)

lemma wire_inj: "n \<le> 2 ^ 16 \<Longrightarrow> inj_on (wire s0) {..<n}"
proof (rule inj_onI)
  fix i j assume "n \<le> 2 ^ 16" "i \<in> {..<n}" "j \<in> {..<n}" "wire s0 i = wire s0 j"
  then have "(of_nat i :: u16) = of_nat j" "i < 65536" "j < 65536" by (simp_all add: wire_def)
  then show "i = j" by (metis unat_of_nat_small(2))
qed

lemma list_of_image: "set ys \<subseteq> f ` A \<Longrightarrow> \<exists>xs. map f xs = ys \<and> set xs \<subseteq> A"
proof -
  assume "set ys \<subseteq> f ` A"
  then have "ys \<in> map f ` lists A" using lists_image [of f A] by (auto simp: in_lists_conv_set)
  then show ?thesis by (auto simp: in_lists_conv_set)
qed

text \<open>What the log knows after the packets with the indices \<open>k # ks\<close> have arrived.\<close>

lemma arrivals_tracked:
  assumes "receive_log_new sz = Some L" "n \<le> unat sz" "k < n" "set ks \<subseteq> {..<n}"
  shows "log_tracks (number s0 k k) (number s0 k (Max (set (k # ks)))) (number s0 k ` set (k # ks))
    (foldl receive_log_add L (map (wire s0) (k # ks)))"
proof -
  define log where "log = foldl receive_log_add L (map (wire s0) (k # ks))"
  have w: "log_window (receive_log_add L (wire s0 k)) = int (unat sz)"
    using receive_log_new_ok(2) [OF assms(1)] by (simp add: log_window_def del: of_nat_unat)
  have "number s0 k (n - 1) - number s0 k 0 < int (unat sz)" using assms(2,3) by (simp add: number_def del: of_nat_unat)
  moreover have "\<forall>x\<in>set (map (number s0 k) ks). number s0 k 0 \<le> x \<and> x \<le> number s0 k (n - 1)"
    using assms(3,4) by auto
  moreover have "k \<le> n - 1" using assms(3) by simp
  ultimately obtain e where T: "log_tracks (number s0 k k) e (number s0 k ` set (k # ks)) log"
    using log_tracks_adds [OF log_tracks_first [OF assms(1), of "wire s0 k"], of "number s0 k 0" "number s0 k (n - 1)" "map (number s0 k) ks"]
      assms(3) w by (auto simp: number_first log_def comp_def simp del: of_nat_unat)
  then have "e \<in> number s0 k ` set (k # ks)" "\<forall>x\<in>number s0 k ` set (k # ks). x \<le> e" unfolding log_tracks_def by blast+
  then obtain j where j: "j \<in> set (k # ks)" "e = number s0 k j" "\<forall>i\<in>set (k # ks). i \<le> j" by force
  then have "Max (set (k # ks)) = j" by (intro Max_eqI) auto
  with T j show ?thesis by (simp add: log_def)
qed

definition gaps :: "nat list \<Rightarrow> nat set" where
  "gaps ks = {i. hd ks < i \<and> i < Max (set ks) \<and> i \<notin> set ks}"

lemma arrivals_missing:
  assumes "receive_log_new sz = Some L" "n \<le> unat sz" "sz < UINT16_SIZE_HALF" "k < n" "set ks \<subseteq> {..<n}"
  shows "set (missing_seq_numbers (foldl receive_log_add L (map (wire s0) (k # ks))) 0) = wire s0 ` gaps (k # ks)"
proof -
  define log where "log = foldl receive_log_add L (map (wire s0) (k # ks))"
  define M where "M = Max (set (k # ks))"
  note T = arrivals_tracked [OF assms(1,2,4,5), of s0, folded log_def M_def]
  have M: "M \<in> set (k # ks)" "k \<le> M" unfolding M_def by (rule Max_in) (auto intro: Max_ge)
  have w: "log_window log = int (unat sz)"
    using receive_log_run_ok [of L "map (wire s0) (k # ks)"] receive_log_new_ok(1,2) [OF assms(1)]
    by (simp add: log_window_def log_def del: of_nat_unat)
  have small: "log_window log < 2 ^ 15" using assms(3) by (simp add: w word_less_nat_alt del: of_nat_unat)
  have "M < n" using M(1) assms(4,5) by auto
  then have base: "max (number s0 k k) (number s0 k M - log_window log) = number s0 k k"
    using assms(2) by (simp add: number_def w del: of_nat_unat)
  have "set (filter (\<lambda>x. x \<notin> number s0 k ` set (k # ks)) [number s0 k k + 1..number s0 k M]) = number s0 k ` gaps (k # ks)"
  proof (intro set_eqI iffI)
    fix x assume "x \<in> set (filter (\<lambda>x. x \<notin> number s0 k ` set (k # ks)) [number s0 k k + 1..number s0 k M])"
    then have x: "number s0 k k < x" "x \<le> number s0 k M" "x \<notin> number s0 k ` set (k # ks)" by auto
    define i where "i = nat (x - number s0 k 0)"
    have i: "x = number s0 k i" "k < i" "i \<le> M" using x(1,2) by (auto simp: i_def number_def)
    with x(3) have "i \<notin> set (k # ks)" by blast
    moreover from this M(1) i(3) have "i < M" by (metis order_le_less)
    ultimately have "i \<in> gaps (k # ks)" using i(2) by (simp add: gaps_def M_def)
    with i(1) show "x \<in> number s0 k ` gaps (k # ks)" by blast
  next
    fix x assume "x \<in> number s0 k ` gaps (k # ks)"
    then obtain i where i: "x = number s0 k i" "k < i" "i < M" "i \<notin> set (k # ks)" unfolding gaps_def M_def by auto
    then have "x \<notin> number s0 k ` set (k # ks)" by (simp add: image_iff)
    moreover have "number s0 k k + 1 \<le> x" "x \<le> number s0 k M" using i(1-3) by (simp_all add: number_def)
    ultimately show "x \<in> set (filter (\<lambda>x. x \<notin> number s0 k ` set (k # ks)) [number s0 k k + 1..number s0 k M])"
      by (simp only: set_filter set_upto mem_Collect_eq atLeastAtMost_iff) blast
  qed
  moreover have "missing_seq_numbers log 0 =
    map word_of_int (filter (\<lambda>x. x \<notin> number s0 k ` set (k # ks)) [number s0 k k + 1..number s0 k M])"
    using missing_tracks [OF T small, of 0] unfolding base by simp
  ultimately have "set (missing_seq_numbers log 0) = word_of_int ` number s0 k ` gaps (k # ks)"
    by (metis set_map)
  then show ?thesis by (simp add: log_def image_image)
qed

lemma gaps_bound: "set ks \<subseteq> {..<n} \<Longrightarrow> ks \<noteq> [] \<Longrightarrow> gaps ks \<subseteq> {..<n}"
proof -
  assume "set ks \<subseteq> {..<n}" "ks \<noteq> []"
  then have "Max (set ks) < n" using Max_in [of "set ks"] by auto
  then show ?thesis by (auto simp: gaps_def)
qed

lemma gaps_filled: "set js = gaps (k # ks) \<Longrightarrow> gaps (k # ks @ js) = {}"
proof -
  assume js: "set js = gaps (k # ks)"
  define M where "M = Max (set (k # ks))"
  have M: "M \<in> set (k # ks)" "\<forall>i\<in>set (k # ks). i \<le> M" unfolding M_def by (rule Max_in) (auto intro: Max_ge)
  have G: "set js = {i. k < i \<and> i < M \<and> i \<notin> set (k # ks)}" using js by (simp add: gaps_def M_def)
  have "Max (set (k # ks @ js)) = M" using M G by (intro Max_eqI) auto
  then show ?thesis using G by (auto simp: gaps_def)
qed

lemma missing_filled:
  assumes "receive_log_new sz = Some L" "n \<le> unat sz" "sz < UINT16_SIZE_HALF" "k < n" "set ks \<subseteq> {..<n}"
    and "set js = gaps (k # ks)"
  shows "missing_seq_numbers (foldl receive_log_add (foldl receive_log_add L (map (wire s0) (k # ks))) (map (wire s0) js)) 0 = []"
proof -
  have "set (ks @ js) \<subseteq> {..<n}" using gaps_bound [of "k # ks" n] assms(4-6) by auto
  from arrivals_missing [OF assms(1-4) this, of s0] gaps_filled [OF assms(6)] show ?thesis by simp
qed

section \<open>One round of feedback\<close>

lemma ng_first_round:
  assumes "ng_receive_logs g = [(ssrc, log)]" "log_ok log" "ng_nack_counts g ssrc = None"
    and "ng_poll_timeout g = Some t" "t \<le> now" and missing: "missing_seq_numbers log (ng_skip_last_n g) = missing"
  shows "ng_write_queue (ng_handle_timeout g now) = ng_write_queue g @ (if missing = [] then [] else [nack_request g now ssrc missing])"
    and "ng_receive_logs (ng_handle_timeout g now) = [(ssrc, log)]"
    and "ng_read_queue (ng_handle_timeout g now) = ng_read_queue g"
proof -
  define g' where "g' = g\<lparr>ng_next_timeout := Some (now + ng_interval g)\<rparr>"
  have round: "ng_handle_timeout g now = generate_nack now (ssrc, log) g'"
    using assms(1,4,5) by (simp add: ng_handle_timeout_def ng_poll_timeout_def generate_nacks_def g'_def)
  have same: "nack_request g' now ssrc missing = nack_request g now ssrc missing" by (simp add: g'_def nack_request_def)
  have "ng_write_queue (generate_nack now (ssrc, log) g') = ng_write_queue g' @ (if missing = [] then [] else [nack_request g' now ssrc missing]) \<and>
    ng_receive_logs (generate_nack now (ssrc, log) g') = ng_receive_logs g' \<and>
    ng_read_queue (generate_nack now (ssrc, log) g') = ng_read_queue g'"
  proof -
    have g': "ng_max_nacks_per_packet g' = ng_max_nacks_per_packet g" "ng_nack_counts g' ssrc = None"
      "missing_seq_numbers log (ng_skip_last_n g') = missing" using missing assms(3) by (simp_all add: g'_def)
    consider "missing = []" | "missing \<noteq> []" "ng_max_nacks_per_packet g = 0" | "missing \<noteq> []" "0 < ng_max_nacks_per_packet g"
      by (metis word_neq_0_conv)
    then show ?thesis
    proof cases
      case 1
      then show ?thesis using g'(3) by (simp add: generate_nack_def)
    next
      case 2
      then show ?thesis using generate_nack_unlimited [of g' log missing now ssrc] g' by simp
    next
      case 3
      then obtain counts where "generate_nack now (ssrc, log) g' = g'\<lparr>ng_nack_counts := (ng_nack_counts g')(ssrc \<mapsto> counts),
        ng_write_queue := ng_write_queue g' @ [nack_request g' now ssrc missing]\<rparr>"
        using generate_nack_limited [OF assms(2), of g' missing ssrc 0 now] g' by auto
      then show ?thesis using 3 by simp
    qed
  qed
  then show "ng_write_queue (ng_handle_timeout g now) = ng_write_queue g @ (if missing = [] then [] else [nack_request g now ssrc missing])"
    "ng_receive_logs (ng_handle_timeout g now) = [(ssrc, log)]" "ng_read_queue (ng_handle_timeout g now) = ng_read_queue g"
    unfolding round same by (simp_all add: g'_def assms(1))
qed

lemma requested_packets:
  assumes "\<forall>i<n. send_buffer_get B (wire s0 i) t = Some (ps ! i)" "G \<subseteq> {..<n}" "n \<le> 2 ^ 16" "set seqs = wire s0 ` G"
  shows "\<exists>js. set js = G \<and> List.map_filter (\<lambda>seq. send_buffer_get B seq t) seqs = map ((!) ps) js"
proof -
  obtain js where js: "map (wire s0) js = seqs" "set js \<subseteq> G" using list_of_image [of seqs "wire s0" G] assms(4) by blast
  have "wire s0 ` set js = wire s0 ` G" using js(1) assms(4) by auto
  then have "set js = G" using inj_on_image_eq_iff [OF wire_inj [OF assms(3)]] js(2) assms(2) by blast
  moreover have "List.map_filter (\<lambda>seq. send_buffer_get B seq t) (map (wire s0) js) = map ((!) ps) js"
    using js(2) assms(1,2) by (induction js) (auto simp: map_filter_simps subset_iff)
  ultimately show ?thesis using js(1) by blast
qed

section \<open>The way to the peer\<close>

text \<open>A message as a datagram and back, without the encryption that the SRTP handler puts around it: the
  encoder for its kind, the demultiplexer, and the decoder that the test for RTCP selects. The peer stamps it
  with its own instant; what cannot be encoded or decoded is lost.\<close>

fun to_wire :: "packet \<Rightarrow> u8 list result" where
  "to_wire (Rtp p) = marshal (rtp_packet_marshal_size p) (rtp_packet_marshal_to p)"
| "to_wire (Rtcp ps) = rtcp_marshal ps"

definition from_wire :: "(u8 list \<Rightarrow> nat) \<Rightarrow> u8 list \<Rightarrow> packet result" where
  "from_wire chunk_len bs =
     (case demux bs of
        Some (RtpRaw message) \<Rightarrow>
          (if is_rtcp message then and_then (rtcp_unmarshal chunk_len message) (\<lambda>ps. Ok (Rtcp ps))
           else and_then (rtp_packet_unmarshal message) (\<lambda>(p, _). Ok (Rtp p)))
      | _ \<Rightarrow> Err Other)"

definition carry :: "(u8 list \<Rightarrow> nat) \<Rightarrow> instant \<Rightarrow> 'c tagged_packet \<Rightarrow> 'c tagged_packet option" where
  "carry chunk_len now m =
     (case and_then (to_wire (msg_packet m)) (from_wire chunk_len) of
        Inl _ \<Rightarrow> None
      | Inr p \<Rightarrow> Some \<lparr>msg_now = now, msg_transport = transport_context_default, msg_attributes = [], msg_packet = p\<rparr>)"

text \<open>The media packets that the test for RTCP lets through.\<close>

definition media_packet :: "rtp_packet \<Rightarrow> bool" where
  "media_packet p \<longleftrightarrow> rtp_header_wf (pkt_header p) \<and> rtp_version (pkt_header p) = 2 \<and>
     \<not> (rtp_marker (pkt_header p) \<and> 64 \<le> rtp_payload_type (pkt_header p) \<and> rtp_payload_type (pkt_header p) \<le> 95)"

lemma carry_media:
  assumes "msg_packet m = Rtp p" "media_packet p"
  shows "\<exists>m'. carry chunk_len now m = Some m' \<and> msg_packet m' = Rtp p"
proof -
  obtain bs where bs: "marshal (rtp_packet_marshal_size p) (rtp_packet_marshal_to p) = Ok bs" "rtp_packet_unmarshal bs = Ok (p, [])"
    using rtp_carried assms(2) by (auto simp: media_packet_def)
  then show ?thesis
    using demux_rtp [of p bs] assms by (auto simp: carry_def from_wire_def media_packet_def)
qed

lemma carry_control:
  assumes "msg_packet m = Rtcp (q # qs)" "list_all packet_wf (q # qs)" "\<forall>raw. q \<noteq> RawPacket raw"
  shows "\<exists>m'. carry chunk_len now m = Some m' \<and> msg_packet m' = Rtcp (q # qs) \<and> msg_now m' = now"
proof -
  obtain bs where bs: "rtcp_marshal (q # qs) = Ok bs" "rtcp_unmarshal chunk_len bs = Ok (q # qs)"
    using rtcp_carried [OF assms(2), of chunk_len] by auto
  then show ?thesis
    using demux_rtcp [OF assms(2,3) bs(1)] assms(1) by (auto simp: carry_def from_wire_def)
qed

lemma pack_nacks_length: "length (pack_nacks pair seqs) \<le> Suc (length seqs) \<and> pack_nacks pair seqs \<noteq> []"
  by (induction pair seqs rule: pack_nacks.induct) auto

lemma nack_pairs_length:
  "length (nack_pairs_from_sequence_numbers seqs) \<le> length seqs" "seqs \<noteq> [] \<Longrightarrow> nack_pairs_from_sequence_numbers seqs \<noteq> []"
  using pack_nacks_length by (auto simp: nack_pairs_from_sequence_numbers_def split: list.splits)

lemma carry_media_all:
  assumes "\<forall>p\<in>set ps. media_packet p"
  shows "map msg_packet (List.map_filter (carry chunk_len now) (map (resend t :: rtp_packet \<Rightarrow> 'c tagged_packet) ps)) = map Rtp ps"
  using assms
proof (induction ps)
  case (Cons p ps)
  then obtain m' where "carry chunk_len now (resend t p :: 'c tagged_packet) = Some m'" "msg_packet m' = Rtp p"
    using carry_media [of "resend t p" p chunk_len now] by (auto simp: resend_def)
  with Cons show ?case by (simp add: map_filter_simps)
qed (simp add: map_filter_simps)

section \<open>The whole round\<close>

lemma bound_receiver:
  "stream_supports_nack info \<Longrightarrow> receive_log_new sz = Some L \<Longrightarrow>
    ng_bind_remote_stream (nack_generator_new sz interval skip max_nacks ssrc) info =
      (nack_generator_new sz interval skip max_nacks ssrc)\<lparr>ng_receive_logs := [(si_ssrc info, L)]\<rparr>"
  by (simp add: ng_bind_remote_stream_def nack_generator_new_def)

lemma bound_sender:
  "stream_supports_nack info \<Longrightarrow> send_buffer_with_limits hist limits = Some B \<Longrightarrow>
    nr_bind_local_stream (nack_responder_new hist limits) info = (nack_responder_new hist limits)\<lparr>nr_streams :=
      [(si_ssrc info, \<lparr>ls_send_buffer = B, ls_ssrc_rtx = si_ssrc_rtx info, ls_payload_type_rtx = si_payload_type_rtx info,
        ls_rtx_sequence_number = 0\<rparr>)]\<rparr>"
  by (simp add: nr_bind_local_stream_def nack_responder_new_def)

text \<open>The sender after it has sent \<open>ps\<close>: every packet can be looked up.\<close>

lemma sender_history:
  assumes "send_buffer_with_limits hist limits = Some B" "max_age limits = None"
    and "sum_list (map (\<lambda>p. length (pkt_payload p)) ps) \<le> max_bytes limits" "length ps \<le> unat hist" "length nows = length ps"
    and "\<forall>i<length ps. rtp_sequence_number (pkt_header (ps ! i)) = wire s0 i"
  shows "\<forall>i<length ps. send_buffer_get (send_all B (zip ps nows)) (wire s0 i) t = Some (ps ! i)"
proof -
  have bytes: "sb_bytes B = 0" using assms(1) by (auto simp: send_buffer_with_limits_def split: if_splits)
  have sum: "sum_list (map (\<lambda>(p, _). length (pkt_payload p)) (zip ps nows)) \<le> max_bytes limits"
    using assms(3,5) by (simp add: split_def comp_def flip: map_map [of "\<lambda>p. length (pkt_payload p)" fst, unfolded comp_def])
  have "\<forall>i<length (zip ps nows). rtp_sequence_number (pkt_header (fst (zip ps nows ! i))) = s0 + of_nat i"
    using assms(5,6) by (simp add: wire_def)
  from send_all_history [OF with_limits_inv(1,4,2,3) [OF assms(1)] bytes assms(2) sum this, of t] assms(4,5)
  show ?thesis by (simp add: wire_def)
qed

lemma length_missing:
  assumes "log_ok log" "set (missing_seq_numbers log 0) = wire s0 ` G" "finite G"
  shows "length (missing_seq_numbers log 0) \<le> card G"
  using distinct_card [OF missing_distinct [OF assms(1), of 0]] card_image_le [OF assms(3), of "wire s0"] assms(2) by simp

text \<open>The answer of the sender to the request of one round, as it reaches the receiver: the packets of the gaps.\<close>

lemma answered:
  fixes receiver :: "'c nack_generator"
  assumes stream: "map_of (nr_streams sender) ssrc = Some stream" "ls_ssrc_rtx stream = None"
    and history: "\<forall>i<length ps. send_buffer_get (ls_send_buffer stream) (wire s0 i) t1 = Some (ps ! i)"
    and media: "\<forall>p\<in>set ps. media_packet p"
    and gaps: "set missing = wire s0 ` G" "length missing \<le> 253" "G \<subseteq> {..<length ps}" "length ps \<le> 2 ^ 16" "missing \<noteq> []"
    and request: "m = nack_request receiver now ssrc missing"
  shows "\<exists>js. set js = G \<and>
    map msg_packet (List.map_filter (carry chunk_len t2) (drop (length (nr_write_queue sender))
      (nr_write_queue (foldl nr_handle_read sender (List.map_filter (carry chunk_len t1) [m]))))) = map (\<lambda>i. Rtp (ps ! i)) js"
proof -
  define nacks where "nacks = nack_pairs_from_sequence_numbers missing"
  define nack where "nack = \<lparr>tln_sender_ssrc = ng_sender_ssrc receiver, tln_media_ssrc = ssrc, tln_nacks = nacks\<rparr>"
  have m: "msg_packet m = Rtcp [TransportLayerNackPacket nack]" by (simp add: request nack_request_def nack_def nacks_def)
  have "nacks \<noteq> []" "length nacks \<le> 253" unfolding nacks_def using nack_pairs_length [of missing] gaps(2,5) by auto
  then have "list_all packet_wf [TransportLayerNackPacket nack]" by (simp add: nack_def transport_layer_nack_wf_def)
  from carry_control [OF m this, of chunk_len t1] obtain m' where m': "carry chunk_len t1 m = Some m'"
    "msg_packet m' = Rtcp [TransportLayerNackPacket nack]" "msg_now m' = t1" by auto
  have "set (concat (map packet_list nacks)) = wire s0 ` G"
    using nack_pairs_denote [of missing] gaps(1) by (simp add: nacks_def)
  from requested_packets [OF history gaps(3,4) this] obtain js where js: "set js = G"
    "List.map_filter (\<lambda>seq. send_buffer_get (ls_send_buffer stream) seq t1) (concat (map packet_list nacks)) = map ((!) ps) js" by blast
  have queue: "drop (length (nr_write_queue sender)) (nr_write_queue (nr_handle_read sender m')) = map (resend t1) (map ((!) ps) js)"
    using nr_handle_nack [OF stream m'(2) [unfolded nack_def]] js(2) m'(3) by simp
  have "\<forall>p\<in>set (map ((!) ps) js). media_packet p" using media js(1) gaps(3) by auto
  from carry_media_all [OF this, of chunk_len t2 t1] queue js(1) show ?thesis
    by (auto simp: map_filter_simps m'(1) comp_def intro!: exI [of _ js])
qed

text \<open>One round: the generator's timer fires, its requests travel to the responder, and what the responder adds to
  its queue travels back.\<close>

definition nack_round :: "(u8 list \<Rightarrow> nat) \<Rightarrow> instant \<Rightarrow> instant \<Rightarrow> instant \<Rightarrow> 'c nack_responder \<Rightarrow> 'c nack_generator \<Rightarrow>
    'c nack_generator" where
  "nack_round chunk_len now t1 t2 sender receiver =
     (let asking = ng_handle_timeout receiver now;
          answering = foldl nr_handle_read sender (List.map_filter (carry chunk_len t1) (ng_write_queue asking)) in
      foldl ng_handle_read asking (List.map_filter (carry chunk_len t2)
        (drop (length (nr_write_queue sender)) (nr_write_queue answering))))"

lemma first_to_highest:
  assumes "set js = gaps (k # ks)" "k \<le> i" "i \<le> Max (set (k # ks))"
  shows "i \<in> set (k # ks) \<or> i \<in> set js"
proof (cases "i \<in> set (k # ks)")
  case False
  then have "i \<noteq> Max (set (k # ks))" using Max_in [of "set (k # ks)"] by auto
  with False assms show ?thesis by (auto simp: gaps_def)
qed simp

text \<open>The receiver from its binding to its first request.\<close>

lemma receiver_asks:
  fixes receiver :: "'c nack_generator"
  assumes bound: "stream_supports_nack info" "receive_log_new sz = Some L"
    and sizes: "sz < UINT16_SIZE_HALF" "length ps \<le> unat sz"
    and stream: "\<forall>i<length ps. rtp_sequence_number (pkt_header (ps ! i)) = wire s0 i"
      "\<forall>p\<in>set ps. rtp_ssrc (pkt_header p) = si_ssrc info"
    and arrived: "map msg_packet inp = map (\<lambda>i. Rtp (ps ! i)) (k # ks)" "set (k # ks) \<subseteq> {..<length ps}"
      "receiver = foldl ng_handle_read (ng_bind_remote_stream (nack_generator_new sz interval 0 max_nacks own_ssrc) info) inp"
    and due: "ng_poll_timeout receiver = Some t" "t \<le> now"
  defines "log \<equiv> foldl receive_log_add L (map (wire s0) (k # ks))"
  defines "missing \<equiv> missing_seq_numbers log 0"
  shows "ng_write_queue (ng_handle_timeout receiver now) =
      (if missing = [] then [] else [nack_request receiver now (si_ssrc info) missing])"
    and "ng_receive_logs (ng_handle_timeout receiver now) = [(si_ssrc info, log)]"
    and "ng_read_queue (ng_handle_timeout receiver now) = inp"
    and "set missing = wire s0 ` gaps (k # ks)" "length missing \<le> card (gaps (k # ks))"
proof -
  let ?ssrc = "si_ssrc info" and ?seqs = "map (\<lambda>p. rtp_sequence_number (pkt_header p))"
  have in_bounds: "k < length ps" "set ks \<subseteq> {..<length ps}" using arrived(2) by auto
  have seqs: "?seqs (map ((!) ps) (k # ks)) = map (wire s0) (k # ks)" using arrived(2) stream(1) by auto
  define g where "g = (nack_generator_new sz interval 0 max_nacks own_ssrc :: 'c nack_generator)\<lparr>ng_receive_logs := [(?ssrc, L)]\<rparr>"
  have "\<forall>p\<in>set (map ((!) ps) (k # ks)). rtp_ssrc (pkt_header p) = ?ssrc" using stream(2) in_bounds by auto
  with ng_handle_reads [of inp "map ((!) ps) (k # ks)" ?ssrc g L] obtain t' where
    "foldl ng_handle_read g inp = g\<lparr>ng_next_timeout := t', ng_read_queue := ng_read_queue g @ inp,
      ng_receive_logs := [(?ssrc, foldl receive_log_add L (?seqs (map ((!) ps) (k # ks))))]\<rparr>"
    using arrived(1) by (auto simp: g_def comp_def)
  then have receiver: "receiver = g\<lparr>ng_next_timeout := t', ng_read_queue := inp, ng_receive_logs := [(?ssrc, log)]\<rparr>"
    unfolding arrived(3) bound_receiver [OF bound] seqs log_def g_def [symmetric]
    by (simp add: g_def nack_generator_new_def)
  have ok: "log_ok log" using receive_log_run_ok receive_log_new_ok(1) [OF bound(2)] by (auto simp: log_def)
  from ng_first_round [of receiver ?ssrc log t now missing] ok due
  show "ng_write_queue (ng_handle_timeout receiver now) = (if missing = [] then [] else [nack_request receiver now ?ssrc missing])"
    "ng_receive_logs (ng_handle_timeout receiver now) = [(?ssrc, log)]" "ng_read_queue (ng_handle_timeout receiver now) = inp"
    by (simp_all add: receiver g_def nack_generator_new_def missing_def)
  show gaps: "set missing = wire s0 ` gaps (k # ks)"
    using arrivals_missing [OF bound(2) sizes(2,1) in_bounds] by (simp add: missing_def log_def)
  have "finite (gaps (k # ks))" using gaps_bound [OF arrived(2)] finite_subset by auto
  then show "length missing \<le> card (gaps (k # ks))" using length_missing [OF ok] gaps by (simp add: missing_def)
qed

text \<open>The sender from its binding to its answer.\<close>

lemma sender_answers:
  fixes receiver :: "'c nack_generator" and now :: instant
  assumes bound: "stream_supports_nack info" "si_ssrc_rtx info = None" "send_buffer_with_limits hist limits = Some B"
    and sizes: "length ps \<le> unat hist" "max_age limits = None" "sum_list (map (\<lambda>p. length (pkt_payload p)) ps) \<le> max_bytes limits"
    and stream: "\<forall>i<length ps. rtp_sequence_number (pkt_header (ps ! i)) = wire s0 i"
      "\<forall>p\<in>set ps. media_packet p \<and> rtp_ssrc (pkt_header p) = si_ssrc info"
    and sent: "map msg_packet out = map Rtp ps"
      "sender = foldl nr_handle_write (nr_bind_local_stream (nack_responder_new hist limits) info) out"
    and gaps: "set missing = wire s0 ` G" "length missing \<le> 253" "G \<subseteq> {..<length ps}" "length ps \<le> 2 ^ 16"
  defines "requests \<equiv> (if missing = [] then [] else [nack_request receiver now (si_ssrc info) missing])"
  shows "\<exists>js. set js = G \<and>
    map msg_packet (List.map_filter (carry chunk_len t2) (drop (length (nr_write_queue sender)) (nr_write_queue
      (foldl nr_handle_read sender (List.map_filter (carry chunk_len t1) requests))))) = map (\<lambda>i. Rtp (ps ! i)) js"
proof (cases "missing = []")
  case True
  then show ?thesis using gaps(1) by (intro exI [of _ "[]"]) (simp add: requests_def map_filter_simps)
next
  case False
  obtain stream where stream': "map_of (nr_streams sender) (si_ssrc info) = Some stream" "ls_ssrc_rtx stream = None"
    "ls_send_buffer stream = send_all B (zip ps (map msg_now out))"
    using nr_handle_writes [OF sent(1), of "si_ssrc info" "nr_bind_local_stream (nack_responder_new hist limits) info"] stream(2) bound(2)
    by (auto simp: bound_sender [OF bound(1,3)] sent(2))
  have len: "length (map msg_now out) = length ps" using arg_cong [OF sent(1), of length] by simp
  have history: "\<forall>i<length ps. send_buffer_get (ls_send_buffer stream) (wire s0 i) t1 = Some (ps ! i)"
    using sender_history [OF bound(3) sizes(2,3,1) len stream(1)] by (simp add: stream'(3))
  have media: "\<forall>p\<in>set ps. media_packet p" using stream(2) by blast
  from answered [OF stream'(1,2) history media gaps False refl, of chunk_len t2 receiver now] False
  show ?thesis by (simp add: requests_def)
qed
end
