(* ===== verification/Receive_Log_Bounds.thy ===== *)
theory Receive_Log_Bounds
  imports Nack_Receive_Log "HOL-Library.Monad_Syntax"
begin

text \<open>
  The receive log and the bitmap operations it calls once more, with indexing as in the source: an access to
  \<open>words[i]\<close> or to a slice of \<open>words\<close> that is out of range panics, which is the value \<open>None\<close>. The operations of
  \<open>Bitmap\<close> and \<open>Nack_Receive_Log\<close> index lists, where an access out of range goes unnoticed. The theorem says that
  the checked operations return, and return what the others do, on every log that can be reached.
\<close>

unbundle bit_operations_syntax

section \<open>Accesses that may panic\<close>

definition word_at :: "u64 list \<Rightarrow> nat \<Rightarrow> u64 option" where
  "word_at words i = (if i < length words then Some (words ! i) else None)"

definition word_set :: "u64 list \<Rightarrow> nat \<Rightarrow> u64 \<Rightarrow> u64 list option" where
  "word_set words i w = (if i < length words then Some (words[i := w]) else None)"

definition slice_fill :: "u64 list \<Rightarrow> nat \<Rightarrow> nat \<Rightarrow> u64 list option" where
  "slice_fill words a b =
     (if a \<le> b \<and> b \<le> length words then Some (take a words @ replicate (b - a) 0 @ drop b words) else None)"

text \<open>The loops over segments and words: all calls, the calls up to the first that breaks, and calls that update.\<close>

fun each :: "('a \<Rightarrow> 'b option) \<Rightarrow> 'a list \<Rightarrow> 'b list option" where
  "each f [] = Some []"
| "each f (x # xs) = do { y \<leftarrow> f x; ys \<leftarrow> each f xs; Some (y # ys) }"

fun until_break :: "('a \<Rightarrow> 'b option option) \<Rightarrow> 'a list \<Rightarrow> 'b option option" where
  "until_break f [] = Some None"
| "until_break f (x # xs) = do { r \<leftarrow> f x; case r of None \<Rightarrow> until_break f xs | Some y \<Rightarrow> Some (Some y) }"

fun updates :: "('a \<Rightarrow> 's \<Rightarrow> 's option) \<Rightarrow> 'a list \<Rightarrow> 's \<Rightarrow> 's option" where
  "updates f [] s = Some s"
| "updates f (x # xs) s = do { s \<leftarrow> f x s; updates f xs s }"

section \<open>The bitmap\<close>

text \<open>A segment of negative length, from a start bit behind the capacity, counts as a panic too.\<close>

definition checked_segments :: "nat \<Rightarrow> nat \<Rightarrow> nat \<Rightarrow> (nat \<times> nat \<times> nat) list option" where
  "checked_segments words start len =
     (let capacity = words * WORD_BITS in
      if start AND (capacity - 1) < capacity then Some (for_each_segment words start len) else None)"

definition checked_for_each_zero :: "u64 list \<Rightarrow> nat \<Rightarrow> nat \<Rightarrow> nat list option" where
  "checked_for_each_zero words start len = do {
     segments \<leftarrow> checked_segments (length words) start len;
     calls \<leftarrow> each (\<lambda>(start, len, offset). do {
         calls \<leftarrow> each (\<lambda>(word, m). do {
             w \<leftarrow> word_at words word;
             Some (map (\<lambda>b. offset + (word * WORD_BITS + b - start)) (zero_bits (NOT w AND m))) })
           (for_each_word start len);
         Some (concat calls) }) segments;
     Some (concat calls) }"

definition checked_first_zero :: "u64 list \<Rightarrow> nat \<Rightarrow> nat \<Rightarrow> nat option option" where
  "checked_first_zero words start len =
     (let len = min len (length words * WORD_BITS) in do {
       segments \<leftarrow> checked_segments (length words) start len;
       until_break (\<lambda>(start, len, offset).
         until_break (\<lambda>(word, m). do {
             w \<leftarrow> word_at words word;
             let zeros = NOT w AND m;
             Some (if zeros = 0 then None else Some (offset + (word * WORD_BITS + trailing_zeros_u64 zeros - start))) })
           (for_each_word start len)) segments })"

definition checked_clear_linear :: "u64 list \<Rightarrow> nat \<Rightarrow> nat \<Rightarrow> u64 list option" where
  "checked_clear_linear words start len =
     (let end_pos = start + len; first = start div WORD_BITS; last = (end_pos - 1) div WORD_BITS in
      if first = last then do {
        w \<leftarrow> word_at words first;
        word_set words first (w AND NOT (head_mask start AND tail_mask end_pos)) }
      else do {
        w \<leftarrow> word_at words first;
        words \<leftarrow> word_set words first (w AND NOT (head_mask start));
        words \<leftarrow> slice_fill words (first + 1) last;
        w \<leftarrow> word_at words last;
        word_set words last (w AND NOT (tail_mask end_pos)) })"

definition checked_clear :: "u64 list \<Rightarrow> nat \<Rightarrow> nat \<Rightarrow> u64 list option" where
  "checked_clear words start len =
     (if len \<ge> length words * WORD_BITS then Some (replicate (length words) 0)
      else do {
        segments \<leftarrow> checked_segments (length words) start len;
        updates (\<lambda>(start, len, _) words. checked_clear_linear words start len) segments words })"

section \<open>The log\<close>

definition checked_set_received :: "receive_log \<Rightarrow> u16 \<Rightarrow> receive_log option" where
  "checked_set_received self seq =
     (let pos = seq AND log_size_mask self; i = unat (pos div 64) in do {
       w \<leftarrow> word_at (log_packets self) i;
       packets \<leftarrow> word_set (log_packets self) i (w OR push_bit (unat (pos mod 64)) 1);
       Some (self\<lparr>log_packets := packets\<rparr>) })"

definition checked_get_received :: "receive_log \<Rightarrow> u16 \<Rightarrow> bool option" where
  "checked_get_received self seq =
     (let pos = seq AND log_size_mask self in do {
       w \<leftarrow> word_at (log_packets self) (unat (pos div 64));
       Some (w AND push_bit (unat (pos mod 64)) 1 \<noteq> 0) })"

definition checked_fix_last_consecutive :: "receive_log \<Rightarrow> receive_log option" where
  "checked_fix_last_consecutive self =
     (let first = log_last_consecutive self + 1; span = log_end self - log_last_consecutive self in do {
       found \<leftarrow> checked_first_zero (log_packets self) (unat first) (unat span);
       Some (self\<lparr>log_last_consecutive :=
         (case found of Some offset \<Rightarrow> log_last_consecutive self + of_nat offset | None \<Rightarrow> log_end self)\<rparr>) })"

definition checked_add :: "receive_log \<Rightarrow> u16 \<Rightarrow> receive_log option" where
  "checked_add self seq =
     (if \<not> log_started self then do {
        self \<leftarrow> checked_set_received self seq;
        Some (self\<lparr>log_end := seq, log_started := True, log_last_consecutive := seq\<rparr>) }
      else
        let diff = seq - log_end self in
        if diff = 0 then Some self
        else if diff < UINT16_SIZE_HALF then do {
          packets \<leftarrow> checked_clear (log_packets self) (unat (log_end self + 1)) (unat (diff - 1));
          let self = self\<lparr>log_packets := packets, log_end := seq\<rparr>;
          self \<leftarrow> (if log_last_consecutive self + 1 = seq then Some (self\<lparr>log_last_consecutive := seq\<rparr>)
            else if seq - log_last_consecutive self > log_size self then
              checked_fix_last_consecutive (self\<lparr>log_last_consecutive := seq - log_size self\<rparr>)
            else Some self);
          checked_set_received self seq }
        else do {
          self \<leftarrow> (if log_last_consecutive self + 1 = seq then
              checked_fix_last_consecutive (self\<lparr>log_last_consecutive := seq\<rparr>) else Some self);
          checked_set_received self seq })"

definition checked_get :: "receive_log \<Rightarrow> u16 \<Rightarrow> bool option" where
  "checked_get self seq =
     (let diff = log_end self - seq in
      if diff \<ge> UINT16_SIZE_HALF then Some False
      else if diff \<ge> log_size self then Some False
      else checked_get_received self seq)"

definition checked_missing_seq_numbers :: "receive_log \<Rightarrow> u16 \<Rightarrow> u16 list option" where
  "checked_missing_seq_numbers self skip_last_n =
     (let until = log_end self - skip_last_n; span = until - log_last_consecutive self in
      if span \<ge> UINT16_SIZE_HALF then Some []
      else let first = log_last_consecutive self + 1 in
        map_option (map (\<lambda>offset. first + of_nat offset)) (checked_for_each_zero (log_packets self) (unat first) (unat span)))"

definition checked_is_missing :: "receive_log \<Rightarrow> u16 \<Rightarrow> u16 \<Rightarrow> bool option" where
  "checked_is_missing self seq skip_last_n =
     (let until = log_end self - skip_last_n; span = until - log_last_consecutive self in
      if span \<ge> UINT16_SIZE_HALF then Some False
      else let offset = seq - log_last_consecutive self in
        if offset \<noteq> 0 \<and> offset \<le> span then map_option Not (checked_get_received self seq) else Some False)"

section \<open>The loops return\<close>

lemma each_all: "\<forall>x\<in>set xs. f x = Some (g x) \<Longrightarrow> each f xs = Some (map g xs)"
  by (induction xs) simp_all

definition first_of :: "'b list \<Rightarrow> 'b option" where
  "first_of ys = (case ys of [] \<Rightarrow> None | y # _ \<Rightarrow> Some y)"

lemma first_of_append: "first_of (xs @ ys) = (case first_of xs of None \<Rightarrow> first_of ys | Some x \<Rightarrow> Some x)"
  by (cases xs) (simp_all add: first_of_def)

lemma until_break_all:
  "\<forall>x\<in>set xs. f x = Some (first_of (g x)) \<Longrightarrow> until_break f xs = Some (first_of (concat (map g xs)))"
proof (induction xs)
  case (Cons x xs)
  then show ?case by (cases "first_of (g x)") (simp_all add: first_of_append)
qed (simp add: first_of_def)

lemma updates_all:
  assumes "\<And>x s. x \<in> set xs \<Longrightarrow> P s \<Longrightarrow> f x s = Some (g x s) \<and> P (g x s)" "P s"
  shows "updates f xs s = Some (fold g xs s)"
  using assms by (induction xs arbitrary: s) simp_all

section \<open>Every access is in range\<close>

lemma words_in_range:
  assumes "1 \<le> l" "s + l \<le> n * 64"
  shows "s div 64 < n" "(s + l - 1) div 64 < n" "s div 64 \<le> (s + l - 1) div 64"
    "(w, m) \<in> set (for_each_word s l) \<Longrightarrow> w < n"
proof -
  show *: "s div 64 < n" "(s + l - 1) div 64 < n" using assms by (auto intro!: less_mult_imp_div_less)
  show "s div 64 \<le> (s + l - 1) div 64" using assms(1) by (intro div_le_mono) simp
  then show "(w, m) \<in> set (for_each_word s l) \<Longrightarrow> w < n"
    using * by (auto simp: for_each_word_def Let_def split: if_splits)
qed

lemma segments_checked:
  assumes "bm_ok ws"
  shows "checked_segments (length ws) start len = Some (for_each_segment (length ws) start len)"
    "(s, l, k) \<in> set (for_each_segment (length ws) start len) \<Longrightarrow> 1 \<le> l \<and> s + l \<le> length ws * 64"
proof -
  have "start mod (length ws * 64) < length ws * 64" using assms by (auto simp: bm_ok_def)
  then show "checked_segments (length ws) start len = Some (for_each_segment (length ws) start len)"
    using bm_start [OF assms, of start] by (simp add: checked_segments_def)
  show "(s, l, k) \<in> set (for_each_segment (length ws) start len) \<Longrightarrow> 1 \<le> l \<and> s + l \<le> length ws * 64"
    using segment_bounds by (simp add: for_each_segment_eq [OF assms])
qed

lemma for_each_zero_checked:
  assumes "bm_ok ws"
  shows "checked_for_each_zero ws start len = Some (for_each_zero ws start len)"
proof -
  have "each (\<lambda>(word, m). do { w \<leftarrow> word_at ws word; Some (map (\<lambda>b. k + (word * WORD_BITS + b - s)) (zero_bits (NOT w AND m))) })
      (for_each_word s l) =
    Some (map (\<lambda>(word, m). map (\<lambda>b. k + (word * WORD_BITS + b - s)) (zero_bits (NOT (ws ! word) AND m))) (for_each_word s l))"
    if "(s, l, k) \<in> set (for_each_segment (length ws) start len)" for s l k
    using segments_checked(2) [OF assms that] words_in_range(4) [of l s "length ws"]
    by (intro each_all) (auto simp: word_at_def)
  then have "each (\<lambda>(start, len, offset). do {
         calls \<leftarrow> each (\<lambda>(word, m). do {
             w \<leftarrow> word_at ws word;
             Some (map (\<lambda>b. offset + (word * WORD_BITS + b - start)) (zero_bits (NOT w AND m))) })
           (for_each_word start len);
         Some (concat calls) }) (for_each_segment (length ws) start len) =
    Some (map (\<lambda>(start, len, offset). concat (map (\<lambda>(word, m).
      map (\<lambda>b. offset + (word * WORD_BITS + b - start)) (zero_bits (NOT (ws ! word) AND m))) (for_each_word start len)))
      (for_each_segment (length ws) start len))"
    by (intro each_all) auto
  then show ?thesis
    unfolding checked_for_each_zero_def segments_checked(1) [OF assms] for_each_zero_def bind.bind_lunit by simp
qed

lemma first_zero_checked:
  assumes "bm_ok ws"
  shows "checked_first_zero ws start len = Some (first_zero ws start len)"
proof -
  define n where "n = min len (length ws * WORD_BITS)"
  define g where "g = (\<lambda>(s, l, k). concat (map (\<lambda>(word, m). let zeros = NOT (ws ! word) AND m in
    if zeros = 0 then [] else [k + (word * WORD_BITS + trailing_zeros_u64 zeros - s)]) (for_each_word s l)))"
  have inner: "until_break (\<lambda>(word, m). do { w \<leftarrow> word_at ws word; let zeros = NOT w AND m;
        Some (if zeros = 0 then None else Some (k + (word * WORD_BITS + trailing_zeros_u64 zeros - s))) })
      (for_each_word s l) = Some (first_of (g (s, l, k)))"
    if "(s, l, k) \<in> set (for_each_segment (length ws) start n)" for s l k
    unfolding g_def split_conv using segments_checked(2) [OF assms that] words_in_range(4) [of l s "length ws"]
    by (intro until_break_all) (auto simp: word_at_def first_of_def Let_def)
  have "checked_first_zero ws start len = Some (first_of (concat (map g (for_each_segment (length ws) start n))))"
    unfolding checked_first_zero_def n_def [symmetric] Let_def segments_checked(1) [OF assms] bind.bind_lunit
    by (rule until_break_all) (use inner in \<open>auto simp: Let_def\<close>)
  then show ?thesis by (simp add: first_zero_def first_of_def g_def n_def Let_def)
qed

lemma clear_linear_checked:
  assumes "1 \<le> l" "s + l \<le> length ws * 64"
  shows "checked_clear_linear ws s l = Some (clear_linear ws s l)"
  using words_in_range(1-3) [OF assms]
  by (auto simp: checked_clear_linear_def clear_linear_def Let_def word_at_def word_set_def slice_fill_def)

lemma clear_checked:
  assumes "bm_ok ws"
  shows "checked_clear ws start len = Some (bitmap_clear ws start len)"
proof -
  have "updates (\<lambda>(start, len, _) words. checked_clear_linear words start len) (for_each_segment (length ws) start len) ws =
    Some (fold (\<lambda>(start, len, _) words. clear_linear words start len) (for_each_segment (length ws) start len) ws)"
    by (rule updates_all [where P = "\<lambda>words. length words = length ws"])
      (auto dest!: segments_checked(2) [OF assms] simp: clear_linear_checked)
  then show ?thesis by (simp add: checked_clear_def bitmap_clear_def segments_checked(1) [OF assms])
qed

lemma received_checked:
  assumes "log_ok L"
  shows "checked_set_received L seq = Some (set_received L seq)" "checked_get_received L seq = Some (get_received L seq)"
  using log_index(2,4) [OF assms, of seq]
  by (simp_all add: checked_set_received_def set_received_def checked_get_received_def get_received_def word_at_def
      word_set_def Let_def)

lemma fix_last_consecutive_checked:
  "log_ok L \<Longrightarrow> checked_fix_last_consecutive L = Some (fix_last_consecutive L)"
  using first_zero_checked [OF log_ok_cap(1)]
  by (simp add: checked_fix_last_consecutive_def fix_last_consecutive_def Let_def)

lemma add_checked: "log_ok L \<Longrightarrow> checked_add L seq = Some (receive_log_add L seq)"
  using log_ok_cap(1) [of L]
  by (simp add: checked_add_def receive_log_add_def Let_def clear_checked received_checked fix_last_consecutive_checked)

lemma adds_checked: "log_ok L \<Longrightarrow> updates (\<lambda>seq log. checked_add log seq) seqs L = Some (foldl receive_log_add L seqs)"
  by (induction seqs arbitrary: L) (simp_all add: add_checked)

section \<open>Properties\<close>

text \<open>C26: no operation of the receive log panics on an index, after any run of packets. Every access to the bitmap is
  checked in these operations, also those of the word-at-a-time clearing, searching and enumerating; they return for
  every argument, with the result that the unchecked operations give, and the size of the window never changes.\<close>

theorem receive_log_in_bounds:
  assumes "receive_log_new sz = Some L" "log = foldl receive_log_add L seqs"
  shows "updates (\<lambda>seq log. checked_add log seq) seqs L = Some log \<and> log_size log = sz \<and>
    checked_get log seq = Some (receive_log_get log seq) \<and>
    checked_missing_seq_numbers log skip = Some (missing_seq_numbers log skip) \<and>
    checked_is_missing log seq skip = Some (is_missing log seq skip)"
proof -
  have ok: "log_ok log" "log_size log = sz"
    using receive_log_run_ok [OF receive_log_new_ok(1) [OF assms(1)], of seqs] receive_log_new_ok(2) [OF assms(1)]
    by (simp_all add: assms(2))
  have "checked_get log seq = Some (receive_log_get log seq)"
    by (simp add: checked_get_def receive_log_get_def Let_def received_checked [OF ok(1)])
  moreover have "checked_missing_seq_numbers log skip = Some (missing_seq_numbers log skip)"
    by (simp add: checked_missing_seq_numbers_def missing_seq_numbers_def Let_def for_each_zero_checked
        log_ok_cap(1) [OF ok(1)])
  moreover have "checked_is_missing log seq skip = Some (is_missing log seq skip)"
    by (auto simp: checked_is_missing_def is_missing_def Let_def received_checked [OF ok(1)])
  ultimately show ?thesis
    using ok(2) adds_checked [OF receive_log_new_ok(1) [OF assms(1)], of seqs] by (simp add: assms(2))
qed

theorem receive_log_in_bounds_witness:
  "\<exists>L log. receive_log_new 64 = Some L \<and> updates (\<lambda>seq log. checked_add log seq) [7, 2000, 1990] L = Some log \<and>
    checked_missing_seq_numbers log 3 \<noteq> None"
proof -
  obtain L where new: "receive_log_new 64 = Some L" by (simp add: receive_log_new_def)
  then show ?thesis using receive_log_in_bounds [OF new refl, of "[7, 2000, 1990]" 0 3] by auto
qed

end
