(* ===== verification/Remb_Value.thy ===== *)
theory Remb_Value
  imports Rtcp_Remb Complex_Main
begin

text \<open>
  What becomes of a bitrate in the codec of \<open>Rtcp_Remb\<close>, as a real number: the format rounds it down to the largest
  value that it can name. There are no definitions from the source here.
\<close>

section \<open>The largest encodable bitrate\<close>

text \<open>The value of a positive normal number. Infinity stands for the number one above the largest.\<close>

definition f32_value :: "f32 \<Rightarrow> real" where
  "f32_value x = (2 ^ 23 + real (f32_fraction x)) * 2 ^ f32_exponent x / 2 ^ 150"

text \<open>The bitrates that 18 bits of mantissa and six bits of exponent can name.\<close>

definition encodable :: "real set" where
  "encodable = {real m * 2 ^ k | m k. m < 2 ^ 18 \<and> k < 64}"

lemma f32_value_mono:
  assumes "unat x \<le> unat y" "\<not> f32_negative y"
  shows "f32_value x \<le> f32_value y"
proof -
  have pos: "\<not> f32_negative x" using assms by (simp add: f32_negative_def)
  let ?a = "2 ^ 23 + f32_fraction x" and ?b = "2 ^ 23 + f32_fraction y"
  have le: "f32_exponent x * 2 ^ 23 + f32_fraction x \<le> f32_exponent y * 2 ^ 23 + f32_fraction y"
    using assms(1) f32_split [OF pos] f32_split [OF assms(2)] by simp
  have "?a * 2 ^ f32_exponent x \<le> ?b * 2 ^ f32_exponent y"
  proof (cases "f32_exponent x = f32_exponent y")
    case True
    with le show ?thesis by simp
  next
    case False
    with le f32_fraction_less [of x] f32_fraction_less [of y] have "f32_exponent x < f32_exponent y" by auto
    then have up: "(2 :: nat) * 2 ^ f32_exponent x \<le> 2 ^ f32_exponent y"
      using power_increasing [of "Suc (f32_exponent x)" "f32_exponent y" "2 :: nat"] by simp
    have "?a * 2 ^ f32_exponent x \<le> (2 ^ 23 * 2) * 2 ^ f32_exponent x"
      using f32_fraction_less [of x] by (intro mult_le_mono1) simp
    also have "\<dots> = 2 ^ 23 * (2 * 2 ^ f32_exponent x)" by (rule mult.assoc)
    also have "\<dots> \<le> 2 ^ 23 * 2 ^ f32_exponent y" using up by (rule mult_le_mono2)
    also have "\<dots> \<le> ?b * 2 ^ f32_exponent y" by simp
    finally show ?thesis .
  qed
  then have "real (?a * 2 ^ f32_exponent x) \<le> real (?b * 2 ^ f32_exponent y)" by (rule of_nat_mono)
  then show ?thesis by (simp add: f32_value_def divide_right_mono)
qed

lemma remb_truncate_value:
  assumes "unat c = e * 2 ^ 23 + f" "f < 2 ^ 23" "127 \<le> e" "e \<le> 207"
  obtains q j where "f32_value (remb_truncate c) = real q * 2 ^ j" "q < 2 ^ 18" "j < 64" "0 < j \<Longrightarrow> 2 ^ 17 \<le> q"
    "f32_value c < real (q + 1) * 2 ^ j" "real q * 2 ^ j \<le> f32_value c"
proof -
  define l j where "l = 150 - min e 144" and "j = e - min e 144"
  have l: "6 \<le> l" "l \<le> 23" "l + e = 150 + j" "j < 64" "0 < j \<Longrightarrow> l = 6" using assms(3,4) by (auto simp: l_def j_def)
  define q where "q = 2 ^ (23 - l) + f div 2 ^ l"
  have pow: "(2 :: nat) ^ 23 = 2 ^ (23 - l) * 2 ^ l" using l(2) by (simp flip: power_add)
  have q: "2 ^ 23 + f div 2 ^ l * 2 ^ l = q * 2 ^ l" unfolding q_def pow by (simp add: algebra_simps)
  have f: "f div 2 ^ l * 2 ^ l \<le> f" "f < (f div 2 ^ l + 1) * 2 ^ l"
    using dividend_less_times_div [of "2 ^ l" f] by (simp_all add: algebra_simps)
  have "f div 2 ^ l < 2 ^ (23 - l)" using assms(2) unfolding pow by (intro less_mult_imp_div_less) simp
  moreover have "(2 :: nat) ^ (23 - l) \<le> 2 ^ 17" using l(1) by (intro power_increasing) simp_all
  ultimately have q18: "q < 2 ^ 18" by (simp add: q_def)
  have lost: "remb_lost_bits c = l" using f32_fields(1) [OF assms(1,2)] assms(4) by (simp add: remb_lost_bits_def l_def)
  have up: "e * 2 ^ 23 + f = f + e * 2 ^ (23 - l) * 2 ^ l" unfolding pow by simp
  have "(f + e * 2 ^ (23 - l) * 2 ^ l) div 2 ^ l = e * 2 ^ (23 - l) + f div 2 ^ l" by simp
  then have "(e * 2 ^ 23 + f) div 2 ^ l * 2 ^ l = e * 2 ^ 23 + f div 2 ^ l * 2 ^ l"
    unfolding up pow by (simp add: algebra_simps)
  moreover have "e * 2 ^ 23 + f div 2 ^ l * 2 ^ l \<le> 207 * 2 ^ 23 + f" using f(1) assms(4) by (intro add_mono mult_le_mono1)
  then have "e * 2 ^ 23 + f div 2 ^ l * 2 ^ l < 2 ^ 32" using assms(2) by simp
  ultimately have t: "unat (remb_truncate c) = e * 2 ^ 23 + f div 2 ^ l * 2 ^ l"
    unfolding remb_truncate_def lost assms(1) by (simp only: unat_of_nat) simp
  have scale: "(2 :: real) ^ l * 2 ^ e = 2 ^ 150 * 2 ^ j" using l(3) by (simp only: flip: power_add)
  have units: "real (n * 2 ^ l) * 2 ^ e / 2 ^ 150 = real n * 2 ^ j" for n
    unfolding of_nat_mult of_nat_power of_nat_numeral mult.assoc scale by simp
  have "f32_value (remb_truncate c) = real (2 ^ 23 + f div 2 ^ l * 2 ^ l) * 2 ^ e / 2 ^ 150"
    using f32_fields(1,2) [OF t le_less_trans [OF f(1) assms(2)]] assms(4) by (simp add: f32_value_def)
  then have val: "f32_value (remb_truncate c) = real q * 2 ^ j" unfolding q by (simp only: units)
  have c: "f32_value c = real (2 ^ 23 + f) * 2 ^ e / 2 ^ 150"
    using f32_fields(1,2) [OF assms(1,2)] assms(4) by (simp add: f32_value_def)
  have "real (2 ^ 23 + f) < real ((q + 1) * 2 ^ l)" "real (q * 2 ^ l) \<le> real (2 ^ 23 + f)"
    unfolding of_nat_less_iff of_nat_le_iff add_mult_distrib mult_1 q [symmetric] using f by simp_all
  then have "f32_value c < real ((q + 1) * 2 ^ l) * 2 ^ e / 2 ^ 150" "real (q * 2 ^ l) * 2 ^ e / 2 ^ 150 \<le> f32_value c"
    unfolding c by (simp_all add: divide_strict_right_mono divide_right_mono)
  then have "f32_value c < real (q + 1) * 2 ^ j" "real q * 2 ^ j \<le> f32_value c"
    by (simp_all only: units)
  moreover have "0 < j \<Longrightarrow> 2 ^ 17 \<le> q" using l(5) by (simp add: q_def)
  ultimately show thesis using that [of q j] val q18 l(4) by blast
qed

lemma encodable_below:
  assumes "real m * 2 ^ k < real (q + 1) * 2 ^ j" "m < 2 ^ 18" "0 < j \<Longrightarrow> 2 ^ 17 \<le> q"
  shows "real m * 2 ^ k \<le> real q * 2 ^ j"
proof (cases "j \<le> k")
  case True
  then have k: "(2 :: real) ^ k = 2 ^ (k - j) * 2 ^ j" by (simp flip: power_add)
  with assms(1) have "real (m * 2 ^ (k - j)) < real (q + 1)" by simp
  then have "m * 2 ^ (k - j) \<le> q" unfolding of_nat_less_iff by simp
  then have "real (m * 2 ^ (k - j)) * 2 ^ j \<le> real q * 2 ^ j" by (intro mult_right_mono of_nat_mono) simp_all
  then show ?thesis by (simp add: k)
next
  case False
  then have "m * 2 ^ k \<le> 2 ^ 17 * 2 ^ Suc k" using assms(2) by simp
  also have "\<dots> \<le> q * 2 ^ j" using False assms(3) by (intro mult_le_mono power_increasing) simp_all
  finally have "real (m * 2 ^ k) \<le> real (q * 2 ^ j)" by (rule of_nat_mono)
  then show ?thesis by simp
qed

lemma remb_truncate_greatest:
  assumes "f32_ge x 0x3F800000"
  defines "y \<equiv> remb_truncate (remb_clamp x)"
  shows "f32_value y \<in> encodable" "f32_value y \<le> f32_value x" "v \<in> encodable \<Longrightarrow> v \<le> f32_value x \<Longrightarrow> v \<le> f32_value y"
proof -
  obtain e f where c: "unat (remb_clamp x) = e * 2 ^ 23 + f" "f < 2 ^ 23" "127 \<le> e" "e \<le> 207"
    using remb_clamp_fields [OF assms(1)] by blast
  obtain q j where q: "f32_value y = real q * 2 ^ j" "q < 2 ^ 18" "j < 64" "0 < j \<Longrightarrow> 2 ^ 17 \<le> q"
    "f32_value (remb_clamp x) < real (q + 1) * 2 ^ j" "real q * 2 ^ j \<le> f32_value (remb_clamp x)"
    unfolding y_def using remb_truncate_value [OF c] by blast
  show "f32_value y \<in> encodable" unfolding encodable_def q(1) using q(2,3) by blast
  note fin = f32_finite [OF assms(1)]
  have pos: "\<not> f32_negative x" using fin(1) by (simp add: f32_negative_def)
  have "unat (remb_clamp x) \<le> unat x"
    using f32_ge_bits(1) [OF fin(1), of BITRATE_MAX] by (simp add: remb_clamp_def BITRATE_MAX_def word_le_nat_alt)
  then show "f32_value y \<le> f32_value x" using q(1,6) f32_value_mono [OF _ pos] order_trans by metis
  assume "v \<in> encodable" "v \<le> f32_value x"
  then obtain m k where v: "v = real m * 2 ^ k" "m < 2 ^ 18" "k < 64" by (auto simp: encodable_def)
  show "v \<le> f32_value y"
  proof (cases "f32_ge x BITRATE_MAX")
    case False
    then have "remb_clamp x = x" by (simp add: remb_clamp_def)
    with q(5) \<open>v \<le> f32_value x\<close> v(1) have "real m * 2 ^ k < real (q + 1) * 2 ^ j" by simp
    then show ?thesis using encodable_below v(1,2) q(1,4) by simp
  next
    case True
    have "f32_value y = real (2 ^ 18 - 1) * 2 ^ 63"
      using True by (simp add: y_def remb_clamp_def f32_value_def BITRATE_MAX_def remb_truncate_def remb_lost_bits_def
          f32_exponent_def f32_fraction_def)
    moreover have "m * 2 ^ k \<le> (2 ^ 18 - 1) * 2 ^ 63" using v(2,3) by (intro mult_le_mono power_increasing) simp_all
    then have "real (m * 2 ^ k) \<le> real ((2 ^ 18 - 1) * 2 ^ 63)" by (rule of_nat_mono)
    ultimately show ?thesis using v(1) by simp
  qed
qed

text \<open>C23: a bitrate estimate of at least one bit per second that is encoded and decoded again names the same streams,
  and its bitrate becomes the largest one that the format can name, an integer below \<open>2 ^ 18\<close> times a power of two
  below \<open>2 ^ 64\<close>, and that is not above it. Fractions of a bit per second are dropped.\<close>

theorem remb_round_trip:
  assumes "f32_ge (remb_bitrate p) 0x3F800000" "length (remb_ssrcs p) \<le> 255" "remb_marshal_size p \<le> cap"
  shows "\<exists>bs y. remb_marshal_to p cap = Ok (bs, remb_marshal_size p) \<and>
    remb_unmarshal bs = Ok (p\<lparr>remb_bitrate := y\<rparr>, []) \<and>
    f32_value y \<in> encodable \<and> f32_value y \<le> f32_value (remb_bitrate p) \<and>
    (\<forall>v\<in>encodable. v \<le> f32_value (remb_bitrate p) \<longrightarrow> v \<le> f32_value y)"
proof -
  let ?y = "remb_truncate (remb_clamp (remb_bitrate p))"
  obtain bs where "remb_marshal_to p cap = Ok (bs, remb_marshal_size p)" "remb_unmarshal bs = Ok (p\<lparr>remb_bitrate := ?y\<rparr>, [])"
    using remb_bitrate_survives [OF assms(1)] remb_marshal_to_bytes [of p] remb_body_parses [of p] assms(2,3) by fastforce
  with remb_truncate_greatest [OF assms(1)] show ?thesis by blast
qed

theorem remb_round_trip_witness:
  "\<exists>bs y. remb_marshal_to \<lparr>remb_sender_ssrc = 1, remb_bitrate = 0x3FC00000, remb_ssrcs = [7]\<rparr> 24 = Ok (bs, 24) \<and>
    remb_unmarshal bs = Ok (\<lparr>remb_sender_ssrc = 1, remb_bitrate = y, remb_ssrcs = [7]\<rparr>, []) \<and>
    1 \<le> f32_value y \<and> f32_value y \<le> 3 / 2 \<and> f32_value y \<in> encodable"
proof -
  let ?p = "\<lparr>remb_sender_ssrc = 1, remb_bitrate = 0x3FC00000, remb_ssrcs = [7]\<rparr>"
  have ge: "f32_ge (remb_bitrate ?p) 0x3F800000"
    by (simp add: f32_ge_def f32_is_nan_def f32_exponent_def f32_fraction_def f32_key_def f32_negative_def)
  have sz: "remb_marshal_size ?p = 24" by (simp add: remb_marshal_size_def remb_raw_size_def)
  have val: "f32_value (remb_bitrate ?p) = 3 / 2" by (simp add: f32_value_def f32_exponent_def f32_fraction_def)
  have one: "1 \<in> encodable" unfolding encodable_def by (intro CollectI exI [of _ 1] exI [of _ 0]) simp
  obtain bs y where "remb_marshal_to ?p 24 = Ok (bs, 24)" "remb_unmarshal bs = Ok (?p\<lparr>remb_bitrate := y\<rparr>, [])"
    "f32_value y \<in> encodable" "f32_value y \<le> 3 / 2" "\<forall>v\<in>encodable. v \<le> 3 / 2 \<longrightarrow> v \<le> f32_value y"
    using remb_round_trip [OF ge, of 24] unfolding sz val by auto
  with one show ?thesis by (intro exI [of _ bs] exI [of _ y]) simp
qed

end
