(* ===== verification/Interceptor_Chain.thy ===== *)
theory Interceptor_Chain
  imports Nack_Interceptors "HOL-Library.Monad_Syntax"
begin

text \<open>
  The chain of interceptors (\<open>rtc-interceptor/src/chain.rs\<close>), the terminus at its end (\<open>noop.rs\<close>) and the registry
  that puts it together (\<open>registry.rs\<close>). A trait object is a state with the record of its methods, so the chain is
  defined for interceptors of any kind; \<open>boxed_ops\<close> is the method table of the three interceptors modelled here.
  A walk polls each interceptor until it has nothing left, a loop that ends only if the interceptor lets it:
  operations that walk return \<open>None\<close> when a loop does not end. The methods that \<open>sansio::Protocol\<close> provides for an
  interceptor that does not define them are an argument. The type names that the registry keeps for its log are
  left out.
\<close>

section \<open>The interface of an interceptor\<close>

record ('i, 'c) interceptor_ops =
  i_handle_read :: "'i \<Rightarrow> 'c tagged_packet \<Rightarrow> unit result \<times> 'i"
  i_poll_read :: "'i \<Rightarrow> 'c tagged_packet option \<times> 'i"
  i_handle_write :: "'i \<Rightarrow> 'c tagged_packet \<Rightarrow> unit result \<times> 'i"
  i_poll_write :: "'i \<Rightarrow> 'c tagged_packet option \<times> 'i"
  i_handle_timeout :: "'i \<Rightarrow> instant \<Rightarrow> unit result \<times> 'i"
  i_poll_timeout :: "'i \<Rightarrow> instant option \<times> 'i"
  i_close :: "'i \<Rightarrow> unit result \<times> 'i"
  i_bind_local_stream :: "'i \<Rightarrow> stream_info \<Rightarrow> 'i"
  i_unbind_local_stream :: "'i \<Rightarrow> stream_info \<Rightarrow> 'i"
  i_bind_remote_stream :: "'i \<Rightarrow> stream_info \<Rightarrow> 'i"
  i_unbind_remote_stream :: "'i \<Rightarrow> stream_info \<Rightarrow> 'i"

section \<open>The chain\<close>

record ('i, 'c) chain =
  chain_interceptors :: "'i list"
  read_outs :: "'c tagged_packet list"
  write_outs :: "'c tagged_packet list"
  chain_belt :: "'c tagged_packet list"

definition chain_new :: "'i list \<Rightarrow> ('i, 'c) chain" where
  "chain_new is = \<lparr>chain_interceptors = is, read_outs = [], write_outs = [], chain_belt = []\<rparr>"

text \<open>The two inner loops of a walk: the belt is handed in, an error being only logged; then what is ready is collected.\<close>

definition feed :: "('i \<Rightarrow> 'm \<Rightarrow> unit result \<times> 'i) \<Rightarrow> 'i \<Rightarrow> 'm list \<Rightarrow> 'i" where
  "feed handle i belt = foldl (\<lambda>i next_msg. snd (handle i next_msg)) i belt"

partial_function (option) collect :: "('i \<Rightarrow> 'm option \<times> 'i) \<Rightarrow> 'i \<Rightarrow> 'm list \<Rightarrow> ('i \<times> 'm list) option" where
  "collect poll i belt =
     (case poll i of (None, i) \<Rightarrow> Some (i, belt) | (Some next_msg, i) \<Rightarrow> collect poll i (belt @ [next_msg]))"

fun walk :: "('i \<Rightarrow> 'm \<Rightarrow> unit result \<times> 'i) \<Rightarrow> ('i \<Rightarrow> 'm option \<times> 'i) \<Rightarrow> 'i list \<Rightarrow> 'm list \<Rightarrow> ('i list \<times> 'm list) option" where
  "walk handle poll [] belt = Some ([], belt)"
| "walk handle poll (i # is) belt =
     (case collect poll (feed handle i belt) [] of
        None \<Rightarrow> None
      | Some (i, belt) \<Rightarrow>
          (case walk handle poll is belt of None \<Rightarrow> None | Some (is, belt) \<Rightarrow> Some (i # is, belt)))"

definition walk_read :: "('i, 'c) interceptor_ops \<Rightarrow> ('i, 'c) chain \<Rightarrow> 'c tagged_packet option \<Rightarrow> ('i, 'c) chain option" where
  "walk_read ops self msg =
     (case walk (i_handle_read ops) (i_poll_read ops) (chain_interceptors self)
        (chain_belt self @ (case msg of None \<Rightarrow> [] | Some m \<Rightarrow> [m])) of
        None \<Rightarrow> None
      | Some (is, belt) \<Rightarrow>
          Some (self\<lparr>chain_interceptors := is, read_outs := read_outs self @ belt, chain_belt := []\<rparr>))"

definition walk_write :: "('i, 'c) interceptor_ops \<Rightarrow> ('i, 'c) chain \<Rightarrow> 'c tagged_packet option \<Rightarrow> ('i, 'c) chain option" where
  "walk_write ops self msg =
     (case walk (i_handle_write ops) (i_poll_write ops) (rev (chain_interceptors self))
        (chain_belt self @ (case msg of None \<Rightarrow> [] | Some m \<Rightarrow> [m])) of
        None \<Rightarrow> None
      | Some (is, belt) \<Rightarrow>
          Some (self\<lparr>chain_interceptors := rev is, write_outs := write_outs self @ belt, chain_belt := []\<rparr>))"

definition chain_handle_read ::
  "('i, 'c) interceptor_ops \<Rightarrow> ('i, 'c) chain \<Rightarrow> 'c tagged_packet \<Rightarrow> (unit result \<times> ('i, 'c) chain) option" where
  "chain_handle_read ops self msg = map_option (Pair (Ok ())) (walk_read ops self (Some msg))"

definition chain_poll_read ::
  "('i, 'c) interceptor_ops \<Rightarrow> ('i, 'c) chain \<Rightarrow> ('c tagged_packet option \<times> ('i, 'c) chain) option" where
  "chain_poll_read ops self =
     (case (if read_outs self = [] then walk_read ops self None else Some self) of
        None \<Rightarrow> None
      | Some self \<Rightarrow> Some (case read_outs self of [] \<Rightarrow> (None, self) | m # q \<Rightarrow> (Some m, self\<lparr>read_outs := q\<rparr>)))"

definition chain_handle_write ::
  "('i, 'c) interceptor_ops \<Rightarrow> ('i, 'c) chain \<Rightarrow> 'c tagged_packet \<Rightarrow> (unit result \<times> ('i, 'c) chain) option" where
  "chain_handle_write ops self msg = map_option (Pair (Ok ())) (walk_write ops self (Some msg))"

definition chain_poll_write ::
  "('i, 'c) interceptor_ops \<Rightarrow> ('i, 'c) chain \<Rightarrow> ('c tagged_packet option \<times> ('i, 'c) chain) option" where
  "chain_poll_write ops self =
     (case (if write_outs self = [] then walk_write ops self None else Some self) of
        None \<Rightarrow> None
      | Some self \<Rightarrow> Some (case write_outs self of [] \<Rightarrow> (None, self) | m # q \<Rightarrow> (Some m, self\<lparr>write_outs := q\<rparr>)))"

text \<open>A loop over the interceptors that an error leaves early, the ones before it already changed.\<close>

fun try_each :: "('i \<Rightarrow> unit result \<times> 'i) \<Rightarrow> 'i list \<Rightarrow> unit result \<times> 'i list" where
  "try_each f [] = (Ok (), [])"
| "try_each f (i # is) =
     (case f i of
        (Inl e, i) \<Rightarrow> (Err e, i # is)
      | (Inr _, i) \<Rightarrow> (let (r, is) = try_each f is in (r, i # is)))"

definition chain_handle_timeout :: "('i, 'c) interceptor_ops \<Rightarrow> ('i, 'c) chain \<Rightarrow> instant \<Rightarrow> unit result \<times> ('i, 'c) chain" where
  "chain_handle_timeout ops self now =
     (let (r, is) = try_each (\<lambda>i. i_handle_timeout ops i now) (chain_interceptors self) in
      (r, self\<lparr>chain_interceptors := is\<rparr>))"

definition chain_poll_timeout :: "('i, 'c) interceptor_ops \<Rightarrow> ('i, 'c) chain \<Rightarrow> instant option \<times> ('i, 'c) chain" where
  "chain_poll_timeout ops self =
     (let polled = map (i_poll_timeout ops) (chain_interceptors self) in
      (case List.map_filter fst polled of [] \<Rightarrow> None | t # ts \<Rightarrow> Some (fold min ts t),
       self\<lparr>chain_interceptors := map snd polled\<rparr>))"

definition chain_close :: "('i, 'c) interceptor_ops \<Rightarrow> ('i, 'c) chain \<Rightarrow> unit result \<times> ('i, 'c) chain" where
  "chain_close ops self =
     (let (r, is) = try_each (i_close ops) (chain_interceptors self) in (r, self\<lparr>chain_interceptors := is\<rparr>))"

definition chain_bind_local_stream :: "('i, 'c) interceptor_ops \<Rightarrow> ('i, 'c) chain \<Rightarrow> stream_info \<Rightarrow> ('i, 'c) chain" where
  "chain_bind_local_stream ops self info =
     self\<lparr>chain_interceptors := map (\<lambda>i. i_bind_local_stream ops i info) (chain_interceptors self)\<rparr>"

definition chain_unbind_local_stream :: "('i, 'c) interceptor_ops \<Rightarrow> ('i, 'c) chain \<Rightarrow> stream_info \<Rightarrow> ('i, 'c) chain" where
  "chain_unbind_local_stream ops self info =
     self\<lparr>chain_interceptors := map (\<lambda>i. i_unbind_local_stream ops i info) (chain_interceptors self)\<rparr>"

definition chain_bind_remote_stream :: "('i, 'c) interceptor_ops \<Rightarrow> ('i, 'c) chain \<Rightarrow> stream_info \<Rightarrow> ('i, 'c) chain" where
  "chain_bind_remote_stream ops self info =
     self\<lparr>chain_interceptors := map (\<lambda>i. i_bind_remote_stream ops i info) (chain_interceptors self)\<rparr>"

definition chain_unbind_remote_stream :: "('i, 'c) interceptor_ops \<Rightarrow> ('i, 'c) chain \<Rightarrow> stream_info \<Rightarrow> ('i, 'c) chain" where
  "chain_unbind_remote_stream ops self info =
     self\<lparr>chain_interceptors := map (\<lambda>i. i_unbind_remote_stream ops i info) (chain_interceptors self)\<rparr>"

section \<open>The terminus\<close>

record 'c noop_interceptor =
  ni_read_queue :: "'c tagged_packet list"
  ni_write_queue :: "'c tagged_packet list"

definition noop_new :: "'c noop_interceptor" where
  "noop_new = \<lparr>ni_read_queue = [], ni_write_queue = []\<rparr>"

fun same_variant :: "'c attribute \<Rightarrow> 'c attribute \<Rightarrow> bool" where
  "same_variant RecoveredByFec RecoveredByFec = True"
| "same_variant Retransmission Retransmission = True"
| "same_variant DeliverToApplication DeliverToApplication = True"
| "same_variant (TargetBitrateChanged _) (TargetBitrateChanged _) = True"
| "same_variant (Custom _) (Custom _) = True"
| "same_variant _ _ = False"

definition has_attribute :: "'c tagged_packet \<Rightarrow> 'c attribute \<Rightarrow> bool" where
  "has_attribute msg wanted = list_ex (\<lambda>held. same_variant held wanted) (msg_attributes msg)"

definition ni_handle_read :: "'c noop_interceptor \<Rightarrow> 'c tagged_packet \<Rightarrow> 'c noop_interceptor" where
  "ni_handle_read self msg =
     (case msg_packet msg of
        Rtp _ \<Rightarrow> self\<lparr>ni_read_queue := ni_read_queue self @ [msg]\<rparr>
      | Rtcp _ \<Rightarrow>
          if has_attribute msg DeliverToApplication then self\<lparr>ni_read_queue := ni_read_queue self @ [msg]\<rparr>
          else if msg_attributes msg \<noteq> [] then
            self\<lparr>ni_read_queue := ni_read_queue self @ [msg\<lparr>msg_packet := Rtcp []\<rparr>]\<rparr>
          else self)"

definition ni_poll_read :: "'c noop_interceptor \<Rightarrow> 'c tagged_packet option \<times> 'c noop_interceptor" where
  "ni_poll_read self = (case ni_read_queue self of [] \<Rightarrow> (None, self) | msg # q \<Rightarrow> (Some msg, self\<lparr>ni_read_queue := q\<rparr>))"

definition ni_handle_write :: "'c noop_interceptor \<Rightarrow> 'c tagged_packet \<Rightarrow> 'c noop_interceptor" where
  "ni_handle_write self msg = self\<lparr>ni_write_queue := ni_write_queue self @ [msg]\<rparr>"

definition ni_poll_write :: "'c noop_interceptor \<Rightarrow> 'c tagged_packet option \<times> 'c noop_interceptor" where
  "ni_poll_write self = (case ni_write_queue self of [] \<Rightarrow> (None, self) | msg # q \<Rightarrow> (Some msg, self\<lparr>ni_write_queue := q\<rparr>))"

section \<open>The modelled interceptors as trait objects\<close>

datatype 'c boxed = BoxGenerator "'c nack_generator" | BoxResponder "'c nack_responder" | BoxNoop "'c noop_interceptor"

text \<open>The provided methods of \<open>sansio::Protocol\<close>, which is not part of the repository.\<close>

record 'c protocol_defaults =
  default_handle_timeout :: "'c boxed \<Rightarrow> instant \<Rightarrow> unit result \<times> 'c boxed"
  default_poll_timeout :: "'c boxed \<Rightarrow> instant option \<times> 'c boxed"
  default_close :: "'c boxed \<Rightarrow> unit result \<times> 'c boxed"

fun boxed_handle_read :: "'c boxed \<Rightarrow> 'c tagged_packet \<Rightarrow> 'c boxed" where
  "boxed_handle_read (BoxGenerator g) msg = BoxGenerator (ng_handle_read g msg)"
| "boxed_handle_read (BoxResponder r) msg = BoxResponder (nr_handle_read r msg)"
| "boxed_handle_read (BoxNoop n) msg = BoxNoop (ni_handle_read n msg)"

fun boxed_poll_read :: "'c boxed \<Rightarrow> 'c tagged_packet option \<times> 'c boxed" where
  "boxed_poll_read (BoxGenerator g) = map_prod id BoxGenerator (ng_poll_read g)"
| "boxed_poll_read (BoxResponder r) = map_prod id BoxResponder (nr_poll_read r)"
| "boxed_poll_read (BoxNoop n) = map_prod id BoxNoop (ni_poll_read n)"

fun boxed_handle_write :: "'c boxed \<Rightarrow> 'c tagged_packet \<Rightarrow> 'c boxed" where
  "boxed_handle_write (BoxGenerator g) msg = BoxGenerator (ng_handle_write g msg)"
| "boxed_handle_write (BoxResponder r) msg = BoxResponder (nr_handle_write r msg)"
| "boxed_handle_write (BoxNoop n) msg = BoxNoop (ni_handle_write n msg)"

fun boxed_poll_write :: "'c boxed \<Rightarrow> 'c tagged_packet option \<times> 'c boxed" where
  "boxed_poll_write (BoxGenerator g) = map_prod id BoxGenerator (ng_poll_write g)"
| "boxed_poll_write (BoxResponder r) = map_prod id BoxResponder (nr_poll_write r)"
| "boxed_poll_write (BoxNoop n) = map_prod id BoxNoop (ni_poll_write n)"

definition boxed_ops :: "'c protocol_defaults \<Rightarrow> ('c boxed, 'c) interceptor_ops" where
  "boxed_ops dflt =
     \<lparr>i_handle_read = (\<lambda>i msg. (Ok (), boxed_handle_read i msg)), i_poll_read = boxed_poll_read,
      i_handle_write = (\<lambda>i msg. (Ok (), boxed_handle_write i msg)), i_poll_write = boxed_poll_write,
      i_handle_timeout = (\<lambda>i now. case i of
          BoxGenerator g \<Rightarrow> (Ok (), BoxGenerator (ng_handle_timeout g now))
        | BoxResponder r \<Rightarrow> (Ok (), BoxResponder (nr_handle_timeout r now))
        | BoxNoop _ \<Rightarrow> default_handle_timeout dflt i now),
      i_poll_timeout = (\<lambda>i. case i of
          BoxGenerator g \<Rightarrow> (ng_poll_timeout g, i)
        | BoxResponder r \<Rightarrow> (nr_poll_timeout r, i)
        | BoxNoop _ \<Rightarrow> default_poll_timeout dflt i),
      i_close = default_close dflt,
      i_bind_local_stream = (\<lambda>i info. case i of BoxResponder r \<Rightarrow> BoxResponder (nr_bind_local_stream r info) | _ \<Rightarrow> i),
      i_unbind_local_stream = (\<lambda>i info. case i of BoxResponder r \<Rightarrow> BoxResponder (nr_unbind_local_stream r info) | _ \<Rightarrow> i),
      i_bind_remote_stream = (\<lambda>i info. case i of BoxGenerator g \<Rightarrow> BoxGenerator (ng_bind_remote_stream g info) | _ \<Rightarrow> i),
      i_unbind_remote_stream = (\<lambda>i info. case i of BoxGenerator g \<Rightarrow> BoxGenerator (ng_unbind_remote_stream g info) | _ \<Rightarrow> i)\<rparr>"

section \<open>The registry\<close>

datatype slot =
  CongestionControl | TwccSender | Pacer | NackResponder | FecEncoder | FecDecoder | NackGenerator | TwccReceiver
| Rfc8888 | ReceiverReport | SenderReport | IntervalPli | JitterBuffer | CustomSlot nat

fun slot_position :: "slot \<Rightarrow> nat" where
  "slot_position CongestionControl = 1000"
| "slot_position TwccSender = 2000"
| "slot_position Pacer = 3000"
| "slot_position NackResponder = 4000"
| "slot_position FecEncoder = 5000"
| "slot_position FecDecoder = 6000"
| "slot_position NackGenerator = 7000"
| "slot_position TwccReceiver = 8000"
| "slot_position Rfc8888 = 9000"
| "slot_position ReceiverReport = 10000"
| "slot_position SenderReport = 11000"
| "slot_position IntervalPli = 12000"
| "slot_position JitterBuffer = 13000"
| "slot_position (CustomSlot position) = position"

text \<open>An ordered map whose keys are compared by their position, as the entries in ascending order.\<close>

fun registry_with :: "(slot \<times> 'i) list \<Rightarrow> slot \<Rightarrow> 'i \<Rightarrow> (slot \<times> 'i) list" where
  "registry_with [] sl i = [(sl, i)]"
| "registry_with ((s, j) # reg) sl i =
     (if slot_position sl < slot_position s then (sl, i) # (s, j) # reg
      else if slot_position sl = slot_position s then (s, i) # reg
      else (s, j) # registry_with reg sl i)"

definition registry_build :: "('c noop_interceptor \<Rightarrow> 'i) \<Rightarrow> (slot \<times> 'i) list \<Rightarrow> ('i, 'c) chain" where
  "registry_build box reg = chain_new (map snd reg @ [box noop_new])"

section \<open>The order of a registry\<close>

text \<open>What a registry holds: the last registration at every position.\<close>

abbreviation by_position :: "(slot \<times> 'i) list \<Rightarrow> (nat \<times> 'i) list" where
  "by_position \<equiv> map (\<lambda>(sl, i). (slot_position sl, i))"

definition registered :: "(slot \<times> 'i) list \<Rightarrow> nat \<Rightarrow> 'i option" where
  "registered regs = map_of (rev (by_position regs))"

definition positions :: "(slot \<times> 'i) list \<Rightarrow> nat list" where
  "positions reg = map (slot_position \<circ> fst) reg"

definition registry_of :: "(slot \<times> 'i) list \<Rightarrow> (slot \<times> 'i) list" where
  "registry_of regs = foldl (\<lambda>reg (sl, i). registry_with reg sl i) [] regs"

lemma positions_simps [simp]: "positions [] = []" "positions ((sl, i) # reg) = slot_position sl # positions reg"
  "positions (regs @ regs') = positions regs @ positions regs'"
  by (simp_all add: positions_def)

lemma positions_with [simp]: "set (positions (registry_with reg sl i)) = insert (slot_position sl) (set (positions reg))"
  by (induction reg sl i rule: registry_with.induct) auto

lemma sorted_with: "sorted_wrt (<) (positions reg) \<Longrightarrow> sorted_wrt (<) (positions (registry_with reg sl i))"
  by (induction reg sl i rule: registry_with.induct) auto

lemma lookup_with:
  "sorted_wrt (<) (positions reg) \<Longrightarrow>
    map_of (by_position (registry_with reg sl i)) = (map_of (by_position reg))(slot_position sl \<mapsto> i)"
  by (induction reg sl i rule: registry_with.induct) (auto simp: fun_upd_twist)

lemma registry_of_spec:
  "sorted_wrt (<) (positions (registry_of regs)) \<and> set (positions (registry_of regs)) = set (positions regs) \<and>
    map_of (by_position (registry_of regs)) = registered regs"
proof (induction regs rule: rev_induct)
  case Nil
  show ?case by (simp add: registry_of_def registered_def)
next
  case (snoc r regs)
  obtain sl i where r: "r = (sl, i)" by fastforce
  have step: "registry_of (regs @ [(sl, i)]) = registry_with (registry_of regs) sl i" by (simp add: registry_of_def)
  have "registered (regs @ [(sl, i)]) = (registered regs)(slot_position sl \<mapsto> i)" by (simp add: registered_def)
  then show ?case
    using snoc sorted_with [of "registry_of regs" sl i] lookup_with [of "registry_of regs" sl i] by (simp add: r step)
qed

lemma values_by_position:
  "distinct (positions reg) \<Longrightarrow> map snd reg = map (the \<circ> map_of (by_position reg)) (positions reg)"
proof (induction reg)
  case (Cons e reg)
  obtain sl i where e: "e = (sl, i)" by fastforce
  have "map (the \<circ> map_of (by_position (e # reg))) (positions reg) = map (the \<circ> map_of (by_position reg)) (positions reg)"
    using Cons.prems by (intro map_cong) (auto simp: e)
  with Cons show ?case by (simp add: e)
qed simp

text \<open>C40: the registry fixes the order of a chain. Whatever is registered, in whatever order and with whatever
  repetitions, the chain holds the positions that were used in ascending distance from the wire, each with the
  interceptor that was registered there last, and ends with a fresh terminus.\<close>

theorem registry_fixes_order:
  "chain_interceptors (registry_build box (registry_of regs)) =
    map (the \<circ> registered regs) (sorted_list_of_set (set (positions regs))) @ [box noop_new]"
proof -
  let ?reg = "registry_of regs"
  have spec: "sorted_wrt (<) (positions ?reg)" "set (positions ?reg) = set (positions regs)"
    "map_of (by_position ?reg) = registered regs"
    using registry_of_spec by auto
  have "sorted_list_of_set (set (positions regs)) = positions ?reg"
    using spec(1,2) sorted_list_of_set.idem_if_sorted_distinct [of "positions ?reg"]
    by (simp add: strict_sorted_iff)
  moreover have "map snd ?reg = map (the \<circ> registered regs) (positions ?reg)"
    using values_by_position [of ?reg] spec(1,3) by (simp add: strict_sorted_iff)
  ultimately show ?thesis by (simp add: registry_build_def chain_new_def)
qed

section \<open>What passes through a walk\<close>

text \<open>What leaves a list of interceptors when \<open>belt\<close> is carried along it: each puts what it makes of the belt behind
  what it had waiting.\<close>

fun through :: "('s \<Rightarrow> 'm list) \<Rightarrow> ('s \<Rightarrow> 'm \<Rightarrow> 'm list) \<Rightarrow> 's list \<Rightarrow> 'm list \<Rightarrow> 'm list" where
  "through queue emit [] belt = belt"
| "through queue emit (i # is) belt = through queue emit is (queue i @ concat (map (emit i) belt))"

abbreviation passes :: "('s \<Rightarrow> 'm \<Rightarrow> 'm list) \<Rightarrow> 's list \<Rightarrow> 'm list \<Rightarrow> 'm list" where
  "passes \<equiv> through (\<lambda>_. [])"

lemma through_append: "through queue emit is (b @ b') = through queue emit is b @ passes emit is b'"
proof (induction "is" arbitrary: b b')
  case (Cons i "is")
  then show ?case using Cons [of "queue i @ concat (map (emit i) b)"] by simp
qed simp

lemma through_quiet: "\<forall>i\<in>set is. queue i = [] \<Longrightarrow> through queue emit is b = passes emit is b"
  by (induction "is" arbitrary: b) simp_all

lemma passes_emit: "map emit is = map emit is' \<Longrightarrow> passes emit is b = passes emit is' b"
proof (induction "is" arbitrary: is' b)
  case (Cons i "is")
  obtain j js where is': "is' = j # js" "emit i = emit j" "map emit is = map emit js" using Cons.prems by auto
  show ?case using Cons.IH [OF is'(3)] by (simp add: is'(1,2))
qed simp

lemma passes_Nil [simp]: "passes emit is [] = []"
  by (induction "is") simp_all

lemma passes_snoc: "passes emit (is @ [i]) b = concat (map (emit i) (passes emit is b))"
  by (induction "is" arbitrary: b) simp_all

text \<open>An interceptor in one direction, as the chain relies on it: what is handed in is turned into messages that wait
  behind the earlier ones, and polling takes them out one by one until none is left.\<close>

locale stage =
  fixes handle :: "'s \<Rightarrow> 'm \<Rightarrow> 's"
    and poll :: "'s \<Rightarrow> 'm option \<times> 's"
    and queue :: "'s \<Rightarrow> 'm list"
    and emit :: "'s \<Rightarrow> 'm \<Rightarrow> 'm list"
  assumes stage_handle: "queue (handle s m) = queue s @ emit s m"
    and emit_handle: "emit (handle s m) = emit s"
    and stage_empty: "queue s = [] \<Longrightarrow> \<exists>s'. poll s = (None, s') \<and> queue s' = [] \<and> emit s' = emit s"
    and stage_next: "queue s = m # q \<Longrightarrow> \<exists>s'. poll s = (Some m, s') \<and> queue s' = q \<and> emit s' = emit s"
begin

lemma collect_all: "\<exists>s'. collect poll s belt = Some (s', belt @ queue s) \<and> queue s' = [] \<and> emit s' = emit s"
proof (induction "queue s" arbitrary: s belt)
  case Nil
  obtain s' where "poll s = (None, s')" "queue s' = []" "emit s' = emit s"
    using stage_empty [OF Nil [symmetric]] by blast
  then show ?case by (subst collect.simps) (simp flip: Nil)
next
  case (Cons m q)
  obtain s' where s': "poll s = (Some m, s')" "queue s' = q" "emit s' = emit s"
    using stage_next [OF Cons.hyps(2) [symmetric]] by blast
  have "collect poll s belt = collect poll s' (belt @ [m])" by (subst collect.simps) (simp add: s'(1))
  moreover obtain s'' where "collect poll s' (belt @ [m]) = Some (s'', (belt @ [m]) @ queue s')" "queue s'' = []"
    "emit s'' = emit s'"
    using Cons.hyps(1) [OF s'(2) [symmetric]] by blast
  ultimately show ?case by (intro exI [of _ s'']) (simp add: s'(2,3) flip: Cons.hyps(2))
qed

lemma feed_all:
  "queue (feed (\<lambda>s m. (Ok (), handle s m)) s belt) = queue s @ concat (map (emit s) belt) \<and>
    emit (feed (\<lambda>s m. (Ok (), handle s m)) s belt) = emit s"
  unfolding feed_def by (induction belt arbitrary: s) (simp_all add: stage_handle emit_handle)

lemma walk_through:
  "\<exists>is'. walk (\<lambda>s m. (Ok (), handle s m)) poll is belt = Some (is', through queue emit is belt) \<and>
    (\<forall>i\<in>set is'. queue i = []) \<and> map emit is' = map emit is"
proof (induction "is" arbitrary: belt)
  case (Cons i "is")
  let ?fed = "feed (\<lambda>s m. (Ok (), handle s m)) i belt"
  obtain i' where i': "collect poll ?fed [] = Some (i', queue ?fed)" "queue i' = []" "emit i' = emit ?fed"
    using collect_all [of ?fed "[]"] by auto
  obtain is' where "walk (\<lambda>s m. (Ok (), handle s m)) poll is (queue ?fed) = Some (is', through queue emit is (queue ?fed))"
    "\<forall>i\<in>set is'. queue i = []" "map emit is' = map emit is"
    using Cons by blast
  with i' feed_all [of i belt] show ?case by (intro exI [of _ "i' # is'"]) simp
qed simp

end

section \<open>A chain is an interceptor\<close>

context stage
begin

lemma handle_all_stage:
  "queue (foldl handle s ms) = queue s @ concat (map (emit s) ms) \<and> emit (foldl handle s ms) = emit s"
  by (induction ms arbitrary: s) (simp_all add: stage_handle emit_handle)

lemma poll_all_stage: "queue s = ms \<Longrightarrow> poll_n poll (Suc (length ms)) s = map Some ms @ [None]"
proof (induction ms arbitrary: s)
  case Nil
  then show ?case using stage_empty by fastforce
next
  case (Cons m ms)
  then show ?case using stage_next [OF Cons.prems] by fastforce
qed

lemma runs_stage:
  "poll_n poll (Suc (length (queue s @ concat (map (emit s) ms)))) (foldl handle s ms) =
    map Some (queue s @ concat (map (emit s) ms)) @ [None]"
  using handle_all_stage by (intro poll_all_stage) blast

end

text \<open>What a chain has waiting in a direction: what it has put out, then what a walk would bring.\<close>

definition inbound :: "('i \<Rightarrow> 'c tagged_packet list) \<Rightarrow> ('i \<Rightarrow> 'c tagged_packet \<Rightarrow> 'c tagged_packet list) \<Rightarrow> ('i, 'c) chain \<Rightarrow>
    'c tagged_packet list" where
  "inbound queue emit c = read_outs c @ through queue emit (chain_interceptors c) (chain_belt c)"

definition outbound :: "('i \<Rightarrow> 'c tagged_packet list) \<Rightarrow> ('i \<Rightarrow> 'c tagged_packet \<Rightarrow> 'c tagged_packet list) \<Rightarrow> ('i, 'c) chain \<Rightarrow>
    'c tagged_packet list" where
  "outbound queue emit c = write_outs c @ through queue emit (rev (chain_interceptors c)) (chain_belt c)"

lemma walk_read_stage:
  assumes "stage handle poll queue emit" "i_handle_read ops = (\<lambda>i m. (Ok (), handle i m))" "i_poll_read ops = poll"
  shows "\<exists>c'. walk_read ops c msg = Some c' \<and> chain_belt c' = [] \<and> (\<forall>i\<in>set (chain_interceptors c'). queue i = []) \<and>
    read_outs c' = inbound queue emit c @ passes emit (chain_interceptors c) (case msg of None \<Rightarrow> [] | Some m \<Rightarrow> [m]) \<and>
    map emit (chain_interceptors c') = map emit (chain_interceptors c)"
  using stage.walk_through [OF assms(1), of "chain_interceptors c" "chain_belt c @ (case msg of None \<Rightarrow> [] | Some m \<Rightarrow> [m])"]
  by (auto simp: walk_read_def assms(2,3) inbound_def through_append)

lemma walk_write_stage:
  assumes "stage handle poll queue emit" "i_handle_write ops = (\<lambda>i m. (Ok (), handle i m))" "i_poll_write ops = poll"
  shows "\<exists>c'. walk_write ops c msg = Some c' \<and> chain_belt c' = [] \<and> (\<forall>i\<in>set (chain_interceptors c'). queue i = []) \<and>
    write_outs c' = outbound queue emit c @
      passes emit (rev (chain_interceptors c)) (case msg of None \<Rightarrow> [] | Some m \<Rightarrow> [m]) \<and>
    map emit (chain_interceptors c') = map emit (chain_interceptors c)"
  using stage.walk_through
      [OF assms(1), of "rev (chain_interceptors c)" "chain_belt c @ (case msg of None \<Rightarrow> [] | Some m \<Rightarrow> [m])"]
  by (auto simp: walk_write_def assms(2,3) outbound_def through_append rev_swap simp flip: rev_map)

lemma inbound_quiet:
  "chain_belt c = [] \<Longrightarrow> \<forall>i\<in>set (chain_interceptors c). queue i = [] \<Longrightarrow> inbound queue emit c = read_outs c"
  by (simp add: inbound_def through_quiet)

lemma outbound_quiet:
  "chain_belt c = [] \<Longrightarrow> \<forall>i\<in>set (chain_interceptors c). queue i = [] \<Longrightarrow> outbound queue emit c = write_outs c"
  by (simp add: outbound_def through_quiet)

lemma chain_handle_read_returns:
  assumes "stage handle poll queue emit" "i_handle_read ops = (\<lambda>i m. (Ok (), handle i m))" "i_poll_read ops = poll"
  shows "\<exists>c'. chain_handle_read ops c m = Some (Ok (), c')" "\<exists>r. chain_poll_read ops c = Some r"
  using walk_read_stage [OF assms, of c "Some m"] walk_read_stage [OF assms, of c None]
  by (auto simp: chain_handle_read_def chain_poll_read_def)

lemma chain_read_stage:
  assumes st: "stage handle poll queue emit" "i_handle_read ops = (\<lambda>i m. (Ok (), handle i m))" "i_poll_read ops = poll"
  shows "stage (\<lambda>c m. snd (the (chain_handle_read ops c m))) (\<lambda>c. the (chain_poll_read ops c)) (inbound queue emit)
    (\<lambda>c m. passes emit (chain_interceptors c) [m])"
proof
  fix c :: "('a, 'b) chain" and m q
  obtain c' where w: "walk_read ops c (Some m) = Some c'" "chain_belt c' = []" "\<forall>i\<in>set (chain_interceptors c'). queue i = []"
    "read_outs c' = inbound queue emit c @ passes emit (chain_interceptors c) [m]"
    "map emit (chain_interceptors c') = map emit (chain_interceptors c)"
    using walk_read_stage [OF st, of c "Some m"] by auto
  show "inbound queue emit (snd (the (chain_handle_read ops c m))) = inbound queue emit c @ passes emit (chain_interceptors c) [m]"
    using inbound_quiet [OF w(2,3)] by (simp add: chain_handle_read_def w(1,4))
  have "passes emit (chain_interceptors c') [m] = passes emit (chain_interceptors c) [m]" for m
    using w(5) by (intro passes_emit) (simp flip: rev_map)
  then show "(\<lambda>k. passes emit (chain_interceptors (snd (the (chain_handle_read ops c m)))) [k]) = (\<lambda>k. passes emit (chain_interceptors c) [k])"
    by (simp add: chain_handle_read_def w(1))
  obtain c' where v: "walk_read ops c None = Some c'" "chain_belt c' = []" "\<forall>i\<in>set (chain_interceptors c'). queue i = []"
    "read_outs c' = inbound queue emit c" "map emit (chain_interceptors c') = map emit (chain_interceptors c)"
    using walk_read_stage [OF st, of c None] by auto
  have kept: "passes emit (chain_interceptors c') [m] = passes emit (chain_interceptors c) [m]" for m
    using v(5) by (intro passes_emit) (simp flip: rev_map)
  show "\<exists>s'. the (chain_poll_read ops c) = (None, s') \<and> inbound queue emit s' = [] \<and>
      (\<lambda>m. passes emit (chain_interceptors s') [m]) = (\<lambda>m. passes emit (chain_interceptors c) [m])"
    if "inbound queue emit c = []"
    using that inbound_quiet [OF v(2,3)] v(1,4) kept by (auto simp: chain_poll_read_def inbound_def)
  show "\<exists>s'. the (chain_poll_read ops c) = (Some m, s') \<and> inbound queue emit s' = q \<and>
      (\<lambda>m. passes emit (chain_interceptors s') [m]) = (\<lambda>m. passes emit (chain_interceptors c) [m])"
    if "inbound queue emit c = m # q"
  proof (cases "read_outs c")
    case Nil
    have "chain_poll_read ops c = Some (Some m, c'\<lparr>read_outs := q\<rparr>)" by (simp add: chain_poll_read_def Nil v(1,4) that)
    moreover have "inbound queue emit (c'\<lparr>read_outs := q\<rparr>) = q" using v(2,3) by (simp add: inbound_quiet)
    ultimately show ?thesis using kept by (intro exI [of _ "c'\<lparr>read_outs := q\<rparr>"]) simp
  next
    case (Cons x xs)
    then show ?thesis using that by (simp add: chain_poll_read_def inbound_def)
  qed
qed

lemma chain_handle_write_returns:
  assumes "stage handle poll queue emit" "i_handle_write ops = (\<lambda>i m. (Ok (), handle i m))" "i_poll_write ops = poll"
  shows "\<exists>c'. chain_handle_write ops c m = Some (Ok (), c')" "\<exists>r. chain_poll_write ops c = Some r"
  using walk_write_stage [OF assms, of c "Some m"] walk_write_stage [OF assms, of c None]
  by (auto simp: chain_handle_write_def chain_poll_write_def)

lemma chain_write_stage:
  assumes st: "stage handle poll queue emit" "i_handle_write ops = (\<lambda>i m. (Ok (), handle i m))" "i_poll_write ops = poll"
  shows "stage (\<lambda>c m. snd (the (chain_handle_write ops c m))) (\<lambda>c. the (chain_poll_write ops c)) (outbound queue emit)
    (\<lambda>c m. passes emit (rev (chain_interceptors c)) [m])"
proof
  fix c :: "('a, 'b) chain" and m q
  obtain c' where w: "walk_write ops c (Some m) = Some c'" "chain_belt c' = []" "\<forall>i\<in>set (chain_interceptors c'). queue i = []"
    "write_outs c' = outbound queue emit c @ passes emit (rev (chain_interceptors c)) [m]"
    "map emit (chain_interceptors c') = map emit (chain_interceptors c)"
    using walk_write_stage [OF st, of c "Some m"] by auto
  show "outbound queue emit (snd (the (chain_handle_write ops c m))) = outbound queue emit c @ passes emit (rev (chain_interceptors c)) [m]"
    using outbound_quiet [OF w(2,3)] by (simp add: chain_handle_write_def w(1,4))
  have "passes emit (rev (chain_interceptors c')) [m] = passes emit (rev (chain_interceptors c)) [m]" for m
    using w(5) by (intro passes_emit) (simp flip: rev_map)
  then show "(\<lambda>k. passes emit (rev (chain_interceptors (snd (the (chain_handle_write ops c m))))) [k]) = (\<lambda>k. passes emit (rev (chain_interceptors c)) [k])"
    by (simp add: chain_handle_write_def w(1))
  obtain c' where v: "walk_write ops c None = Some c'" "chain_belt c' = []" "\<forall>i\<in>set (chain_interceptors c'). queue i = []"
    "write_outs c' = outbound queue emit c" "map emit (chain_interceptors c') = map emit (chain_interceptors c)"
    using walk_write_stage [OF st, of c None] by auto
  have kept: "passes emit (rev (chain_interceptors c')) [m] = passes emit (rev (chain_interceptors c)) [m]" for m
    using v(5) by (intro passes_emit) (simp flip: rev_map)
  show "\<exists>s'. the (chain_poll_write ops c) = (None, s') \<and> outbound queue emit s' = [] \<and>
      (\<lambda>m. passes emit (rev (chain_interceptors s')) [m]) = (\<lambda>m. passes emit (rev (chain_interceptors c)) [m])"
    if "outbound queue emit c = []"
    using that outbound_quiet [OF v(2,3)] v(1,4) kept by (auto simp: chain_poll_write_def outbound_def)
  show "\<exists>s'. the (chain_poll_write ops c) = (Some m, s') \<and> outbound queue emit s' = q \<and>
      (\<lambda>m. passes emit (rev (chain_interceptors s')) [m]) = (\<lambda>m. passes emit (rev (chain_interceptors c)) [m])"
    if "outbound queue emit c = m # q"
  proof (cases "write_outs c")
    case Nil
    have "chain_poll_write ops c = Some (Some m, c'\<lparr>write_outs := q\<rparr>)" by (simp add: chain_poll_write_def Nil v(1,4) that)
    moreover have "outbound queue emit (c'\<lparr>write_outs := q\<rparr>) = q" using v(2,3) by (simp add: outbound_quiet)
    ultimately show ?thesis using kept by (intro exI [of _ "c'\<lparr>write_outs := q\<rparr>"]) simp
  next
    case (Cons x xs)
    then show ?thesis using that by (simp add: chain_poll_write_def outbound_def)
  qed
qed

section \<open>The modelled interceptors in a chain\<close>

sublocale forwarder \<subseteq> st: stage handle poll queue "\<lambda>_ m. [m]"
proof
  show "\<exists>s'. poll s = (None, s') \<and> queue s' = [] \<and> (\<lambda>m. [m]) = (\<lambda>m. [m])" if "queue s = []" for s
    using poll_empty [OF that] that by simp
  show "\<exists>s'. poll s = (Some m, s') \<and> queue s' = q \<and> (\<lambda>m. [m]) = (\<lambda>m. [m])" if "queue s = m # q" for s m q
    using poll_next [OF that] by (cases "poll s") simp
qed (simp_all add: handle_queue)

interpretation ni_outbound: forwarder ni_handle_write ni_poll_write ni_write_queue
  by unfold_locales (auto simp: ni_handle_write_def ni_poll_write_def)

text \<open>What the terminus makes of an incoming message: media and marked control traffic pass, other control traffic
  ends here, its attributes travelling on with an empty packet.\<close>

definition delivered :: "'c tagged_packet \<Rightarrow> 'c tagged_packet list" where
  "delivered msg =
     (if (\<exists>p. msg_packet msg = Rtp p) \<or> DeliverToApplication \<in> set (msg_attributes msg) then [msg]
      else if msg_attributes msg = [] then [] else [msg\<lparr>msg_packet := Rtcp []\<rparr>])"

lemma has_deliver [simp]: "has_attribute msg DeliverToApplication \<longleftrightarrow> DeliverToApplication \<in> set (msg_attributes msg)"
proof -
  have "same_variant held DeliverToApplication \<longleftrightarrow> held = DeliverToApplication" for held :: "'a attribute"
    by (cases held) simp_all
  then show ?thesis by (auto simp: has_attribute_def list_ex_iff)
qed

interpretation ni_inbound: stage ni_handle_read ni_poll_read ni_read_queue "\<lambda>_. delivered"
  by unfold_locales (auto simp: ni_handle_read_def ni_poll_read_def delivered_def split: packet.splits)

lemma delivered_again: "concat (map delivered (delivered msg)) = delivered msg"
  by (auto simp: delivered_def)

fun boxed_read_queue :: "'c boxed \<Rightarrow> 'c tagged_packet list" where
  "boxed_read_queue (BoxGenerator g) = ng_read_queue g"
| "boxed_read_queue (BoxResponder r) = nr_read_queue r"
| "boxed_read_queue (BoxNoop n) = ni_read_queue n"

fun boxed_write_queue :: "'c boxed \<Rightarrow> 'c tagged_packet list" where
  "boxed_write_queue (BoxGenerator g) = ng_write_queue g"
| "boxed_write_queue (BoxResponder r) = nr_write_queue r"
| "boxed_write_queue (BoxNoop n) = ni_write_queue n"

fun boxed_emit :: "'c boxed \<Rightarrow> 'c tagged_packet \<Rightarrow> 'c tagged_packet list" where
  "boxed_emit (BoxNoop _) msg = delivered msg"
| "boxed_emit _ msg = [msg]"

lemma boxed_emit_simps [simp]:
  "boxed_emit (BoxNoop n) = delivered" "boxed_emit (BoxGenerator g) = (\<lambda>m. [m])" "boxed_emit (BoxResponder r) = (\<lambda>m. [m])"
  by (simp_all add: fun_eq_iff)

interpretation boxed_in: stage boxed_handle_read boxed_poll_read boxed_read_queue boxed_emit
proof
  fix i :: "'c boxed" and m q
  show "boxed_read_queue (boxed_handle_read i m) = boxed_read_queue i @ boxed_emit i m"
    by (cases i) (simp_all add: ng_inbound.handle_queue nr_inbound.handle_queue ni_inbound.stage_handle)
  show "boxed_emit (boxed_handle_read i m) = boxed_emit i" by (cases i) simp_all
  show "\<exists>i'. boxed_poll_read i = (None, i') \<and> boxed_read_queue i' = [] \<and> boxed_emit i' = boxed_emit i"
    if "boxed_read_queue i = []"
    using that by (cases i) (auto simp: ng_poll_read_def nr_poll_read_def ni_poll_read_def)
  show "\<exists>i'. boxed_poll_read i = (Some m, i') \<and> boxed_read_queue i' = q \<and> boxed_emit i' = boxed_emit i"
    if "boxed_read_queue i = m # q"
    using that by (cases i) (auto simp: ng_poll_read_def nr_poll_read_def ni_poll_read_def)
qed

interpretation boxed_out: forwarder boxed_handle_write boxed_poll_write boxed_write_queue
proof
  fix i :: "'c boxed" and m q
  show "boxed_write_queue (boxed_handle_write i m) = boxed_write_queue i @ [m]"
    by (cases i) (simp_all add: ng_outbound.handle_queue nr_outbound.handle_queue ni_outbound.handle_queue)
  show "boxed_poll_write i = (None, i)" if "boxed_write_queue i = []"
    using that by (cases i) (auto simp: ng_poll_write_def nr_poll_write_def ni_poll_write_def)
  show "fst (boxed_poll_write i) = Some m \<and> boxed_write_queue (snd (boxed_poll_write i)) = q"
    if "boxed_write_queue i = m # q"
    using that by (cases i) (auto simp: ng_poll_write_def nr_poll_write_def ni_poll_write_def)
qed

lemma boxed_ops_read:
  "i_handle_read (boxed_ops dflt) = (\<lambda>i m. (Ok (), boxed_handle_read i m))" "i_poll_read (boxed_ops dflt) = boxed_poll_read"
  by (simp_all add: boxed_ops_def)

lemma boxed_ops_write:
  "i_handle_write (boxed_ops dflt) = (\<lambda>i m. (Ok (), boxed_handle_write i m))" "i_poll_write (boxed_ops dflt) = boxed_poll_write"
  by (simp_all add: boxed_ops_def)

interpretation chain_in: stage "\<lambda>c m. snd (the (chain_handle_read (boxed_ops dflt) c m))"
  "\<lambda>c. the (chain_poll_read (boxed_ops dflt) c)" "inbound boxed_read_queue boxed_emit"
  "\<lambda>c m. passes boxed_emit (chain_interceptors c) [m]" for dflt
  by (rule chain_read_stage [OF boxed_in.stage_axioms boxed_ops_read])

interpretation chain_out: stage "\<lambda>c m. snd (the (chain_handle_write (boxed_ops dflt) c m))"
  "\<lambda>c. the (chain_poll_write (boxed_ops dflt) c)" "outbound boxed_write_queue (\<lambda>_ m. [m])"
  "\<lambda>c m. passes (\<lambda>_ m. [m]) (rev (chain_interceptors c)) [m]" for dflt
  by (rule chain_write_stage [OF boxed_out.st.stage_axioms boxed_ops_write])

section \<open>Driving a chain\<close>

text \<open>A driver hands in messages, each of which must be taken without an error, and polls \<open>n\<close> times.\<close>

fun drive :: "('s \<Rightarrow> 'm \<Rightarrow> (unit result \<times> 's) option) \<Rightarrow> 's \<Rightarrow> 'm list \<Rightarrow> 's option" where
  "drive handle s [] = Some s"
| "drive handle s (m # ms) = (case handle s m of Some (Inr _, s) \<Rightarrow> drive handle s ms | _ \<Rightarrow> None)"

fun polls :: "('s \<Rightarrow> ('m option \<times> 's) option) \<Rightarrow> nat \<Rightarrow> 's \<Rightarrow> 'm option list option" where
  "polls poll 0 s = Some []"
| "polls poll (Suc n) s = (case poll s of None \<Rightarrow> None | Some (m, s) \<Rightarrow> map_option ((#) m) (polls poll n s))"

lemma drive_total:
  "(\<And>s m. \<exists>s'. handle s m = Some (Ok (), s')) \<Longrightarrow> drive handle s ms = Some (foldl (\<lambda>s m. snd (the (handle s m))) s ms)"
proof (induction ms arbitrary: s)
  case (Cons m ms)
  obtain s' where "handle s m = Some (Ok (), s')" using Cons.prems by blast
  then show ?case using Cons by simp
qed simp

lemma drive_snoc: "drive handle s (ms @ [m]) = Option.bind (drive handle s ms) (\<lambda>s. drive handle s [m])"
proof (induction ms arbitrary: s)
  case (Cons m' ms)
  then show ?case by (auto split: option.splits sum.splits)
qed simp

lemma polls_total: "(\<And>s. \<exists>r. poll s = Some r) \<Longrightarrow> polls poll n s = Some (poll_n (\<lambda>s. the (poll s)) n s)"
proof (induction n arbitrary: s)
  case (Suc n)
  obtain m s' where "poll s = Some (m, s')" using Suc.prems by fast
  then show ?case using Suc by simp
qed simp

lemmas drive_reads = drive_total [OF chain_handle_read_returns(1) [OF boxed_in.stage_axioms boxed_ops_read]]
lemmas polls_reads = polls_total [OF chain_handle_read_returns(2) [OF boxed_in.stage_axioms boxed_ops_read]]
lemmas drive_writes = drive_total [OF chain_handle_write_returns(1) [OF boxed_out.st.stage_axioms boxed_ops_write]]
lemmas polls_writes = polls_total [OF chain_handle_write_returns(2) [OF boxed_out.st.stage_axioms boxed_ops_write]]

lemma passes_forward: "passes (\<lambda>_ m. [m]) is b = b"
  by (induction "is" arbitrary: b) simp_all

lemma through_forward: "through queue (\<lambda>_ m. [m]) (rev is) b = concat (map queue is) @ b"
  by (induction "is" arbitrary: b rule: rev_induct) simp_all

lemma delivered_all_again: "concat (map delivered (concat (map delivered b))) = concat (map delivered b)"
  by (induction b) (simp_all add: delivered_again)

lemma passes_delivered: "passes boxed_emit (is @ [BoxNoop n]) b = concat (map delivered b)"
proof (induction "is" arbitrary: b)
  case (Cons i "is")
  then show ?case by (cases i) (simp_all add: delivered_all_again)
qed simp

text \<open>C39: the inbound path of a chain. In a chain that ends with the terminus, whatever NACK interceptors it has and
  whatever state they are in, every operation returns, and the messages handed in come out in their order: media
  and control packets that are marked for the application as they are, control packets with other attributes as
  empty carriers of these, all others not at all. Then there is nothing left to read.\<close>

theorem chain_delivers:
  assumes "chain_interceptors c = is @ [BoxNoop n]" "read_outs c = []" "chain_belt c = []"
    "\<forall>i\<in>set (chain_interceptors c). boxed_read_queue i = []"
  shows "Option.bind (drive (chain_handle_read (boxed_ops dflt)) c ms)
      (polls (chain_poll_read (boxed_ops dflt)) (Suc (length (concat (map delivered ms))))) =
    Some (map Some (concat (map delivered ms)) @ [None])"
proof -
  let ?emit = "\<lambda>m. passes boxed_emit (chain_interceptors c) [m]"
  have "concat (map ?emit ms) = concat (map delivered ms)" by (simp add: assms(1) passes_delivered)
  moreover have "inbound boxed_read_queue boxed_emit c = []" using inbound_quiet [OF assms(3,4)] assms(2) by simp
  ultimately show ?thesis
    using chain_in.runs_stage [of dflt c ms] by (simp add: drive_reads polls_reads del: poll_n.simps polls.simps)
qed

lemma chain_writes:
  assumes "chain_belt c = []" "out = write_outs c @ concat (map boxed_write_queue (chain_interceptors c)) @ ms"
  shows "Option.bind (drive (chain_handle_write (boxed_ops dflt)) c ms)
      (polls (chain_poll_write (boxed_ops dflt)) (Suc (length out))) = Some (map Some out @ [None])"
proof -
  let ?queue = "outbound boxed_write_queue (\<lambda>_ m. [m])"
  have "?queue c @ concat (map (\<lambda>m. passes (\<lambda>_ m. [m]) (rev (chain_interceptors c)) [m]) ms) = out"
    by (simp add: outbound_def through_forward passes_forward assms)
  then show ?thesis
    using chain_out.runs_stage [of dflt c ms] by (simp add: drive_writes polls_writes del: poll_n.simps polls.simps)
qed

section \<open>What incoming messages do to the outbound path\<close>

fun quiet :: "'c boxed \<Rightarrow> 'c boxed" where
  "quiet (BoxGenerator g) = BoxGenerator (g\<lparr>ng_read_queue := []\<rparr>)"
| "quiet (BoxResponder r) = BoxResponder (r\<lparr>nr_read_queue := []\<rparr>)"
| "quiet (BoxNoop n) = BoxNoop (n\<lparr>ni_read_queue := []\<rparr>)"

lemma quiet_queues [simp]: "boxed_read_queue (quiet i) = []" "boxed_write_queue (quiet i) = boxed_write_queue i"
  by (cases i; simp)+

lemma quiet_idle: "boxed_read_queue i = [] \<Longrightarrow> quiet i = i"
  by (cases i) simp_all

lemma quiet_noop [simp]: "quiet i \<in> range BoxNoop \<longleftrightarrow> i \<in> range BoxNoop" "boxed_handle_read i m \<in> range BoxNoop \<longleftrightarrow> i \<in> range BoxNoop"
  by (cases i; auto)+

lemma poll_boxed:
  "boxed_read_queue i = m # q \<Longrightarrow> \<exists>i'. boxed_poll_read i = (Some m, i') \<and> boxed_read_queue i' = q \<and> quiet i' = quiet i"
  by (cases i) (auto simp: ng_poll_read_def nr_poll_read_def ni_poll_read_def)

lemma collect_boxed: "collect boxed_poll_read i b = Some (quiet i, b @ boxed_read_queue i)"
proof (induction "boxed_read_queue i" arbitrary: i b)
  case Nil
  then have "boxed_poll_read i = (None, i)"
    by (cases i) (simp_all add: ng_poll_read_def nr_poll_read_def ni_poll_read_def)
  then show ?case using quiet_idle [of i] by (subst collect.simps) (simp flip: Nil)
next
  case (Cons m q)
  obtain i' where i': "boxed_poll_read i = (Some m, i')" "boxed_read_queue i' = q" "quiet i' = quiet i"
    using poll_boxed [OF Cons.hyps(2) [symmetric]] by blast
  have "collect boxed_poll_read i b = collect boxed_poll_read i' (b @ [m])" by (subst collect.simps) (simp add: i'(1))
  also have "\<dots> = Some (quiet i', (b @ [m]) @ boxed_read_queue i')" by (rule Cons.hyps(1) [OF i'(2) [symmetric]])
  finally show ?case by (simp add: i'(2,3) flip: Cons.hyps(2))
qed

lemma handle_nack_quiet: "handle_nack (r\<lparr>nr_read_queue := q\<rparr>) now nack = (handle_nack r now nack)\<lparr>nr_read_queue := q\<rparr>"
  by (simp add: handle_nack_def Let_def split: option.splits prod.splits)

lemma handle_nacks_quiet:
  "foldl (\<lambda>self p. case p of TransportLayerNackPacket nack \<Rightarrow> handle_nack self now nack | _ \<Rightarrow> self) (r\<lparr>nr_read_queue := q\<rparr>) ps =
    (foldl (\<lambda>self p. case p of TransportLayerNackPacket nack \<Rightarrow> handle_nack self now nack | _ \<Rightarrow> self) r ps)\<lparr>nr_read_queue := q\<rparr>"
proof (induction ps arbitrary: r)
  case (Cons p ps)
  then show ?case by (cases p) (simp_all add: handle_nack_quiet)
qed simp

lemma quiet_handle: "quiet (boxed_handle_read (quiet i) m) = quiet (boxed_handle_read i m)"
proof (cases i)
  case (BoxGenerator g)
  then show ?thesis by (simp add: ng_handle_read_def Let_def split: packet.splits option.splits)
next
  case (BoxResponder r)
  then show ?thesis by (simp add: nr_handle_read_def Let_def handle_nacks_quiet split: packet.splits)
next
  case (BoxNoop n)
  then show ?thesis by (simp add: ni_handle_read_def split: packet.splits)
qed

text \<open>An interceptor before the terminus hands on what it gets, so each of them sees every message.\<close>

abbreviation seen :: "'c tagged_packet list \<Rightarrow> 'c boxed \<Rightarrow> 'c boxed" where
  "seen ms i \<equiv> quiet (foldl boxed_handle_read i ms)"

lemma seen_noop: "foldl boxed_handle_read i ms \<in> range BoxNoop \<longleftrightarrow> i \<in> range BoxNoop"
  by (induction ms arbitrary: i) simp_all

lemma handle_forwards:
  "i \<notin> range BoxNoop \<Longrightarrow> boxed_read_queue (boxed_handle_read i m) = boxed_read_queue i @ [m]"
  by (cases i) (auto simp: ng_inbound.handle_queue nr_inbound.handle_queue)

lemma walk_seen:
  "\<forall>i\<in>set is. i \<notin> range BoxNoop \<and> boxed_read_queue i = [] \<Longrightarrow>
    \<exists>n'. walk (\<lambda>i m. (Ok (), boxed_handle_read i m)) boxed_poll_read (is @ [BoxNoop n]) [m] =
      Some (map (\<lambda>i. quiet (boxed_handle_read i m)) is @ [BoxNoop n'], ni_read_queue n @ delivered m) \<and>
    ni_write_queue n' = ni_write_queue n"
proof (induction "is")
  case Nil
  have "ni_write_queue (ni_handle_read n m) = ni_write_queue n" by (simp add: ni_handle_read_def split: packet.splits)
  then show ?case by (simp add: feed_def collect_boxed ni_inbound.stage_handle)
next
  case (Cons i "is")
  then show ?case by (auto simp: feed_def collect_boxed handle_forwards)
qed

lemma drive_seen:
  assumes "chain_interceptors c = is @ [BoxNoop n]" "chain_belt c = []"
    "\<forall>i\<in>set is. i \<notin> range BoxNoop \<and> boxed_read_queue i = []"
  shows "\<exists>c' n'. drive (chain_handle_read (boxed_ops dflt)) c ms = Some c' \<and> chain_belt c' = [] \<and>
    chain_interceptors c' = map (seen ms) is @ [BoxNoop n'] \<and> ni_write_queue n' = ni_write_queue n \<and>
    write_outs c' = write_outs c"
proof (induction ms rule: rev_induct)
  case Nil
  have "map (seen []) is = is" using assms(3) by (simp add: quiet_idle map_idI)
  then show ?case using assms(1,2) by simp
next
  case (snoc m ms)
  then obtain c' n' where c': "drive (chain_handle_read (boxed_ops dflt)) c ms = Some c'" "chain_belt c' = []"
    "chain_interceptors c' = map (seen ms) is @ [BoxNoop n']" "ni_write_queue n' = ni_write_queue n"
    "write_outs c' = write_outs c" by blast
  have "\<forall>i\<in>set (map (seen ms) is). i \<notin> range BoxNoop \<and> boxed_read_queue i = []"
    using assms(3) by (simp add: seen_noop)
  from walk_seen [OF this, of n' m] obtain n'' where
    "walk (\<lambda>i m. (Ok (), boxed_handle_read i m)) boxed_poll_read (chain_interceptors c') [m] =
      Some (map (seen (ms @ [m])) is @ [BoxNoop n''], ni_read_queue n' @ delivered m)"
    "ni_write_queue n'' = ni_write_queue n"
    using c'(3,4) by (auto simp: quiet_handle comp_def)
  then have "chain_handle_read (boxed_ops dflt) c' m = Some (Ok (), c'\<lparr>chain_interceptors := map (seen (ms @ [m])) is @
      [BoxNoop n''], read_outs := read_outs c' @ ni_read_queue n' @ delivered m, chain_belt := []\<rparr>)"
    by (simp add: chain_handle_read_def walk_read_def boxed_ops_read c'(2))
  then show ?case using c'(1,5) \<open>ni_write_queue n'' = ni_write_queue n\<close> by (simp add: drive_snoc)
qed

text \<open>C38: the outbound path of a chain loses, repeats and reorders nothing, and what arrives is answered. After any
  messages have come in and any others have been handed in to be sent, a driver polls what the chain had already
  put out, then what each interceptor has waiting once it has seen every message that came in, such as the
  retransmissions that a responder owes for the requests among them, the interceptor closest to the wire first,
  then the messages to be sent in their order, and then nothing.\<close>

theorem chain_sends_all:
  assumes "chain_interceptors c = is @ [BoxNoop n]" "chain_belt c = []"
    "\<forall>i\<in>set is. i \<notin> range BoxNoop \<and> boxed_read_queue i = []"
    "out = write_outs c @ concat (map (\<lambda>i. boxed_write_queue (foldl boxed_handle_read i ms)) is) @ ni_write_queue n @ ws"
  shows "(do {
      c \<leftarrow> drive (chain_handle_read (boxed_ops dflt)) c ms;
      c \<leftarrow> drive (chain_handle_write (boxed_ops dflt)) c ws;
      polls (chain_poll_write (boxed_ops dflt)) (Suc (length out)) c }) = Some (map Some out @ [None])"
proof -
  obtain c' n' where c': "drive (chain_handle_read (boxed_ops dflt)) c ms = Some c'" "chain_belt c' = []"
    "chain_interceptors c' = map (seen ms) is @ [BoxNoop n']" "ni_write_queue n' = ni_write_queue n"
    "write_outs c' = write_outs c"
    using drive_seen [OF assms(1-3)] by blast
  have "out = write_outs c' @ concat (map boxed_write_queue (chain_interceptors c')) @ ws"
    by (simp add: assms(4) c'(3,4,5) comp_def)
  from chain_writes [OF c'(2) this] show ?thesis by (simp add: c'(1) del: polls.simps)
qed

section \<open>A chain with both NACK interceptors\<close>

definition example_chain :: "(unit boxed, unit) chain" where
  "example_chain = registry_build BoxNoop (registry_of
     [(NackGenerator, BoxGenerator (nack_generator_new 64 100 0 10 1)),
      (NackResponder, BoxResponder (nack_responder_new 64 \<lparr>max_bytes = 1000, max_age = None\<rparr>))])"

definition example_message :: "packet \<Rightarrow> unit tagged_packet" where
  "example_message p = \<lparr>msg_now = 0, msg_transport = transport_context_default, msg_attributes = [], msg_packet = p\<rparr>"

definition example_defaults :: "unit protocol_defaults" where
  "example_defaults = \<lparr>default_handle_timeout = (\<lambda>i _. (Ok (), i)), default_poll_timeout = (\<lambda>i. (None, i)),
     default_close = (\<lambda>i. (Ok (), i))\<rparr>"

lemma example_chain_simps:
  "chain_interceptors example_chain =
    [BoxResponder (nack_responder_new 64 \<lparr>max_bytes = 1000, max_age = None\<rparr>),
     BoxGenerator (nack_generator_new 64 100 0 10 1)] @ [BoxNoop noop_new]"
  "chain_belt example_chain = []" "read_outs example_chain = []" "write_outs example_chain = []"
  by (simp_all add: example_chain_def registry_build_def registry_of_def chain_new_def)

lemma chain_delivers_witness:
  "Option.bind (drive (chain_handle_read (boxed_ops example_defaults)) example_chain
        [example_message (Rtcp []), example_message (Rtp \<lparr>pkt_header = rtp_header_default, pkt_payload = [7]\<rparr>)])
      (polls (chain_poll_read (boxed_ops example_defaults)) 2) =
    Some [Some (example_message (Rtp \<lparr>pkt_header = rtp_header_default, pkt_payload = [7]\<rparr>)), None]"
proof -
  let ?ms = "[example_message (Rtcp []), example_message (Rtp \<lparr>pkt_header = rtp_header_default, pkt_payload = [7]\<rparr>)]"
  have quiet: "\<forall>i\<in>set (chain_interceptors example_chain). boxed_read_queue i = []"
    by (simp add: example_chain_simps nack_responder_new_def nack_generator_new_def noop_new_def)
  have out: "delivered (?ms ! 0) = []" "delivered (?ms ! 1) = [?ms ! 1]"
    by (simp_all add: delivered_def example_message_def)
  show ?thesis
    using chain_delivers [OF example_chain_simps(1,3,2) quiet, of example_defaults ?ms]
    by (simp add: out [simplified] numeral_2_eq_2 del: polls.simps drive.simps)
qed

lemma chain_sends_all_witness:
  "(do {
      c \<leftarrow> drive (chain_handle_read (boxed_ops example_defaults)) example_chain [];
      c \<leftarrow> drive (chain_handle_write (boxed_ops example_defaults)) c [example_message (Rtcp [])];
      polls (chain_poll_write (boxed_ops example_defaults)) 2 c }) = Some [Some (example_message (Rtcp [])), None]"
proof -
  let ?is = "[BoxResponder (nack_responder_new 64 \<lparr>max_bytes = 1000, max_age = None\<rparr>),
    BoxGenerator (nack_generator_new 64 100 0 10 1)] :: unit boxed list"
  have quiet: "\<forall>i\<in>set ?is. i \<notin> range BoxNoop \<and> boxed_read_queue i = []"
    by (auto simp: nack_responder_new_def nack_generator_new_def)
  have out: "[example_message (Rtcp [])] = write_outs example_chain @
      concat (map (\<lambda>i. boxed_write_queue (foldl boxed_handle_read i [])) ?is) @ ni_write_queue noop_new @
      [example_message (Rtcp [])]"
    by (simp add: example_chain_simps nack_responder_new_def nack_generator_new_def noop_new_def)
  show ?thesis
    using chain_sends_all [OF example_chain_simps(1,2) quiet out, of example_defaults]
    by (simp add: numeral_2_eq_2 del: polls.simps drive.simps)
qed

end
