(* ===== verification/Fixed_Big_Int.thy ===== *)
theory Fixed_Big_Int
  imports Rtc_Prelude
begin

text \<open>
  The bit mask of the replay detectors (\<open>rtc-shared/src/replay_detector/fixed_big_int/mod.rs\<close>): a
  fixed number of bits in 64-bit words with a left shift across them.

  The locale \<open>bit_window\<close> is what a sliding window needs of its mask: reading, setting, and shifting
  as on a set of positions below the size. \<open>FixedBigInt\<close> meets it for the sizes whose remainder
  modulo 64 is at most 32; for the others the shift loses bits.
\<close>

unbundle bit_operations_syntax

section \<open>Definitions\<close>

record fixed_big_int =
  fbi_bits :: "u64 list"
  fbi_n :: nat
  fbi_msb_mask :: u64

definition fbi_new :: "nat \<Rightarrow> fixed_big_int" where
  "fbi_new n =
     (let chunk_size = (n + 63) div 64; chunk_size = (if chunk_size = 0 then 1 else chunk_size) in
      \<lparr>fbi_bits = replicate chunk_size 0, fbi_n = n,
       fbi_msb_mask = (if n mod 64 = 0 then 0xFFFFFFFFFFFFFFFF else push_bit (64 - n mod 64) 1 - 1)\<rparr>)"

text \<open>The value that one round of the shift loop stores at the position \<open>i\<close>.\<close>

definition fbi_lsh_word :: "nat \<Rightarrow> u64 list \<Rightarrow> nat \<Rightarrow> u64" where
  "fbi_lsh_word n bits i =
     (let n_chunk = n div 64; n_n = n mod 64;
          carry =
            (if i \<ge> n_chunk then
               (if n_n \<ge> 64 then 0 else push_bit n_n (bits ! (i - n_chunk))) OR
               (if i > n_chunk then
                  if n_n = 0 then 0 else drop_bit (64 - n_n) (bits ! (i - n_chunk - 1))
                else 0)
             else 0)
      in if n \<ge> 64 then carry else push_bit n (bits ! i) OR carry)"

text \<open>The loop runs from the last word down to the first and updates in place.\<close>

fun fbi_lsh_loop :: "nat \<Rightarrow> nat \<Rightarrow> u64 list \<Rightarrow> u64 list" where
  "fbi_lsh_loop n 0 bits = bits"
| "fbi_lsh_loop n (Suc i) bits = fbi_lsh_loop n i (bits[i := fbi_lsh_word n bits i])"

definition fbi_lsh :: "fixed_big_int \<Rightarrow> nat \<Rightarrow> fixed_big_int" where
  "fbi_lsh self n =
     (if n = 0 then self
      else
        let bits = fbi_lsh_loop n (length (fbi_bits self)) (fbi_bits self); lst = length bits - 1 in
        self\<lparr>fbi_bits := bits[lst := bits ! lst AND fbi_msb_mask self]\<rparr>)"

definition fbi_bit :: "fixed_big_int \<Rightarrow> nat \<Rightarrow> nat" where
  "fbi_bit self i =
     (if i \<ge> fbi_n self then 0
      else let chunk = i div 64; pos = i mod 64 in
        if fbi_bits self ! chunk AND push_bit pos 1 \<noteq> 0 then 1 else 0)"

definition fbi_set_bit :: "fixed_big_int \<Rightarrow> nat \<Rightarrow> fixed_big_int" where
  "fbi_set_bit self i =
     (if i \<ge> fbi_n self then self
      else let chunk = i div 64; pos = i mod 64 in
        self\<lparr>fbi_bits := (fbi_bits self)[chunk := fbi_bits self ! chunk OR push_bit pos 1]\<rparr>)"

section \<open>The contract of a window mask\<close>

locale bit_window =
  fixes is_set :: "'m \<Rightarrow> nat \<Rightarrow> bool"
    and set_bit :: "'m \<Rightarrow> nat \<Rightarrow> 'm"
    and lsh :: "'m \<Rightarrow> nat \<Rightarrow> 'm"
    and size :: "'m \<Rightarrow> nat"
    and inv :: "'m \<Rightarrow> bool"
  assumes is_set_bound: "is_set m i \<Longrightarrow> i < size m"
    and is_set_set_bit: "inv m \<Longrightarrow> is_set (set_bit m j) i \<longleftrightarrow> is_set m i \<or> (i = j \<and> j < size m)"
    and is_set_lsh: "inv m \<Longrightarrow> is_set (lsh m k) i \<longleftrightarrow> k \<le> i \<and> i < size m \<and> is_set m (i - k)"
    and inv_set_bit: "inv m \<Longrightarrow> inv (set_bit m j)"
    and inv_lsh: "inv m \<Longrightarrow> inv (lsh m k)"
    and size_set_bit [simp]: "size (set_bit m j) = size m"
    and size_lsh [simp]: "size (lsh m k) = size m"
begin

lemma shifted_iff: "i \<in> (\<lambda>j. j + k) ` A \<longleftrightarrow> k \<le> i \<and> i - k \<in> A" for i k :: nat
proof
  assume "k \<le> i \<and> i - k \<in> A"
  then show "i \<in> (\<lambda>j. j + k) ` A" by (intro image_eqI [of _ _ "i - k"]) simp_all
qed auto

lemma positions_lsh:
  "inv m \<Longrightarrow> {i. is_set (lsh m k) i} = (\<lambda>i. i + k) ` {i. is_set m i} \<inter> {..<size m}"
  by (rule set_eqI) (simp add: shifted_iff is_set_lsh conj_commute conj_left_commute)

lemma positions_set_bit:
  "inv m \<Longrightarrow> {i. is_set (set_bit m j) i} = insert j {i. is_set m i} \<inter> {..<size m}"
  using is_set_bound [of m] by (auto simp: is_set_set_bit)

text \<open>
  A window whose head is the number \<open>latest\<close> remembers the numbers at or below its head that are out
  of the window or marked. Moving the head up and marking a number forget nothing.
\<close>

definition remembers :: "'m \<Rightarrow> int \<Rightarrow> int \<Rightarrow> bool" where
  "remembers m latest x \<longleftrightarrow> x \<le> latest \<and> (latest - x \<ge> int (size m) \<or> is_set m (nat (latest - x)))"

lemma remembers_lsh:
  assumes "inv m" "remembers m latest x"
  shows "remembers (lsh m k) (latest + int k) x"
proof (cases "latest + int k - x \<ge> int (size m)")
  case True
  then show ?thesis using assms(2) by (simp add: remembers_def)
next
  case False
  moreover from this assms(2) have "is_set m (nat (latest - x))" by (auto simp: remembers_def)
  moreover have "nat (latest + int k - x) - k = nat (latest - x)" "k \<le> nat (latest + int k - x)"
    using assms(2) by (auto simp: remembers_def)
  ultimately show ?thesis
    using assms by (auto simp: remembers_def is_set_lsh)
qed

lemma remembers_set_bit:
  assumes "inv m" "remembers m latest x"
  shows "remembers (set_bit m j) latest x"
  using assms by (auto simp: remembers_def is_set_set_bit)

lemma remembers_marked: "inv m \<Longrightarrow> remembers (set_bit m j) latest (latest - int j)"
  by (auto simp: remembers_def is_set_set_bit)

end

section \<open>FixedBigInt is a window mask\<close>

definition fbi_inv :: "fixed_big_int \<Rightarrow> bool" where
  "fbi_inv m \<longleftrightarrow> length (fbi_bits m) = length (fbi_bits (fbi_new (fbi_n m))) \<and>
     fbi_msb_mask m = fbi_msb_mask (fbi_new (fbi_n m)) \<and> fbi_n m mod 64 \<le> 32"

definition word_bit :: "u64 list \<Rightarrow> nat \<Rightarrow> bool" where
  "word_bit ws i \<longleftrightarrow> bit (ws ! (i div 64)) (i mod 64)"

lemma fbi_bit_eq: "0 < fbi_bit m i \<longleftrightarrow> i < fbi_n m \<and> word_bit (fbi_bits m) i"
  by (auto simp: fbi_bit_def word_bit_def Let_def and_exp_eq_0_iff_not_bit)

lemma fbi_lsh_loop_length [simp]: "length (fbi_lsh_loop n i bits) = length bits"
  by (induction n i bits rule: fbi_lsh_loop.induct) auto

text \<open>A round reads only words that the earlier rounds have not written.\<close>

lemma fbi_lsh_word_update: "j < i \<Longrightarrow> fbi_lsh_word n (bits[i := v]) j = fbi_lsh_word n bits j"
  by (simp add: fbi_lsh_word_def Let_def)

lemma fbi_lsh_loop_nth:
  "i \<le> length bits \<Longrightarrow> j < length bits \<Longrightarrow>
   fbi_lsh_loop n i bits ! j = (if j < i then fbi_lsh_word n bits j else bits ! j)"
proof (induction i arbitrary: bits)
  case (Suc i)
  then show ?case
    by (cases "j < i") (auto simp: fbi_lsh_word_update nth_list_update less_Suc_eq)
qed simp

lemma shift_position:
  fixes i k :: nat
  assumes "k \<le> i"
  shows "(i - k) div 64 = (if k mod 64 \<le> i mod 64 then i div 64 - k div 64 else i div 64 - k div 64 - 1)"
    "(i - k) mod 64 = (if k mod 64 \<le> i mod 64 then i mod 64 - k mod 64 else 64 + i mod 64 - k mod 64)"
    "k mod 64 \<le> i mod 64 \<or> k div 64 < i div 64"
proof -
  define a p q r where "a = i div 64" and "p = i mod 64" and "q = k div 64" and "r = k mod 64"
  have i: "i = 64 * a + p" "p < 64" and k: "k = 64 * q + r" "r < 64"
    by (simp_all add: a_def p_def q_def r_def)
  have ge: "r \<le> p \<or> q < a" using assms i k by linarith
  have le: "q \<le> a" using assms i k by linarith
  have quot: "x = 64 * c + d \<Longrightarrow> d < 64 \<Longrightarrow> x div 64 = c \<and> x mod 64 = d" for x c d :: nat
    by simp
  have "(i - k) div 64 = (if r \<le> p then a - q else a - q - 1) \<and>
      (i - k) mod 64 = (if r \<le> p then p - r else 64 + p - r)"
  proof (cases "r \<le> p")
    case True
    then have "i - k = 64 * (a - q) + (p - r)" using i k le by (simp add: diff_mult_distrib2)
    from quot [OF this] True i(2) show ?thesis by simp
  next
    case False
    then have "i - k = 64 * (a - q - 1) + (64 + p - r)" using i k ge by (simp add: diff_mult_distrib2)
    from quot [OF this] False i(2) k(2) show ?thesis by simp
  qed
  with ge show "(i - k) div 64 = (if k mod 64 \<le> i mod 64 then i div 64 - k div 64 else i div 64 - k div 64 - 1)"
    "(i - k) mod 64 = (if k mod 64 \<le> i mod 64 then i mod 64 - k mod 64 else 64 + i mod 64 - k mod 64)"
    "k mod 64 \<le> i mod 64 \<or> k div 64 < i div 64"
    by (simp_all add: a_def p_def q_def r_def)
qed

lemma lsh_word_bit:
  assumes "p < 64" "r < 64"
  shows "bit (fbi_lsh_word (64 * q + r) bits a) p \<longleftrightarrow>
      (q \<le> a \<and> r \<le> p \<and> bit (bits ! (a - q)) (p - r)) \<or>
      (q < a \<and> p < r \<and> bit (bits ! (a - q - 1)) (64 + p - r))"
proof -
  have dm: "(64 * q + r) div 64 = q" "(64 * q + r) mod 64 = r" using assms(2) by simp_all
  have hi: "\<not> p < r \<Longrightarrow> \<not> bit (x :: u64) (64 + p - r)" for x
    using bit_imp_le_length [of x "64 + p - r"] by auto
  show ?thesis
  proof (cases "q = 0")
    case True
    with assms show ?thesis
      by (auto simp: fbi_lsh_word_def bit_or_iff bit_push_bit_iff bit_drop_bit_eq hi)
  next
    case False
    with assms show ?thesis
      unfolding fbi_lsh_word_def dm Let_def
      by (auto simp: bit_or_iff bit_push_bit_iff bit_drop_bit_eq hi)
  qed
qed

lemma word_bit_shifted:
  "bit (fbi_lsh_word k bits (i div 64)) (i mod 64) \<longleftrightarrow> k \<le> i \<and> word_bit bits (i - k)"
proof -
  have w: "bit (fbi_lsh_word k bits (i div 64)) (i mod 64) \<longleftrightarrow>
      (k div 64 \<le> i div 64 \<and> k mod 64 \<le> i mod 64 \<and> bit (bits ! (i div 64 - k div 64)) (i mod 64 - k mod 64)) \<or>
      (k div 64 < i div 64 \<and> i mod 64 < k mod 64 \<and> bit (bits ! (i div 64 - k div 64 - 1)) (64 + i mod 64 - k mod 64))"
    using lsh_word_bit [of "i mod 64" "k mod 64" "k div 64" bits "i div 64"] by simp
  show ?thesis
  proof (cases "k \<le> i")
    case True
    then have "k div 64 \<le> i div 64" by (rule div_le_mono)
    with True shift_position [OF True] show ?thesis
      unfolding w word_bit_def by auto
  next
    case False
    then have "i div 64 \<le> k div 64" by (simp add: div_le_mono)
    moreover have "\<not> (k div 64 \<le> i div 64 \<and> k mod 64 \<le> i mod 64)"
      using False mult_div_mod_eq [of 64 k] mult_div_mod_eq [of 64 i] by (metis add_le_mono mult_le_mono2)
    ultimately show ?thesis
      using False unfolding w by auto
  qed
qed

lemma bits_length_pos: "fbi_inv m \<Longrightarrow> 0 < length (fbi_bits m)"
  by (simp add: fbi_inv_def fbi_new_def Let_def)

lemma chunk_count:
  fixes n :: nat
  shows "n mod 64 \<noteq> 0 \<Longrightarrow> (n + 63) div 64 = n div 64 + 1" "n \<le> 64 * ((n + 63) div 64)"
proof -
  show "n \<le> 64 * ((n + 63) div 64)"
    using mult_div_mod_eq [of 64 "n + 63"] mod_less_divisor [of 64 "n + 63"] by linarith
  assume "n mod 64 \<noteq> 0"
  then obtain r where r: "n mod 64 = Suc r" by (cases "n mod 64") auto
  then have "n + 63 = 64 * (n div 64 + 1) + (n mod 64 - 1)"
    using mult_div_mod_eq [of 64 n] by simp
  moreover have "n mod 64 - 1 < 64" using mod_less_divisor [of 64 n] by linarith
  moreover have "x = 64 * c + d \<Longrightarrow> d < 64 \<Longrightarrow> x div 64 = c" for x c d :: nat by simp
  ultimately show "(n + 63) div 64 = n div 64 + 1" by blast
qed

lemma bits_length: "fbi_inv m \<Longrightarrow> i < fbi_n m \<Longrightarrow> i div 64 < length (fbi_bits m)"
  using chunk_count(2) [of "fbi_n m"]
  by (auto simp: fbi_inv_def fbi_new_def Let_def div_less_iff_less_mult mult.commute)

text \<open>The mask of the last word keeps every position of the window.\<close>

lemma msb_mask_keeps:
  assumes "fbi_inv m" "i < fbi_n m" "i div 64 = length (fbi_bits m) - 1"
  shows "bit (fbi_msb_mask m) (i mod 64)"
proof (cases "fbi_n m mod 64 = 0")
  case True
  then have "fbi_msb_mask m = mask 64"
    using assms(1) by (simp add: fbi_inv_def fbi_new_def Let_def mask_eq_exp_minus_1)
  then show ?thesis by (simp add: bit_mask_iff)
next
  case False
  let ?r = "fbi_n m mod 64"
  have len: "length (fbi_bits m) - 1 = fbi_n m div 64"
    using assms(1) chunk_count(1) [OF False] by (simp add: fbi_inv_def fbi_new_def Let_def)
  have "i mod 64 < ?r"
    using assms(2,3) len mult_div_mod_eq [of 64 i] mult_div_mod_eq [of 64 "fbi_n m"] by linarith
  moreover have "?r \<le> 32" using assms(1) by (simp add: fbi_inv_def)
  moreover have "fbi_msb_mask m = mask (64 - ?r)"
    using assms(1) False by (simp add: fbi_inv_def fbi_new_def Let_def mask_eq_exp_minus_1)
  ultimately show ?thesis by (simp add: bit_mask_iff)
qed

lemma fbi_lsh_bit:
  assumes "fbi_inv m"
  shows "fbi_bit (fbi_lsh m k) i \<noteq> 0 \<longleftrightarrow> k \<le> i \<and> i < fbi_n m \<and> fbi_bit m (i - k) \<noteq> 0"
proof (cases "k = 0")
  case True
  then show ?thesis by (auto simp: fbi_lsh_def fbi_bit_eq)
next
  case False
  let ?bits = "fbi_lsh_loop k (length (fbi_bits m)) (fbi_bits m)"
  show ?thesis
  proof (cases "i < fbi_n m")
    case True
    let ?c = "i div 64" and ?lst = "length (fbi_bits m) - 1"
    have c: "?c < length (fbi_bits m)" using bits_length [OF assms True] .
    have "bit (fbi_bits (fbi_lsh m k) ! ?c) (i mod 64) \<longleftrightarrow> bit (?bits ! ?c) (i mod 64)"
      using False c msb_mask_keeps [OF assms True]
      by (auto simp: fbi_lsh_def Let_def nth_list_update bit_and_iff)
    also have "?bits ! ?c = fbi_lsh_word k (fbi_bits m) ?c"
      using c by (simp add: fbi_lsh_loop_nth)
    finally have "word_bit (fbi_bits (fbi_lsh m k)) i \<longleftrightarrow> k \<le> i \<and> word_bit (fbi_bits m) (i - k)"
      by (simp add: word_bit_def [of "fbi_bits (fbi_lsh m k)"] word_bit_shifted)
    moreover have "fbi_n (fbi_lsh m k) = fbi_n m" by (simp add: fbi_lsh_def Let_def)
    ultimately show ?thesis using True by (auto simp: fbi_bit_eq)
  next
    case ge: False
    moreover have "fbi_n (fbi_lsh m k) = fbi_n m" by (simp add: fbi_lsh_def Let_def)
    ultimately show ?thesis by (simp add: fbi_bit_eq)
  qed
qed

lemma fbi_set_bit_bit:
  assumes "fbi_inv m"
  shows "fbi_bit (fbi_set_bit m j) i \<noteq> 0 \<longleftrightarrow> fbi_bit m i \<noteq> 0 \<or> (i = j \<and> j < fbi_n m)"
proof (cases "j < fbi_n m")
  case True
  have c: "j div 64 < length (fbi_bits m)" using bits_length [OF assms True] .
  have n: "fbi_n (fbi_set_bit m j) = fbi_n m" by (simp add: fbi_set_bit_def Let_def)
  have "word_bit (fbi_bits (fbi_set_bit m j)) i \<longleftrightarrow> word_bit (fbi_bits m) i \<or> i = j"
  proof (cases "i div 64 = j div 64")
    case same: True
    have "i mod 64 = j mod 64 \<longleftrightarrow> i = j"
      using same mult_div_mod_eq [of 64 i] mult_div_mod_eq [of 64 j] by auto
    with same True c show ?thesis
      by (auto simp: fbi_set_bit_def word_bit_def Let_def bit_or_iff bit_exp_iff)
  next
    case other: False
    with True c show ?thesis
      by (auto simp: fbi_set_bit_def word_bit_def Let_def)
  qed
  with True show ?thesis by (auto simp: fbi_bit_eq n)
qed (simp add: fbi_set_bit_def fbi_bit_eq)

definition fbi_is_set :: "fixed_big_int \<Rightarrow> nat \<Rightarrow> bool" where
  "fbi_is_set m i \<longleftrightarrow> fbi_bit m i \<noteq> 0"

interpretation fbi: bit_window fbi_is_set fbi_set_bit fbi_lsh fbi_n fbi_inv
proof (unfold_locales, goal_cases)
  case (1 m i)
  then show ?case by (simp add: fbi_is_set_def fbi_bit_eq)
next
  case (2 m j i)
  then show ?case unfolding fbi_is_set_def by (rule fbi_set_bit_bit)
next
  case (3 m k i)
  then show ?case unfolding fbi_is_set_def by (rule fbi_lsh_bit)
next
  case (4 m j)
  then show ?case by (simp add: fbi_inv_def fbi_set_bit_def Let_def)
next
  case (5 m k)
  then show ?case by (simp add: fbi_inv_def fbi_lsh_def Let_def)
qed (simp_all add: fbi_set_bit_def fbi_lsh_def Let_def)

lemma fbi_new_inv: "n mod 64 \<le> 32 \<Longrightarrow> fbi_inv (fbi_new n)"
  by (simp add: fbi_inv_def) (simp add: fbi_new_def Let_def)

lemma fbi_new_bit: "fbi_bit (fbi_new n) i = 0"
proof -
  have "\<not> word_bit (fbi_bits (fbi_new n)) i" if "i < n"
  proof -
    have "i div 64 < length (fbi_bits (fbi_new n))"
      using that chunk_count(2) [of n] by (auto simp: fbi_new_def Let_def div_less_iff_less_mult mult.commute)
    then show ?thesis by (simp add: word_bit_def fbi_new_def Let_def)
  qed
  then show ?thesis using fbi_bit_eq [of "fbi_new n" i] by (auto simp: fbi_new_def Let_def)
qed

text \<open>Sequences of operations on a mask, and on the set of its positions.\<close>

datatype mask_op = Lsh nat | SetBit nat

fun run_mask :: "mask_op list \<Rightarrow> fixed_big_int \<Rightarrow> fixed_big_int" where
  "run_mask [] m = m"
| "run_mask (Lsh k # ops) m = run_mask ops (fbi_lsh m k)"
| "run_mask (SetBit j # ops) m = run_mask ops (fbi_set_bit m j)"

fun run_positions :: "nat \<Rightarrow> mask_op list \<Rightarrow> nat set \<Rightarrow> nat set" where
  "run_positions n [] A = A"
| "run_positions n (Lsh k # ops) A = run_positions n ops ((\<lambda>i. i + k) ` A \<inter> {..<n})"
| "run_positions n (SetBit j # ops) A = run_positions n ops (insert j A \<inter> {..<n})"

lemma run_mask_positions:
  assumes "fbi_inv m" "fbi_n m = n"
  shows "{i. fbi_is_set (run_mask ops m) i} = run_positions n ops {i. fbi_is_set m i}"
  using assms
proof (induction ops arbitrary: m)
  case (Cons op ops)
  show ?case
  proof (cases op)
    case (Lsh k)
    with Cons.IH [of "fbi_lsh m k"] Cons.prems fbi.inv_lsh [of m k] fbi.positions_lsh [of m k]
    show ?thesis by simp
  next
    case (SetBit j)
    with Cons.IH [of "fbi_set_bit m j"] Cons.prems fbi.inv_set_bit [of m j] fbi.positions_set_bit [of m j]
    show ?thesis by simp
  qed
qed simp

section \<open>Properties\<close>

text \<open>
  C14: \<open>FixedBigInt\<close> implements a set of positions. On a mask of \<open>n\<close> bits, with \<open>n\<close> at most 32 above a
  multiple of 64, any mix of shifts and marks reads back as the same operations on sets of numbers:
  a shift moves every position up and drops those that leave the mask, a mark adds one position.
\<close>

theorem fixed_big_int_refines:
  assumes "n mod 64 \<le> 32"
  shows "{i. fbi_bit (run_mask ops (fbi_new n)) i \<noteq> 0} = run_positions n ops {}"
proof -
  have "fbi_n (fbi_new n) = n" by (simp add: fbi_new_def Let_def)
  from run_mask_positions [OF fbi_new_inv [OF assms] this] show ?thesis
    by (simp only: fbi_is_set_def fbi_new_bit) simp
qed

theorem fixed_big_int_refines_witness:
  "{i. fbi_bit (run_mask [SetBit 0, Lsh 70, SetBit 3] (fbi_new 128)) i \<noteq> 0} = {3, 70}"
  using fixed_big_int_refines [of 128 "[SetBit 0, Lsh 70, SetBit 3]"] by auto

text \<open>
  For the other sizes the mask of the top word is wrong and a shift forgets positions inside the
  mask: whatever moves to the last position is lost.
\<close>

definition fbi_sized :: "nat \<Rightarrow> fixed_big_int \<Rightarrow> bool" where
  "fbi_sized n m \<longleftrightarrow> length (fbi_bits m) = n div 64 + 1 \<and> fbi_n m = n \<and> fbi_msb_mask m = mask (64 - n mod 64)"

lemma fbi_sized_new: "n mod 64 \<noteq> 0 \<Longrightarrow> fbi_sized n (fbi_new n)"
  using chunk_count(1) [of n] by (simp add: fbi_sized_def fbi_new_def Let_def mask_eq_exp_minus_1)

lemma fbi_sized_ops: "fbi_sized n m \<Longrightarrow> fbi_sized n (fbi_set_bit m j)" "fbi_sized n m \<Longrightarrow> fbi_sized n (fbi_lsh m k)"
  by (simp_all add: fbi_sized_def fbi_set_bit_def fbi_lsh_def Let_def)

lemma fbi_lsh_forgets_top:
  assumes "fbi_sized n m" "32 < n mod 64" "0 < k"
  shows "fbi_bit (fbi_set_bit (fbi_lsh m k) 0) (n - 1) = 0"
proof -
  let ?r = "n mod 64" and ?m = "fbi_set_bit (fbi_lsh m k) 0"
  have top: "n - 1 = 64 * (n div 64) + (?r - 1)" using mult_div_mod_eq [of 64 n] assms(2) by linarith
  have "(64 * (n div 64) + (?r - 1)) div 64 = n div 64" "(64 * (n div 64) + (?r - 1)) mod 64 = ?r - 1"
    using mod_less_divisor [of 64 n] by simp_all
  then have pos: "(n - 1) div 64 = n div 64" "(n - 1) mod 64 = ?r - 1" unfolding top by blast+
  have "\<not> ?r - 1 < 64 - ?r" using assms(2) by linarith
  then have "\<not> bit (mask (64 - ?r) :: u64) (?r - 1)" by (simp only: bit_mask_iff simp_thms)
  then have lost: "\<not> bit (fbi_bits (fbi_lsh m k) ! (n div 64)) (?r - 1)"
    using assms(1,3) by (simp add: fbi_sized_def fbi_lsh_def Let_def bit_and_iff)
  have "?r - 1 \<noteq> 0" using assms(2) by linarith
  with lost have "\<not> bit (fbi_bits ?m ! (n div 64)) (?r - 1)"
    using fbi_sized_ops(2) [OF assms(1), of k]
    by (cases "n div 64 = 0") (auto simp: fbi_set_bit_def fbi_sized_def Let_def bit_or_iff bit_1_iff)
  then have "\<not> word_bit (fbi_bits ?m) (n - 1)" unfolding word_bit_def pos by blast
  then show ?thesis using fbi_bit_eq [of ?m "n - 1"] by simp
qed

end
