(* ===== verification/Replay_Detector.thy ===== *)
theory Replay_Detector
  imports Fixed_Big_Int
begin

text \<open>
  Replay protection (\<open>rtc-shared/src/replay_detector/mod.rs\<close>): the sliding window over numbers that
  never wrap, the sliding window over numbers that wrap at a maximum, and the detector that accepts
  everything. A detector is a state with \<open>check\<close>, which tests a number, and \<open>accept\<close>, which commits
  the number of the preceding test.

  The locale \<open>replay_contract\<close> is the promise of the trait \<open>ReplayDetector\<close>. Its client is a receiver
  that checks, authenticates and then accepts packets; the locale shows that it delivers no packet
  twice. Both windows interpret it, the wrapping one with an unbounded packet index as ghost state.
\<close>

unbundle bit_operations_syntax

section \<open>Definitions\<close>

record sliding_window_detector =
  swd_accepted :: bool
  swd_seq :: u64
  swd_latest_seq :: u64
  swd_max_seq :: u64
  swd_window_size :: nat
  swd_mask :: fixed_big_int

definition swd_new :: "nat \<Rightarrow> u64 \<Rightarrow> sliding_window_detector" where
  "swd_new window_size max_seq =
     \<lparr>swd_accepted = False, swd_seq = 0, swd_latest_seq = 0, swd_max_seq = max_seq,
      swd_window_size = window_size, swd_mask = fbi_new window_size\<rparr>"

definition swd_check :: "sliding_window_detector \<Rightarrow> u64 \<Rightarrow> bool \<times> sliding_window_detector" where
  "swd_check self seq =
     (let self = self\<lparr>swd_accepted := False\<rparr> in
      if seq > swd_max_seq self then (False, self)
      else if seq \<le> swd_latest_seq self \<and> swd_latest_seq self \<ge> of_nat (swd_window_size self) + seq
      then (False, self)
      else if seq \<le> swd_latest_seq self \<and> fbi_bit (swd_mask self) (unat (swd_latest_seq self - seq)) \<noteq> 0
      then (False, self)
      else (True, self\<lparr>swd_accepted := True, swd_seq := seq\<rparr>))"

definition swd_accept :: "sliding_window_detector \<Rightarrow> sliding_window_detector result" where
  "swd_accept self =
     (if \<not> swd_accepted self then Ok self
      else
        let self = (if swd_seq self > swd_latest_seq self
                    then self\<lparr>swd_mask := fbi_lsh (swd_mask self) (unat (swd_seq self - swd_latest_seq self)),
                              swd_latest_seq := swd_seq self\<rparr>
                    else self) in
        if swd_max_seq self = 0 then Err Panic
        else let diff = (swd_latest_seq self - swd_seq self) mod swd_max_seq self in
          Ok (self\<lparr>swd_mask := fbi_set_bit (swd_mask self) (unat diff)\<rparr>))"

record wrapped_sliding_window_detector =
  wsd_accepted :: bool
  wsd_seq :: u64
  wsd_latest_seq :: u64
  wsd_max_seq :: u64
  wsd_window_size :: nat
  wsd_mask :: fixed_big_int
  wsd_init :: bool

definition wsd_new :: "nat \<Rightarrow> u64 \<Rightarrow> wrapped_sliding_window_detector" where
  "wsd_new window_size max_seq =
     \<lparr>wsd_accepted = False, wsd_seq = 0, wsd_latest_seq = 0, wsd_max_seq = max_seq,
      wsd_window_size = window_size, wsd_mask = fbi_new window_size, wsd_init = False\<rparr>"

text \<open>\<open>i64\<close> arithmetic wraps to 64 bits; its division truncates towards zero.\<close>

definition i64_wrap :: "int \<Rightarrow> int" where
  "i64_wrap k = signed_take_bit 63 k"

definition i64_half :: "int \<Rightarrow> int" where
  "i64_half k = (if k < 0 then - ((- k) div 2) else k div 2)"

definition wsd_diff :: "wrapped_sliding_window_detector \<Rightarrow> u64 \<Rightarrow> int" where
  "wsd_diff self seq =
     (let diff = i64_wrap (sint (wsd_latest_seq self) - sint seq); half = i64_half (sint (wsd_max_seq self)) in
      if diff > half then i64_wrap (diff - sint (wsd_max_seq self + 1))
      else if diff \<le> - half then i64_wrap (diff + sint (wsd_max_seq self + 1))
      else diff)"

definition wsd_check :: "wrapped_sliding_window_detector \<Rightarrow> u64 \<Rightarrow> bool \<times> wrapped_sliding_window_detector" where
  "wsd_check self seq =
     (let self = self\<lparr>wsd_accepted := False\<rparr> in
      if seq > wsd_max_seq self then (False, self)
      else
        let self = (if \<not> wsd_init self
                    then self\<lparr>wsd_latest_seq := (if seq \<noteq> 0 then seq - 1 else wsd_max_seq self), wsd_init := True\<rparr>
                    else self);
            diff = wsd_diff self seq
        in
        if diff \<ge> int (wsd_window_size self) then (False, self)
        else if diff \<ge> 0 \<and> fbi_bit (wsd_mask self) (nat diff) \<noteq> 0 then (False, self)
        else (True, self\<lparr>wsd_accepted := True, wsd_seq := seq\<rparr>))"

definition wsd_accept :: "wrapped_sliding_window_detector \<Rightarrow> wrapped_sliding_window_detector result" where
  "wsd_accept self =
     (if \<not> wsd_accepted self then Ok self
      else
        let diff = wsd_diff self (wsd_seq self) in
        if \<not> diff < int (wsd_window_size self) then Err Panic
        else if diff < 0
        then Ok (self\<lparr>wsd_mask := fbi_set_bit (fbi_lsh (wsd_mask self) (nat (- diff))) 0,
                      wsd_latest_seq := wsd_seq self\<rparr>)
        else Ok (self\<lparr>wsd_mask := fbi_set_bit (wsd_mask self) (nat diff)\<rparr>))"

definition noop_check :: "unit \<Rightarrow> u64 \<Rightarrow> bool \<times> unit" where
  "noop_check self seq = (True, self)"

definition noop_accept :: "unit \<Rightarrow> unit result" where
  "noop_accept self = Ok self"

section \<open>The contract of ReplayDetector\<close>

text \<open>
  The receiver: every packet is checked, and a packet that passes the check and is authentic is
  accepted and delivered. The result lists the delivered numbers with their packet index.
\<close>

fun receive_all ::
  "('s \<Rightarrow> u64 \<Rightarrow> bool \<times> 's) \<Rightarrow> ('s \<Rightarrow> 's result) \<Rightarrow> ('s \<Rightarrow> u64 \<Rightarrow> int) \<Rightarrow> 's \<Rightarrow> (u64 \<times> bool) list \<Rightarrow>
   ((u64 \<times> int) list \<times> 's) result" where
  "receive_all check accept key s [] = Ok ([], s)"
| "receive_all check accept key s ((seq, authentic) # packets) =
     (let (passed, s) = check s seq in
      if passed \<and> authentic then
        and_then (accept s) (\<lambda>s'. and_then (receive_all check accept key s' packets)
          (\<lambda>(ds, s''). Ok ((seq, key s seq) # ds, s'')))
      else receive_all check accept key s packets)"

locale replay_contract =
  fixes check :: "'s \<Rightarrow> u64 \<Rightarrow> bool \<times> 's"
    and accept :: "'s \<Rightarrow> 's result"
    and key :: "'s \<Rightarrow> u64 \<Rightarrow> int"
    and blocked :: "'s \<Rightarrow> int \<Rightarrow> bool"
    and inv :: "'s \<Rightarrow> bool"
  assumes check_inv: "inv s \<Longrightarrow> check s seq = (b, s') \<Longrightarrow> inv s'"
    and check_blocked: "inv s \<Longrightarrow> check s seq = (b, s') \<Longrightarrow> blocked s k \<Longrightarrow> blocked s' k"
    and check_fresh: "inv s \<Longrightarrow> check s seq = (True, s') \<Longrightarrow> \<not> blocked s' (key s' seq)"
    and accept_commits: "inv s \<Longrightarrow> check s seq = (True, s') \<Longrightarrow>
      \<exists>s''. accept s' = Ok s'' \<and> inv s'' \<and> blocked s'' (key s' seq) \<and> (\<forall>k. blocked s' k \<longrightarrow> blocked s'' k)"
begin

lemma no_packet_twice:
  "inv s \<Longrightarrow> \<exists>ds s'. receive_all check accept key s packets = Ok (ds, s') \<and> inv s' \<and>
     distinct (map snd ds) \<and> (\<forall>k\<in>snd ` set ds. \<not> blocked s k)"
proof (induction packets arbitrary: s)
  case (Cons p packets)
  obtain seq authentic where p: "p = (seq, authentic)" by fastforce
  obtain b s1 where c: "check s seq = (b, s1)" by fastforce
  note inv1 = check_inv [OF Cons.prems c]
  show ?case
  proof (cases "b \<and> authentic")
    case True
    with c have c': "check s seq = (True, s1)" by simp
    from accept_commits [OF Cons.prems c'] obtain s2 where
      s2: "accept s1 = Ok s2" "inv s2" "blocked s2 (key s1 seq)" "\<forall>k. blocked s1 k \<longrightarrow> blocked s2 k" by blast
    from Cons.IH [OF s2(2)] obtain ds s' where
      ds: "receive_all check accept key s2 packets = Ok (ds, s')" "inv s'" "distinct (map snd ds)"
        "\<forall>k\<in>snd ` set ds. \<not> blocked s2 k" by blast
    have "\<forall>k. blocked s k \<longrightarrow> blocked s2 k" using s2(4) check_blocked [OF Cons.prems c] by blast
    moreover have "\<not> blocked s (key s1 seq)"
      using check_fresh [OF Cons.prems c'] check_blocked [OF Cons.prems c'] by blast
    ultimately show ?thesis
      using True c s2 ds by (auto simp: p image_iff)
  next
    case False
    from Cons.IH [OF inv1] obtain ds s' where
      "receive_all check accept key s1 packets = Ok (ds, s')" "inv s'" "distinct (map snd ds)"
      "\<forall>k\<in>snd ` set ds. \<not> blocked s1 k" by blast
    moreover from False have "receive_all check accept key s (p # packets) = receive_all check accept key s1 packets"
      using c by (auto simp: p)
    ultimately show ?thesis
      using check_blocked [OF Cons.prems c] by auto
  qed
qed simp

lemma delivered_all:
  assumes "\<And>s seq s'. inv s \<Longrightarrow> check s seq = (True, s') \<Longrightarrow> P seq (key s' seq)"
  shows "inv s \<Longrightarrow> receive_all check accept key s packets = Ok (ds, s') \<Longrightarrow> \<forall>(seq, k)\<in>set ds. P seq k"
proof (induction packets arbitrary: s ds)
  case (Cons p packets)
  obtain seq authentic where p: "p = (seq, authentic)" by fastforce
  obtain b s1 where c: "check s seq = (b, s1)" by fastforce
  show ?case
  proof (cases "b \<and> authentic")
    case True
    with c have c': "check s seq = (True, s1)" by simp
    from accept_commits [OF Cons.prems(1) c'] obtain s2 where "accept s1 = Ok s2" "inv s2" by blast
    with Cons.prems(2) True c obtain ds' where
      "receive_all check accept key s2 packets = Ok (ds', s')" "ds = (seq, key s1 seq) # ds'"
      by (auto simp: p)
    with Cons.IH [OF \<open>inv s2\<close>] assms [OF Cons.prems(1) c'] show ?thesis by auto
  next
    case False
    with c Cons.prems(2) have "receive_all check accept key s1 packets = Ok (ds, s')" by (auto simp: p)
    with Cons.IH [OF check_inv [OF Cons.prems(1) c]] show ?thesis by blast
  qed
qed simp

end

section \<open>The sliding window\<close>

declare of_nat_unat [simp del]

text \<open>The sizes for which the arithmetic of the detector is exact.\<close>

definition swd_inv :: "sliding_window_detector \<Rightarrow> bool" where
  "swd_inv s \<longleftrightarrow> fbi_inv (swd_mask s) \<and> fbi_n (swd_mask s) = swd_window_size s \<and>
     swd_window_size s \<le> unat (swd_max_seq s) \<and> swd_window_size s + unat (swd_max_seq s) < 2 ^ 64 \<and>
     0 < swd_window_size s \<and> swd_latest_seq s \<le> swd_max_seq s"

definition swd_blocked :: "sliding_window_detector \<Rightarrow> int \<Rightarrow> bool" where
  "swd_blocked s k \<longleftrightarrow> fbi.remembers (swd_mask s) (int (unat (swd_latest_seq s))) k"

text \<open>The test in numbers: within the limit, not out of the window, not marked.\<close>

lemma swd_check_eq:
  assumes "swd_inv s"
  shows "swd_check s seq =
    (if seq \<le> swd_max_seq s \<and> \<not> swd_blocked s (int (unat seq))
     then (True, s\<lparr>swd_accepted := True, swd_seq := seq\<rparr>) else (False, s\<lparr>swd_accepted := False\<rparr>))"
proof (cases "seq \<le> swd_max_seq s")
  case True
  then have le: "unat seq \<le> unat (swd_max_seq s)" by (simp add: word_le_nat_alt)
  have "unat (of_nat (swd_window_size s) + seq) = swd_window_size s + unat seq"
    using assms le by (simp add: swd_inv_def unat_word_ariths unat_of_nat)
  then have old: "of_nat (swd_window_size s) + seq \<le> swd_latest_seq s \<longleftrightarrow>
      int (unat (swd_latest_seq s)) - int (unat seq) \<ge> int (swd_window_size s)"
    by (auto simp: word_le_nat_alt)
  have diff: "seq \<le> swd_latest_seq s \<Longrightarrow>
      unat (swd_latest_seq s - seq) = nat (int (unat (swd_latest_seq s)) - int (unat seq))"
    by (simp add: unat_sub nat_diff_distrib')
  have "swd_blocked s (int (unat seq)) \<longleftrightarrow> seq \<le> swd_latest_seq s \<and>
      (of_nat (swd_window_size s) + seq \<le> swd_latest_seq s \<or>
       fbi_bit (swd_mask s) (unat (swd_latest_seq s - seq)) \<noteq> 0)"
    using assms old diff
    by (auto simp: swd_blocked_def fbi.remembers_def fbi_is_set_def swd_inv_def word_le_nat_alt)
  with True show ?thesis by (auto simp: swd_check_def Let_def)
qed (simp add: swd_check_def Let_def not_le)

lemma swd_accept_checked:
  assumes "swd_inv s" "seq \<le> swd_max_seq s" "\<not> swd_blocked s (int (unat seq))"
  shows "swd_accept (s\<lparr>swd_accepted := True, swd_seq := seq\<rparr>) =
    Ok (if swd_latest_seq s < seq
        then s\<lparr>swd_accepted := True, swd_seq := seq, swd_latest_seq := seq,
               swd_mask := fbi_set_bit (fbi_lsh (swd_mask s) (unat seq - unat (swd_latest_seq s))) 0\<rparr>
        else s\<lparr>swd_accepted := True, swd_seq := seq,
               swd_mask := fbi_set_bit (swd_mask s) (unat (swd_latest_seq s) - unat seq)\<rparr>)"
proof -
  have max: "swd_max_seq s \<noteq> 0" using assms(1) by (auto simp: swd_inv_def)
  show ?thesis
  proof (cases "swd_latest_seq s < seq")
    case True
    then show ?thesis
      using max by (simp add: swd_accept_def Let_def unat_sub order_less_imp_le)
  next
    case False
    then have le: "seq \<le> swd_latest_seq s" by simp
    then have sub: "unat (swd_latest_seq s - seq) = unat (swd_latest_seq s) - unat seq" by (rule unat_sub)
    have "unat (swd_latest_seq s) - unat seq < swd_window_size s"
      using assms(1,3) le by (auto simp: swd_blocked_def fbi.remembers_def swd_inv_def word_le_nat_alt)
    then have "unat (swd_latest_seq s - seq) < unat (swd_max_seq s)"
      using assms(1) sub by (simp add: swd_inv_def)
    then have "(swd_latest_seq s - seq) mod swd_max_seq s = swd_latest_seq s - seq"
      by (simp add: word_arith_nat_mod of_nat_unat)
    with False max sub show ?thesis by (simp add: swd_accept_def Let_def)
  qed
qed

interpretation swd: replay_contract swd_check swd_accept "\<lambda>_ seq. int (unat seq)" swd_blocked swd_inv
proof (unfold_locales, goal_cases)
  case (1 s seq b s')
  then show ?case by (auto simp: swd_check_eq swd_inv_def split: if_splits)
next
  case (2 s seq b s' k)
  then show ?case by (auto simp: swd_check_eq swd_blocked_def split: if_splits)
next
  case (3 s seq s')
  then show ?case by (auto simp: swd_check_eq swd_blocked_def split: if_splits)
next
  case (4 s seq s')
  then have ok: "seq \<le> swd_max_seq s" "\<not> swd_blocked s (int (unat seq))"
    and s': "s' = s\<lparr>swd_accepted := True, swd_seq := seq\<rparr>"
    by (auto simp: swd_check_eq split: if_splits)
  have inv: "fbi_inv (swd_mask s)" using 4(1) by (simp add: swd_inv_def)
  let ?L = "int (unat (swd_latest_seq s))" and ?q = "int (unat seq)"
  have old: "swd_blocked s' k \<longleftrightarrow> fbi.remembers (swd_mask s) ?L k" for k
    by (simp add: s' swd_blocked_def)
  note ac = swd_accept_checked [OF 4(1) ok]
  show ?case
  proof (cases "swd_latest_seq s < seq")
    case True
    let ?d = "unat seq - unat (swd_latest_seq s)"
    let ?m = "fbi_set_bit (fbi_lsh (swd_mask s) ?d) 0"
    define s2 where "s2 = s\<lparr>swd_accepted := True, swd_seq := seq, swd_latest_seq := seq, swd_mask := ?m\<rparr>"
    have L: "?q = ?L + int ?d" using True by (simp add: word_less_nat_alt)
    have "swd_accept s' = Ok s2" using ac True by (simp add: s' s2_def)
    moreover have "swd_inv s2"
      using 4(1) ok(1) by (simp add: swd_inv_def s2_def fbi.inv_set_bit fbi.inv_lsh)
    moreover have new: "swd_blocked s2 k \<longleftrightarrow> fbi.remembers ?m ?q k" for k
      by (simp add: s2_def swd_blocked_def)
    moreover have "fbi.remembers ?m ?q ?q"
      using fbi.remembers_marked [OF fbi.inv_lsh [OF inv], of ?d 0 ?q] by simp
    moreover have "fbi.remembers ?m ?q k" if "fbi.remembers (swd_mask s) ?L k" for k
      unfolding L by (intro fbi.remembers_set_bit fbi.remembers_lsh fbi.inv_lsh inv that)
    ultimately show ?thesis unfolding old by blast
  next
    case False
    let ?d = "unat (swd_latest_seq s) - unat seq"
    let ?m = "fbi_set_bit (swd_mask s) ?d"
    define s2 where "s2 = s\<lparr>swd_accepted := True, swd_seq := seq, swd_mask := ?m\<rparr>"
    have q: "?q = ?L - int ?d" using False by (simp add: word_less_nat_alt)
    have "fbi.remembers ?m ?L ?q" by (subst q) (rule fbi.remembers_marked [OF inv])
    moreover have "swd_accept s' = Ok s2" using ac False by (simp add: s' s2_def)
    moreover have "swd_inv s2" using 4(1) by (simp add: swd_inv_def s2_def fbi.inv_set_bit)
    moreover have "swd_blocked s2 k \<longleftrightarrow> fbi.remembers ?m ?L k" for k
      by (simp add: s2_def swd_blocked_def)
    moreover have "fbi.remembers ?m ?L k" if "fbi.remembers (swd_mask s) ?L k" for k
      by (intro fbi.remembers_set_bit inv that)
    ultimately show ?thesis unfolding old by blast
  qed
qed

subsection \<open>The window tracks the delivered numbers exactly\<close>

definition swd_tracks :: "sliding_window_detector \<Rightarrow> nat set \<Rightarrow> bool" where
  "swd_tracks s A \<longleftrightarrow> swd_inv s \<and>
     (\<forall>i. fbi_is_set (swd_mask s) i \<longleftrightarrow>
        i < swd_window_size s \<and> i \<le> unat (swd_latest_seq s) \<and> unat (swd_latest_seq s) - i \<in> A) \<and>
     (\<forall>a\<in>A. a \<le> unat (swd_latest_seq s)) \<and> (unat (swd_latest_seq s) = 0 \<or> unat (swd_latest_seq s) \<in> A)"

lemma swd_tracks_blocked:
  assumes "swd_tracks s A"
  shows "swd_blocked s (int q) \<longleftrightarrow> q \<in> A \<or> (\<exists>a\<in>A. q + swd_window_size s \<le> a)"
proof -
  let ?L = "unat (swd_latest_seq s)" and ?w = "swd_window_size s"
  have n: "fbi_n (swd_mask s) = ?w" "0 < ?w" using assms by (auto simp: swd_tracks_def swd_inv_def)
  have "nat (int ?L - int q) = ?L - q" by simp
  then have "swd_blocked s (int q) \<longleftrightarrow> q \<le> ?L \<and> (?w \<le> ?L - q \<or> fbi_is_set (swd_mask s) (?L - q))"
    using n by (auto simp: swd_blocked_def fbi.remembers_def)
  also have "\<dots> \<longleftrightarrow> q \<le> ?L \<and> (?w \<le> ?L - q \<or> q \<in> A)"
    using assms by (auto simp: swd_tracks_def)
  also have "\<dots> \<longleftrightarrow> q \<in> A \<or> (\<exists>a\<in>A. q + ?w \<le> a)"
    using assms n(2) by (fastforce simp: swd_tracks_def)
  finally show ?thesis .
qed

lemma swd_check_tracks:
  assumes "swd_tracks s A"
  shows "fst (swd_check s seq) \<longleftrightarrow>
      seq \<le> swd_max_seq s \<and> unat seq \<notin> A \<and> (\<forall>a\<in>A. a < unat seq + swd_window_size s)"
    and "swd_tracks (snd (swd_check s seq)) A"
proof -
  have inv: "swd_inv s" using assms by (simp add: swd_tracks_def)
  show "fst (swd_check s seq) \<longleftrightarrow>
      seq \<le> swd_max_seq s \<and> unat seq \<notin> A \<and> (\<forall>a\<in>A. a < unat seq + swd_window_size s)"
    by (simp add: swd_check_eq [OF inv] swd_tracks_blocked [OF assms] not_le)
  show "swd_tracks (snd (swd_check s seq)) A"
    using assms by (simp add: swd_check_eq [OF inv] swd_tracks_def swd_inv_def)
qed

lemma swd_accept_tracks:
  assumes "swd_tracks s A" "swd_check s seq = (True, s')"
  shows "\<exists>s''. swd_accept s' = Ok s'' \<and> swd_tracks s'' (insert (unat seq) A) \<and>
    swd_max_seq s'' = swd_max_seq s \<and> swd_window_size s'' = swd_window_size s"
proof -
  have inv: "swd_inv s" using assms(1) by (simp add: swd_tracks_def)
  with assms(2) have ok: "seq \<le> swd_max_seq s" "\<not> swd_blocked s (int (unat seq))"
    and s': "s' = s\<lparr>swd_accepted := True, swd_seq := seq\<rparr>" by (auto simp: swd_check_eq split: if_splits)
  note ac = swd_accept_checked [OF inv ok]
  obtain s'' where s'': "swd_accept s' = Ok s''" "swd_inv s''"
    using swd.accept_commits [OF inv assms(2)] by blast
  let ?L = "unat (swd_latest_seq s)" and ?q = "unat seq" and ?w = "swd_window_size s"
  have m: "fbi_inv (swd_mask s)" "fbi_n (swd_mask s) = ?w" "0 < ?w" using inv by (auto simp: swd_inv_def)
  have bits: "fbi_is_set (swd_mask s) i \<longleftrightarrow> i < ?w \<and> i \<le> ?L \<and> ?L - i \<in> A" for i
    using assms(1) by (simp add: swd_tracks_def)
  have le: "a \<in> A \<Longrightarrow> a \<le> ?L" for a using assms(1) by (simp add: swd_tracks_def)
  show ?thesis
  proof (cases "swd_latest_seq s < seq")
    case True
    then have lt: "?L < ?q" by (simp add: word_less_nat_alt)
    have "fbi_is_set (fbi_set_bit (fbi_lsh (swd_mask s) (?q - ?L)) 0) i \<longleftrightarrow>
        i < ?w \<and> i \<le> ?q \<and> ?q - i \<in> insert ?q A" for i
    proof (cases "?q - ?L \<le> i")
      case ge: True
      then have "?L - (i - (?q - ?L)) = ?q - i" "i - (?q - ?L) \<le> ?L \<longleftrightarrow> i \<le> ?q" using lt by auto
      with ge lt m show ?thesis by (auto simp: fbi.is_set_set_bit fbi.is_set_lsh fbi.inv_lsh bits)
    next
      case False
      with lt have "?q - i \<notin> A" using le [of "?q - i"] by auto
      with False lt m show ?thesis by (auto simp: fbi.is_set_set_bit fbi.is_set_lsh fbi.inv_lsh)
    qed
    moreover have "a \<in> A \<Longrightarrow> a \<le> ?q" for a using le [of a] lt by simp
    ultimately show ?thesis
      using True s'' ac by (auto simp: s' swd_tracks_def)
  next
    case False
    then have ge: "?q \<le> ?L" by (simp add: word_less_nat_alt)
    have "fbi_is_set (fbi_set_bit (swd_mask s) (?L - ?q)) i \<longleftrightarrow> i < ?w \<and> i \<le> ?L \<and> ?L - i \<in> insert ?q A" for i
      using ge m by (auto simp: fbi.is_set_set_bit bits)
    moreover have eq: "s'' = s\<lparr>swd_accepted := True, swd_seq := seq,
        swd_mask := fbi_set_bit (swd_mask s) (?L - ?q)\<rparr>"
      using False s''(1) ac by (simp add: s')
    moreover have "\<forall>a\<in>insert ?q A. a \<le> ?L" "?L = 0 \<or> ?L \<in> insert ?q A"
      using ge le assms(1) by (auto simp: swd_tracks_def)
    ultimately have "swd_tracks s'' (insert ?q A)"
      using s''(2) unfolding swd_tracks_def by simp
    with s''(1) eq show ?thesis by simp
  qed
qed

lemma swd_receive_tracks:
  "swd_tracks s A \<Longrightarrow> \<exists>ds s'. receive_all swd_check swd_accept (\<lambda>_ seq. int (unat seq)) s packets = Ok (ds, s') \<and>
     swd_tracks s' (A \<union> unat ` fst ` set ds) \<and> swd_max_seq s' = swd_max_seq s \<and>
     swd_window_size s' = swd_window_size s \<and> (\<forall>d\<in>set ds. snd d = int (unat (fst d)))"
proof (induction packets arbitrary: s A)
  case (Cons p packets)
  obtain seq authentic where p: "p = (seq, authentic)" by fastforce
  obtain b s1 where c: "swd_check s seq = (b, s1)" by fastforce
  have s1: "swd_tracks s1 A" "swd_max_seq s1 = swd_max_seq s" "swd_window_size s1 = swd_window_size s"
    using swd_check_tracks(2) [OF Cons.prems, of seq] c Cons.prems
    by (auto simp: swd_tracks_def swd_check_eq split: if_splits)
  show ?case
  proof (cases "b \<and> authentic")
    case True
    with c swd_accept_tracks [OF Cons.prems, of seq s1] obtain s2 where
      "swd_accept s1 = Ok s2" "swd_tracks s2 (insert (unat seq) A)" "swd_max_seq s2 = swd_max_seq s"
      "swd_window_size s2 = swd_window_size s" by auto
    with Cons.IH [OF this(2)] True c show ?thesis by (auto simp: p)
  next
    case False
    with c have "receive_all swd_check swd_accept (\<lambda>_ seq. int (unat seq)) s (p # packets) =
        receive_all swd_check swd_accept (\<lambda>_ seq. int (unat seq)) s1 packets" by (auto simp: p)
    with Cons.IH [OF s1(1)] s1(2,3) show ?thesis by simp
  qed
qed simp

lemma swd_new_tracks:
  assumes "0 < w" "w mod 64 \<le> 32" "w \<le> unat m" "w + unat m < 2 ^ 64"
  shows "swd_tracks (swd_new w m) {}"
proof -
  have "fbi_n (fbi_new w) = w" by (simp add: fbi_new_def Let_def)
  then show ?thesis
    using assms fbi_new_inv [OF assms(2)]
    by (simp add: swd_tracks_def swd_inv_def swd_new_def fbi_is_set_def fbi_new_bit)
qed

section \<open>The wrapping window\<close>

text \<open>
  The ghost state is the index of the head of the window: the number of the head, unwrapped. A checked
  number stands for the index that lies within half a period of the head.
\<close>

type_synonym wsd_ghost = "wrapped_sliding_window_detector \<times> int"

definition wsd_gcheck :: "wsd_ghost \<Rightarrow> u64 \<Rightarrow> bool \<times> wsd_ghost" where
  "wsd_gcheck = (\<lambda>(s, L) seq. case wsd_check s seq of (b, s') \<Rightarrow>
     (b, s', if \<not> wsd_init s \<and> seq \<le> wsd_max_seq s then int (unat seq) - 1 else L))"

definition wsd_gaccept :: "wsd_ghost \<Rightarrow> wsd_ghost result" where
  "wsd_gaccept = (\<lambda>(s, L). and_then (wsd_accept s) (\<lambda>s'.
     Ok (s', if wsd_accepted s then max L (L - wsd_diff s (wsd_seq s)) else L)))"

definition wsd_key :: "wsd_ghost \<Rightarrow> u64 \<Rightarrow> int" where
  "wsd_key = (\<lambda>(s, L) seq. L - wsd_diff s seq)"

definition wsd_blocked :: "wsd_ghost \<Rightarrow> int \<Rightarrow> bool" where
  "wsd_blocked = (\<lambda>(s, L) k. wsd_init s \<and> fbi.remembers (wsd_mask s) L k)"

definition wsd_period :: "wrapped_sliding_window_detector \<Rightarrow> int" where
  "wsd_period s = int (unat (wsd_max_seq s)) + 1"

definition wsd_ginv :: "u64 \<Rightarrow> wsd_ghost \<Rightarrow> bool" where
  "wsd_ginv m = (\<lambda>(s, L). wsd_max_seq s = m \<and> fbi_inv (wsd_mask s) \<and> fbi_n (wsd_mask s) = wsd_window_size s \<and>
     0 < wsd_window_size s \<and> unat (wsd_max_seq s) < 2 ^ 62 \<and>
     (wsd_init s \<longrightarrow> wsd_latest_seq s \<le> wsd_max_seq s \<and> int (unat (wsd_latest_seq s)) = L mod wsd_period s))"

lemma sint_small: "unat (x :: u64) \<le> 2 ^ 62 \<Longrightarrow> sint x = int (unat x)"
proof -
  assume "unat x \<le> 2 ^ 62"
  then have "signed_take_bit 63 (int (unat x)) = int (unat x)"
    by (intro signed_take_bit_int_eq_self) simp_all
  then show ?thesis by (simp add: sint_uint uint_nat)
qed

lemma i64_wrap_small: "- (2 ^ 63) \<le> k \<Longrightarrow> k < 2 ^ 63 \<Longrightarrow> i64_wrap k = k"
  by (simp add: i64_wrap_def signed_take_bit_int_eq_self)

lemma wsd_diff_eq:
  assumes "unat (wsd_max_seq s) < 2 ^ 62" "wsd_latest_seq s \<le> wsd_max_seq s" "seq \<le> wsd_max_seq s"
  shows "wsd_diff s seq =
    (let d = int (unat (wsd_latest_seq s)) - int (unat seq); half = int (unat (wsd_max_seq s)) div 2 in
     if d > half then d - wsd_period s else if d \<le> - half then d + wsd_period s else d)"
proof -
  have le: "unat (wsd_latest_seq s) \<le> unat (wsd_max_seq s)" "unat seq \<le> unat (wsd_max_seq s)"
    using assms(2,3) by (simp_all add: word_le_nat_alt)
  have "unat (wsd_max_seq s + 1) = unat (wsd_max_seq s) + 1"
    using assms(1) by (simp add: unat_word_ariths)
  then have p: "sint (wsd_max_seq s + 1) = wsd_period s"
    using assms(1) by (simp add: sint_small wsd_period_def)
  have "sint (wsd_latest_seq s) = int (unat (wsd_latest_seq s))" "sint seq = int (unat seq)"
    "sint (wsd_max_seq s) = int (unat (wsd_max_seq s))"
    using assms(1) le by (simp_all add: sint_small)
  moreover have "i64_half (int n) = int n div 2" for n by (simp add: i64_half_def)
  ultimately show ?thesis
    using assms(1) le by (simp add: wsd_diff_def Let_def p i64_wrap_small wsd_period_def)
qed

text \<open>The index of a number is congruent to it modulo the period.\<close>

lemma wsd_key_cong:
  assumes "wsd_ginv m (s, L)" "wsd_init s" "seq \<le> wsd_max_seq s"
  shows "wsd_key (s, L) seq mod wsd_period s = int (unat seq)"
proof -
  let ?P = "wsd_period s" and ?l = "int (unat (wsd_latest_seq s))" and ?q = "int (unat seq)"
  have inv: "unat (wsd_max_seq s) < 2 ^ 62" "wsd_latest_seq s \<le> wsd_max_seq s" "?l = L mod ?P"
    using assms(1,2) by (auto simp: wsd_ginv_def)
  have q: "?q mod ?P = ?q"
    using assms(3) by (simp add: wsd_period_def word_le_nat_alt mod_pos_pos_trivial)
  obtain c where c: "wsd_diff s seq = ?l - ?q + c * ?P"
  proof -
    have "\<exists>c. wsd_diff s seq = ?l - ?q + c * ?P"
      using wsd_diff_eq [OF inv(1,2) assms(3)]
      by (auto simp: Let_def intro: exI [of _ "- 1"] exI [of _ 0] exI [of _ 1])
    with that show thesis by blast
  qed
  have "L = L div ?P * ?P + ?l" using inv(3) by simp
  then have "wsd_key (s, L) seq = ?q + (L div ?P - c) * ?P"
    using c by (simp add: wsd_key_def algebra_simps)
  then show ?thesis by (simp add: q)
qed

lemma wsd_diff_fields:
  "wsd_latest_seq s = wsd_latest_seq t \<Longrightarrow> wsd_max_seq s = wsd_max_seq t \<Longrightarrow> wsd_diff s seq = wsd_diff t seq"
  by (simp add: wsd_diff_def Let_def)

text \<open>The first number to be checked fixes the head just before it.\<close>

lemma wsd_init_cong:
  assumes "seq \<le> m" "unat m < 2 ^ 62"
  shows "(if seq \<noteq> 0 then seq - 1 else m) \<le> m"
    "int (unat (if seq \<noteq> 0 then seq - 1 else m)) = (int (unat seq) - 1) mod (int (unat m) + 1)"
proof -
  have le: "unat seq \<le> unat m" using assms(1) by (simp add: word_le_nat_alt)
  have pred: "seq \<noteq> 0 \<Longrightarrow> unat (seq - 1) = unat seq - 1" "seq \<noteq> 0 \<Longrightarrow> 0 < unat seq"
    by (simp_all add: unat_minus_one unat_gt_0)
  show "(if seq \<noteq> 0 then seq - 1 else m) \<le> m"
    using le pred by (auto simp: word_le_nat_alt)
  show "int (unat (if seq \<noteq> 0 then seq - 1 else m)) = (int (unat seq) - 1) mod (int (unat m) + 1)"
  proof (cases "seq = 0")
    case True
    have "(- 1 :: int) mod (int (unat m) + 1) = int (unat m)"
      by (simp add: zmod_minus1)
    with True show ?thesis by simp
  next
    case False
    with le pred show ?thesis by (simp add: of_nat_diff mod_pos_pos_trivial)
  qed
qed

lemma wsd_gcheck_spec:
  assumes "wsd_ginv m (s, L)" "wsd_gcheck (s, L) seq = (b, s', L')"
  shows "wsd_ginv m (s', L') \<and> wsd_mask s' = wsd_mask s \<and> (wsd_init s \<longrightarrow> wsd_init s' \<and> L' = L) \<and>
    wsd_max_seq s' = wsd_max_seq s \<and>
    (b \<longrightarrow> wsd_init s' \<and> wsd_accepted s' \<and> wsd_seq s' = seq \<and> seq \<le> wsd_max_seq s' \<and>
       wsd_diff s' seq < int (wsd_window_size s') \<and> \<not> fbi.remembers (wsd_mask s') L' (wsd_key (s', L') seq))"
proof (cases "seq \<le> wsd_max_seq s")
  case False
  with assms show ?thesis by (auto simp: wsd_gcheck_def wsd_check_def wsd_ginv_def wsd_period_def Let_def not_le)
next
  case True
  define s1 where "s1 = (if wsd_init s then s\<lparr>wsd_accepted := False\<rparr>
    else s\<lparr>wsd_accepted := False, wsd_latest_seq := (if seq \<noteq> 0 then seq - 1 else wsd_max_seq s), wsd_init := True\<rparr>)"
  have small: "unat (wsd_max_seq s) < 2 ^ 62" using assms(1) by (auto simp: wsd_ginv_def)
  have L': "L' = (if wsd_init s then L else int (unat seq) - 1)"
    using assms(2) True by (auto simp: wsd_gcheck_def split: prod.splits)
  have s1: "wsd_init s1" "wsd_mask s1 = wsd_mask s" "wsd_max_seq s1 = wsd_max_seq s"
    "wsd_window_size s1 = wsd_window_size s"
    by (simp_all add: s1_def)
  have inv1: "wsd_ginv m (s1, L')"
    using assms(1) wsd_init_cong [OF True small] by (auto simp: s1_def L' wsd_ginv_def wsd_period_def)
  let ?ok = "wsd_diff s1 seq < int (wsd_window_size s) \<and>
    \<not> (wsd_diff s1 seq \<ge> 0 \<and> fbi_bit (wsd_mask s) (nat (wsd_diff s1 seq)) \<noteq> 0)"
  have run: "b = ?ok" "s' = (if ?ok then s1\<lparr>wsd_accepted := True, wsd_seq := seq\<rparr> else s1)"
    using assms(2) True s1(2,4)
    by (auto simp: wsd_gcheck_def wsd_check_def s1_def Let_def not_le split: if_splits)
  have fields: "wsd_init s'" "wsd_mask s' = wsd_mask s" "wsd_max_seq s' = wsd_max_seq s"
    "wsd_window_size s' = wsd_window_size s" "wsd_diff s' seq = wsd_diff s1 seq"
    using run(2) s1 by (auto intro: wsd_diff_fields)
  have "wsd_ginv m (s', L')" using inv1 run(2) by (auto simp: wsd_ginv_def wsd_period_def)
  moreover have "fbi.remembers (wsd_mask s') L' (wsd_key (s', L') seq) \<longleftrightarrow> \<not> ?ok"
    using assms(1) by (auto simp: fbi.remembers_def wsd_key_def fields fbi_is_set_def wsd_ginv_def not_less)
  moreover have "b \<Longrightarrow> wsd_accepted s' \<and> wsd_seq s' = seq" using run by simp
  ultimately show ?thesis
    using run(1) True fields L' by auto
qed

lemma wsd_gaccept_spec:
  assumes "wsd_ginv m (s, L)" "wsd_init s" "wsd_accepted s" "wsd_seq s \<le> wsd_max_seq s"
    and "wsd_diff s (wsd_seq s) < int (wsd_window_size s)"
  shows "\<exists>s' L'. wsd_gaccept (s, L) = Ok (s', L') \<and> wsd_ginv m (s', L') \<and> wsd_init s' \<and>
    fbi.remembers (wsd_mask s') L' (wsd_key (s, L) (wsd_seq s)) \<and>
    (\<forall>k. fbi.remembers (wsd_mask s) L k \<longrightarrow> fbi.remembers (wsd_mask s') L' k)"
proof -
  let ?d = "wsd_diff s (wsd_seq s)"
  have inv: "fbi_inv (wsd_mask s)" using assms(1) by (simp add: wsd_ginv_def)
  show ?thesis
  proof (cases "?d < 0")
    case True
    let ?m = "fbi_set_bit (fbi_lsh (wsd_mask s) (nat (- ?d))) 0"
    let ?s' = "s\<lparr>wsd_mask := ?m, wsd_latest_seq := wsd_seq s\<rparr>"
    have L: "L - ?d = L + int (nat (- ?d))" using True by simp
    have "wsd_gaccept (s, L) = Ok (?s', L - ?d)"
      using assms(3,5) True by (simp add: wsd_gaccept_def wsd_accept_def Let_def)
    moreover have "wsd_ginv m (?s', L - ?d)"
      using assms(1,4) wsd_key_cong [OF assms(1,2,4)] inv
      by (auto simp: wsd_ginv_def wsd_key_def wsd_period_def fbi.inv_set_bit fbi.inv_lsh)
    moreover have "fbi.remembers ?m (L - ?d) (L - ?d)"
      using fbi.remembers_marked [OF fbi.inv_lsh [OF inv], of "nat (- ?d)" 0 "L - ?d"] by simp
    moreover have "fbi.remembers ?m (L - ?d) k" if "fbi.remembers (wsd_mask s) L k" for k
      unfolding L by (intro fbi.remembers_set_bit fbi.remembers_lsh fbi.inv_lsh inv that)
    ultimately show ?thesis using assms(2) by (auto simp: wsd_key_def)
  next
    case False
    let ?m = "fbi_set_bit (wsd_mask s) (nat ?d)"
    have "wsd_gaccept (s, L) = Ok (s\<lparr>wsd_mask := ?m\<rparr>, L)"
      using assms(3,5) False by (simp add: wsd_gaccept_def wsd_accept_def Let_def)
    moreover have "wsd_ginv m (s\<lparr>wsd_mask := ?m\<rparr>, L)"
      using assms(1) by (auto simp: wsd_ginv_def wsd_period_def fbi.inv_set_bit)
    moreover have "fbi.remembers ?m L (L - ?d)"
      using fbi.remembers_marked [OF inv, of "nat ?d" L] False by simp
    ultimately show ?thesis
      using assms(2) by (auto simp: wsd_key_def intro: fbi.remembers_set_bit [OF inv])
  qed
qed

interpretation wsd: replay_contract wsd_gcheck wsd_gaccept wsd_key wsd_blocked "wsd_ginv m" for m
proof (unfold_locales, goal_cases)
  case (1 s seq b s')
  then show ?case using wsd_gcheck_spec by (cases s; cases s') blast
next
  case (2 s seq b s' k)
  then show ?case
    using wsd_gcheck_spec [of m "fst s" "snd s" seq b "fst s'" "snd s'"] by (auto simp: wsd_blocked_def)
next
  case (3 s seq s')
  then show ?case
    using wsd_gcheck_spec [of m "fst s" "snd s" seq True "fst s'" "snd s'"] by (auto simp: wsd_blocked_def)
next
  case (4 s seq s')
  obtain t L t' L' where st: "s = (t, L)" "s' = (t', L')" by (cases s; cases s')
  have spec: "wsd_ginv m (t', L')" "wsd_init t'" "wsd_accepted t'" "wsd_seq t' = seq" "seq \<le> wsd_max_seq t'"
    "wsd_diff t' seq < int (wsd_window_size t')"
    using wsd_gcheck_spec [of m t L seq True t' L'] 4 unfolding st by blast+
  from wsd_gaccept_spec [OF spec(1-3), unfolded spec(4), OF spec(5,6)] obtain t'' L'' where
    "wsd_gaccept (t', L') = Ok (t'', L'')" "wsd_ginv m (t'', L'')" "wsd_init t''"
    "fbi.remembers (wsd_mask t'') L'' (wsd_key (t', L') seq)"
    "\<forall>k. fbi.remembers (wsd_mask t') L' k \<longrightarrow> fbi.remembers (wsd_mask t'') L'' k" by blast
  then show ?case by (simp add: st wsd_blocked_def)
qed

lemma wsd_new_ginv:
  assumes "0 < w" "w mod 64 \<le> 32" "unat m < 2 ^ 62"
  shows "wsd_ginv m (wsd_new w m, L)"
proof -
  have "fbi_n (fbi_new w) = w" by (simp add: fbi_new_def Let_def)
  then show ?thesis using assms fbi_new_inv [OF assms(2)] by (simp add: wsd_ginv_def wsd_new_def)
qed

lemma unat_image_iff: "unat x \<in> unat ` A \<longleftrightarrow> x \<in> A"
  by (auto dest: word_unat_eq_iff [THEN iffD2])

section \<open>Properties\<close>

text \<open>
  C15: The sliding window is exact. Whatever packets arrive and whichever of them are authentic, the
  receiver does not panic and delivers no number twice. In the state it reaches, \<open>check\<close> accepts a
  number if and only if the number is within the limit, has not been delivered, and is less than the
  window size below every delivered number. This holds for a window whose size is at most 32 above a
  multiple of 64.
\<close>

theorem sliding_window_exact:
  assumes "0 < w" "w mod 64 \<le> 32" "w \<le> unat m" "w + unat m < 2 ^ 64"
  shows "\<exists>ds s. receive_all swd_check swd_accept (\<lambda>_ seq. int (unat seq)) (swd_new w m) packets = Ok (ds, s) \<and>
    distinct (map fst ds) \<and>
    (\<forall>seq. fst (swd_check s seq) \<longleftrightarrow>
       seq \<le> m \<and> seq \<notin> fst ` set ds \<and> (\<forall>a\<in>fst ` set ds. unat a < unat seq + w))"
proof -
  note new = swd_new_tracks [OF assms]
  from swd_receive_tracks [OF new] obtain ds s where
    run: "receive_all swd_check swd_accept (\<lambda>_ seq. int (unat seq)) (swd_new w m) packets = Ok (ds, s)"
    and tr: "swd_tracks s (unat ` fst ` set ds)" "swd_max_seq s = m" "swd_window_size s = w"
    and keys: "\<forall>d\<in>set ds. snd d = int (unat (fst d))"
    by (fastforce simp: swd_new_def)
  have "distinct (map snd ds)"
    using swd.no_packet_twice [of "swd_new w m" packets] new run by (auto simp: swd_tracks_def)
  moreover have "map snd ds = map (\<lambda>x. int (unat x)) (map fst ds)" using keys by auto
  ultimately have "distinct (map fst ds)" by (metis distinct_map)
  with run swd_check_tracks(1) [OF tr(1), unfolded tr(2,3) unat_image_iff] show ?thesis by simp
qed

theorem sliding_window_exact_witness:
  "\<exists>ds s. receive_all swd_check swd_accept (\<lambda>_ seq. int (unat seq)) (swd_new 64 1000)
      [(5, True), (5, True), (200, False), (4, True)] = Ok (ds, s) \<and> distinct (map fst ds)"
  using sliding_window_exact [of 64 1000 "[(5, True), (5, True), (200, False), (4, True)]"] by auto



text \<open>
  The full 64-bit range is not handled. With the largest possible limit, a number that is new and
  directly below the head of the window is rejected, because the window bound wraps around.
\<close>

theorem full_range_rejects_new:
  "\<exists>s. receive_all swd_check swd_accept (\<lambda>_ seq. int (unat seq)) (swd_new 64 0xFFFFFFFFFFFFFFFF)
      [(0xFFFFFFFFFFFFFFFF, True)] = Ok ([(0xFFFFFFFFFFFFFFFF, 0xFFFFFFFFFFFFFFFF)], s) \<and>
    \<not> fst (swd_check s 0xFFFFFFFFFFFFFFFE)"
  by (simp add: swd_check_def swd_accept_def swd_new_def Let_def)

section \<open>The sizes that forget\<close>

text \<open>A packet passes, the window shifts to it, and the packet one window below the new head passes again.\<close>

lemma receive_three:
  assumes "check s a = (True, s1)" "accept s1 = Ok s2" "check s2 b = (True, s3)" "accept s3 = Ok s4"
    "check s4 a = (True, s5)" "accept s5 = Ok s6"
  shows "\<exists>ds t. receive_all check accept key s [(a, True), (b, True), (a, True)] = Ok (ds, t) \<and> map fst ds = [a, b, a]"
  using assms by simp

lemma unat_ahead:
  assumes "unat a + d \<le> unat (m :: u64)" "0 < d"
  shows "unat (a + of_nat d) = unat a + d" "a + of_nat d \<le> m" "a < a + of_nat d" "unat (a + of_nat d - a) = d"
proof -
  have "unat m < 2 ^ LENGTH(64)" by (rule unsigned_less)
  with assms(1) have "unat a + d < 2 ^ 64" by simp
  then show s: "unat (a + of_nat d) = unat a + d" by (simp add: unat_word_ariths unat_of_nat)
  then show "a + of_nat d \<le> m" "a < a + of_nat d" using assms by (simp_all add: word_le_nat_alt word_less_nat_alt)
  from this(2) show "unat (a + of_nat d - a) = d" using s unat_sub [of a "a + of_nat d"] by (simp only: order_less_imp_le)
qed

lemma swd_first:
  assumes "a \<le> m" "m \<noteq> 0" "0 < w" "w < 2 ^ 64" "w mod 64 \<noteq> 0"
  shows "\<exists>s1 s2. swd_check (swd_new w m) a = (True, s1) \<and> swd_accept s1 = Ok s2 \<and> swd_latest_seq s2 = a \<and>
    fbi_sized w (swd_mask s2) \<and> swd_max_seq s2 = m \<and> swd_window_size s2 = w"
proof -
  have "(of_nat w :: u64) \<noteq> 0" using assms(3,4) by (simp add: word_unat_eq_iff unat_of_nat)
  then show ?thesis
    using assms(1,2) fbi_sized_ops fbi_sized_new [OF assms(5)]
    by (cases "a = 0") (auto simp: swd_check_def swd_new_def swd_accept_def Let_def fbi_new_bit word_gt_0)
qed

lemma swd_accept_ok: "swd_max_seq s \<noteq> 0 \<Longrightarrow> \<exists>t. swd_accept s = Ok t"
  by (auto simp: swd_accept_def Let_def)

lemma swd_replays:
  assumes "32 < w mod 64" "w + unat m < 2 ^ 64" "unat a + (w - 1) \<le> unat m"
  shows "\<exists>ds t. receive_all swd_check swd_accept key (swd_new w m) [(a, True), (a + of_nat (w - 1), True), (a, True)] =
    Ok (ds, t) \<and> map fst ds = [a, a + of_nat (w - 1), a]"
proof -
  define d where "d = w - 1"
  have d: "w = Suc d" "0 < d" using assms(1) mod_less_eq_dividend [of w 64] by (auto simp: d_def)
  define b where "b = a + of_nat d"
  have b: "unat b = unat a + d" "b \<le> m" "a < b" "unat (b - a) = d"
    using unat_ahead [of a d m] assms(3) d by (simp_all add: b_def)
  have m: "a \<le> m" "m \<noteq> 0" using b(2,3) by (auto dest: order_less_le_trans)
  obtain s1 s2 where s2: "swd_check (swd_new w m) a = (True, s1)" "swd_accept s1 = Ok s2" "swd_latest_seq s2 = a"
    "fbi_sized w (swd_mask s2)" "swd_max_seq s2 = m" "swd_window_size s2 = w"
    using swd_first [OF m, of w] d assms(1,2) by auto
  define s3 where "s3 = s2\<lparr>swd_accepted := True, swd_seq := b\<rparr>"
  define s4 where "s4 = s3\<lparr>swd_mask := fbi_set_bit (fbi_lsh (swd_mask s2) d) 0, swd_latest_seq := b\<rparr>"
  have two: "swd_check s2 b = (True, s3)" "swd_accept s3 = Ok s4"
    using b m s2(3,5) by (simp_all add: swd_check_def swd_accept_def Let_def s3_def s4_def not_le)
  have s4: "swd_latest_seq s4 = b" "swd_max_seq s4 = m" "swd_window_size s4 = w" "swd_max_seq s4 \<noteq> 0"
    using s2(5,6) m(2) by (simp_all add: s4_def s3_def)
  have "fbi_bit (swd_mask s4) d = 0" using fbi_lsh_forgets_top [OF s2(4) assms(1) d(2)] d(1) by (simp add: s4_def)
  moreover have "\<not> of_nat w + a \<le> b"
    using b(1) d assms(2,3) by (simp add: word_le_nat_alt unat_word_ariths unat_of_nat)
  ultimately have "swd_check s4 a = (True, s4\<lparr>swd_accepted := True, swd_seq := a\<rparr>)"
    using b m(1) s4 by (simp add: swd_check_def Let_def)
  moreover obtain s6 where "swd_accept (s4\<lparr>swd_accepted := True, swd_seq := a\<rparr>) = Ok s6"
    using swd_accept_ok [of "s4\<lparr>swd_accepted := True, swd_seq := a\<rparr>"] s4(4) by auto
  ultimately show ?thesis using receive_three [OF s2(1,2) two] unfolding b_def d_def by blast
qed

text \<open>The wrapping detector, with the number within half a period of the head.\<close>

lemma wsd_passes:
  assumes "wsd_init s" "unat (wsd_max_seq s) < 2 ^ 62" "wsd_latest_seq s \<le> wsd_max_seq s" "seq \<le> wsd_max_seq s"
    and d: "d = int (unat (wsd_latest_seq s)) - int (unat seq)" "d \<le> int (unat (wsd_max_seq s)) div 2"
      "- (int (unat (wsd_max_seq s)) div 2) < d" "d < int (wsd_window_size s)"
      "0 \<le> d \<Longrightarrow> fbi_bit (wsd_mask s) (nat d) = 0"
  shows "wsd_check s seq = (True, s\<lparr>wsd_accepted := True, wsd_seq := seq\<rparr>)"
    and "wsd_accept (s\<lparr>wsd_accepted := True, wsd_seq := seq\<rparr>) =
      Ok (if d < 0 then s\<lparr>wsd_accepted := True, wsd_seq := seq,
            wsd_mask := fbi_set_bit (fbi_lsh (wsd_mask s) (nat (- d))) 0, wsd_latest_seq := seq\<rparr>
          else s\<lparr>wsd_accepted := True, wsd_seq := seq, wsd_mask := fbi_set_bit (wsd_mask s) (nat d)\<rparr>)"
proof -
  have diff: "wsd_diff s seq = d" using wsd_diff_eq [OF assms(2-4)] d(1-3) by (simp add: Let_def)
  moreover have "wsd_diff (s\<lparr>wsd_accepted := x, wsd_seq := y\<rparr>) seq = wsd_diff s seq"
    "wsd_diff (s\<lparr>wsd_accepted := x\<rparr>) seq = wsd_diff s seq" for x y
    by (auto intro: wsd_diff_fields)
  ultimately have "wsd_diff (s\<lparr>wsd_accepted := x, wsd_seq := y\<rparr>) seq = d" "wsd_diff (s\<lparr>wsd_accepted := x\<rparr>) seq = d" for x y
    by simp_all
  then show "wsd_check s seq = (True, s\<lparr>wsd_accepted := True, wsd_seq := seq\<rparr>)"
    "wsd_accept (s\<lparr>wsd_accepted := True, wsd_seq := seq\<rparr>) =
      Ok (if d < 0 then s\<lparr>wsd_accepted := True, wsd_seq := seq,
            wsd_mask := fbi_set_bit (fbi_lsh (wsd_mask s) (nat (- d))) 0, wsd_latest_seq := seq\<rparr>
          else s\<lparr>wsd_accepted := True, wsd_seq := seq, wsd_mask := fbi_set_bit (wsd_mask s) (nat d)\<rparr>)"
    using assms(1,4) d(4,5) by (auto simp: wsd_check_def wsd_accept_def Let_def)
qed

lemma wsd_first:
  assumes "a \<le> m" "unat m < 2 ^ 62" "4 \<le> unat m" "0 < w" "w mod 64 \<noteq> 0"
  shows "\<exists>s1 s2. wsd_check (wsd_new w m) a = (True, s1) \<and> wsd_accept s1 = Ok s2 \<and> wsd_latest_seq s2 = a \<and>
    fbi_sized w (wsd_mask s2) \<and> wsd_max_seq s2 = m \<and> wsd_window_size s2 = w \<and> wsd_init s2"
proof -
  define s where "s = (wsd_new w m)\<lparr>wsd_latest_seq := (if a \<noteq> 0 then a - 1 else m), wsd_init := True\<rparr>"
  define s1 where "s1 = s\<lparr>wsd_accepted := True, wsd_seq := a\<rparr>"
  have s: "wsd_latest_seq s \<le> m" "wsd_max_seq s = m" using wsd_init_cong(1) [OF assms(1,2)] by (simp_all add: s_def wsd_new_def)
  have "a \<noteq> 0 \<Longrightarrow> int (unat (a - 1)) = int (unat a) - 1"
    using unat_minus_one [of a] unat_gt_0 [of a] by (simp add: of_nat_diff)
  then have "int (unat (wsd_latest_seq s)) - int (unat a) = (if a \<noteq> 0 then - 1 else int (unat m))"
    by (simp add: s_def wsd_new_def)
  moreover have "1 < int (unat m) div 2" "int (unat m) div 2 < int (unat m)" using assms(3) by linarith+
  ultimately have "wsd_diff s a = - 1"
    using wsd_diff_eq [of s a] s assms(1,2) by (cases "a = 0") (simp_all add: Let_def wsd_period_def)
  then have diff: "wsd_diff s a = - 1" "wsd_diff s1 a = - 1"
    using wsd_diff_fields [of s1 s a] by (simp_all add: s1_def)
  have "wsd_check (wsd_new w m) a = (True, s1)"
    using diff(1) assms(1) by (cases "a = 0") (simp_all add: wsd_check_def s_def s1_def wsd_new_def Let_def)
  moreover have "wsd_accept s1 = Ok (s1\<lparr>wsd_mask := fbi_set_bit (fbi_lsh (fbi_new w) 1) 0, wsd_latest_seq := a\<rparr>)"
    using diff(2) assms(4) by (simp add: wsd_accept_def s_def s1_def wsd_new_def Let_def)
  ultimately show ?thesis
    using fbi_sized_ops fbi_sized_new [OF assms(5)] by (auto simp: s1_def s_def wsd_new_def)
qed

lemma wsd_replays:
  assumes "32 < w mod 64" "2 * w \<le> unat m" "unat m < 2 ^ 62" "unat a + (w - 1) \<le> unat m"
  shows "\<exists>ds t. receive_all wsd_check wsd_accept key (wsd_new w m) [(a, True), (a + of_nat (w - 1), True), (a, True)] =
    Ok (ds, t) \<and> map fst ds = [a, a + of_nat (w - 1), a]"
proof -
  define d where "d = w - 1"
  have d: "w = Suc d" "0 < d" using assms(1) mod_less_eq_dividend [of w 64] by (auto simp: d_def)
  have half: "int d < int (unat m) div 2" "4 \<le> unat m" using assms(2) d by linarith+
  define b where "b = a + of_nat d"
  have b: "unat b = unat a + d" "b \<le> m" "a < b" using unat_ahead [of a d m] assms(4) d by (simp_all add: b_def)
  have m: "a \<le> m" using b(2,3) by simp
  obtain s1 s2 where s2: "wsd_check (wsd_new w m) a = (True, s1)" "wsd_accept s1 = Ok s2" "wsd_latest_seq s2 = a"
    "fbi_sized w (wsd_mask s2)" "wsd_max_seq s2 = m" "wsd_window_size s2 = w" "wsd_init s2"
    using wsd_first [OF m assms(3) half(2), of w] d assms(1) by auto
  define s4 where "s4 = s2\<lparr>wsd_accepted := True, wsd_seq := b,
    wsd_mask := fbi_set_bit (fbi_lsh (wsd_mask s2) d) 0, wsd_latest_seq := b\<rparr>"
  have two: "wsd_check s2 b = (True, s2\<lparr>wsd_accepted := True, wsd_seq := b\<rparr>)"
    "wsd_accept (s2\<lparr>wsd_accepted := True, wsd_seq := b\<rparr>) = Ok s4"
    using wsd_passes [of s2 b "- int d"] half d b m assms(3) s2(3,5-7) by (simp_all add: s4_def)
  have s4: "wsd_latest_seq s4 = b" "wsd_max_seq s4 = m" "wsd_window_size s4 = w" "wsd_init s4"
    using s2(5-7) by (simp_all add: s4_def)
  have "fbi_bit (wsd_mask s4) d = 0" using fbi_lsh_forgets_top [OF s2(4) assms(1) d(2)] d(1) by (simp add: s4_def)
  then have "wsd_check s4 a = (True, s4\<lparr>wsd_accepted := True, wsd_seq := a\<rparr>)"
    "\<exists>t. wsd_accept (s4\<lparr>wsd_accepted := True, wsd_seq := a\<rparr>) = Ok t"
    using wsd_passes [of s4 a "int d"] half d b m assms(3) s4 by simp_all
  then show ?thesis using receive_three [OF s2(1,2) two] unfolding b_def d_def by blast
qed

text \<open>
  C17: For every other window size, more than 32 above a multiple of 64, both detectors deliver a packet twice. The
  number \<open>a\<close> is accepted, then the number \<open>w - 1\<close> above it, whose shift drops the mark of \<open>a\<close> from the end of the
  window, and then \<open>a\<close> again, although it is still inside the window. The limit \<open>m\<close> has room for two windows, and
  none of the numbers wraps.
\<close>

theorem replay_accepted:
  assumes "32 < w mod 64" "2 * w \<le> unat m" "unat m < 2 ^ 62" "unat a + (w - 1) \<le> unat m"
    "packets = [(a, True), (a + of_nat (w - 1), True), (a, True)]"
  shows "(\<exists>ds s. receive_all wsd_check wsd_accept (\<lambda>_ seq. int (unat seq)) (wsd_new w m) packets = Ok (ds, s) \<and>
      map fst ds = map fst packets) \<and>
    (\<exists>ds s. receive_all swd_check swd_accept (\<lambda>_ seq. int (unat seq)) (swd_new w m) packets = Ok (ds, s) \<and>
      map fst ds = map fst packets)"
proof -
  have "w + unat m < 2 ^ 64" using assms(2,3) by simp
  from swd_replays [OF assms(1) this assms(4)] wsd_replays [OF assms(1-4)] show ?thesis
    unfolding assms(5) list.map fst_conv by blast
qed

theorem replay_accepted_witness:
  "\<exists>ds s. receive_all wsd_check wsd_accept (\<lambda>_ seq. int (unat seq)) (wsd_new 48 65535)
      [(7, True), (54, True), (7, True)] = Ok (ds, s) \<and> map fst ds = [7, 54, 7]"
proof -
  have "48 mod 64 > (32 :: nat)" "2 * 48 \<le> unat (65535 :: u64)" "unat (65535 :: u64) < 2 ^ 62"
    "unat (7 :: u64) + (48 - 1) \<le> unat (65535 :: u64)"
    "[(7 :: u64, True), (54, True), (7, True)] = [(7, True), (7 + of_nat (48 - 1), True), (7, True)]"
    by simp_all
  from replay_accepted [OF this] show ?thesis by (simp only: list.map fst_conv)
qed

end
