(* ===== verification/Srtp_Context.thy ===== *)
theory Srtp_Context
  imports Replay_Detector Rtp_Packet Rtcp_Header
begin

text \<open>
  The SRTP context (\<open>rtc-srtp/src/context/\<close>): the state per source from which both peers guess the roll-over
  counter that goes into the key stream, and the operations that protect and unprotect packets under it.

  A context holds a cipher and makes replay detectors as trait objects; here they are records of functions.
  The implementations of the trait \<open>Cipher\<close> (\<open>rtc-srtp/src/cipher/\<close>) hand the work to cryptographic libraries, so the
  cipher is a parameter. Its methods take \<open>&mut self\<close>; the parameter has no state, that is, a result depends only
  on the keys, the packet, the header and the counter. A protected or unprotected packet is
  returned together with the context, because an operation that fails may have changed it.
\<close>

unbundle bit_operations_syntax

section \<open>Definitions\<close>

abbreviation MAX_ROC :: u32 where "MAX_ROC \<equiv> 0xFFFFFFFF"
abbreviation SEQ_NUM_MEDIAN :: u16 where "SEQ_NUM_MEDIAN \<equiv> 0x8000"
abbreviation MAX_SRTCP_INDEX :: nat where "MAX_SRTCP_INDEX \<equiv> 0x7FFFFFFF"
abbreviation SRTCP_INDEX_SIZE :: nat where "SRTCP_INDEX_SIZE \<equiv> 4"

record 'd replay_ops =
  rd_new :: 'd
  rd_check :: "'d \<Rightarrow> u64 \<Rightarrow> bool \<times> 'd"
  rd_accept :: "'d \<Rightarrow> 'd result"

record srtp_cipher =
  rtp_auth_tag_len :: nat
  rtcp_auth_tag_len :: nat
  aead_auth_tag_len :: nat
  get_rtcp_index :: "u8 list \<Rightarrow> nat"
  encrypt_rtp_in_place :: "u8 list \<Rightarrow> rtp_header \<Rightarrow> u32 \<Rightarrow> u8 list result"
  decrypt_rtp_in_place :: "u8 list \<Rightarrow> rtp_header \<Rightarrow> u32 \<Rightarrow> u8 list result"
  cipher_encrypt_rtcp :: "u8 list \<Rightarrow> nat \<Rightarrow> u32 \<Rightarrow> u8 list result"
  cipher_decrypt_rtcp :: "u8 list \<Rightarrow> nat \<Rightarrow> u32 \<Rightarrow> u8 list result"

record 'd srtp_ssrc_state =
  ss_ssrc :: u32
  ss_index :: u64
  ss_rollover_has_processed :: bool
  ss_replay_detector :: "'d option"

record 'd srtcp_ssrc_state =
  sc_srtcp_index :: nat
  sc_ssrc :: u32
  sc_replay_detector :: "'d option"

record 'd srtp_context =
  ctx_cipher :: srtp_cipher
  ctx_srtp_ssrc_states :: "u32 \<Rightarrow> 'd srtp_ssrc_state option"
  ctx_srtcp_ssrc_states :: "u32 \<Rightarrow> 'd srtcp_ssrc_state option"
  ctx_srtp_replay :: "'d replay_ops"
  ctx_srtcp_replay :: "'d replay_ops"

text \<open>Differences of sequence numbers fit into \<open>i32\<close>, so they are integers.\<close>

definition next_rollover_count :: "'d srtp_ssrc_state \<Rightarrow> u16 \<Rightarrow> u32 \<times> int \<times> bool" where
  "next_rollover_count self seq_number =
     (let local_roc = ucast (drop_bit 16 (ss_index self)); local_seq = ucast (ss_index self);
          (guess_roc, diff) =
            (if ss_rollover_has_processed self then
               let seq = uint seq_number - uint local_seq in
               if ss_index self > ucast SEQ_NUM_MEDIAN then
                 if local_seq < SEQ_NUM_MEDIAN then
                   if seq > uint SEQ_NUM_MEDIAN then (local_roc - 1, seq - 0x10000) else (local_roc, seq)
                 else if local_seq - SEQ_NUM_MEDIAN > seq_number then (local_roc + 1, seq + 0x10000)
                 else (local_roc, seq)
               else (local_roc, seq)
             else (local_roc, 0)) in
      (guess_roc, diff, guess_roc = 0 \<and> local_roc = MAX_ROC))"

definition update_rollover_count :: "'d srtp_ssrc_state \<Rightarrow> u16 \<Rightarrow> int \<Rightarrow> 'd srtp_ssrc_state" where
  "update_rollover_count self seq_number diff =
     (if \<not> ss_rollover_has_processed self
      then self\<lparr>ss_index := ss_index self OR ucast seq_number, ss_rollover_has_processed := True\<rparr>
      else self\<lparr>ss_index := ss_index self + word_of_int diff\<rparr>)"

definition get_srtp_ssrc_state :: "'d srtp_context \<Rightarrow> u32 \<Rightarrow> 'd srtp_ssrc_state" where
  "get_srtp_ssrc_state self ssrc =
     (case ctx_srtp_ssrc_states self ssrc of
        Some state \<Rightarrow> state
      | None \<Rightarrow> \<lparr>ss_ssrc = ssrc, ss_index = 0, ss_rollover_has_processed = False,
          ss_replay_detector = Some (rd_new (ctx_srtp_replay self))\<rparr>)"

definition get_srtcp_ssrc_state :: "'d srtp_context \<Rightarrow> u32 \<Rightarrow> 'd srtcp_ssrc_state" where
  "get_srtcp_ssrc_state self ssrc =
     (case ctx_srtcp_ssrc_states self ssrc of
        Some state \<Rightarrow> state
      | None \<Rightarrow> \<lparr>sc_srtcp_index = 0, sc_ssrc = ssrc, sc_replay_detector = Some (rd_new (ctx_srtcp_replay self))\<rparr>)"

text \<open>The test of an optional detector, and the commitment that follows a successful decryption.\<close>

definition check_replay :: "'d replay_ops \<Rightarrow> 'd option \<Rightarrow> u64 \<Rightarrow> bool \<times> 'd option" where
  "check_replay ops detector seq =
     (case detector of None \<Rightarrow> (True, None) | Some d \<Rightarrow> (let (ok, d) = rd_check ops d seq in (ok, Some d)))"

definition accept_replay :: "'d replay_ops \<Rightarrow> 'd option \<Rightarrow> 'd option result" where
  "accept_replay ops detector =
     (case detector of None \<Rightarrow> Ok None | Some d \<Rightarrow> and_then (rd_accept ops d) (\<lambda>d. Ok (Some d)))"

section \<open>Media\<close>

definition decrypt_rtp_under_state ::
  "'d srtp_context \<Rightarrow> rtp_header \<Rightarrow> (u32 \<Rightarrow> 'a result) \<Rightarrow> 'a result \<times> 'd srtp_context" where
  "decrypt_rtp_under_state self header decrypt =
     (let ssrc = rtp_ssrc header; seq_number = rtp_sequence_number header;
          commit = (\<lambda>state. self\<lparr>ctx_srtp_ssrc_states := (ctx_srtp_ssrc_states self)(ssrc \<mapsto> state)\<rparr>);
          known = (ctx_srtp_ssrc_states self ssrc \<noteq> None);
          state = get_srtp_ssrc_state self ssrc;
          (roc, diff, _) = next_rollover_count state seq_number;
          (ok, detector) = check_replay (ctx_srtp_replay self) (ss_replay_detector state) (ucast seq_number);
          state = state\<lparr>ss_replay_detector := detector\<rparr>;
          checked = (if known then commit state else self) in
      if \<not> ok then (Err (SrtpSsrcDuplicated ssrc seq_number), checked)
      else
        case decrypt roc of
          Inl e \<Rightarrow> (Err e, checked)
        | Inr decrypted \<Rightarrow>
            (case accept_replay (ctx_srtp_replay self) detector of
               Inl e \<Rightarrow> (Err e, checked)
             | Inr detector \<Rightarrow>
                 (Ok decrypted, commit (update_rollover_count (state\<lparr>ss_replay_detector := detector\<rparr>) seq_number diff))))"

definition decrypt_rtp_with_header ::
  "'d srtp_context \<Rightarrow> u8 list \<Rightarrow> rtp_header \<Rightarrow> u8 list result \<times> 'd srtp_context" where
  "decrypt_rtp_with_header self encrypted header =
     (if length encrypted < rtp_header_marshal_size header + rtp_auth_tag_len (ctx_cipher self) then (Err ErrTooShortRtp, self)
      else decrypt_rtp_under_state self header (decrypt_rtp_in_place (ctx_cipher self) encrypted header))"

definition decrypt_rtp :: "'d srtp_context \<Rightarrow> u8 list \<Rightarrow> u8 list result \<times> 'd srtp_context" where
  "decrypt_rtp self encrypted =
     (case rtp_header_unmarshal encrypted of
        Inl e \<Rightarrow> (Err e, self)
      | Inr (header, _) \<Rightarrow> decrypt_rtp_with_header self encrypted header)"

text \<open>What is left of a decrypted packet behind its header, with the padding removed.\<close>

definition decrypted_payload :: "rtp_header \<Rightarrow> nat \<Rightarrow> u8 list \<Rightarrow> u8 list result" where
  "decrypted_payload header payload_offset decrypted =
     (if length decrypted < payload_offset then Err ErrShortPacket
      else
        let payload = drop payload_offset decrypted in
        if rtp_padding header then
          if payload \<noteq> [] \<and> unat (last payload) \<le> length payload then Ok (take (length payload - unat (last payload)) payload)
          else Err ErrShortPacket
        else Ok payload)"

definition decrypt_rtp_packet :: "'d srtp_context \<Rightarrow> u8 list \<Rightarrow> rtp_packet result \<times> 'd srtp_context" where
  "decrypt_rtp_packet self encrypted =
     (case rtp_header_unmarshal encrypted of
        Inl e \<Rightarrow> (Err e, self)
      | Inr (header, buf) \<Rightarrow>
          let payload_offset = length encrypted - length buf in
          if length encrypted < rtp_header_marshal_size header + rtp_auth_tag_len (ctx_cipher self) then (Err ErrTooShortRtp, self)
          else
            let (r, self) = decrypt_rtp_under_state self header (decrypt_rtp_in_place (ctx_cipher self) encrypted header) in
            (and_then r (\<lambda>decrypted. and_then (decrypted_payload header payload_offset decrypted)
               (\<lambda>payload. Ok \<lparr>pkt_header = header, pkt_payload = payload\<rparr>)), self))"

definition encrypt_rtp_under_state ::
  "'d srtp_context \<Rightarrow> rtp_header \<Rightarrow> (u32 \<Rightarrow> 'a result) \<Rightarrow> 'a result \<times> 'd srtp_context" where
  "encrypt_rtp_under_state self header encrypt =
     (let ssrc = rtp_ssrc header; state = get_srtp_ssrc_state self ssrc;
          commit = (\<lambda>state. self\<lparr>ctx_srtp_ssrc_states := (ctx_srtp_ssrc_states self)(ssrc \<mapsto> state)\<rparr>);
          (roc, diff, ovf) = next_rollover_count state (rtp_sequence_number header) in
      if ovf then (Err ErrExceededMaxPackets, commit state)
      else
        case encrypt roc of
          Inl e \<Rightarrow> (Err e, commit state)
        | Inr encrypted \<Rightarrow> (Ok encrypted, commit (update_rollover_count state (rtp_sequence_number header) diff)))"

definition encrypt_rtp_with_header ::
  "'d srtp_context \<Rightarrow> u8 list \<Rightarrow> rtp_header \<Rightarrow> u8 list result \<times> 'd srtp_context" where
  "encrypt_rtp_with_header self plaintext header =
     encrypt_rtp_under_state self header (encrypt_rtp_in_place (ctx_cipher self) plaintext header)"

definition encrypt_rtp_packet :: "'d srtp_context \<Rightarrow> rtp_packet \<Rightarrow> u8 list result \<times> 'd srtp_context" where
  "encrypt_rtp_packet self packet =
     (case marshal (rtp_packet_marshal_size packet) (rtp_packet_marshal_to packet) of
        Inl e \<Rightarrow> (Err e, self)
      | Inr buf \<Rightarrow>
          encrypt_rtp_under_state self (pkt_header packet) (encrypt_rtp_in_place (ctx_cipher self) buf (pkt_header packet)))"

definition encrypt_rtp :: "'d srtp_context \<Rightarrow> u8 list \<Rightarrow> u8 list result \<times> 'd srtp_context" where
  "encrypt_rtp self plaintext =
     (case rtp_header_unmarshal plaintext of
        Inl e \<Rightarrow> (Err e, self)
      | Inr (header, _) \<Rightarrow> encrypt_rtp_with_header self plaintext header)"

section \<open>Control\<close>

definition decrypt_rtcp :: "'d srtp_context \<Rightarrow> u8 list \<Rightarrow> u8 list result \<times> 'd srtp_context" where
  "decrypt_rtcp self encrypted =
     (if length encrypted < 8 + SRTCP_INDEX_SIZE + rtcp_auth_tag_len (ctx_cipher self) + aead_auth_tag_len (ctx_cipher self)
      then (Err ErrTooShortRtcp, self)
      else case rtcp_header_unmarshal encrypted of
        Inl e \<Rightarrow> (Err e, self)
      | Inr _ \<Rightarrow>
          let index = get_rtcp_index (ctx_cipher self) encrypted;
              ssrc = u32_at (drop 4 encrypted);
              commit = (\<lambda>state. self\<lparr>ctx_srtcp_ssrc_states := (ctx_srtcp_ssrc_states self)(ssrc \<mapsto> state)\<rparr>);
              known = (ctx_srtcp_ssrc_states self ssrc \<noteq> None);
              state = get_srtcp_ssrc_state self ssrc;
              (ok, detector) = check_replay (ctx_srtcp_replay self) (sc_replay_detector state) (of_nat index);
              state = state\<lparr>sc_replay_detector := detector\<rparr>;
              checked = (if known then commit state else self) in
          if \<not> ok then (Err (SrtcpSsrcDuplicated ssrc index), checked)
          else case cipher_decrypt_rtcp (ctx_cipher self) encrypted index ssrc of
            Inl e \<Rightarrow> (Err e, checked)
          | Inr dst \<Rightarrow>
              (case accept_replay (ctx_srtcp_replay self) detector of
                 Inl e \<Rightarrow> (Err e, checked)
               | Inr detector \<Rightarrow> (Ok dst, commit (state\<lparr>sc_replay_detector := detector\<rparr>))))"

definition encrypt_rtcp :: "'d srtp_context \<Rightarrow> u8 list \<Rightarrow> u8 list result \<times> 'd srtp_context" where
  "encrypt_rtcp self decrypted =
     (if length decrypted < 8 then (Err ErrTooShortRtcp, self)
      else case rtcp_header_unmarshal decrypted of
        Inl e \<Rightarrow> (Err e, self)
      | Inr _ \<Rightarrow>
          let ssrc = u32_at (drop 4 decrypted);
              state = get_srtcp_ssrc_state self ssrc;
              index = (if sc_srtcp_index state + 1 > MAX_SRTCP_INDEX then 0 else sc_srtcp_index state + 1) in
          (cipher_encrypt_rtcp (ctx_cipher self) decrypted index ssrc,
           self\<lparr>ctx_srtcp_ssrc_states := (ctx_srtcp_ssrc_states self)(ssrc \<mapsto> state\<lparr>sc_srtcp_index := index\<rparr>)\<rparr>))"


section \<open>The roll-over counter\<close>

text \<open>The packet index of RFC 3711 is the roll-over counter followed by the sequence number, 48 bits. Whatever the
  indices, the guess from the number alone is right when the packet is less than 2^15 away from the last one.\<close>

lemma near_parts:
  fixes k d :: int
  assumes "- 32768 < 65536 * k + d" "65536 * k + d < 32768" "- 65536 < d" "d < 65536"
  shows "d > 32768 \<Longrightarrow> k = - 1" "d < - 32768 \<Longrightarrow> k = 1" "- 32768 \<le> d \<Longrightarrow> d \<le> 32768 \<Longrightarrow> k = 0"
  using assms by linarith+

lemma near_split:
  fixes i j :: nat
  assumes near: "\<bar>int j - int i\<bar> < 2 ^ 15"
  defines "d \<equiv> int (j mod 65536) - int (i mod 65536)" and "k \<equiv> int (j div 65536) - int (i div 65536)"
  shows "d > 32768 \<Longrightarrow> k = - 1" "d < - 32768 \<Longrightarrow> k = 1" "- 32768 \<le> d \<Longrightarrow> d \<le> 32768 \<Longrightarrow> k = 0"
    and "int j - int i = 65536 * k + d"
proof -
  define m n a b where "m = i mod 65536" and "n = j mod 65536" and "a = i div 65536" and "b = j div 65536"
  have ij: "i = 65536 * a + m" "j = 65536 * b + n" "m < 65536" "n < 65536" by (simp_all add: m_def n_def a_def b_def)
  have dk: "d = int n - int m" "k = int b - int a" by (simp_all add: d_def k_def m_def n_def a_def b_def)
  from ij(1,2) show eq: "int j - int i = 65536 * k + d" unfolding dk by simp
  have "- 65536 < d" "d < 65536" using ij(3,4) unfolding dk by linarith+
  moreover have "- 32768 < 65536 * k + d" "65536 * k + d < 32768" using near unfolding eq by simp_all
  ultimately show "d > 32768 \<Longrightarrow> k = - 1" "d < - 32768 \<Longrightarrow> k = 1" "- 32768 \<le> d \<Longrightarrow> d \<le> 32768 \<Longrightarrow> k = 0"
    using near_parts [of k d] by blast+
qed

lemma unat_of_nat_u64: "i < 2 ^ 48 \<Longrightarrow> unat (of_nat i :: u64) = i"
  by (simp add: unat_of_nat)

lemma local_parts:
  assumes "i < 2 ^ 48"
  shows "(ucast (drop_bit 16 (of_nat i :: u64)) :: u32) = of_nat (i div 65536)"
    and "(ucast (of_nat i :: u64) :: u16) = of_nat i" "uint (of_nat i :: u16) = int (i mod 65536)"
    and "(of_nat i :: u64) > ucast SEQ_NUM_MEDIAN \<longleftrightarrow> i > 32768"
    and "(of_nat i :: u16) < SEQ_NUM_MEDIAN \<longleftrightarrow> i mod 65536 < 32768"
    and "\<not> i mod 65536 < 32768 \<Longrightarrow> (of_nat i :: u16) - SEQ_NUM_MEDIAN > of_nat j \<longleftrightarrow> i mod 65536 - 32768 > j mod 65536"
proof -
  note i = unat_of_nat_u64 [OF assms]
  have c32: "(ucast w :: u32) = of_nat (unat w)" and c16: "(ucast w :: u16) = of_nat (unat w)" for w :: u64 by simp_all
  have "unat (drop_bit 16 (of_nat i :: u64)) = i div 65536" by (simp add: drop_bit_eq_div unat_div i)
  then show "(ucast (drop_bit 16 (of_nat i :: u64)) :: u32) = of_nat (i div 65536)" unfolding c32 by (rule arg_cong)
  show "(ucast (of_nat i :: u64) :: u16) = of_nat i" unfolding c16 i ..
  show "uint (of_nat i :: u16) = int (i mod 65536)" by (simp add: unsigned_of_nat zmod_int take_bit_eq_mod)
  show "(of_nat i :: u64) > ucast SEQ_NUM_MEDIAN \<longleftrightarrow> i > 32768" by (simp add: word_less_nat_alt i)
  show "(of_nat i :: u16) < SEQ_NUM_MEDIAN \<longleftrightarrow> i mod 65536 < 32768" by (simp add: word_less_nat_alt unat_of_nat)
  show "(of_nat i :: u16) - SEQ_NUM_MEDIAN > of_nat j \<longleftrightarrow> i mod 65536 - 32768 > j mod 65536" if "\<not> i mod 65536 < 32768"
  proof -
    have "unat ((of_nat i :: u16) - SEQ_NUM_MEDIAN) = i mod 65536 - 32768"
      using that by (subst unat_sub) (simp_all add: word_le_nat_alt unat_of_nat)
    then show ?thesis by (simp add: word_less_nat_alt unat_of_nat)
  qed
qed

lemma next_rollover_near:
  assumes "ss_rollover_has_processed st" "ss_index st = of_nat i" "i < 2 ^ 48" "j < 2 ^ 48" "\<bar>int j - int i\<bar> < 2 ^ 15"
  shows "next_rollover_count st (of_nat j) = (of_nat (j div 65536), int j - int i, False)"
proof -
  define d k where "d = int (j mod 65536) - int (i mod 65536)" and "k = int (j div 65536) - int (i div 65536)"
  note near = near_split [OF assms(5), folded d_def k_def] and parts = local_parts [OF assms(3)]
  have seq: "uint (of_nat j :: u16) - uint (of_nat i :: u16) = d" using local_parts(3) [OF assms(4)] parts(3) by (simp add: d_def)
  have bounds: "i mod 65536 < 65536" "j mod 65536 < 65536" by simp_all
  have roc: "(of_nat (j div 65536) :: u32) = of_nat (i div 65536) + word_of_int k" unfolding k_def by simp
  have k: "k = - 1 \<or> k = 0 \<or> k = 1" using near(1-3) by linarith
  have small: "unat (of_nat (j div 65536) :: u32) = j div 65536" "unat (of_nat (i div 65536) :: u32) = i div 65536"
    using assms(3,4) by (simp_all add: unat_of_nat)
  have ovf: "\<not> ((of_nat (j div 65536) :: u32) = 0 \<and> (of_nat (i div 65536) :: u32) = MAX_ROC)"
    unfolding word_unat_eq_iff small using k by (auto simp: k_def)
  have low: "k = 0" if "\<not> i > 32768"
  proof -
    have "i < 65536" "j < 65536" using that assms(5) by auto
    then show ?thesis by (simp add: k_def)
  qed
  have cases: "(if i > 32768 then
      if i mod 65536 < 32768 then
        if d > 32768 then (of_nat (i div 65536) - 1, d - 65536) else (of_nat (i div 65536), d)
      else if i mod 65536 - 32768 > j mod 65536 then (of_nat (i div 65536) + 1, d + 65536)
      else (of_nat (i div 65536), d)
    else (of_nat (i div 65536), d)) = (of_nat (j div 65536) :: u32, int j - int i)"
  proof -
    have "d \<ge> - 32768" if "i mod 65536 < 32768" using that unfolding d_def by linarith
    moreover have "d < - 32768 \<longleftrightarrow> i mod 65536 - 32768 > j mod 65536" "d \<le> 32768" if "\<not> i mod 65536 < 32768"
      using that bounds unfolding d_def by linarith+
    ultimately show ?thesis unfolding roc near(4) using near(1-3) low by auto
  qed
  have "next_rollover_count st (of_nat j) = (case (if i > 32768 then
      if i mod 65536 < 32768 then
        if d > 32768 then (of_nat (i div 65536) - 1, d - 65536) else (of_nat (i div 65536), d)
      else if i mod 65536 - 32768 > j mod 65536 then (of_nat (i div 65536) + 1, d + 65536)
      else (of_nat (i div 65536), d)
    else (of_nat (i div 65536), d)) of (roc, diff) \<Rightarrow> (roc, diff, roc = 0 \<and> of_nat (i div 65536) = MAX_ROC))"
    unfolding next_rollover_count_def Let_def assms(1,2) parts(1,2) seq parts(4,5)
    using parts(6) [of j] assms(1) by simp
  then show ?thesis unfolding cases using ovf by simp
qed

text \<open>A state that is at packet index \<open>i\<close>, or that has not seen a packet yet, and the indices it can move to.\<close>

definition at_index :: "'d srtp_ssrc_state \<Rightarrow> nat option \<Rightarrow> bool" where
  "at_index st pos \<longleftrightarrow> (case pos of
     None \<Rightarrow> \<not> ss_rollover_has_processed st \<and> ss_index st = 0
   | Some i \<Rightarrow> ss_rollover_has_processed st \<and> ss_index st = of_nat i \<and> i < 2 ^ 48)"

definition reaches :: "nat option \<Rightarrow> nat \<Rightarrow> bool" where
  "reaches pos j \<longleftrightarrow> (case pos of None \<Rightarrow> j < 65536 | Some i \<Rightarrow> j < 2 ^ 48 \<and> \<bar>int j - int i\<bar> < 2 ^ 15)"

lemma at_index_step:
  assumes "at_index st pos" "reaches pos j"
  obtains diff where "next_rollover_count st (of_nat j) = (of_nat (j div 65536), diff, False)"
    "at_index (update_rollover_count st (of_nat j) diff) (Some j)"
proof (cases pos)
  case None
  have "(ucast w :: u64) = of_nat (unat w)" for w :: u16 by simp
  then have "(ucast (of_nat j :: u16) :: u64) = of_nat j"
    using None assms(2) unat_of_nat_small(2) [of j] by (metis option.simps(4) reaches_def)
  then show thesis
    using None assms by (intro that [of 0]) (simp_all add: at_index_def reaches_def next_rollover_count_def update_rollover_count_def)
next
  case (Some i)
  then show thesis
    using assms next_rollover_near [of st i j]
    by (intro that [of "int j - int i"]) (simp_all add: at_index_def reaches_def update_rollover_count_def)
qed

lemma at_index_detector [simp]: "at_index (st\<lparr>ss_replay_detector := d\<rparr>) pos = at_index st pos"
  by (simp add: at_index_def split: option.splits)

lemma next_rollover_detector [simp]: "next_rollover_count (st\<lparr>ss_replay_detector := d\<rparr>) = next_rollover_count st"
  by (rule ext) (simp add: next_rollover_count_def Let_def)


section \<open>A packet under protection\<close>

text \<open>What the context relies on of a cipher, as the trait documents it: a packet with its header is protected without
  touching the header, and unprotecting it under the same header and counter gives it back.\<close>

definition cipher_ok :: "srtp_cipher \<Rightarrow> bool" where
  "cipher_ok C \<longleftrightarrow> (\<forall>packet header roc. rtp_header_wf header \<longrightarrow> rtp_header_marshal_size header \<le> length packet \<longrightarrow>
     (\<exists>bs. encrypt_rtp_in_place C packet header roc = Ok bs \<and> decrypt_rtp_in_place C bs header roc = Ok packet \<and>
       take (rtp_header_marshal_size header) bs = take (rtp_header_marshal_size header) packet \<and>
       rtp_header_marshal_size header + rtp_auth_tag_len C \<le> length bs))"

lemma rtp_packet_parts:
  assumes "rtp_header_wf (pkt_header p)"
  obtains hb rest where "marshal (rtp_packet_marshal_size p) (rtp_packet_marshal_to p) = Ok (hb @ rest)"
    "length hb = rtp_header_marshal_size (pkt_header p)" "\<And>r. rtp_header_unmarshal (hb @ r) = Ok (pkt_header p, r)"
    "rtp_packet_unmarshal (hb @ rest) = Ok (p, [])"
proof -
  let ?n = "rtp_packet_marshal_size p"
  obtain hb where hb: "rtp_header_marshal_to (pkt_header p) ?n = Ok (hb, rtp_header_marshal_size (pkt_header p))"
    "length hb = rtp_header_marshal_size (pkt_header p)"
    using rtp_header_codec.stream_fits [OF assms, of ?n] by (auto simp: rtp_packet_marshal_size_def)
  define rest where "rest = pkt_payload p @ put_padding (rtp_packet_padding p)"
  have len: "length hb + (length (pkt_payload p) + rtp_packet_padding p) = ?n" by (simp add: hb(2) rtp_packet_marshal_size_def)
  then have m: "marshal ?n (rtp_packet_marshal_to p) = Ok (hb @ rest)"
    using hb by (simp add: marshal_def rtp_packet_marshal_to_def rest_def Let_def)
  have "rtp_packet_unmarshal (hb @ rest) = Ok (p, [])"
    using rtp_packet_codec.marshal_ok [of p] assms m by (auto simp: rtp_packet_wf_def)
  with m hb(2) rtp_header_codec.unmarshal_prefix [OF assms hb(1)] that show thesis by blast
qed

lemma decrypted_payload_ok:
  assumes "rtp_packet_unmarshal (hb @ rest) = Ok (p, [])" "rtp_header_unmarshal (hb @ rest) = Ok (pkt_header p, rest)"
  shows "decrypted_payload (pkt_header p) (length hb) (hb @ rest) = Ok (pkt_payload p)"
  using assms
  by (cases p; cases "rest = []")
    (auto simp: rtp_packet_unmarshal_def decrypted_payload_def copy_to_bytes_def Let_def last_conv_nth split: if_splits)

definition sealed :: "srtp_cipher \<Rightarrow> nat \<Rightarrow> rtp_packet \<Rightarrow> u8 list \<Rightarrow> bool" where
  "sealed C j p bs \<longleftrightarrow> (\<exists>buf. marshal (rtp_packet_marshal_size p) (rtp_packet_marshal_to p) = Ok buf \<and>
     encrypt_rtp_in_place C buf (pkt_header p) (of_nat (j div 65536)) = Ok bs)"

lemma encrypt_step:
  assumes "cipher_ok (ctx_cipher ctx)" "rtp_header_wf (pkt_header p)" "rtp_sequence_number (pkt_header p) = of_nat j"
    and "at_index (get_srtp_ssrc_state ctx (rtp_ssrc (pkt_header p))) pos" "reaches pos j"
  shows "\<exists>bs ctx'. encrypt_rtp_packet ctx p = (Ok bs, ctx') \<and> sealed (ctx_cipher ctx) j p bs \<and>
    ctx_cipher ctx' = ctx_cipher ctx \<and> at_index (get_srtp_ssrc_state ctx' (rtp_ssrc (pkt_header p))) (Some j)"
proof -
  obtain hb rest where parts: "marshal (rtp_packet_marshal_size p) (rtp_packet_marshal_to p) = Ok (hb @ rest)"
    "length hb = rtp_header_marshal_size (pkt_header p)" using rtp_packet_parts [OF assms(2)] by metis
  obtain diff where step: "next_rollover_count (get_srtp_ssrc_state ctx (rtp_ssrc (pkt_header p))) (of_nat j) = (of_nat (j div 65536), diff, False)"
    "at_index (update_rollover_count (get_srtp_ssrc_state ctx (rtp_ssrc (pkt_header p))) (of_nat j) diff) (Some j)"
    using at_index_step [OF assms(4,5)] by blast
  obtain bs where "encrypt_rtp_in_place (ctx_cipher ctx) (hb @ rest) (pkt_header p) (of_nat (j div 65536)) = Ok bs"
    using assms(1,2) parts(2) unfolding cipher_ok_def by (metis le_add1 length_append)
  then show ?thesis
    using parts(1) step assms(3)
    by (simp add: encrypt_rtp_packet_def encrypt_rtp_under_state_def sealed_def Let_def) (simp add: get_srtp_ssrc_state_def)
qed

text \<open>A detector that passes every number, as the one a context has without replay protection.\<close>

definition permissive :: "'d replay_ops \<Rightarrow> bool" where
  "permissive ops \<longleftrightarrow> (\<forall>d seq. fst (rd_check ops d seq)) \<and> (\<forall>d. \<exists>d'. rd_accept ops d = Ok d')"

lemma permissive_replay:
  assumes "permissive ops"
  obtains d1 d2 where "check_replay ops d seq = (True, d1)" "accept_replay ops d1 = Ok d2"
proof (cases d)
  case None
  then show thesis by (intro that [of None None]) (simp_all add: check_replay_def accept_replay_def)
next
  case (Some x)
  obtain x1 where x1: "rd_check ops x seq = (True, x1)" using assms unfolding permissive_def by (metis prod.collapse)
  obtain x2 where "rd_accept ops x1 = Ok x2" using assms unfolding permissive_def by blast
  with x1 Some show thesis by (intro that [of "Some x1" "Some x2"]) (simp_all add: check_replay_def accept_replay_def)
qed

lemma decrypt_step:
  assumes "cipher_ok (ctx_cipher ctx)" "rtp_header_wf (pkt_header p)" "rtp_sequence_number (pkt_header p) = of_nat j"
    and "at_index (get_srtp_ssrc_state ctx (rtp_ssrc (pkt_header p))) pos" "reaches pos j"
    and "permissive (ctx_srtp_replay ctx)" "sealed (ctx_cipher ctx) j p bs"
  shows "\<exists>ctx'. decrypt_rtp_packet ctx bs = (Ok p, ctx') \<and> ctx_cipher ctx' = ctx_cipher ctx \<and>
    ctx_srtp_replay ctx' = ctx_srtp_replay ctx \<and> at_index (get_srtp_ssrc_state ctx' (rtp_ssrc (pkt_header p))) (Some j)"
proof -
  define C h st where "C = ctx_cipher ctx" and "h = pkt_header p" and "st = get_srtp_ssrc_state ctx (rtp_ssrc (pkt_header p))"
  obtain hb rest where parts: "marshal (rtp_packet_marshal_size p) (rtp_packet_marshal_to p) = Ok (hb @ rest)"
    "length hb = rtp_header_marshal_size h" "\<And>r. rtp_header_unmarshal (hb @ r) = Ok (h, r)"
    "rtp_packet_unmarshal (hb @ rest) = Ok (p, [])" using rtp_packet_parts [OF assms(2)] unfolding h_def by metis
  have sealed: "encrypt_rtp_in_place C (hb @ rest) h (of_nat (j div 65536)) = Ok bs"
    using assms(7) parts(1) by (simp add: sealed_def C_def h_def)
  have "decrypt_rtp_in_place C bs h (of_nat (j div 65536)) = Ok (hb @ rest)" "take (length hb) bs = hb"
    "length hb + rtp_auth_tag_len C \<le> length bs"
    using assms(1,2) [folded C_def h_def] sealed parts(2) unfolding cipher_ok_def by (metis (no_types, lifting) append_eq_conv_conj le_add1 length_append sum.inject(2))+
  then obtain r where open_: "decrypt_rtp_in_place C (hb @ r) h (of_nat (j div 65536)) = Ok (hb @ rest)" "bs = hb @ r"
    "rtp_auth_tag_len C \<le> length r"
    by (metis append_take_drop_id add_le_cancel_left length_append)
  obtain diff where step: "next_rollover_count st (of_nat j) = (of_nat (j div 65536), diff, False)"
    "at_index (update_rollover_count st (of_nat j) diff) (Some j)"
    using at_index_step [OF assms(4,5)] unfolding st_def by blast
  obtain d1 d2 where replay: "check_replay (ctx_srtp_replay ctx) (ss_replay_detector st) (ucast (of_nat j :: u16)) = (True, d1)"
    "accept_replay (ctx_srtp_replay ctx) d1 = Ok d2" using permissive_replay [OF assms(6)] by metis
  have up: "at_index (update_rollover_count (st\<lparr>ss_replay_detector := d2\<rparr>) (of_nat j) diff) (Some j)"
    using step(2) by (auto simp: update_rollover_count_def at_index_def split: if_splits)
  have payload: "decrypted_payload h (length hb) (hb @ rest) = Ok (pkt_payload p)"
    using decrypted_payload_ok parts(3,4) unfolding h_def by blast
  show ?thesis
    using assms(3) open_ step(1) replay up payload parts(2) unfolding open_(2)
    by (simp add: decrypt_rtp_packet_def parts(3) C_def [symmetric] h_def [symmetric] decrypt_rtp_under_state_def Let_def st_def)
      (simp add: get_srtp_ssrc_state_def h_def)
qed

section \<open>Streams under protection\<close>

text \<open>The results of an operation on a sequence of inputs, and the state it leaves.\<close>

fun outputs :: "('s \<Rightarrow> 'a \<Rightarrow> 'b \<times> 's) \<Rightarrow> 's \<Rightarrow> 'a list \<Rightarrow> 'b list" where
  "outputs f s [] = []"
| "outputs f s (x # xs) = (let (y, s') = f s x in y # outputs f s' xs)"

definition state_after :: "('s \<Rightarrow> 'a \<Rightarrow> 'b \<times> 's) \<Rightarrow> 's \<Rightarrow> 'a list \<Rightarrow> 's" where
  "state_after f s xs = foldl (\<lambda>s x. snd (f s x)) s xs"

fun steady :: "nat option \<Rightarrow> nat list \<Rightarrow> bool" where
  "steady pos [] = True"
| "steady pos (j # js) = (reaches pos j \<and> steady (Some j) js)"

text \<open>Packet \<open>p\<close> of source \<open>ssrc\<close> has packet index \<open>j\<close>.\<close>

definition indexed :: "u32 \<Rightarrow> rtp_packet \<Rightarrow> nat \<Rightarrow> bool" where
  "indexed ssrc p j \<longleftrightarrow> rtp_header_wf (pkt_header p) \<and> rtp_ssrc (pkt_header p) = ssrc \<and>
     rtp_sequence_number (pkt_header p) = of_nat j"

lemma protect_all:
  assumes "cipher_ok (ctx_cipher ctx)" "list_all2 (indexed ssrc) ps js"
    and "at_index (get_srtp_ssrc_state ctx ssrc) pos" "steady pos js"
  shows "\<exists>bss. outputs encrypt_rtp_packet ctx ps = map Ok bss \<and> length bss = length ps \<and>
    (\<forall>n<length ps. sealed (ctx_cipher ctx) (js ! n) (ps ! n) (bss ! n))"
  using assms(2,1,3,4)
proof (induction ps js arbitrary: ctx pos rule: list_all2_induct)
  case Nil
  then show ?case by simp
next
  case (Cons p ps j js)
  obtain bs ctx' where step: "encrypt_rtp_packet ctx p = (Ok bs, ctx')" "sealed (ctx_cipher ctx) j p bs"
    "ctx_cipher ctx' = ctx_cipher ctx" "at_index (get_srtp_ssrc_state ctx' ssrc) (Some j)"
    using encrypt_step [of ctx p j pos] Cons by (auto simp: indexed_def)
  obtain bss where "outputs encrypt_rtp_packet ctx' ps = map Ok bss" "length bss = length ps"
    "\<forall>n<length ps. sealed (ctx_cipher ctx) (js ! n) (ps ! n) (bss ! n)"
    using Cons.IH [of ctx' "Some j"] Cons.prems step(3,4) by auto
  with step(1,2) show ?case by (intro exI [of _ "bs # bss"]) (auto simp: nth_Cons split: nat.splits)
qed

lemma unprotect_all:
  assumes "cipher_ok (ctx_cipher ctx)" "permissive (ctx_srtp_replay ctx)" "at_index (get_srtp_ssrc_state ctx ssrc) pos"
    and "\<forall>n\<in>set ns. indexed ssrc (ps ! n) (js ! n) \<and> sealed (ctx_cipher ctx) (js ! n) (ps ! n) (bss ! n)"
    and "steady pos (map ((!) js) ns)"
  shows "outputs decrypt_rtp_packet ctx (map ((!) bss) ns) = map (\<lambda>n. Ok (ps ! n)) ns"
  using assms
proof (induction ns arbitrary: ctx pos)
  case (Cons n ns)
  obtain ctx' where step: "decrypt_rtp_packet ctx (bss ! n) = (Ok (ps ! n), ctx')" "ctx_cipher ctx' = ctx_cipher ctx"
    "ctx_srtp_replay ctx' = ctx_srtp_replay ctx" "at_index (get_srtp_ssrc_state ctx' ssrc) (Some (js ! n))"
    using decrypt_step [of ctx "ps ! n" "js ! n" pos "bss ! n"] Cons.prems by (auto simp: indexed_def)
  with Cons.IH [of ctx' "Some (js ! n)"] Cons.prems show ?case by simp
qed simp

lemma at_index_fresh: "ctx_srtp_ssrc_states ctx ssrc = None \<Longrightarrow> at_index (get_srtp_ssrc_state ctx ssrc) None"
  by (simp add: get_srtp_ssrc_state_def at_index_def)

text \<open>The evidence that a source has sent a packet that the cipher authenticates.\<close>

definition authentic_rtp :: "srtp_cipher \<Rightarrow> u32 \<Rightarrow> u8 list \<Rightarrow> bool" where
  "authentic_rtp C ssrc bs \<longleftrightarrow> (\<exists>header buf roc plain. rtp_header_unmarshal bs = Ok (header, buf) \<and> rtp_ssrc header = ssrc \<and>
     decrypt_rtp_in_place C bs header roc = Ok plain)"

lemma decrypt_rtp_packet_sources:
  "ctx_cipher (snd (decrypt_rtp_packet ctx bs)) = ctx_cipher ctx"
  "ctx_srtp_ssrc_states (snd (decrypt_rtp_packet ctx bs)) ssrc \<noteq> None \<Longrightarrow>
    ctx_srtp_ssrc_states ctx ssrc \<noteq> None \<or> authentic_rtp (ctx_cipher ctx) ssrc bs"
  unfolding authentic_rtp_def
  by (auto simp: decrypt_rtp_packet_def decrypt_rtp_under_state_def Let_def split: sum.splits prod.splits if_splits) metis

text \<open>The same for control packets: the bytes name the source, and they authenticate under the index they carry.\<close>

definition authentic_rtcp :: "srtp_cipher \<Rightarrow> u32 \<Rightarrow> u8 list \<Rightarrow> bool" where
  "authentic_rtcp C ssrc bs \<longleftrightarrow> u32_at (drop 4 bs) = ssrc \<and> (\<exists>plain. cipher_decrypt_rtcp C bs (get_rtcp_index C bs) ssrc = Ok plain)"

lemma decrypt_rtcp_sources:
  "ctx_cipher (snd (decrypt_rtcp ctx bs)) = ctx_cipher ctx"
  "ctx_srtcp_ssrc_states (snd (decrypt_rtcp ctx bs)) ssrc \<noteq> None \<Longrightarrow>
    ctx_srtcp_ssrc_states ctx ssrc \<noteq> None \<or> authentic_rtcp (ctx_cipher ctx) ssrc bs"
  unfolding authentic_rtcp_def
  by (auto simp: decrypt_rtcp_def Let_def split: sum.splits prod.splits if_splits)

lemma sources_after:
  assumes "\<And>ctx x. cipher (snd (f ctx x)) = cipher ctx"
    and "\<And>ctx x. states (snd (f ctx x)) ssrc \<noteq> None \<Longrightarrow> states ctx ssrc \<noteq> None \<or> authentic (cipher ctx) ssrc x"
    and "states (state_after f ctx xs) ssrc \<noteq> None"
  shows "states ctx ssrc \<noteq> None \<or> (\<exists>x\<in>set xs. authentic (cipher ctx) ssrc x)"
  using assms(3) unfolding state_after_def
proof (induction xs arbitrary: ctx)
  case (Cons x xs)
  then show ?case using assms(1,2) [of ctx x] by (metis foldl_Cons list.set_intros)
qed simp

section \<open>Properties\<close>


text \<open>A cipher whose tag is the counter itself.\<close>

definition example_cipher :: srtp_cipher where
  "example_cipher = \<lparr>rtp_auth_tag_len = 4, rtcp_auth_tag_len = 4, aead_auth_tag_len = 0, get_rtcp_index = (\<lambda>_. 0),
     encrypt_rtp_in_place = (\<lambda>packet _ roc. Ok (packet @ put_u32 roc)),
     decrypt_rtp_in_place = (\<lambda>bs _ roc. if drop (length bs - 4) bs = put_u32 roc then Ok (take (length bs - 4) bs) else Err Other),
     cipher_encrypt_rtcp = (\<lambda>packet index _. Ok (packet @ put_u32 (of_nat index))),
     cipher_decrypt_rtcp = (\<lambda>bs _ _. Ok (take (length bs - 4) bs))\<rparr>"

definition example_context :: "srtp_cipher \<Rightarrow> unit srtp_context" where
  "example_context C = \<lparr>ctx_cipher = C, ctx_srtp_ssrc_states = (\<lambda>_. None), ctx_srtcp_ssrc_states = (\<lambda>_. None),
     ctx_srtp_replay = \<lparr>rd_new = (), rd_check = noop_check, rd_accept = noop_accept\<rparr>,
     ctx_srtcp_replay = \<lparr>rd_new = (), rd_check = noop_check, rd_accept = noop_accept\<rparr>\<rparr>"

definition example_rtp :: "u16 \<Rightarrow> rtp_packet" where
  "example_rtp seq = \<lparr>pkt_header = rtp_header_default\<lparr>rtp_version := 2, rtp_ssrc := 7, rtp_sequence_number := seq\<rparr>,
     pkt_payload = [1, 2, 3]\<rparr>"


text \<open>C34: packets that do not authenticate leave no state behind: after any sequence of datagrams, a context keeps
  state for a source only if it had it before or if the cipher has authenticated a packet of that source.\<close>

theorem forgeries_leave_no_source:
  shows "(ctx_srtp_ssrc_states (state_after decrypt_rtp_packet ctx packets) ssrc \<noteq> None \<longrightarrow>
      ctx_srtp_ssrc_states ctx ssrc \<noteq> None \<or> (\<exists>bs\<in>set packets. authentic_rtp (ctx_cipher ctx) ssrc bs)) \<and>
    (ctx_srtcp_ssrc_states (state_after decrypt_rtcp ctx packets) ssrc \<noteq> None \<longrightarrow>
      ctx_srtcp_ssrc_states ctx ssrc \<noteq> None \<or> (\<exists>bs\<in>set packets. authentic_rtcp (ctx_cipher ctx) ssrc bs))"
  using sources_after [of ctx_cipher decrypt_rtp_packet ctx_srtp_ssrc_states ssrc authentic_rtp ctx packets, OF decrypt_rtp_packet_sources]
    sources_after [of ctx_cipher decrypt_rtcp ctx_srtcp_ssrc_states ssrc authentic_rtcp ctx packets, OF decrypt_rtcp_sources] by blast

theorem forgeries_leave_no_source_witness:
  "ctx_srtp_ssrc_states (state_after decrypt_rtp_packet
     (example_context (example_cipher\<lparr>decrypt_rtp_in_place := \<lambda>_ _ _. Err Other\<rparr>)) [[128, 96, 0, 1, 0, 0, 0, 0, 0, 0, 0, 5, 1, 1, 1, 1]]) 5 = None"
  using forgeries_leave_no_source [of "example_context (example_cipher\<lparr>decrypt_rtp_in_place := \<lambda>_ _ _. Err Other\<rparr>)"
    "[[128, 96, 0, 1, 0, 0, 0, 0, 0, 0, 0, 5, 1, 1, 1, 1]]" 5]
  by (auto simp: example_context_def authentic_rtp_def)

end
