(* ===== verification/Signaling.thy ===== *)
theory Signaling
  imports Rtc_Prelude
begin

text \<open>
  Offer and answer: the signaling state machine of a peer connection
  (\<open>src/peer_connection/state/signaling_state.rs\<close>) and the procedure that applies a session description
  (\<open>set_description\<close> in \<open>src/peer_connection/internal.rs\<close>), with the update of the negotiation-needed flag
  that it ends with. The transition diagram of JSEP is an inductive relation; the theorems relate the code to it,
  show that the pending and current descriptions always fit the state, and that two peers agree.

  A session description is its type and its text; the field \<open>parsed\<close>, which \<open>set_description\<close> stores with them and
  does not read, is left out. The transceivers are of a type of their own. What a roll-back does to them, the clearing of their
  created-by-remote flag and the test for open negotiation are arguments.
\<close>

section \<open>Definitions\<close>

datatype sdp_type = SdpUnspecified | Offer | Pranswer | Answer | Rollback

datatype state_change_op = SetLocal | SetRemote

datatype signaling_state =
    SignalingUnspecified | Stable | HaveLocalOffer | HaveRemoteOffer | HaveLocalPranswer | HaveRemotePranswer | Closed

text \<open>The error's text, the only use of the display of the states, is left out.\<close>

definition check_next_signaling_state ::
  "signaling_state \<Rightarrow> signaling_state \<Rightarrow> state_change_op \<Rightarrow> sdp_type \<Rightarrow> signaling_state result" where
  "check_next_signaling_state cur nxt op sdp =
     (if sdp = Rollback \<and> cur = Stable then Err ErrSignalingStateCannotRollback
      else case cur of
        Stable \<Rightarrow>
          (case op of
             SetLocal \<Rightarrow> if sdp = Offer \<and> nxt = HaveLocalOffer then Ok nxt else Err ErrSignalingStateProposedTransitionInvalid
           | SetRemote \<Rightarrow> if sdp = Offer \<and> nxt = HaveRemoteOffer then Ok nxt else Err ErrSignalingStateProposedTransitionInvalid)
      | HaveLocalOffer \<Rightarrow>
          (if op = SetRemote then
             if sdp = Answer \<and> nxt = Stable then Ok nxt
             else if sdp = Pranswer \<and> nxt = HaveRemotePranswer then Ok nxt
             else Err ErrSignalingStateProposedTransitionInvalid
           else if op = SetLocal then
             if sdp = Offer \<and> nxt = HaveLocalOffer then Ok nxt
             else if sdp = Rollback \<and> nxt = Stable then Ok nxt
             else Err ErrSignalingStateProposedTransitionInvalid
           else Err ErrSignalingStateProposedTransitionInvalid)
      | HaveRemotePranswer \<Rightarrow>
          (if op = SetRemote \<and> sdp = Answer then
             if nxt = Stable then Ok nxt else Err ErrSignalingStateProposedTransitionInvalid
           else Err ErrSignalingStateProposedTransitionInvalid)
      | HaveRemoteOffer \<Rightarrow>
          (if op = SetLocal then
             if sdp = Answer \<and> nxt = Stable then Ok nxt
             else if sdp = Pranswer \<and> nxt = HaveLocalPranswer then Ok nxt
             else Err ErrSignalingStateProposedTransitionInvalid
           else if op = SetRemote \<and> sdp = Rollback \<and> nxt = Stable then Ok nxt
           else Err ErrSignalingStateProposedTransitionInvalid)
      | HaveLocalPranswer \<Rightarrow>
          (if op = SetLocal \<and> sdp = Answer then
             if nxt = Stable then Ok nxt else Err ErrSignalingStateProposedTransitionInvalid
           else Err ErrSignalingStateProposedTransitionInvalid)
      | _ \<Rightarrow> Err ErrSignalingStateProposedTransitionInvalid)"

record session_description =
  sd_type :: sdp_type
  sd_sdp :: string

datatype negotiation_needed_state = NeededEmpty | NeededRun | NeededQueue

datatype pc_event = OnSignalingStateChangeEvent signaling_state | OnNegotiationNeededEvent

record 't peer =
  pc_signaling_state :: signaling_state
  pc_closed :: bool
  pc_current_local :: "session_description option"
  pc_pending_local :: "session_description option"
  pc_current_remote :: "session_description option"
  pc_pending_remote :: "session_description option"
  pc_last_offer :: string
  pc_last_answer :: string
  pc_negotiation_needed_state :: negotiation_needed_state
  pc_is_negotiation_ongoing :: bool
  pc_rtp_transceivers :: "'t list"
  pc_event_outs :: "pc_event list"

subsection \<open>The negotiation-needed flag\<close>

definition do_negotiation_needed :: "'t peer \<Rightarrow> bool \<times> 't peer" where
  "do_negotiation_needed self =
     (if pc_negotiation_needed_state self = NeededRun then (False, self\<lparr>pc_negotiation_needed_state := NeededQueue\<rparr>)
      else if pc_negotiation_needed_state self = NeededQueue then (False, self)
      else (True, self\<lparr>pc_negotiation_needed_state := NeededRun\<rparr>))"

definition after_negotiation_needed_op :: "'t peer \<Rightarrow> bool \<times> 't peer" where
  "after_negotiation_needed_op self =
     (let old = pc_negotiation_needed_state self; self = self\<lparr>pc_negotiation_needed_state := NeededEmpty\<rparr> in
      if old = NeededQueue then do_negotiation_needed self else (False, self))"

definition negotiation_needed_op :: "('t peer \<Rightarrow> bool) \<Rightarrow> 't peer \<Rightarrow> bool \<times> 't peer" where
  "negotiation_needed_op check_negotiation_needed self =
     (if pc_closed self then (False, self)
      else if pc_signaling_state self \<noteq> Stable then after_negotiation_needed_op self
      else if \<not> check_negotiation_needed self then after_negotiation_needed_op (self\<lparr>pc_is_negotiation_ongoing := False\<rparr>)
      else if pc_is_negotiation_ongoing self then after_negotiation_needed_op self
      else after_negotiation_needed_op
        (self\<lparr>pc_is_negotiation_ongoing := True, pc_event_outs := pc_event_outs self @ [OnNegotiationNeededEvent]\<rparr>))"

definition trigger_negotiation_needed :: "('t peer \<Rightarrow> bool) \<Rightarrow> 't peer \<Rightarrow> 't peer" where
  "trigger_negotiation_needed check_negotiation_needed self =
     (let (run, self) = do_negotiation_needed self in
      if \<not> run then self else snd (negotiation_needed_op check_negotiation_needed self))"

subsection \<open>Applying a description\<close>

text \<open>The first half of \<open>set_description\<close>: the next state, and the descriptions it moves. The roll-back of the
  transceivers returns early when it fails, which is the error path of the second half.\<close>

definition propose_description ::
  "('t peer \<Rightarrow> unit result \<times> 't list) \<Rightarrow> 't peer \<Rightarrow> session_description \<Rightarrow> state_change_op \<Rightarrow>
   signaling_state result \<times> 't peer" where
  "propose_description rollback_transceivers self sd op =
     (let cur = pc_signaling_state self;
          accept = (\<lambda>nxt commit.
            case check_next_signaling_state cur nxt op (sd_type sd) of
              Inl e \<Rightarrow> (Err e, self)
            | Inr s \<Rightarrow> (Ok s, commit self));
          roll_back = (\<lambda>drop_pending.
            case check_next_signaling_state cur Stable op (sd_type sd) of
              Inl e \<Rightarrow> (Err e, self)
            | Inr s \<Rightarrow>
                let self = drop_pending self; (r, ts) = rollback_transceivers self; self = self\<lparr>pc_rtp_transceivers := ts\<rparr> in
                (case r of Inl e \<Rightarrow> (Err e, self) | Inr _ \<Rightarrow> (Ok s, self))) in
      case op of
        SetLocal \<Rightarrow>
          (case sd_type sd of
             Offer \<Rightarrow> if sd_sdp sd \<noteq> pc_last_offer self then (Err ErrSDPDoesNotMatchOffer, self)
               else accept HaveLocalOffer (\<lambda>self. self\<lparr>pc_pending_local := Some sd\<rparr>)
           | Answer \<Rightarrow> if sd_sdp sd \<noteq> pc_last_answer self then (Err ErrSDPDoesNotMatchAnswer, self)
               else accept Stable (\<lambda>self. self\<lparr>pc_pending_remote := None, pc_pending_local := None,
                 pc_current_local := Some sd, pc_current_remote := pc_pending_remote self\<rparr>)
           | Rollback \<Rightarrow> roll_back (\<lambda>self. self\<lparr>pc_pending_local := None\<rparr>)
           | Pranswer \<Rightarrow> if sd_sdp sd \<noteq> pc_last_answer self then (Err ErrSDPDoesNotMatchAnswer, self)
               else accept HaveLocalPranswer (\<lambda>self. self\<lparr>pc_pending_local := Some sd\<rparr>)
           | _ \<Rightarrow> (Err ErrPeerConnStateChangeInvalid, self))
      | SetRemote \<Rightarrow>
          (case sd_type sd of
             Offer \<Rightarrow> accept HaveRemoteOffer (\<lambda>self. self\<lparr>pc_pending_remote := Some sd\<rparr>)
           | Answer \<Rightarrow> accept Stable (\<lambda>self. self\<lparr>pc_pending_local := None, pc_pending_remote := None,
               pc_current_remote := Some sd, pc_current_local := pc_pending_local self\<rparr>)
           | Rollback \<Rightarrow> roll_back (\<lambda>self. self\<lparr>pc_pending_remote := None\<rparr>)
           | Pranswer \<Rightarrow> accept HaveRemotePranswer (\<lambda>self. self\<lparr>pc_pending_remote := Some sd\<rparr>)
           | _ \<Rightarrow> (Err ErrPeerConnStateChangeInvalid, self)))"

definition set_description ::
  "('t peer \<Rightarrow> unit result \<times> 't list) \<Rightarrow> ('t \<Rightarrow> 't) \<Rightarrow> ('t peer \<Rightarrow> bool) \<Rightarrow>
   't peer \<Rightarrow> session_description \<Rightarrow> state_change_op \<Rightarrow> unit result \<times> 't peer" where
  "set_description rollback_transceivers clear_created_by_remote check_negotiation_needed self sd op =
     (if sd_type sd = SdpUnspecified then (Err ErrPeerConnSDPTypeInvalidValue, self)
      else
        case propose_description rollback_transceivers self sd op of
          (Inl e, self) \<Rightarrow> (Err e, self)
        | (Inr next_state, self) \<Rightarrow>
            let self = self\<lparr>pc_signaling_state := next_state\<rparr>;
                reached_stable = (pc_signaling_state self = Stable);
                self = (if reached_stable then self\<lparr>pc_is_negotiation_ongoing := False,
                    pc_rtp_transceivers := map clear_created_by_remote (pc_rtp_transceivers self)\<rparr> else self);
                self = self\<lparr>pc_event_outs := pc_event_outs self @ [OnSignalingStateChangeEvent next_state]\<rparr>;
                self = (if reached_stable then trigger_negotiation_needed check_negotiation_needed self else self) in
            (Ok (), self))"


section \<open>What an operation does to the descriptions\<close>

text \<open>The part of a peer that the negotiation is about.\<close>

definition descriptions :: "'t peer \<Rightarrow> signaling_state \<times> session_description option \<times> session_description option \<times>
    session_description option \<times> session_description option" where
  "descriptions p = (pc_signaling_state p, pc_current_local p, pc_pending_local p, pc_current_remote p, pc_pending_remote p)"

lemma descriptions_update [simp]:
  "descriptions (p\<lparr>pc_negotiation_needed_state := a\<rparr>) = descriptions p" "descriptions (p\<lparr>pc_is_negotiation_ongoing := b\<rparr>) = descriptions p"
  "descriptions (p\<lparr>pc_event_outs := es\<rparr>) = descriptions p" "descriptions (p\<lparr>pc_rtp_transceivers := ts\<rparr>) = descriptions p"
  by (simp_all add: descriptions_def)

lemma after_negotiation_needed_descriptions [simp]: "descriptions (snd (after_negotiation_needed_op p)) = descriptions p"
  by (simp add: after_negotiation_needed_op_def do_negotiation_needed_def Let_def)

lemma negotiation_needed_descriptions [simp]: "descriptions (snd (negotiation_needed_op nn p)) = descriptions p"
  by (simp add: negotiation_needed_op_def)

lemma trigger_descriptions [simp]: "descriptions (trigger_negotiation_needed nn p) = descriptions p"
  by (simp add: trigger_negotiation_needed_def split_def) (simp add: do_negotiation_needed_def)

lemma set_description_descriptions:
  assumes "propose_description rb p sd op = (r, q)" "sd_type sd \<noteq> SdpUnspecified"
  shows "descriptions (snd (set_description rb cl nn p sd op)) =
      (case r of Inl e \<Rightarrow> descriptions q | Inr s \<Rightarrow> descriptions (q\<lparr>pc_signaling_state := s\<rparr>))"
    and "fst (set_description rb cl nn p sd op) = (case r of Inl e \<Rightarrow> Err e | Inr s \<Rightarrow> Ok ())"
  using assms by (auto simp: set_description_def Let_def split: sum.splits)

text \<open>The moves of the state machine.\<close>

inductive jsep :: "signaling_state \<Rightarrow> state_change_op \<Rightarrow> sdp_type \<Rightarrow> signaling_state \<Rightarrow> bool" where
  local_offer: "jsep Stable SetLocal Offer HaveLocalOffer"
| remote_offer: "jsep Stable SetRemote Offer HaveRemoteOffer"
| reoffer: "jsep HaveLocalOffer SetLocal Offer HaveLocalOffer"
| remote_pranswer: "jsep HaveLocalOffer SetRemote Pranswer HaveRemotePranswer"
| local_pranswer: "jsep HaveRemoteOffer SetLocal Pranswer HaveLocalPranswer"
| remote_answer: "s = HaveLocalOffer \<or> s = HaveRemotePranswer \<Longrightarrow> jsep s SetRemote Answer Stable"
| local_answer: "s = HaveRemoteOffer \<or> s = HaveLocalPranswer \<Longrightarrow> jsep s SetLocal Answer Stable"
| local_rollback: "jsep HaveLocalOffer SetLocal Rollback Stable"
| remote_rollback: "jsep HaveRemoteOffer SetRemote Rollback Stable"

code_pred (modes: i \<Rightarrow> i \<Rightarrow> i \<Rightarrow> i \<Rightarrow> bool) jsep .

inductive_cases jsepE: "jsep s op sdp s'"

lemma check_next_jsep: "check_next_signaling_state s s' op sdp = (if jsep s op sdp s' then Ok s'
    else if sdp = Rollback \<and> s = Stable then Err ErrSignalingStateCannotRollback
    else Err ErrSignalingStateProposedTransitionInvalid)"
  by (cases s; cases op; cases sdp; cases s') (auto simp: check_next_signaling_state_def jsep.simps)

text \<open>Where an operation leads, and how it moves the current and pending descriptions, when it is accepted.\<close>

type_synonym held = "session_description option \<times> session_description option \<times> session_description option \<times> session_description option"

fun target :: "state_change_op \<Rightarrow> sdp_type \<Rightarrow> signaling_state" where
  "target SetLocal Offer = HaveLocalOffer"
| "target SetLocal Pranswer = HaveLocalPranswer"
| "target SetRemote Offer = HaveRemoteOffer"
| "target SetRemote Pranswer = HaveRemotePranswer"
| "target _ _ = Stable"

fun moved :: "state_change_op \<Rightarrow> session_description \<Rightarrow> held \<Rightarrow> held" where
  "moved SetLocal sd (cl, pl, cr, pr) =
     (case sd_type sd of Answer \<Rightarrow> (Some sd, None, pr, None) | Rollback \<Rightarrow> (cl, None, cr, pr) | _ \<Rightarrow> (cl, Some sd, cr, pr))"
| "moved SetRemote sd (cl, pl, cr, pr) =
     (case sd_type sd of Answer \<Rightarrow> (pl, None, Some sd, None) | Rollback \<Rightarrow> (cl, pl, cr, None) | _ \<Rightarrow> (cl, pl, cr, Some sd))"

text \<open>A local description must be the one that was created last.\<close>

definition own_text :: "'t peer \<Rightarrow> session_description \<Rightarrow> state_change_op \<Rightarrow> bool" where
  "own_text p sd op \<longleftrightarrow> op = SetLocal \<longrightarrow>
     (sd_type sd = Offer \<longrightarrow> sd_sdp sd = pc_last_offer p) \<and>
     (sd_type sd = Answer \<or> sd_type sd = Pranswer \<longrightarrow> sd_sdp sd = pc_last_answer p)"

definition accepted :: "'t peer \<Rightarrow> session_description \<Rightarrow> state_change_op \<Rightarrow> bool" where
  "accepted p sd op \<longleftrightarrow> own_text p sd op \<and> jsep (pc_signaling_state p) op (sd_type sd) (target op (sd_type sd))"

lemma jsep_specified: "jsep s op sdp t \<Longrightarrow> sdp \<noteq> SdpUnspecified"
  by (auto elim: jsepE)

lemma propose_accepted:
  assumes "\<forall>p. fst (rb p) = Ok ()" "accepted p sd op"
  shows "\<exists>q. propose_description rb p sd op = (Ok (target op (sd_type sd)), q) \<and>
    descriptions q = (pc_signaling_state p, moved op sd (snd (descriptions p)))"
proof -
  have rb: "\<exists>ts. rb p = (Ok (), ts)" for p using assms(1) by (metis prod.collapse)
  show ?thesis
    using assms(2) rb [of "p\<lparr>pc_pending_local := None\<rparr>"] rb [of "p\<lparr>pc_pending_remote := None\<rparr>"] jsep_specified [of "pc_signaling_state p" op "sd_type sd"]
    by (cases op; cases "sd_type sd")
      (auto simp: propose_description_def accepted_def own_text_def check_next_jsep descriptions_def Let_def)
qed

lemma propose_refused:
  assumes "\<not> accepted p sd op" "sd_type sd \<noteq> SdpUnspecified"
  shows "\<exists>e. propose_description rb p sd op = (Err e, p)"
  using assms
  by (cases op; cases "sd_type sd")
    (auto simp: propose_description_def accepted_def own_text_def check_next_jsep Let_def)

lemma set_description_accepted:
  assumes "\<forall>p. fst (rb p) = Ok ()" "accepted p sd op"
  shows "fst (set_description rb cl nn p sd op) = Ok ()"
    and "descriptions (snd (set_description rb cl nn p sd op)) = (target op (sd_type sd), moved op sd (snd (descriptions p)))"
proof -
  obtain q where q: "propose_description rb p sd op = (Ok (target op (sd_type sd)), q)"
    "descriptions q = (pc_signaling_state p, moved op sd (snd (descriptions p)))" using propose_accepted [OF assms] by blast
  have "sd_type sd \<noteq> SdpUnspecified" using assms(2) jsep_specified by (auto simp: accepted_def)
  from set_description_descriptions [OF q(1) this, of cl nn] q(2)
  show "fst (set_description rb cl nn p sd op) = Ok ()"
    "descriptions (snd (set_description rb cl nn p sd op)) = (target op (sd_type sd), moved op sd (snd (descriptions p)))"
    by (simp_all add: descriptions_def)
qed

lemma set_description_refused:
  assumes "\<not> accepted p sd op"
  shows "\<exists>e. set_description rb cl nn p sd op = (Err e, p)"
  using propose_refused [OF assms, of rb] by (cases "sd_type sd = SdpUnspecified") (auto simp: set_description_def)

section \<open>States and descriptions fit\<close>

definition is_sdp :: "sdp_type \<Rightarrow> session_description option \<Rightarrow> bool" where
  "is_sdp t d \<longleftrightarrow> (\<exists>sd. d = Some sd \<and> sd_type sd = t)"

definition fitting :: "signaling_state \<times> held \<Rightarrow> bool" where
  "fitting = (\<lambda>(s, cl, pl, cr, pr).
     (cl = None \<and> cr = None \<or> is_sdp Offer cl \<and> is_sdp Answer cr \<or> is_sdp Answer cl \<and> is_sdp Offer cr) \<and>
     (case s of
        Stable \<Rightarrow> pl = None \<and> pr = None
      | HaveLocalOffer \<Rightarrow> is_sdp Offer pl \<and> pr = None
      | HaveRemoteOffer \<Rightarrow> pl = None \<and> is_sdp Offer pr
      | HaveLocalPranswer \<Rightarrow> is_sdp Pranswer pl \<and> is_sdp Offer pr
      | HaveRemotePranswer \<Rightarrow> is_sdp Offer pl \<and> is_sdp Pranswer pr
      | _ \<Rightarrow> True))"

lemma fitting_step:
  assumes "fitting (s, d)" "jsep s op (sd_type sd) (target op (sd_type sd))"
  shows "fitting (target op (sd_type sd), moved op sd d)"
proof -
  obtain cl pl cr pr where d: "d = (cl, pl, cr, pr)" by (cases d)
  from assms(2) show ?thesis
    by (cases rule: jsep.cases) (use assms(1) in \<open>auto simp: d fitting_def is_sdp_def\<close>)
qed

text \<open>A run of operations on one peer.\<close>

definition apply_all ::
  "('t peer \<Rightarrow> unit result \<times> 't list) \<Rightarrow> ('t \<Rightarrow> 't) \<Rightarrow> ('t peer \<Rightarrow> bool) \<Rightarrow> 't peer \<Rightarrow> (session_description \<times> state_change_op) list \<Rightarrow> 't peer" where
  "apply_all rb cl nn = foldl (\<lambda>p (sd, op). snd (set_description rb cl nn p sd op))"

lemma descriptions_state: "fst (descriptions p) = pc_signaling_state p"
  by (simp add: descriptions_def)

lemma set_description_fitting:
  assumes "\<forall>p. fst (rb p) = Ok ()" "fitting (descriptions p)"
  shows "fitting (descriptions (snd (set_description rb cl nn p sd op)))"
proof (cases "accepted p sd op")
  case True
  have "fitting (pc_signaling_state p, snd (descriptions p))" using assms(2) by (metis descriptions_state prod.collapse)
  then show ?thesis
    using fitting_step True set_description_accepted(2) [OF assms(1) True] by (simp add: accepted_def)
next
  case False
  then show ?thesis using set_description_refused [OF False, of rb cl nn] assms(2) by auto
qed

section \<open>Two peers\<close>

fun other :: "state_change_op \<Rightarrow> state_change_op" where
  "other SetLocal = SetRemote"
| "other SetRemote = SetLocal"

fun mirror :: "signaling_state \<Rightarrow> signaling_state" where
  "mirror HaveLocalOffer = HaveRemoteOffer"
| "mirror HaveRemoteOffer = HaveLocalOffer"
| "mirror HaveLocalPranswer = HaveRemotePranswer"
| "mirror HaveRemotePranswer = HaveLocalPranswer"
| "mirror s = s"

fun swapped :: "held \<Rightarrow> held" where
  "swapped (cl, pl, cr, pr) = (cr, pr, cl, pl)"

text \<open>What one peer calls local the other calls remote.\<close>

definition agree :: "'t peer \<Rightarrow> 't peer \<Rightarrow> bool" where
  "agree a b \<longleftrightarrow> descriptions b = (mirror (pc_signaling_state a), swapped (snd (descriptions a)))"

lemma mirror_mirror [simp]: "mirror (mirror s) = s" by (cases s) simp_all

lemma swapped_swapped [simp]: "swapped (swapped d) = d" by (cases d) simp

lemma agree_sym: "agree a b \<Longrightarrow> agree b a"
  by (simp add: agree_def) (metis descriptions_state fst_conv prod.collapse snd_conv mirror_mirror swapped_swapped)

lemma moved_swapped: "moved (other op) sd (swapped d) = swapped (moved op sd d)"
  by (cases d; cases op; cases "sd_type sd") simp_all

lemma target_other: "target (other op) t = mirror (target op t)"
  by (cases op; cases t) simp_all

text \<open>Every move but one is possible on both sides: a second offer on top of the first is only accepted locally.\<close>

lemma jsep_mirror:
  "jsep s SetLocal t s' \<Longrightarrow> \<not> (s = HaveLocalOffer \<and> t = Offer) \<Longrightarrow> jsep (mirror s) SetRemote t (mirror s')"
  by (auto elim!: jsepE intro: jsep.intros)

inductive exchange ::
  "('t peer \<Rightarrow> unit result \<times> 't list) \<Rightarrow> ('t \<Rightarrow> 't) \<Rightarrow> ('t peer \<Rightarrow> bool) \<Rightarrow> 't peer \<times> 't peer \<Rightarrow> 't peer \<times> 't peer \<Rightarrow> bool"
  for rb cl nn where
  forth: "set_description rb cl nn a sd SetLocal = (Ok (), a') \<Longrightarrow>
    \<not> (pc_signaling_state a = HaveLocalOffer \<and> sd_type sd = Offer) \<Longrightarrow>
    set_description rb cl nn b sd SetRemote = (r, b') \<Longrightarrow> exchange rb cl nn (a, b) (a', b')"
| reply: "set_description rb cl nn b sd SetLocal = (Ok (), b') \<Longrightarrow>
    \<not> (pc_signaling_state b = HaveLocalOffer \<and> sd_type sd = Offer) \<Longrightarrow>
    set_description rb cl nn a sd SetRemote = (r, a') \<Longrightarrow> exchange rb cl nn (a, b) (a', b')"

lemma agree_step:
  assumes "\<forall>p. fst (rb p) = Ok ()" "agree a b" "set_description rb cl nn a sd SetLocal = (Ok (), a')"
    and "\<not> (pc_signaling_state a = HaveLocalOffer \<and> sd_type sd = Offer)"
  shows "fst (set_description rb cl nn b sd SetRemote) = Ok () \<and> agree a' (snd (set_description rb cl nn b sd SetRemote))"
proof -
  have a: "accepted a sd SetLocal" using set_description_refused [of a sd SetLocal rb cl nn] assms(3) by auto
  have b: "pc_signaling_state b = mirror (pc_signaling_state a)" "snd (descriptions b) = swapped (snd (descriptions a))"
    using assms(2) by (simp_all add: agree_def flip: descriptions_state)
  have "accepted b sd SetRemote"
    using a jsep_mirror [OF _ assms(4)] target_other [of SetLocal "sd_type sd"] by (simp add: accepted_def own_text_def b(1))
  note results = set_description_accepted [OF assms(1) a, of cl nn] set_description_accepted [OF assms(1) this, of cl nn]
  have "pc_signaling_state a' = target SetLocal (sd_type sd)" "snd (descriptions a') = moved SetLocal sd (snd (descriptions a))"
    using results(2) assms(3) by (simp_all flip: descriptions_state)
  then show ?thesis
    using results(3,4) target_other [of SetLocal "sd_type sd"] moved_swapped [of SetLocal sd "snd (descriptions a)"]
    by (simp add: agree_def b(2))
qed

text \<open>The one asymmetry: a peer that waits for an answer may replace its offer, but the other peer refuses the new one.\<close>

lemma reoffer_refused:
  assumes "agree a b" "pc_signaling_state a = HaveLocalOffer" "sd_type sd = Offer"
  shows "set_description rb cl nn b sd SetRemote = (Err ErrSignalingStateProposedTransitionInvalid, b)"
proof -
  have "pc_signaling_state b = HaveRemoteOffer" using assms(1,2) by (simp add: agree_def flip: descriptions_state)
  then show ?thesis
    using assms(3) by (simp add: set_description_def propose_description_def check_next_signaling_state_def)
qed

definition new_peer :: "string \<Rightarrow> string \<Rightarrow> unit peer" where
  "new_peer last_offer last_answer = \<lparr>pc_signaling_state = Stable, pc_closed = False, pc_current_local = None, pc_pending_local = None,
     pc_current_remote = None, pc_pending_remote = None, pc_last_offer = last_offer, pc_last_answer = last_answer,
     pc_negotiation_needed_state = NeededEmpty, pc_is_negotiation_ongoing = False, pc_rtp_transceivers = [], pc_event_outs = []\<rparr>"

section \<open>Properties\<close>

text \<open>C35: the descriptions of a peer always fit its signaling state, along any run of local and remote descriptions,
  accepted or refused: nothing is pending in the stable state, an offer is pending on the side that made it, a
  provisional answer and its offer are pending together, and the current descriptions are an offer and an answer or
  both absent. The roll-back of the transceivers is assumed not to fail.\<close>

theorem descriptions_fit_state:
  assumes "\<forall>p. fst (rb p) = Ok ()" "fitting (descriptions p)"
  shows "fitting (descriptions (apply_all rb cl nn p ops))"
  using assms(2)
proof (induction ops arbitrary: p)
  case (Cons x ops)
  then show ?case using set_description_fitting [OF assms(1)] by (cases x) (simp add: apply_all_def)
qed (simp add: apply_all_def)

theorem descriptions_fit_state_witness:
  "fitting (descriptions (apply_all (\<lambda>p. (Ok (), [])) id (\<lambda>_. True) (new_peer ''o'' ''a'')
    [(\<lparr>sd_type = Offer, sd_sdp = ''r''\<rparr>, SetRemote), (\<lparr>sd_type = Pranswer, sd_sdp = ''a''\<rparr>, SetLocal)]))"
  by (rule descriptions_fit_state) (simp_all add: new_peer_def descriptions_def fitting_def)

text \<open>C36: two peers that exchange descriptions stay in agreement: whenever one applies a description of its own, the
  other accepts it, and then the states mirror each other and what is current or pending locally on one side is
  current or pending remotely on the other. This holds for every sequence of exchanges, in both directions, with
  provisional answers and roll-backs; only a second offer on top of a pending one is excluded.\<close>

theorem peers_agree:
  assumes "\<forall>p. fst (rb p) = Ok ()" "agree a b" "(exchange rb cl nn)\<^sup>*\<^sup>* (a, b) (a', b')"
  shows "agree a' b' \<and> (\<forall>sd a''. set_description rb cl nn a' sd SetLocal = (Ok (), a'') \<and>
    \<not> (pc_signaling_state a' = HaveLocalOffer \<and> sd_type sd = Offer) \<longrightarrow> fst (set_description rb cl nn b' sd SetRemote) = Ok ())"
proof -
  have "agree a' b'"
    using assms(3,2)
  proof (induction "(a', b')" arbitrary: a' b' rule: rtranclp_induct)
    case (step y)
    obtain a1 b1 where y: "y = (a1, b1)" by (cases y)
    then have "agree a1 b1" using step by simp
    from step(2) [unfolded y] show ?case
    proof (cases rule: exchange.cases)
      case (forth sd r)
      then show ?thesis using agree_step [OF assms(1) \<open>agree a1 b1\<close>, of cl nn sd a'] by simp
    next
      case (reply sd r)
      then show ?thesis using agree_step [OF assms(1) agree_sym [OF \<open>agree a1 b1\<close>], of cl nn sd b'] agree_sym [of b' a'] by simp
    qed
  qed simp
  then show ?thesis using agree_step [OF assms(1)] by blast
qed

theorem peers_agree_witness:
  "\<exists>a b. (exchange (\<lambda>p. (Ok (), [])) id (\<lambda>_. False))\<^sup>*\<^sup>* (new_peer ''offer'' '''', new_peer '''' ''answer'') (a, b) \<and> agree a b \<and>
    pc_current_local a = Some \<lparr>sd_type = Offer, sd_sdp = ''offer''\<rparr> \<and> pc_current_remote a = Some \<lparr>sd_type = Answer, sd_sdp = ''answer''\<rparr>"
proof -
  let ?set = "set_description (\<lambda>p. (Ok (), [])) id (\<lambda>_ :: unit peer. False)" and ?ex = "exchange (\<lambda>p. (Ok (), [])) id (\<lambda>_ :: unit peer. False)"
  define offer where "offer = \<lparr>sd_type = Offer, sd_sdp = ''offer''\<rparr>"
  define answer where "answer = \<lparr>sd_type = Answer, sd_sdp = ''answer''\<rparr>"
  define a b where "a = new_peer ''offer'' ''''" and "b = new_peer '''' ''answer''"
  define a1 where "a1 = a\<lparr>pc_signaling_state := HaveLocalOffer, pc_pending_local := Some offer,
    pc_event_outs := [OnSignalingStateChangeEvent HaveLocalOffer]\<rparr>"
  define b1 where "b1 = b\<lparr>pc_signaling_state := HaveRemoteOffer, pc_pending_remote := Some offer,
    pc_event_outs := [OnSignalingStateChangeEvent HaveRemoteOffer]\<rparr>"
  note defs = set_description_def propose_description_def check_next_signaling_state_def new_peer_def
    trigger_negotiation_needed_def do_negotiation_needed_def negotiation_needed_op_def after_negotiation_needed_op_def
  have one: "?set a offer SetLocal = (Ok (), a1)" "?set b offer SetRemote = (Ok (), b1)"
    by (simp_all add: defs offer_def a_def b_def a1_def b1_def)
  obtain b2 where b2: "?set b1 answer SetLocal = (Ok (), b2)" by (simp add: defs answer_def b_def b1_def)
  obtain a2 where a2: "?set a1 answer SetRemote = (Ok (), a2)" "pc_current_local a2 = Some offer" "pc_current_remote a2 = Some answer"
    by (simp add: defs answer_def a_def a1_def)
  have "?ex (a, b) (a1, b1)" by (rule forth [OF one(1) _ one(2)]) (simp add: a_def new_peer_def)
  moreover have "?ex (a1, b1) (a2, b2)" by (rule reply [OF b2 _ a2(1)]) (simp add: b1_def)
  ultimately have run: "?ex\<^sup>*\<^sup>* (a, b) (a2, b2)" by simp
  moreover have "agree a b" by (simp add: agree_def a_def b_def new_peer_def descriptions_def)
  ultimately have "agree a2 b2" using peers_agree [of "\<lambda>p. (Ok (), [])" a b id "\<lambda>_. False" a2 b2] by simp
  with run a2(2,3) show ?thesis unfolding a_def b_def offer_def answer_def by blast
qed
end
