(* ===== verification/Spec2Isabelle.thy ===== *)
theory Spec2Isabelle
  imports Rtp_Packetizer Nack_Repair Receive_Log_Bounds Remb_Value Interceptor_Chain Srtp_Context Signaling
begin

text \<open>
  The media path of a sans-I/O WebRTC stack: its packet formats, the repair and replay logic behind them, the
  interceptor chain they run in, the protection of packets, and the negotiation of a session.

  \<^bold>\<open>The program.\<close> No part of the stack does I/O or reads a clock. A component is fed with messages and instants
  (\<open>handle_read\<close>, \<open>handle_write\<close>, \<open>handle_timeout\<close>) and polled for its output. A datagram that arrives is sorted by
  the demultiplexer, unprotected by the SRTP context, decoded as RTP or RTCP and walked through the chain of
  interceptors to the application. A frame to be sent is cut by the packetizer, walked through the chain in the other
  direction, encoded and protected. The NACK interceptors of the chain request what the receive log misses and send
  again what the send buffer holds. The signaling state machine decides which session descriptions may be applied.

  \<^bold>\<open>Conventions.\<close> A Rust \<open>Result\<close> is a sum of an error and a value; a panic is the error \<open>Panic\<close>, so that a theorem on
  totality excludes it. Unsigned integers are words of their width, with arithmetic that wraps as in a release build;
  \<open>usize\<close> is a natural number, and an \<open>Instant\<close> counts nanoseconds. A decoder takes the bytes and returns the value
  with the bytes it has not read; an encoder is given the capacity of its buffer. An operation that may fail after it
  has changed its state returns the result together with the state. A hash map whose iteration order shows is an
  association list in that order.

  \<^bold>\<open>Theories and sources\<close> (paths below the root of the repository).

  \<^item> \<open>Rtc_Prelude\<close>: errors, results, byte access and the lemmas on lists and words that all theories share.
    \<open>Wire_Codec\<close>: \<open>rtc-shared/src/marshal\<close>, with the contracts \<open>element_codec\<close>, \<open>packet_codec\<close>, \<open>stream_codec\<close> and
    \<open>robust_decoder\<close> that every packet type interprets.
  \<^item> RTP. \<open>Rtp_Header\<close>: \<open>rtc-rtp/src/header.rs\<close>. \<open>Rtp_Packet\<close>: \<open>packet/mod.rs\<close>, \<open>sequence.rs\<close>. \<open>Rtp_Extensions\<close>:
    \<open>extension/\<close>. \<open>Rtp_Codecs\<close>: \<open>codec/\<close> for G.7xx, SMPTE 336M, Opus and VP8, with the contract \<open>payloader\<close>.
    \<open>Rtp_Packetizer\<close>: \<open>packetizer/mod.rs\<close>. \<open>Shared_Time\<close>: \<open>rtc-shared/src/time.rs\<close>.
  \<^item> RTCP. \<open>Rtcp_Header\<close>: \<open>rtc-rtcp/src/header.rs\<close>, \<open>util.rs\<close>, with the contract \<open>rtcp_codec\<close>. \<open>Rtcp_Reports\<close>,
    \<open>Rtcp_Sdes\<close>, \<open>Rtcp_Feedback\<close>, \<open>Rtcp_Transport_Cc\<close>, \<open>Rtcp_Ccfb\<close>, \<open>Rtcp_Remb\<close>, \<open>Rtcp_Xr\<close>: the packet types. \<open>Remb_Value\<close>: what
    a bitrate becomes on the wire, as a real number.
    \<open>Rtcp_Packet\<close>: the dispatcher \<open>packet.rs\<close>, raw and compound packets.
  \<^item> Replay protection. \<open>Fixed_Big_Int\<close>: \<open>rtc-shared/src/replay_detector/fixed_big_int\<close>, refining a set of positions.
    \<open>Replay_Detector\<close>: \<open>replay_detector/mod.rs\<close>, both detectors under one contract. \<open>Srtp_Context\<close>:
    \<open>rtc-srtp/src/context\<close>.
  \<^item> Repair. \<open>Bitmap\<close>: \<open>rtc-interceptor/src/bitmap.rs\<close>. \<open>Nack_Receive_Log\<close>, \<open>Nack_Send_Buffer\<close>, \<open>Nack_Interceptors\<close>:
    \<open>nack/receive_log.rs\<close>, \<open>send_buffer.rs\<close>, \<open>generator.rs\<close> and \<open>responder.rs\<close>. \<open>Nack_Repair\<close> follows one round of
    feedback between the two interceptors and has no definitions from the source. \<open>Receive_Log_Bounds\<close> writes the
    operations of the log and its bitmap again with every index into the words checked, an index out of range being
    \<open>None\<close>, as it would be a panic.
  \<^item> Composition. \<open>Interceptor_Chain\<close>: \<open>chain.rs\<close>, \<open>noop.rs\<close> and \<open>registry.rs\<close>. \<open>Demuxer\<close>:
    \<open>src/peer_connection/handler/demuxer.rs\<close>.
  \<^item> Negotiation. \<open>Signaling\<close>: \<open>src/peer_connection/state/signaling_state.rs\<close> and \<open>set_description\<close> of
    \<open>src/peer_connection/internal.rs\<close>.

  \<^bold>\<open>What the theorems show.\<close>

  \<^item> Formats: what a well-formed value encodes to is decoded to the same value, for each packet type, for a datagram of
    several RTCP packets and for a compound packet, a REMB bitrate being rounded down to the format; no bytes make a decoder panic; operations on header extensions keep
    the counts that encoding relies on; the bulk path of a decoder agrees with the word by word path.
  \<^item> Packetizing: the packets of a VP8 frame carry consecutive numbers, keep to the mtu but for the
    absolute send time, and give back the frame.
  \<^item> Replay and protection: a detector accepts exactly the new numbers inside its window, for the sizes at most 32
    above a multiple of 64; a stream with lost, repeated and reordered packets is unprotected by the peer; forged
    packets create no state.
  \<^item> Repair: the receive log is the set of numbers received in its window and never indexes outside its words; the
    send buffer holds what was sent last and drops it in time; the theorem below joins them over the wire: one round of feedback leaves no gap.
  \<^item> Composition: a chain of interceptors meets the contract \<open>stage\<close> of a single one, so it loses, repeats and reorders
    nothing; the registry fixes its order; what the encoders write is sorted correctly.
  \<^item> Negotiation: descriptions fit the state, and two peers that exchange them agree.
  \<^item> Behaviour that differs from what the code means to do is stated as a theorem too: stale VP8 flags, replays that
    pass a window whose size is more than 32 above a multiple of 64, a late packet that hides a loss.

  \<^bold>\<open>Loops and bounds.\<close> Loops are recursive functions with a termination proof; no function has fuel. Three loops
  need not end for every argument and are partial functions where not ending is \<open>None\<close>: the two normalisation loops of
  \<open>Rtcp_Remb\<close>, which are proved to return, and the polling loop of a chain, which returns for every interceptor that
  meets the contract \<open>stage\<close>. The hypotheses of the theorems have these bounds. A receive log has fewer than \<open>2 ^ 15\<close>
  entries, because a larger one cannot tell old from new. At most 253 packets are lost in a round, as many pairs as one
  NACK packet can encode. The index of a protected stream moves by less than \<open>2 ^ 15\<close> between packets, the distance at
  which the roll-over counter can be guessed.

  \<^bold>\<open>Parameters.\<close> Code outside the repository is an argument: the chunks of a \<open>bytes::Buf\<close>, the clock, random numbers, and
  the provided methods of \<open>sansio::Protocol\<close>. Two parts of the repository are arguments too: the cipher of an SRTP
  context with what it promises, because the implementations in \<open>rtc-srtp/src/cipher\<close> are calls of cryptographic
  libraries, and what \<open>set_description\<close> does to the transceivers.

  \<^bold>\<open>Not modelled.\<close> The ciphers, key derivation and DTLS rest on cryptographic libraries. ICE, STUN, TURN, multicast DNS,
  SCTP and data channels carry or establish other traffic than media and are not covered, nor is the text format of
  session descriptions, which the signaling model treats as opaque. Of the payload formats, H.264, H.265, VP9 and AV1 are
  left out; of the interceptors, those for reports, transport-wide feedback, RFC 8888, congestion control, pacing,
  forward error correction, periodic picture loss indications and the jitter buffer. The bandwidth estimators and the
  pacer compute in floating point towards statistical goals. Readers and writers of media files, statistics,
  configuration, logging, text output (\<open>Display\<close>) and the examples are outside the development.
\<close>

section \<open>Properties that span components\<close>

text \<open>C1: one round of negative acknowledgements repairs a stream. A sender whose responder is bound to the stream
  sends packets with consecutive numbers; some of them reach a receiver whose generator is bound to it, in any
  order and with duplicates. When the timer of the generator has expired, what it queues goes to the sender as a
  datagram, what the responder queues for it goes back as datagrams, and then no number is missing any more
  and every packet from the first that had arrived to the highest has been handed to the receiver's application.
  At most 253 packets may be lost, the number of pairs one request carries. The stream has no separate source for
  retransmissions, the sender keeps its packets without an age limit, and the packets of the round fit the window of
  the receive log, which has fewer than \<open>2 ^ 15\<close> numbers, and the history of the sender, by number and by bytes.\<close>

theorem nack_round_repairs:
  fixes sender :: "'c nack_responder" and receiver :: "'c nack_generator"
  assumes bound: "stream_supports_nack info" "si_ssrc_rtx info = None"
      "send_buffer_with_limits hist limits = Some B" "receive_log_new sz = Some L"
    and sizes: "sz < UINT16_SIZE_HALF" "length ps \<le> unat sz" "length ps \<le> unat hist" "max_age limits = None"
      "sum_list (map (\<lambda>p. length (pkt_payload p)) ps) \<le> max_bytes limits"
    and stream: "\<forall>i<length ps. rtp_sequence_number (pkt_header (ps ! i)) = wire s0 i"
      "\<forall>p\<in>set ps. media_packet p \<and> rtp_ssrc (pkt_header p) = si_ssrc info"
    and sent: "map msg_packet out = map Rtp ps"
      "sender = foldl nr_handle_write (nr_bind_local_stream (nack_responder_new hist limits) info) out"
    and arrived: "map msg_packet inp = map (\<lambda>i. Rtp (ps ! i)) (k # ks)" "set (k # ks) \<subseteq> {..<length ps}"
      "receiver = foldl ng_handle_read (ng_bind_remote_stream (nack_generator_new sz interval 0 max_nacks own_ssrc) info) inp"
    and round: "card (gaps (k # ks)) \<le> 253" "ng_poll_timeout receiver = Some t" "t \<le> now"
      "repaired = nack_round chunk_len now t1 t2 sender receiver"
  shows "(\<exists>log. ng_receive_logs repaired = [(si_ssrc info, log)] \<and> missing_seq_numbers log 0 = []) \<and>
    (\<forall>i. k \<le> i \<and> i \<le> Max (set (k # ks)) \<longrightarrow> Rtp (ps ! i) \<in> msg_packet ` set (ng_read_queue repaired))"
proof -
  let ?ssrc = "si_ssrc info" and ?log = "foldl receive_log_add L (map (wire s0) (k # ks))"
  have in_bounds: "k < length ps" "set ks \<subseteq> {..<length ps}" "\<forall>p\<in>set ps. rtp_ssrc (pkt_header p) = ?ssrc"
    using arrived(2) stream(2) by auto
  note asks = receiver_asks [OF bound(1,4) sizes(1,2) stream(1) in_bounds(3) arrived round(2,3)]
  define asking where "asking = ng_handle_timeout receiver now"
  define answer where "answer = List.map_filter (carry chunk_len t2) (drop (length (nr_write_queue sender)) (nr_write_queue
    (foldl nr_handle_read sender (List.map_filter (carry chunk_len t1) (ng_write_queue asking)))))"
  have repaired: "repaired = foldl ng_handle_read asking answer"
    by (simp add: round(4) nack_round_def answer_def asking_def Let_def)
  have G: "gaps (k # ks) \<subseteq> {..<length ps}" using gaps_bound [OF arrived(2)] by simp
  have few: "length (missing_seq_numbers ?log 0) \<le> 253" using asks(5) round(1) by linarith
  have short: "length ps \<le> 2 ^ 16" using sizes(2) unat_bounds(2) [of sz] by simp
  from sender_answers [OF bound(1-3) sizes(3-5) stream sent asks(4) few G short, of chunk_len t2 t1 receiver now]
  obtain js where js: "set js = gaps (k # ks)" "map msg_packet answer = map Rtp (map ((!) ps) js)"
    unfolding answer_def asking_def asks(1) by (auto simp: comp_def)
  have js_bound: "set js \<subseteq> {..<length ps}" using js(1) G by simp
  then have seqs: "map (\<lambda>p. rtp_sequence_number (pkt_header p)) (map ((!) ps) js) = map (wire s0) js" using stream(1) by auto
  from js_bound have "\<forall>p\<in>set (map ((!) ps) js). rtp_ssrc (pkt_header p) = ?ssrc" using stream(2) by auto
  from ng_handle_reads [OF js(2) this, of asking] obtain t'' where
    final: "repaired = asking\<lparr>ng_next_timeout := t'', ng_read_queue := inp @ answer,
      ng_receive_logs := [(?ssrc, foldl receive_log_add ?log (map (wire s0) js))]\<rparr>"
    unfolding repaired seqs asking_def asks(2,3) by blast
  have "missing_seq_numbers (foldl receive_log_add ?log (map (wire s0) js)) 0 = []"
    using missing_filled [OF bound(4) sizes(2,1) in_bounds(1,2) js(1)] by simp
  moreover have "Rtp (ps ! i) \<in> msg_packet ` set (inp @ answer)" if "k \<le> i" "i \<le> Max (set (k # ks))" for i
  proof -
    have "set (map msg_packet (inp @ answer)) = (\<lambda>i. Rtp (ps ! i)) ` (set (k # ks) \<union> set js)"
      using arrived(1) js(2) by (simp add: image_Un image_image comp_def flip: set_map)
    then show ?thesis using first_to_highest [OF js(1) that] by auto
  qed
  ultimately show ?thesis by (simp add: final)
qed


definition example_stream :: stream_info where
  "example_stream = \<lparr>si_ssrc = 7, si_ssrc_rtx = None, si_ssrc_fec = None, si_payload_type = 96, si_payload_type_rtx = None,
     si_payload_type_fec = None, si_rtp_header_extensions = [], si_mime_type = ''video/VP8'', si_clock_rate = 90000,
     si_channels = 0, si_sdp_fmtp_line = [], si_rtcp_feedback = [\<lparr>fb_typ = ''nack'', fb_parameter = []\<rparr>]\<rparr>"

definition example_media :: "u16 \<Rightarrow> rtp_packet" where
  "example_media seq = \<lparr>pkt_header = rtp_header_default\<lparr>rtp_version := 2, rtp_payload_type := 96, rtp_ssrc := 7,
     rtp_sequence_number := seq\<rparr>, pkt_payload = [1, 2, 3]\<rparr>"

definition example_message :: "rtp_packet \<Rightarrow> unit tagged_packet" where
  "example_message p = \<lparr>msg_now = 0, msg_transport = transport_context_default, msg_attributes = [], msg_packet = Rtp p\<rparr>"

theorem nack_round_repairs_witness:
  "let ps = map example_media [0xFFFE, 0xFFFF, 0, 1];
       sender = foldl nr_handle_write (nr_bind_local_stream (nack_responder_new 8 UNLIMITED) example_stream) (map example_message ps);
       receiver = foldl ng_handle_read (ng_bind_remote_stream (nack_generator_new 64 100 0 0 1) example_stream)
         [example_message (ps ! 0), example_message (ps ! 3)];
       repaired = nack_round length 100 200 300 sender receiver in
   (\<exists>log. ng_receive_logs repaired = [(7, log)] \<and> missing_seq_numbers log 0 = []) \<and>
   Rtp (example_media 0xFFFF) \<in> msg_packet ` set (ng_read_queue repaired) \<and>
   Rtp (example_media 0) \<in> msg_packet ` set (ng_read_queue repaired)"
proof -
  obtain B where B: "send_buffer_with_limits 8 UNLIMITED = Some B" by (simp add: send_buffer_with_limits_def upt_rec)
  obtain L where L: "receive_log_new 64 = Some L" by (simp add: receive_log_new_def)
  define ps where "ps = map example_media [0xFFFE, 0xFFFF, 0, 1]"
  define sender where "sender = foldl nr_handle_write (nr_bind_local_stream (nack_responder_new 8 UNLIMITED) example_stream) (map example_message ps)"
  define inp where "inp = [example_message (ps ! 0), example_message (ps ! 3)]"
  define receiver where "receiver = foldl ng_handle_read (ng_bind_remote_stream (nack_generator_new 64 100 0 0 1) example_stream) inp"
  have info: "stream_supports_nack example_stream" "si_ssrc_rtx example_stream = None" "si_ssrc example_stream = 7"
    by (simp_all add: stream_supports_nack_def example_stream_def)
  have sizes: "(64 :: u16) < UINT16_SIZE_HALF" "length ps \<le> unat (64 :: u16)" "length ps \<le> unat (8 :: u16)"
    "max_age UNLIMITED = None" "sum_list (map (\<lambda>p. length (pkt_payload p)) ps) \<le> max_bytes UNLIMITED"
    by (simp_all add: UINT16_SIZE_HALF_def ps_def UNLIMITED_def example_media_def)
  have seqs: "\<forall>i<length ps. rtp_sequence_number (pkt_header (ps ! i)) = wire 0xFFFE i"
    by (auto simp: ps_def example_media_def wire_def less_Suc_eq)
  have media: "\<forall>p\<in>set ps. media_packet p \<and> rtp_ssrc (pkt_header p) = si_ssrc example_stream"
    by (auto simp: ps_def example_media_def media_packet_def rtp_header_wf_def rtp_header_default_def info(3))
  have msgs: "map msg_packet (map example_message ps) = map Rtp ps" "map msg_packet inp = map (\<lambda>i. Rtp (ps ! i)) [0, 3]"
    "set [0, 3] \<subseteq> {..<length ps}" by (simp_all add: example_message_def inp_def ps_def)
  have "gaps [0, 3] \<subseteq> {1, 2}" by (auto simp: gaps_def)
  then have few: "card (gaps [0, 3]) \<le> 253" using card_mono [of "{1, 2 :: nat}" "gaps [0, 3]"] by simp
  have due: "ng_poll_timeout receiver = Some 100"
    unfolding receiver_def bound_receiver [OF info(1) L] inp_def
    by (simp add: ng_poll_timeout_def ng_handle_read_def nack_generator_new_def example_message_def ps_def example_media_def info(3))
  note repaired = nack_round_repairs [OF info(1,2) B L sizes seqs media msgs(1) sender_def msgs(2,3) receiver_def few due order_refl refl,
    of length 200 300]
  from repaired [THEN conjunct2, rule_format, of 1] repaired [THEN conjunct2, rule_format, of 2] repaired [THEN conjunct1]
  show ?thesis unfolding Let_def sender_def receiver_def inp_def ps_def by (simp add: info(3))
qed
end
